(* ===== verification/Prelude.thy ===== *)
theory Prelude
  imports Main "HOL-Library.Word"
begin

text \<open>
  Shared ground of the development: the widths of the machine integers, the collections of
  hints the component theories fill, and the model of \<open>std::map\<close>.

  A \<open>std::map\<close> is modelled by the sequence an iteration over it visits, an association list
  whose keys are strictly ordered by the comparator. The operations are parameterised by the
  comparator \<open>lt\<close> and use nothing else of the keys (two keys are the same entry when neither
  precedes the other), as the C++ container does. The locale \<open>ordered_keys\<close> states what the
  clients need of a comparator, on the keys for which \<open>ok\<close> holds.
\<close>

named_theorems inv_intros \<open>introduction rules for the invariants of the components\<close>
named_theorems frame_simps \<open>fields that an operation leaves alone\<close>

type_synonym u8 = "8 word"
type_synonym u16 = "16 word"
type_synonym u32 = "32 word"
type_synonym u64 = "64 word"

section \<open>Ordered maps\<close>

fun om_find :: "('k \<Rightarrow> 'k \<Rightarrow> bool) \<Rightarrow> 'k \<Rightarrow> ('k \<times> 'v) list \<Rightarrow> 'v option" where
  "om_find lt k [] = None"
| "om_find lt k ((a, b) # m) =
     (if lt k a then None else if lt a k then om_find lt k m else Some b)"

text \<open>\<open>m[k] = v\<close>: overwrites the entry of \<open>k\<close> or inserts one.\<close>

fun om_put :: "('k \<Rightarrow> 'k \<Rightarrow> bool) \<Rightarrow> 'k \<Rightarrow> 'v \<Rightarrow> ('k \<times> 'v) list \<Rightarrow> ('k \<times> 'v) list" where
  "om_put lt k v [] = [(k, v)]"
| "om_put lt k v ((a, b) # m) =
     (if lt k a then (k, v) # (a, b) # m
      else if lt a k then (a, b) # om_put lt k v m else (a, v) # m)"

text \<open>\<open>m.try_emplace(k, v)\<close>: inserts only when the key is absent.\<close>

fun om_try_emplace :: "('k \<Rightarrow> 'k \<Rightarrow> bool) \<Rightarrow> 'k \<Rightarrow> 'v \<Rightarrow> ('k \<times> 'v) list \<Rightarrow> ('k \<times> 'v) list" where
  "om_try_emplace lt k v [] = [(k, v)]"
| "om_try_emplace lt k v ((a, b) # m) =
     (if lt k a then (k, v) # (a, b) # m
      else if lt a k then (a, b) # om_try_emplace lt k v m else (a, b) # m)"

fun om_erase :: "('k \<Rightarrow> 'k \<Rightarrow> bool) \<Rightarrow> 'k \<Rightarrow> ('k \<times> 'v) list \<Rightarrow> ('k \<times> 'v) list" where
  "om_erase lt k [] = []"
| "om_erase lt k ((a, b) # m) =
     (if lt k a then (a, b) # m
      else if lt a k then (a, b) # om_erase lt k m else m)"

definition om_contains :: "('k \<Rightarrow> 'k \<Rightarrow> bool) \<Rightarrow> 'k \<Rightarrow> ('k \<times> 'v) list \<Rightarrow> bool" where
  "om_contains lt k m \<longleftrightarrow> om_find lt k m \<noteq> None"

definition om_keys :: "('k \<times> 'v) list \<Rightarrow> 'k set" where
  "om_keys m = fst ` set m"

definition om_ordered :: "('k \<Rightarrow> 'k \<Rightarrow> bool) \<Rightarrow> ('k \<times> 'v) list \<Rightarrow> bool" where
  "om_ordered lt m \<longleftrightarrow> sorted_wrt lt (map fst m)"

lemma om_keys_simps [simp]:
  "om_keys [] = {}"
  "om_keys (x # m) = insert (fst x) (om_keys m)"
  "om_keys (m @ n) = om_keys m \<union> om_keys n"
  by (auto simp: om_keys_def)

lemma om_ordered_simps [simp]:
  "om_ordered lt []"
  "om_ordered lt (x # m) \<longleftrightarrow> (\<forall>k \<in> om_keys m. lt (fst x) k) \<and> om_ordered lt m"
  "om_ordered lt (m @ n) \<longleftrightarrow>
     om_ordered lt m \<and> om_ordered lt n \<and> (\<forall>a \<in> om_keys m. \<forall>b \<in> om_keys n. lt a b)"
  by (auto simp: om_ordered_def om_keys_def sorted_wrt_append)

lemma om_keys_finite [simp]: "finite (om_keys m)"
  by (simp add: om_keys_def)

lemma map_of_None_keys: "map_of m k = None \<longleftrightarrow> k \<notin> om_keys m"
  by (simp add: om_keys_def map_of_eq_None_iff)

locale ordered_keys =
  fixes lt :: "'k \<Rightarrow> 'k \<Rightarrow> bool"
    and ok :: "'k \<Rightarrow> bool"
  assumes irrefl: "ok a \<Longrightarrow> \<not> lt a a"
    and trans: "ok a \<Longrightarrow> ok b \<Longrightarrow> ok c \<Longrightarrow> lt a b \<Longrightarrow> lt b c \<Longrightarrow> lt a c"
    and total: "ok a \<Longrightarrow> ok b \<Longrightarrow> lt a b \<or> a = b \<or> lt b a"
begin

lemma asym: "ok a \<Longrightarrow> ok b \<Longrightarrow> lt a b \<Longrightarrow> \<not> lt b a"
  using irrefl trans by blast

lemma key_cases:
  assumes "ok a" and "ok k"
  obtains (before) "lt k a" and "\<not> lt a k" and "k \<noteq> a" and "a \<noteq> k"
    | (same) "a = k" and "\<not> lt k k"
    | (after) "lt a k" and "\<not> lt k a" and "k \<noteq> a" and "a \<noteq> k"
  using assms total [of a k] asym irrefl by metis

lemma notin_before:
  assumes "om_ordered lt (x # m)" and "\<forall>y \<in> om_keys (x # m). ok y" and "ok k"
    and "lt k (fst x) \<or> k = fst x"
  shows "k \<notin> om_keys m"
proof
  assume "k \<in> om_keys m"
  with assms have "lt (fst x) k" "ok (fst x)" by auto
  with assms(3,4) show False using asym irrefl by blast
qed

lemma ordered_distinct: "om_ordered lt m \<Longrightarrow> \<forall>y \<in> om_keys m. ok y \<Longrightarrow> distinct (map fst m)"
proof (induction m)
  case (Cons x m)
  then have "fst x \<notin> om_keys m" by (intro notin_before) auto
  with Cons show ?case by (simp add: om_keys_def)
qed simp

lemma find_eq_map_of:
  "om_ordered lt m \<Longrightarrow> \<forall>y \<in> om_keys m. ok y \<Longrightarrow> ok k \<Longrightarrow> om_find lt k m = map_of m k"
proof (induction m)
  case (Cons x m)
  obtain a b where x: "x = (a, b)" by (cases x)
  with Cons.prems have "ok a" "ok k" by simp_all
  then show ?case
  proof (cases rule: key_cases)
    case before
    with Cons.prems x have "map_of m k = None"
      by (subst map_of_None_keys, intro notin_before [of x]) simp_all
    with before x show ?thesis by simp
  qed (use Cons x in simp_all)
qed simp

lemma contains_iff:
  "om_ordered lt m \<Longrightarrow> \<forall>y \<in> om_keys m. ok y \<Longrightarrow> ok k \<Longrightarrow> om_contains lt k m \<longleftrightarrow> k \<in> om_keys m"
  by (metis find_eq_map_of map_of_None_keys om_contains_def)

lemma keys_put: "\<forall>y \<in> om_keys m. ok y \<Longrightarrow> ok k \<Longrightarrow> om_keys (om_put lt k v m) = insert k (om_keys m)"
proof (induction m)
  case (Cons x m)
  obtain a b where x: "x = (a, b)" by (cases x)
  with Cons.prems have "ok a" "ok k" by simp_all
  then show ?case
    by (cases rule: key_cases) (use Cons x in \<open>simp_all add: insert_commute\<close>)
qed simp

lemma ordered_put:
  "om_ordered lt m \<Longrightarrow> \<forall>y \<in> om_keys m. ok y \<Longrightarrow> ok k \<Longrightarrow> om_ordered lt (om_put lt k v m)"
proof (induction m)
  case (Cons x m)
  obtain a b where x: "x = (a, b)" by (cases x)
  with Cons.prems have ok: "ok a" "ok k" by simp_all
  from Cons.prems x have keys: "om_keys (om_put lt k v m) = insert k (om_keys m)"
    by (intro keys_put) simp_all
  from ok show ?case
  proof (cases rule: key_cases)
    case before
    with Cons.prems x show ?thesis using trans [of k a] by auto
  qed (use Cons x keys in auto)
qed simp

lemma map_of_put:
  "om_ordered lt m \<Longrightarrow> \<forall>y \<in> om_keys m. ok y \<Longrightarrow> ok k \<Longrightarrow>
   map_of (om_put lt k v m) = (map_of m)(k \<mapsto> v)"
proof (induction m)
  case (Cons x m)
  obtain a b where x: "x = (a, b)" by (cases x)
  with Cons.prems have "ok a" "ok k" by simp_all
  then show ?case
    by (cases rule: key_cases) (use Cons x in \<open>auto simp: fun_eq_iff\<close>)
qed auto

lemma keys_erase_subset: "om_keys (om_erase lt k m) \<subseteq> om_keys m"
  by (induction m) (auto split: if_splits)

lemma ordered_erase: "om_ordered lt m \<Longrightarrow> om_ordered lt (om_erase lt k m)"
proof (induction m)
  case (Cons x m)
  obtain a b where x: "x = (a, b)" by (cases x)
  with Cons show ?case using keys_erase_subset [of k m] by (simp, blast)
qed simp

lemma map_of_erase:
  "om_ordered lt m \<Longrightarrow> \<forall>y \<in> om_keys m. ok y \<Longrightarrow> ok k \<Longrightarrow>
   map_of (om_erase lt k m) = (map_of m)(k := None)"
proof (induction m)
  case (Cons x m)
  obtain a b where x: "x = (a, b)" by (cases x)
  with Cons.prems have ok: "ok a" "ok k" by simp_all
  have notin: "map_of m k = None" if "lt k a \<or> k = a"
    using Cons.prems x that by (subst map_of_None_keys, intro notin_before [of x]) simp_all
  from ok show ?case
    by (cases rule: key_cases) (use Cons x notin in \<open>auto simp: fun_eq_iff\<close>)
qed auto

lemma put_try_emplace:
  "ok k \<Longrightarrow> om_put lt k v (om_try_emplace lt k w m) = om_put lt k v m"
  by (induction m) (auto simp: irrefl)

lemma find_try_emplace:
  "ok k \<Longrightarrow> om_find lt k (om_try_emplace lt k w m) =
     Some (case om_find lt k m of None \<Rightarrow> w | Some v \<Rightarrow> v)"
  by (induction m) (auto simp: irrefl)

lemma in_set_iff:
  "om_ordered lt m \<Longrightarrow> \<forall>y \<in> om_keys m. ok y \<Longrightarrow> (k, v) \<in> set m \<longleftrightarrow> map_of m k = Some v"
  by (simp add: ordered_distinct)

lemma in_put:
  assumes "om_ordered lt m" and "\<forall>y \<in> om_keys m. ok y" and "ok k"
  shows "(a, b) \<in> set (om_put lt k v m) \<longleftrightarrow> (if a = k then b = v else (a, b) \<in> set m)"
proof -
  have "om_ordered lt (om_put lt k v m)" "\<forall>y \<in> om_keys (om_put lt k v m). ok y"
    using assms by (simp_all add: ordered_put keys_put)
  then show ?thesis
    using assms by (auto simp: in_set_iff map_of_put)
qed

lemma in_erase:
  assumes "om_ordered lt m" and "\<forall>y \<in> om_keys m. ok y" and "ok k"
  shows "(a, b) \<in> set (om_erase lt k m) \<longleftrightarrow> a \<noteq> k \<and> (a, b) \<in> set m"
proof -
  have "om_ordered lt (om_erase lt k m)" "\<forall>y \<in> om_keys (om_erase lt k m). ok y"
    using assms keys_erase_subset [of k m] by (auto simp: ordered_erase)
  then show ?thesis
    using assms by (auto simp: in_set_iff map_of_erase)
qed

lemma keys_erase:
  assumes "om_ordered lt m" and "\<forall>y \<in> om_keys m. ok y" and "ok k"
  shows "om_keys (om_erase lt k m) = om_keys m - {k}"
  using in_erase [OF assms] unfolding om_keys_def by (auto simp: image_iff)

text \<open>Where an entry sits: the forms the proofs about a list of levels use.\<close>

lemma skip_prefix:
  assumes "om_ordered lt (xs @ (k, v) # ys)" and "\<forall>y \<in> om_keys (xs @ (k, v) # ys). ok y"
    and "(a, b) \<in> set xs"
  shows "lt a k" and "\<not> lt k a"
proof -
  from assms(3) have "a \<in> om_keys xs" by (force simp: om_keys_def)
  with assms(1,2) show "lt a k" and "\<not> lt k a" using asym [of a k] by auto
qed

lemma find_split:
  "om_ordered lt (xs @ (k, v) # ys) \<Longrightarrow> \<forall>y \<in> om_keys (xs @ (k, v) # ys). ok y \<Longrightarrow>
   om_find lt k (xs @ (k, v) # ys) = Some v"
proof (induction xs)
  case (Cons x xs)
  obtain a b where x: "x = (a, b)" by (cases x)
  with Cons show ?case using skip_prefix [OF Cons.prems, of a b] by simp
qed (simp add: irrefl)

lemma put_split:
  "om_ordered lt (xs @ (k, v) # ys) \<Longrightarrow> \<forall>y \<in> om_keys (xs @ (k, v) # ys). ok y \<Longrightarrow>
   om_put lt k w (xs @ (k, v) # ys) = xs @ (k, w) # ys"
proof (induction xs)
  case (Cons x xs)
  obtain a b where x: "x = (a, b)" by (cases x)
  with Cons show ?case using skip_prefix [OF Cons.prems, of a b] by simp
qed (simp add: irrefl)

lemma try_emplace_split:
  "om_ordered lt (xs @ (k, v) # ys) \<Longrightarrow> \<forall>y \<in> om_keys (xs @ (k, v) # ys). ok y \<Longrightarrow>
   om_try_emplace lt k w (xs @ (k, v) # ys) = xs @ (k, v) # ys"
proof (induction xs)
  case (Cons x xs)
  obtain a b where x: "x = (a, b)" by (cases x)
  with Cons show ?case using skip_prefix [OF Cons.prems, of a b] by simp
qed (simp add: irrefl)

lemma erase_split:
  "om_ordered lt (xs @ (k, v) # ys) \<Longrightarrow> \<forall>y \<in> om_keys (xs @ (k, v) # ys). ok y \<Longrightarrow>
   om_erase lt k (xs @ (k, v) # ys) = xs @ ys"
proof (induction xs)
  case (Cons x xs)
  obtain a b where x: "x = (a, b)" by (cases x)
  with Cons show ?case using skip_prefix [OF Cons.prems, of a b] by simp
qed (simp add: irrefl)

lemmas split_simps = find_split put_split try_emplace_split erase_split

lemma try_emplace_new_split:
  assumes "om_ordered lt m" and "\<forall>y \<in> om_keys m. ok y" and "ok k" and "k \<notin> om_keys m"
  obtains xs ys where "m = xs @ ys" and "om_try_emplace lt k v m = xs @ (k, v) # ys"
    and "\<forall>y \<in> om_keys xs. lt y k" and "\<forall>y \<in> om_keys ys. lt k y"
  using assms
proof (induction m arbitrary: thesis)
  case (Cons x m)
  obtain a b where x: "x = (a, b)" by (cases x)
  with Cons.prems have ok: "ok a" "ok k" by simp_all
  from ok show ?case
  proof (cases rule: key_cases)
    case before
    with Cons.prems(2-) x show ?thesis
      using trans [of k a] by (intro Cons.prems(1) [of "[]" "x # m"]) auto
  next
    case after
    obtain xs ys where "m = xs @ ys" "om_try_emplace lt k v m = xs @ (k, v) # ys"
      "\<forall>y \<in> om_keys xs. lt y k" "\<forall>y \<in> om_keys ys. lt k y"
      using Cons.IH Cons.prems(2-) by auto
    with after x show ?thesis by (intro Cons.prems(1) [of "x # xs" ys]) auto
  qed (use Cons.prems x in simp)
qed simp

end

section \<open>Words\<close>

lemma unat_u32: "unat (x :: u32) < 2 ^ 32"
  using unsigned_less [of x] by simp

lemma unat_ucast_u64 [simp]: "unat (ucast (x :: u32) :: u64) = unat x"
proof -
  have "unat x < 2 ^ 64" using unat_u32 [of x] by simp
  then show ?thesis by (simp add: unsigned_ucast_eq take_bit_nat_eq_self)
qed

section \<open>Lists\<close>

lemma map_of_split:
  "distinct (map fst m) \<Longrightarrow> map_of m k = Some v \<Longrightarrow> \<exists>xs ys. m = xs @ (k, v) # ys"
  by (meson map_of_SomeD split_list)

end
