(* ===== verification/Market_Types.thy ===== *)
theory Market_Types
  imports Prelude
begin

text \<open>
  The vocabulary of include/minimatch/types.hpp: identifiers, the enumerations and the request
  and event structs that the matching engine, the event log, the wire protocol and the risk
  engine exchange.

  Order ids, sequence numbers, client ids, symbols and quantities keep the width they have in
  the code, so that their arithmetic wraps as it does there. A \<open>Price\<close> is a
  \<open>std::int64_t\<close> on which the engine only ever compares, so it is an \<open>int\<close>; where its bits
  matter (hashing, the wire) the conversion to 64 bits is written out.
\<close>

type_synonym order_id = u64
type_synonym sequence_no = u64
type_synonym price = int
type_synonym quantity = u32
type_synonym client_id = u32
type_synonym symbol_id = u32

definition market_price :: price where
  "market_price = 0"

definition default_symbol :: symbol_id where
  "default_symbol = 1"

datatype side = Buy | Sell

datatype stp_policy = StpNone | CancelNewest | CancelOldest | CancelBoth

datatype order_type = Limit | Market | IOC | FOK | PostOnly

datatype reject_reason =
    RejNone | DuplicateOrderId | UnknownOrder | InvalidQuantity | InvalidPrice
  | CapacityExceeded | WouldTrade | InsufficientLiquidity | ClientMismatch
  | InvalidReplacement | TradingHalted | PriceBandViolation

datatype report_status =
    Accepted | PartiallyFilled | Filled | Cancelled | Replaced | Rejected | Expired

record order_request =
  rq_order_id :: order_id
  rq_client_id :: client_id
  rq_side :: side
  rq_type :: order_type
  rq_price :: price
  rq_quantity :: quantity
  rq_symbol :: symbol_id

record cancel_request =
  cx_order_id :: order_id
  cx_client_id :: client_id
  cx_symbol :: symbol_id

record replace_request =
  rp_order_id :: order_id
  rp_client_id :: client_id
  rp_new_price :: price
  rp_new_quantity :: quantity
  rp_symbol :: symbol_id

record trade =
  tr_sequence :: sequence_no
  tr_maker_order_id :: order_id
  tr_taker_order_id :: order_id
  tr_price :: price
  tr_quantity :: quantity
  tr_taker_side :: side
  tr_symbol :: symbol_id

record execution_report =
  er_sequence :: sequence_no
  er_order_id :: order_id
  er_status :: report_status
  er_remaining :: quantity
  er_reject_reason :: reject_reason
  er_symbol :: symbol_id

record depth_level =
  dl_price :: price
  dl_quantity :: quantity
  dl_order_count :: u32

fun side_to_string :: "side \<Rightarrow> string" where
  "side_to_string Buy = ''BUY''"
| "side_to_string Sell = ''SELL''"

text \<open>The numbers the enumerations carry, as \<open>static_cast\<close> reads them.\<close>

fun side_code :: "side \<Rightarrow> u8" where
  "side_code Buy = 0"
| "side_code Sell = 1"

fun order_type_code :: "order_type \<Rightarrow> u8" where
  "order_type_code Limit = 0"
| "order_type_code Market = 1"
| "order_type_code IOC = 2"
| "order_type_code FOK = 3"
| "order_type_code PostOnly = 4"

text \<open>The side an order trades against.\<close>

fun opposite :: "side \<Rightarrow> side" where
  "opposite Buy = Sell"
| "opposite Sell = Buy"

lemma opposite_opposite [simp]: "opposite (opposite s) = s"
  by (cases s) simp_all

lemma opposite_neq [simp]: "opposite s \<noteq> s" "s \<noteq> opposite s"
  by (cases s; simp)+

lemma side_code_inject [simp]: "side_code a = side_code b \<longleftrightarrow> a = b"
  by (cases a; cases b) simp_all

end
