(* ===== verification/Order_Book.thy ===== *)
theory Order_Book
  imports Market_Types
begin

text \<open>
  The limit order book of one symbol, include/minimatch/order_book.hpp and src/order_book.cpp,
  as the code has it: a vector of nodes, each in a doubly linked queue of its price level
  through 32-bit indices; a stack of free indices; a map from order ids to indices; and two
  ordered maps of price levels. Nothing here is abstract: a read of \<open>nodes_[idx]\<close> is
  \<open>nodes b ! unat idx\<close>, links are rewritten one by one, and the price levels keep their own
  totals. Book\_Refine shows that all of it implements queues of orders.

  The two callbacks receive trades and reports. The book keeps, in \<open>out\<close>, the calls it has
  made, oldest first; \<open>trade_handler\<close> and \<open>report_handler\<close> say whether a callback is
  installed, since the code tests it before the call (the sequence number advances either way).
\<close>

datatype book_event = EvTrade trade | EvReport execution_report

datatype book_error = OrderCapacityExceeded | InvalidSnapshotOrder

definition npos :: u32 where
  "npos = - 1"

record node =
  nd_id :: order_id
  nd_client_id :: client_id
  nd_price :: price
  nd_remaining :: quantity
  nd_prev :: u32
  nd_next :: u32
  nd_side :: side
  nd_active :: bool

definition empty_node :: node where
  "empty_node = \<lparr>nd_id = 0, nd_client_id = 0, nd_price = 0, nd_remaining = 0,
     nd_prev = npos, nd_next = npos, nd_side = Buy, nd_active = False\<rparr>"

record level =
  lv_head :: u32
  lv_tail :: u32
  lv_total :: quantity
  lv_order_count :: u32

definition empty_level :: level where
  "empty_level = \<lparr>lv_head = npos, lv_tail = npos, lv_total = 0, lv_order_count = 0\<rparr>"

record order_book =
  symbol :: symbol_id
  nodes :: "node list"
  free_list :: "u32 list"
  by_id :: "order_id \<rightharpoonup> u32"
  bids :: "(price \<times> level) list"
  asks :: "(price \<times> level) list"
  active_count :: u64
  sequence :: sequence_no
  stp :: stp_policy
  trade_handler :: bool
  report_handler :: bool
  out :: "book_event list"

text \<open>\<open>bids_\<close> is ordered by \<open>std::greater\<close>, \<open>asks_\<close> by \<open>std::less\<close>.\<close>

fun better :: "side \<Rightarrow> price \<Rightarrow> price \<Rightarrow> bool" where
  "better Buy p q \<longleftrightarrow> p > q"
| "better Sell p q \<longleftrightarrow> p < q"

fun levels_of :: "side \<Rightarrow> order_book \<Rightarrow> (price \<times> level) list" where
  "levels_of Buy b = bids b"
| "levels_of Sell b = asks b"

fun set_levels :: "side \<Rightarrow> (price \<times> level) list \<Rightarrow> order_book \<Rightarrow> order_book" where
  "set_levels Buy m b = b\<lparr>bids := m\<rparr>"
| "set_levels Sell m b = b\<lparr>asks := m\<rparr>"

definition node_at :: "order_book \<Rightarrow> u32 \<Rightarrow> node" where
  "node_at b i = nodes b ! unat i"

definition set_node :: "u32 \<Rightarrow> node \<Rightarrow> order_book \<Rightarrow> order_book" where
  "set_node i n b = b\<lparr>nodes := (nodes b)[unat i := n]\<rparr>"

definition free_indices :: "nat \<Rightarrow> u32 list" where
  "free_indices capacity = map of_nat (rev [0..<capacity])"

definition new_book :: "nat \<Rightarrow> symbol_id \<Rightarrow> order_book" where
  "new_book capacity sy =
     \<lparr>symbol = sy, nodes = replicate capacity empty_node, free_list = free_indices capacity,
      by_id = Map.empty, bids = [], asks = [], active_count = 0, sequence = 0,
      stp = StpNone, trade_handler = False, report_handler = False, out = []\<rparr>"

definition emit_report ::
  "order_id \<Rightarrow> report_status \<Rightarrow> quantity \<Rightarrow> reject_reason \<Rightarrow> order_book \<Rightarrow> order_book" where
  "emit_report oid status remaining reason b =
     (let seq = sequence b + 1; b = b\<lparr>sequence := seq\<rparr> in
      if report_handler b
      then b\<lparr>out := out b @ [EvReport \<lparr>er_sequence = seq, er_order_id = oid, er_status = status,
        er_remaining = remaining, er_reject_reason = reason, er_symbol = symbol b\<rparr>]\<rparr>
      else b)"

definition emit_trade ::
  "node \<Rightarrow> order_request \<Rightarrow> price \<Rightarrow> quantity \<Rightarrow> order_book \<Rightarrow> order_book" where
  "emit_trade maker taker px qty b =
     (let seq = sequence b + 1; b = b\<lparr>sequence := seq\<rparr> in
      if trade_handler b
      then b\<lparr>out := out b @ [EvTrade \<lparr>tr_sequence = seq, tr_maker_order_id = nd_id maker,
        tr_taker_order_id = rq_order_id taker, tr_price = px, tr_quantity = qty,
        tr_taker_side = rq_side taker, tr_symbol = symbol b\<rparr>]\<rparr>
      else b)"

text \<open>\<open>validate\<close>: the first failing check names the reason.\<close>

definition validate_reason :: "order_request \<Rightarrow> order_book \<Rightarrow> reject_reason" where
  "validate_reason r b =
     (if rq_symbol r \<noteq> symbol b then InvalidPrice
      else if rq_quantity r = 0 then InvalidQuantity
      else if rq_type r \<noteq> Market \<and> rq_price r \<le> 0 then InvalidPrice
      else if rq_type r = Market \<and> rq_price r \<noteq> market_price then InvalidPrice
      else if by_id b (rq_order_id r) \<noteq> None then DuplicateOrderId
      else if free_list b = [] then CapacityExceeded
      else RejNone)"

definition validate :: "order_request \<Rightarrow> order_book \<Rightarrow> bool \<times> order_book" where
  "validate r b =
     (let reason = validate_reason r b in
      if reason \<noteq> RejNone
      then (False, emit_report (rq_order_id r) Rejected (rq_quantity r) reason b)
      else (True, b))"

definition allocate_node :: "order_book \<Rightarrow> (book_error + u32) \<times> order_book" where
  "allocate_node b =
     (if free_list b = [] then (Inl OrderCapacityExceeded, b)
      else (Inr (last (free_list b)), b\<lparr>free_list := butlast (free_list b)\<rparr>))"

definition release_node :: "u32 \<Rightarrow> order_book \<Rightarrow> order_book" where
  "release_node idx b =
     (let b = set_node idx empty_node b in b\<lparr>free_list := free_list b @ [idx]\<rparr>)"

definition crosses :: "order_request \<Rightarrow> price \<Rightarrow> bool" where
  "crosses t p \<longleftrightarrow>
     (if rq_type t = Market then True
      else case rq_side t of Buy \<Rightarrow> rq_price t \<ge> p | Sell \<Rightarrow> rq_price t \<le> p)"

text \<open>\<open>available_to_match\<close>: the accumulator is 64 bits wide, the level totals are not.\<close>

fun available_loop :: "order_request \<Rightarrow> (price \<times> level) list \<Rightarrow> u64 \<Rightarrow> quantity" where
  "available_loop r [] available = ucast available"
| "available_loop r ((p, l) # ls) available =
     (if \<not> crosses r p then ucast available
      else let available = available + ucast (lv_total l) in
        if available \<ge> ucast (rq_quantity r) then rq_quantity r
        else available_loop r ls available)"

definition available_to_match :: "order_request \<Rightarrow> order_book \<Rightarrow> quantity" where
  "available_to_match r b = available_loop r (levels_of (opposite (rq_side r)) b) 0"

section \<open>Unlinking\<close>

text \<open>
  \<open>unlink\<close>: the node is read by reference, so the fields read after a write to its
  neighbours are the current ones.
\<close>

definition unlink :: "u32 \<Rightarrow> order_book \<Rightarrow> order_book" where
  "unlink idx b =
     (let nd = node_at b idx; sd = nd_side nd; p = nd_price nd in
      case om_find (better sd) p (levels_of sd b) of
        None \<Rightarrow> b
      | Some level \<Rightarrow>
          let (b, level) =
            (if nd_prev (node_at b idx) \<noteq> npos
             then (set_node (nd_prev (node_at b idx))
                     (node_at b (nd_prev (node_at b idx))\<lparr>nd_next := nd_next (node_at b idx)\<rparr>) b,
                   level)
             else (b, level\<lparr>lv_head := nd_next (node_at b idx)\<rparr>));
            (b, level) =
            (if nd_next (node_at b idx) \<noteq> npos
             then (set_node (nd_next (node_at b idx))
                     (node_at b (nd_next (node_at b idx))\<lparr>nd_prev := nd_prev (node_at b idx)\<rparr>) b,
                   level)
             else (b, level\<lparr>lv_tail := nd_prev (node_at b idx)\<rparr>));
            level = level\<lparr>lv_total := lv_total level - nd_remaining (node_at b idx),
                          lv_order_count := lv_order_count level - 1\<rparr> in
          if lv_head level = npos
          then set_levels sd (om_erase (better sd) p (levels_of sd b)) b
          else set_levels sd (om_put (better sd) p level (levels_of sd b)) b)"

definition remove_without_report :: "u32 \<Rightarrow> order_book \<Rightarrow> order_book" where
  "remove_without_report idx b =
     (let oid = nd_id (node_at b idx);
          b = unlink idx b;
          b = b\<lparr>by_id := (by_id b)(oid := None)\<rparr>;
          b = release_node idx b in
      b\<lparr>active_count := active_count b - 1\<rparr>)"

section \<open>Matching\<close>

text \<open>
  One pass of the inner loop of \<open>match_against\<close> that trades: the maker at the head of the
  level loses the fill, a trade and a report go out, and an exhausted maker is taken off the
  queue, the id map and the live nodes. The level itself stays in the map, even when its queue
  has become empty: the outer loop erases it.
\<close>

definition pop_head :: "side \<Rightarrow> price \<Rightarrow> u32 \<Rightarrow> level \<Rightarrow> order_book \<Rightarrow> order_book" where
  "pop_head sd key maker_idx level b =
     (let maker = node_at b maker_idx;
          level = level\<lparr>lv_head := nd_next maker\<rparr>;
          (b, level) =
            (if lv_head level \<noteq> npos
             then (set_node (lv_head level) (node_at b (lv_head level)\<lparr>nd_prev := npos\<rparr>) b, level)
             else (b, level\<lparr>lv_tail := npos\<rparr>));
          level = level\<lparr>lv_order_count := lv_order_count level - 1\<rparr>;
          b = set_levels sd (om_put (better sd) key level (levels_of sd b)) b;
          b = b\<lparr>by_id := (by_id b)(nd_id maker := None)\<rparr>;
          b = release_node maker_idx b in
      b\<lparr>active_count := active_count b - 1\<rparr>)"

definition fill_maker ::
  "side \<Rightarrow> price \<Rightarrow> level \<Rightarrow> order_request \<Rightarrow> order_book \<Rightarrow> quantity \<Rightarrow> order_book \<times> quantity" where
  "fill_maker sd key level taker b remaining =
     (let maker_idx = lv_head level;
          fill = min remaining (nd_remaining (node_at b maker_idx));
          remaining = remaining - fill;
          b = set_node maker_idx
            (node_at b maker_idx\<lparr>nd_remaining := nd_remaining (node_at b maker_idx) - fill\<rparr>) b;
          level = level\<lparr>lv_total := lv_total level - fill\<rparr>;
          b = set_levels sd (om_put (better sd) key level (levels_of sd b)) b;
          maker = node_at b maker_idx;
          b = emit_trade maker taker (nd_price maker) fill b;
          b = emit_report (nd_id maker)
            (if nd_remaining maker = 0 then Filled else PartiallyFilled)
            (nd_remaining maker) RejNone b in
      (if nd_remaining maker = 0 then pop_head sd key maker_idx level b else b, remaining))"

text \<open>
  The loops follow pointers, so nothing in their text bounds them: they are partial functions
  whose value None means that the loop does not return (or reads through a reference to a
  level that has been erased). That they return on every well-formed book is a theorem.

  \<open>match_level\<close> is the inner loop; its exits are the loop condition, the jump to the outer
  loop after a cancelled maker, and the return for a cancelled taker.
\<close>

datatype level_exit = LevelDone | RestartOuter | TakerGone

datatype match_outcome = Completed | TakerCancelled

partial_function (option) match_level ::
  "side \<Rightarrow> price \<Rightarrow> order_request \<Rightarrow> order_book \<Rightarrow> quantity \<Rightarrow>
   (level_exit \<times> order_book \<times> quantity) option" where
  "match_level sd key taker b remaining =
     (case om_find (better sd) key (levels_of sd b) of
        None \<Rightarrow> None
      | Some level \<Rightarrow>
          if \<not> (remaining > 0 \<and> lv_head level \<noteq> npos) then Some (LevelDone, b, remaining)
          else if stp b \<noteq> StpNone \<and>
                  nd_client_id (node_at b (lv_head level)) = rq_client_id taker then
            (let maker = node_at b (lv_head level) in
             if stp b = CancelNewest then
               Some (TakerGone,
                     emit_report (rq_order_id taker) Cancelled remaining RejNone b, remaining)
             else
               let b = remove_without_report (lv_head level) b;
                   b = emit_report (nd_id maker) Cancelled (nd_remaining maker) RejNone b in
               if stp b = CancelBoth then
                 Some (TakerGone,
                       emit_report (rq_order_id taker) Cancelled remaining RejNone b, remaining)
               else Some (RestartOuter, b, remaining))
          else
            (case fill_maker sd key level taker b remaining of
               (b, remaining) \<Rightarrow> match_level sd key taker b remaining))"

definition erase_if_empty :: "side \<Rightarrow> price \<Rightarrow> order_book \<Rightarrow> order_book" where
  "erase_if_empty sd key b =
     (case om_find (better sd) key (levels_of sd b) of
        None \<Rightarrow> b
      | Some level \<Rightarrow>
          if lv_head level = npos
          then set_levels sd (om_erase (better sd) key (levels_of sd b)) b else b)"

partial_function (option) match_against ::
  "side \<Rightarrow> order_request \<Rightarrow> order_book \<Rightarrow> quantity \<Rightarrow>
   (match_outcome \<times> order_book \<times> quantity) option" where
  "match_against sd taker b remaining =
     (if \<not> (remaining > 0 \<and> levels_of sd b \<noteq> []) then Some (Completed, b, remaining)
      else if \<not> crosses taker (fst (hd (levels_of sd b))) then Some (Completed, b, remaining)
      else
        (case match_level sd (fst (hd (levels_of sd b))) taker b remaining of
           None \<Rightarrow> None
         | Some (exit, b', remaining') \<Rightarrow>
             (case exit of
                TakerGone \<Rightarrow> Some (TakerCancelled, b', remaining')
              | RestartOuter \<Rightarrow> match_against sd taker b' remaining'
              | LevelDone \<Rightarrow>
                  match_against sd taker
                    (erase_if_empty sd (fst (hd (levels_of sd b))) b') remaining')))"

section \<open>Operations\<close>

definition append_node :: "u32 \<Rightarrow> order_request \<Rightarrow> quantity \<Rightarrow> order_book \<Rightarrow> order_book" where
  "append_node idx r remaining b =
     (let sd = rq_side r; p = rq_price r;
          levels = om_try_emplace (better sd) p empty_level (levels_of sd b) in
      case om_find (better sd) p levels of
        None \<Rightarrow> set_levels sd levels b
      | Some level \<Rightarrow>
          let b = set_levels sd levels b;
              b = set_node idx (node_at b idx\<lparr>nd_prev := lv_tail level\<rparr>) b;
              (b, level) =
                (if lv_tail level \<noteq> npos
                 then (set_node (lv_tail level) (node_at b (lv_tail level)\<lparr>nd_next := idx\<rparr>) b, level)
                 else (b, level\<lparr>lv_head := idx\<rparr>));
              level = level\<lparr>lv_tail := idx, lv_total := lv_total level + remaining,
                            lv_order_count := lv_order_count level + 1\<rparr> in
          set_levels sd (om_put (better sd) p level (levels_of sd b)) b)"

definition rest :: "order_request \<Rightarrow> quantity \<Rightarrow> order_book \<Rightarrow> (book_error + unit) \<times> order_book" where
  "rest r remaining b =
     (case allocate_node b of
        (Inl e, b) \<Rightarrow> (Inl e, b)
      | (Inr idx, b) \<Rightarrow>
          let b = set_node idx \<lparr>nd_id = rq_order_id r, nd_client_id = rq_client_id r,
                nd_price = rq_price r, nd_remaining = remaining, nd_prev = npos, nd_next = npos,
                nd_side = rq_side r, nd_active = True\<rparr> b;
              b = append_node idx r remaining b;
              b = b\<lparr>by_id := (by_id b)(rq_order_id r \<mapsto> idx)\<rparr> in
          (Inr (), b\<lparr>active_count := active_count b + 1\<rparr>))"

definition best_bid :: "order_book \<Rightarrow> price" where
  "best_bid b = (case bids b of [] \<Rightarrow> 0 | (p, _) # _ \<Rightarrow> p)"

definition best_ask :: "order_book \<Rightarrow> price" where
  "best_ask b = (case asks b of [] \<Rightarrow> 0 | (p, _) # _ \<Rightarrow> p)"

definition would_trade :: "order_request \<Rightarrow> order_book \<Rightarrow> bool" where
  "would_trade r b =
     (case rq_side r of
        Buy \<Rightarrow> asks b \<noteq> [] \<and> rq_price r \<ge> best_ask b
      | Sell \<Rightarrow> bids b \<noteq> [] \<and> rq_price r \<le> best_bid b)"

text \<open>What \<open>submit\<close> does once the match has come back.\<close>

definition finish_submit ::
  "order_request \<Rightarrow> quantity \<Rightarrow> order_book \<Rightarrow> (book_error + bool) \<times> order_book" where
  "finish_submit r remaining b =
     (let b = (if remaining = 0 then emit_report (rq_order_id r) Filled 0 RejNone b
               else if remaining < rq_quantity r
               then emit_report (rq_order_id r) PartiallyFilled remaining RejNone b
               else b) in
      if remaining > 0 then
        (if rq_type r = Limit \<or> rq_type r = PostOnly then
           (case rest r remaining b of
              (Inl e, b) \<Rightarrow> (Inl e, b)
            | (Inr _, b) \<Rightarrow> (Inr True, b))
         else (Inr True, emit_report (rq_order_id r) Expired remaining RejNone b))
      else (Inr True, b))"

definition submit :: "order_request \<Rightarrow> order_book \<Rightarrow> ((book_error + bool) \<times> order_book) option" where
  "submit r b =
     (case validate r b of
        (False, b) \<Rightarrow> Some (Inr False, b)
      | (True, b) \<Rightarrow>
          if rq_type r = PostOnly \<and> would_trade r b then
            Some (Inr False, emit_report (rq_order_id r) Rejected (rq_quantity r) WouldTrade b)
          else if rq_type r = FOK \<and> available_to_match r b < rq_quantity r then
            Some (Inr False,
                  emit_report (rq_order_id r) Rejected (rq_quantity r) InsufficientLiquidity b)
          else
            let b = emit_report (rq_order_id r) Accepted (rq_quantity r) RejNone b in
            (case match_against (opposite (rq_side r)) r b (rq_quantity r) of
               None \<Rightarrow> None
             | Some (TakerCancelled, b, _) \<Rightarrow> Some (Inr True, b)
             | Some (Completed, b, remaining) \<Rightarrow> Some (finish_submit r remaining b)))"

definition cancel :: "cancel_request \<Rightarrow> order_book \<Rightarrow> bool \<times> order_book" where
  "cancel r b =
     (case by_id b (cx_order_id r) of
        None \<Rightarrow> (False, emit_report (cx_order_id r) Rejected 0 UnknownOrder b)
      | Some idx \<Rightarrow>
          if nd_client_id (node_at b idx) \<noteq> cx_client_id r then
            (False, emit_report (cx_order_id r) Rejected (nd_remaining (node_at b idx))
                      ClientMismatch b)
          else
            let remaining = nd_remaining (node_at b idx);
                b = remove_without_report idx b in
            (True, emit_report (cx_order_id r) Cancelled remaining RejNone b))"

text \<open>The quantity of an order is reduced in place: it keeps its place in the queue.\<close>

definition reduce_in_place :: "u32 \<Rightarrow> quantity \<Rightarrow> order_book \<Rightarrow> order_book" where
  "reduce_in_place idx new_quantity b =
     (let delta = nd_remaining (node_at b idx) - new_quantity;
          b = set_node idx (node_at b idx\<lparr>nd_remaining := new_quantity\<rparr>) b;
          sd = nd_side (node_at b idx); p = nd_price (node_at b idx) in
      case om_find (better sd) p (levels_of sd b) of
        None \<Rightarrow> b
      | Some level \<Rightarrow>
          set_levels sd
            (om_put (better sd) p (level\<lparr>lv_total := lv_total level - delta\<rparr>) (levels_of sd b)) b)"

definition replace :: "replace_request \<Rightarrow> order_book \<Rightarrow> ((book_error + bool) \<times> order_book) option" where
  "replace r b =
     (case by_id b (rp_order_id r) of
        None \<Rightarrow> Some (Inr False, emit_report (rp_order_id r) Rejected 0 UnknownOrder b)
      | Some idx \<Rightarrow>
          let nd = node_at b idx in
          if nd_client_id nd \<noteq> rp_client_id r then
            Some (Inr False,
                  emit_report (rp_order_id r) Rejected (nd_remaining nd) ClientMismatch b)
          else if rp_new_price r \<le> 0 \<or> rp_new_quantity r = 0 then
            Some (Inr False,
                  emit_report (rp_order_id r) Rejected (nd_remaining nd) InvalidReplacement b)
          else if rp_new_price r = nd_price nd \<and> rp_new_quantity r \<le> nd_remaining nd then
            (let b = reduce_in_place idx (rp_new_quantity r) b in
             Some (Inr True,
                   emit_report (rp_order_id r) Replaced (nd_remaining (node_at b idx)) RejNone b))
          else
            let b = remove_without_report idx b;
                b = emit_report (rp_order_id r) Replaced (rp_new_quantity r) RejNone b in
            submit \<lparr>rq_order_id = rp_order_id r, rq_client_id = rp_client_id r,
                    rq_side = nd_side nd, rq_type = Limit, rq_price = rp_new_price r,
                    rq_quantity = rp_new_quantity r, rq_symbol = symbol b\<rparr> b)"

definition quantity_at :: "side \<Rightarrow> price \<Rightarrow> order_book \<Rightarrow> quantity" where
  "quantity_at sd p b =
     (case om_find (better sd) p (levels_of sd b) of None \<Rightarrow> 0 | Some level \<Rightarrow> lv_total level)"

fun depth_loop :: "nat \<Rightarrow> (price \<times> level) list \<Rightarrow> depth_level list \<Rightarrow> depth_level list" where
  "depth_loop n [] result = result"
| "depth_loop n ((p, l) # ls) result =
     (if length result = n then result
      else depth_loop n ls
        (result @ [\<lparr>dl_price = p, dl_quantity = lv_total l, dl_order_count = lv_order_count l\<rparr>]))"

definition depth :: "side \<Rightarrow> nat \<Rightarrow> order_book \<Rightarrow> depth_level list" where
  "depth sd n b = depth_loop n (levels_of sd b) []"

section \<open>Snapshots and the state hash\<close>

definition order_of_node :: "symbol_id \<Rightarrow> side \<Rightarrow> price \<Rightarrow> node \<Rightarrow> order_request" where
  "order_of_node sy sd p nd =
     \<lparr>rq_order_id = nd_id nd, rq_client_id = nd_client_id nd, rq_side = sd, rq_type = Limit,
      rq_price = p, rq_quantity = nd_remaining nd, rq_symbol = sy\<rparr>"

partial_function (option) resting_walk ::
  "order_book \<Rightarrow> side \<Rightarrow> price \<Rightarrow> u32 \<Rightarrow> order_request list \<Rightarrow> order_request list option" where
  "resting_walk b sd p idx result =
     (if idx = npos then Some result
      else resting_walk b sd p (nd_next (node_at b idx))
             (result @ [order_of_node (symbol b) sd p (node_at b idx)]))"

fun resting_levels ::
  "order_book \<Rightarrow> side \<Rightarrow> (price \<times> level) list \<Rightarrow> order_request list \<Rightarrow> order_request list option" where
  "resting_levels b sd [] result = Some result"
| "resting_levels b sd ((p, l) # ls) result =
     (case resting_walk b sd p (lv_head l) result of
        None \<Rightarrow> None | Some result \<Rightarrow> resting_levels b sd ls result)"

definition resting_orders :: "order_book \<Rightarrow> order_request list option" where
  "resting_orders b =
     (case resting_levels b Buy (bids b) [] of
        None \<Rightarrow> None | Some result \<Rightarrow> resting_levels b Sell (asks b) result)"

text \<open>\<open>reset\<close> frees every node; the symbol, the policy and the callbacks stay.\<close>

definition reset :: "order_book \<Rightarrow> order_book" where
  "reset b =
     b\<lparr>bids := [], asks := [], by_id := Map.empty, active_count := 0, sequence := 0,
       nodes := replicate (length (nodes b)) empty_node,
       free_list := free_indices (length (nodes b))\<rparr>"

fun restore_loop :: "order_request list \<Rightarrow> order_book \<Rightarrow> (book_error + unit) \<times> order_book" where
  "restore_loop [] b = (Inr (), b)"
| "restore_loop (r # rs) b =
     (if rq_symbol r \<noteq> symbol b \<or> rq_quantity r = 0 \<or> rq_price r \<le> 0 \<or>
         by_id b (rq_order_id r) \<noteq> None
      then (Inl InvalidSnapshotOrder, b)
      else case rest r (rq_quantity r) b of
        (Inl e, b) \<Rightarrow> (Inl e, b)
      | (Inr _, b) \<Rightarrow> restore_loop rs b)"

definition restore_resting_orders ::
  "order_request list \<Rightarrow> sequence_no \<Rightarrow> order_book \<Rightarrow> (book_error + unit) \<times> order_book" where
  "restore_resting_orders orders seq b =
     (case restore_loop orders (reset b) of
        (Inl e, b) \<Rightarrow> (Inl e, b)
      | (Inr _, b) \<Rightarrow> (Inr (), b\<lparr>sequence := seq\<rparr>))"

definition mix :: "u64 \<Rightarrow> u64 \<Rightarrow> u64" where
  "mix value hash = (xor hash value) * 1099511628211"

definition hash_node :: "node \<Rightarrow> u64 \<Rightarrow> u64" where
  "hash_node nd hash =
     mix (ucast (nd_remaining nd)) (mix (ucast (nd_client_id nd)) (mix (nd_id nd) hash))"

partial_function (option) hash_walk :: "order_book \<Rightarrow> u32 \<Rightarrow> u64 \<Rightarrow> u64 option" where
  "hash_walk b idx hash =
     (if idx = npos then Some hash
      else hash_walk b (nd_next (node_at b idx)) (hash_node (node_at b idx) hash))"

fun hash_levels :: "order_book \<Rightarrow> (price \<times> level) list \<Rightarrow> u64 \<Rightarrow> u64 option" where
  "hash_levels b [] hash = Some hash"
| "hash_levels b ((p, l) # ls) hash =
     (case hash_walk b (lv_head l) (mix (word_of_int p) hash) of
        None \<Rightarrow> None | Some hash \<Rightarrow> hash_levels b ls hash)"

definition fnv_offset :: u64 where
  "fnv_offset = 1469598103934665603"

definition state_hash :: "order_book \<Rightarrow> u64 option" where
  "state_hash b =
     (case hash_levels b (bids b)
        (mix (ucast (side_code Buy)) (mix (ucast (symbol b)) fnv_offset)) of
        None \<Rightarrow> None
      | Some hash \<Rightarrow>
          (case hash_levels b (asks b) (mix (ucast (side_code Sell)) hash) of
             None \<Rightarrow> None
           | Some hash \<Rightarrow> Some (mix (active_count b) hash)))"

declare match_level.simps [code] match_against.simps [code] resting_walk.simps [code]
  hash_walk.simps [code]

end
