(* ===== verification/Book_Links.thy ===== *)
theory Book_Links
  imports Order_Book
begin

text \<open>
  The linked queues inside the node vector. \<open>dseg\<close> says that a pointer leads through a list of
  indices along the next links while the prev links lead back; the lemmas describe what the
  link updates of \<open>unlink\<close>, \<open>pop_head\<close> and \<open>append_node\<close> do to such a segment. The node
  vector is seen as a function from indices to nodes.
\<close>

definition valid_index :: "order_book \<Rightarrow> u32 \<Rightarrow> bool" where
  "valid_index b i \<longleftrightarrow> unat i < length (nodes b)"

lemma node_at_set_node [simp]:
  "valid_index b i \<Longrightarrow> node_at (set_node i n b) = (node_at b)(i := n)"
  by (auto simp: fun_eq_iff node_at_def set_node_def valid_index_def nth_list_update
      dest: word_unat_eq_iff [THEN iffD2])

lemma set_node_frame [simp]:
  "symbol (set_node i n b) = symbol b" "free_list (set_node i n b) = free_list b"
  "by_id (set_node i n b) = by_id b" "bids (set_node i n b) = bids b"
  "asks (set_node i n b) = asks b" "active_count (set_node i n b) = active_count b"
  "sequence (set_node i n b) = sequence b" "stp (set_node i n b) = stp b"
  "trade_handler (set_node i n b) = trade_handler b"
  "report_handler (set_node i n b) = report_handler b" "out (set_node i n b) = out b"
  "levels_of sd (set_node i n b) = levels_of sd b"
  "length (nodes (set_node i n b)) = length (nodes b)"
  "valid_index (set_node i n b) j = valid_index b j"
  by (cases sd; simp add: set_node_def valid_index_def)+

lemma set_levels_frame [simp]:
  "symbol (set_levels sd m b) = symbol b" "free_list (set_levels sd m b) = free_list b"
  "by_id (set_levels sd m b) = by_id b" "nodes (set_levels sd m b) = nodes b"
  "active_count (set_levels sd m b) = active_count b"
  "sequence (set_levels sd m b) = sequence b" "stp (set_levels sd m b) = stp b"
  "trade_handler (set_levels sd m b) = trade_handler b"
  "report_handler (set_levels sd m b) = report_handler b" "out (set_levels sd m b) = out b"
  "levels_of sd' (set_levels sd m b) = (if sd' = sd then m else levels_of sd' b)"
  "node_at (set_levels sd m b) = node_at b"
  "valid_index (set_levels sd m b) j = valid_index b j"
  by (cases sd; cases sd'; simp add: node_at_def fun_eq_iff valid_index_def)+

section \<open>Segments\<close>

fun dseg :: "(u32 \<Rightarrow> node) \<Rightarrow> u32 \<Rightarrow> u32 \<Rightarrow> u32 list \<Rightarrow> u32 \<Rightarrow> u32 \<Rightarrow> bool" where
  "dseg N p h [] q t \<longleftrightarrow> h = q \<and> t = p"
| "dseg N p h (i # xs) q t \<longleftrightarrow> h = i \<and> nd_prev (N i) = p \<and> dseg N i (nd_next (N i)) xs q t"

lemma dseg_append:
  "dseg N p h (xs @ ys) q t \<longleftrightarrow> (\<exists>m k. dseg N p h xs m k \<and> dseg N k m ys q t)"
  by (induction xs arbitrary: p h) auto

lemma dseg_ends:
  "dseg N p h xs q t \<Longrightarrow> h = (if xs = [] then q else hd xs)"
  "dseg N p h xs q t \<Longrightarrow> t = (if xs = [] then p else last xs)"
  by (induction xs arbitrary: p h) auto

lemma dseg_cong:
  "(\<And>i. i \<in> set xs \<Longrightarrow> nd_prev (N' i) = nd_prev (N i) \<and> nd_next (N' i) = nd_next (N i)) \<Longrightarrow>
   dseg N' p h xs q t \<longleftrightarrow> dseg N p h xs q t"
  by (induction xs arbitrary: p h) auto

lemma dseg_other [simp]: "k \<notin> set xs \<Longrightarrow> dseg (N(k := x)) p h xs q t \<longleftrightarrow> dseg N p h xs q t"
  by (rule dseg_cong) auto

lemma dseg_last_next:
  assumes "dseg N p h (xs @ [k]) q t" and "k \<notin> set xs" and "nd_prev x = nd_prev (N k)"
  shows "dseg (N(k := x)) p h (xs @ [k]) (nd_next x) t"
  using assms by (auto simp: dseg_append)

lemma dseg_first_prev:
  assumes "dseg N p h (k # ys) q t" and "k \<notin> set ys" and "nd_next x = nd_next (N k)"
  shows "dseg (N(k := x)) (nd_prev x) h (k # ys) q t"
  using assms by auto

text \<open>Taking an index out of a queue.\<close>

lemma dseg_remove:
  fixes N :: "u32 \<Rightarrow> node"
  assumes seg: "dseg N npos h (xs @ i # ys) npos t"
    and dist: "distinct (xs @ i # ys)" and np: "npos \<notin> set (xs @ i # ys)"
  defines "p \<equiv> nd_prev (N i)" and "n \<equiv> nd_next (N i)"
  defines "N1 \<equiv> (if p \<noteq> npos then N(p := N p\<lparr>nd_next := n\<rparr>) else N)"
  defines "N2 \<equiv> (if n \<noteq> npos then N1(n := N1 n\<lparr>nd_prev := p\<rparr>) else N1)"
  shows "dseg N2 npos (if p \<noteq> npos then h else n) (xs @ ys) npos (if n \<noteq> npos then t else p)"
    and "p = npos \<longleftrightarrow> xs = []" and "n = npos \<longleftrightarrow> ys = []"
    and "p \<noteq> npos \<Longrightarrow> p = last xs" and "n \<noteq> npos \<Longrightarrow> n = hd ys"
proof -
  obtain sx: "dseg N npos h xs i p" and sy: "dseg N i n ys npos t"
    using seg by (auto simp: dseg_append p_def n_def)
  have p: "p = (if xs = [] then npos else last xs)" by (rule dseg_ends(2) [OF sx])
  have n: "n = (if ys = [] then npos else hd ys)" by (rule dseg_ends(1) [OF sy])
  show pn: "p = npos \<longleftrightarrow> xs = []" using p np by (metis last_in_set Un_iff set_append)
  show nn: "n = npos \<longleftrightarrow> ys = []" using n np by (metis hd_in_set Un_iff set_append list.set_intros(2))
  show "p \<noteq> npos \<Longrightarrow> p = last xs" using p by (simp split: if_splits)
  show "n \<noteq> npos \<Longrightarrow> n = hd ys" using n by (simp split: if_splits)
  have x1: "dseg N1 npos (if p \<noteq> npos then h else n) xs n p" and y1: "dseg N1 i n ys npos t"
  proof -
    show "dseg N1 npos (if p \<noteq> npos then h else n) xs n p"
    proof (cases "xs = []")
      case True
      with pn show ?thesis by simp
    next
      case False
      then have xs: "xs = butlast xs @ [p]" using p by simp
      have "distinct (butlast xs @ [p])" using dist xs by (metis distinct_append)
      then have "p \<notin> set (butlast xs)" by simp
      moreover have "dseg N npos h (butlast xs @ [p]) i p" using sx xs by simp
      ultimately have "dseg (N(p := N p\<lparr>nd_next := n\<rparr>)) npos h (butlast xs @ [p]) n p"
        using dseg_last_next [of N npos h "butlast xs" p i p "N p\<lparr>nd_next := n\<rparr>"] by simp
      with False pn xs show ?thesis by (simp add: N1_def)
    qed
    show "dseg N1 i n ys npos t"
    proof (cases "xs = []")
      case False
      then have "p \<in> set xs" using p by simp
      with dist have "p \<notin> set ys" by auto
      with sy show ?thesis by (simp add: N1_def)
    qed (use sy pn in \<open>simp add: N1_def\<close>)
  qed
  show "dseg N2 npos (if p \<noteq> npos then h else n) (xs @ ys) npos (if n \<noteq> npos then t else p)"
  proof (cases "ys = []")
    case True
    with x1 nn show ?thesis by (simp add: N2_def)
  next
    case False
    then obtain ys' where ys: "ys = n # ys'" using n by (cases ys) auto
    with dist have notin: "n \<notin> set ys'" "n \<notin> set xs" by auto
    have "dseg N2 p n ys npos t"
      using dseg_first_prev [of N1 i n n ys' npos t "N1 n\<lparr>nd_prev := p\<rparr>"] y1 ys notin nn
      by (simp add: N2_def)
    moreover have "dseg N2 npos (if p \<noteq> npos then h else n) xs n p"
      unfolding N2_def using x1 notin by (cases "n = npos") simp_all
    ultimately have "dseg N2 npos (if p \<noteq> npos then h else n) (xs @ ys) npos t"
      unfolding dseg_append by blast
    with False nn show ?thesis by simp
  qed
qed

text \<open>Appending an index at the tail.\<close>

lemma dseg_snoc:
  fixes N :: "u32 \<Rightarrow> node"
  assumes seg: "dseg N npos h xs npos t" and dist: "distinct xs" and new: "i \<notin> set xs" "i \<noteq> npos"
    and np: "npos \<notin> set xs" and N: "nd_next (N i) = npos"
  defines "N1 \<equiv> N(i := N i\<lparr>nd_prev := t\<rparr>)"
  defines "N2 \<equiv> (if t \<noteq> npos then N1(t := N1 t\<lparr>nd_next := i\<rparr>) else N1)"
  shows "dseg N2 npos (if t \<noteq> npos then h else i) (xs @ [i]) npos i"
    and "t = npos \<longleftrightarrow> xs = []" and "t \<noteq> npos \<Longrightarrow> t = last xs"
proof -
  have t: "t = (if xs = [] then npos else last xs)" by (rule dseg_ends(2) [OF seg])
  show tn: "t = npos \<longleftrightarrow> xs = []" using t np by (metis last_in_set)
  show "t \<noteq> npos \<Longrightarrow> t = last xs" using t by (simp split: if_splits)
  show "dseg N2 npos (if t \<noteq> npos then h else i) (xs @ [i]) npos i"
  proof (cases "xs = []")
    case True
    with tn N show ?thesis by (simp add: N1_def N2_def)
  next
    case False
    then have xs: "xs = butlast xs @ [t]" and "t \<in> set xs" using t by simp_all
    with new have ti: "t \<noteq> i" by auto
    have d: "distinct (butlast xs @ [t])" using dist xs by simp
    have "dseg N1 npos h (butlast xs @ [t]) npos t" using seg new xs by (simp add: N1_def)
    with d have "dseg (N1(t := N1 t\<lparr>nd_next := i\<rparr>)) npos h (butlast xs @ [t]) i t"
      using dseg_last_next [of N1 npos h "butlast xs" t npos t "N1 t\<lparr>nd_next := i\<rparr>"] by simp
    then have "dseg N2 npos h xs i t" using False tn xs by (simp add: N2_def)
    moreover have "dseg N2 t i [i] npos i"
      using False tn ti N by (simp add: N2_def N1_def)
    ultimately show ?thesis using False tn by (auto simp: dseg_append)
  qed
qed

end
