(* ===== verification/Book_Rep.thy ===== *)
theory Book_Rep
  imports Book_Links
begin

text \<open>
  What the parts of a well-formed book have to do with each other. \<open>book_rep b G\<close> says that the
  queue of side \<open>sd\<close> at price \<open>p\<close> is the list of indices \<open>G sd p\<close>: the links of the node vector
  spell it out, the level entry has its ends, its total (as a 32-bit sum) and its count, and
  the id map, the free stack and the live count agree with the nodes that are active. A level
  may be empty, which is the state between the inner and the outer loop of a match;
  \<open>book_inv\<close> excludes it.

  The second part proves the effect on \<open>book_rep\<close> of the three ways the code changes a queue:
  taking an index out, appending one, and changing a quantity in place.
\<close>

type_synonym ghost = "side \<Rightarrow> price \<Rightarrow> u32 list"

definition live :: "order_book \<Rightarrow> u32 set" where
  "live b = {i. valid_index b i \<and> nd_active (node_at b i)}"

definition level_ok :: "(u32 \<Rightarrow> node) \<Rightarrow> level \<Rightarrow> u32 list \<Rightarrow> bool" where
  "level_ok N l xs \<longleftrightarrow>
     dseg N npos (lv_head l) xs npos (lv_tail l) \<and>
     lv_total l = (\<Sum>i\<leftarrow>xs. nd_remaining (N i)) \<and> lv_order_count l = of_nat (length xs)"

definition levels_rep :: "(u32 \<Rightarrow> node) \<Rightarrow> (price \<times> level) list \<Rightarrow> (price \<Rightarrow> u32 list) \<Rightarrow> bool" where
  "levels_rep N m g \<longleftrightarrow>
     (\<forall>(p, l) \<in> set m. level_ok N l (g p)) \<and> (\<forall>p. p \<notin> om_keys m \<longrightarrow> g p = [])"

definition book_rep :: "order_book \<Rightarrow> ghost \<Rightarrow> bool" where
  "book_rep b G \<longleftrightarrow>
     length (nodes b) < 2 ^ 32 \<and>
     distinct (free_list b) \<and>
     (\<forall>i. i \<in> set (free_list b) \<longleftrightarrow> valid_index b i \<and> \<not> nd_active (node_at b i)) \<and>
     (\<forall>sd p i. i \<in> set (G sd p) \<longleftrightarrow>
        i \<in> live b \<and> nd_side (node_at b i) = sd \<and> nd_price (node_at b i) = p) \<and>
     (\<forall>sd p. distinct (G sd p)) \<and>
     (\<forall>sd. om_ordered (better sd) (levels_of sd b)) \<and>
     (\<forall>sd. levels_rep (node_at b) (levels_of sd b) (G sd)) \<and>
     (\<forall>oid i. by_id b oid = Some i \<longleftrightarrow> i \<in> live b \<and> nd_id (node_at b i) = oid) \<and>
     (\<forall>i \<in> live b. nd_remaining (node_at b i) \<noteq> 0 \<and> 0 < nd_price (node_at b i)) \<and>
     active_count b = of_nat (card (live b))"

definition no_empty_level :: "order_book \<Rightarrow> ghost \<Rightarrow> bool" where
  "no_empty_level b G \<longleftrightarrow> (\<forall>sd. \<forall>p \<in> om_keys (levels_of sd b). G sd p \<noteq> [])"

definition book_inv :: "order_book \<Rightarrow> bool" where
  "book_inv b \<longleftrightarrow> (\<exists>G. book_rep b G \<and> no_empty_level b G)"

interpretation price_keys: ordered_keys "better sd" "\<lambda>_. True" for sd
  by (unfold_locales; cases sd) auto

lemmas price_split_simps = price_keys.split_simps [simplified]

section \<open>Consequences\<close>

lemma npos_invalid: "length (nodes b) < 2 ^ 32 \<Longrightarrow> \<not> valid_index b npos"
  by (simp add: valid_index_def npos_def unsigned_minus_1_eq_mask mask_eq_exp_minus_1)

lemma book_repD:
  assumes "book_rep b G"
  shows "\<not> valid_index b npos" and "npos \<notin> set (G sd p)"
    and "i \<in> set (G sd p) \<Longrightarrow> valid_index b i"
    and "i \<in> set (G sd p) \<Longrightarrow> i \<in> live b \<and> nd_side (node_at b i) = sd \<and> nd_price (node_at b i) = p"
    and "i \<in> live b \<Longrightarrow> i \<in> set (G (nd_side (node_at b i)) (nd_price (node_at b i)))"
    and "distinct (G sd p)" and "om_ordered (better sd) (levels_of sd b)"
    and "levels_rep (node_at b) (levels_of sd b) (G sd)"
proof -
  show np: "\<not> valid_index b npos"
    using assms by (intro npos_invalid) (simp add: book_rep_def)
  show mem: "i \<in> set (G sd p) \<Longrightarrow> i \<in> live b \<and> nd_side (node_at b i) = sd \<and> nd_price (node_at b i) = p"
    for i sd p using assms by (simp add: book_rep_def)
  show "i \<in> set (G sd p) \<Longrightarrow> valid_index b i" using mem by (simp add: live_def)
  show "npos \<notin> set (G sd p)" using mem [of npos sd p] np by (auto simp: live_def)
qed (use assms in \<open>auto simp: book_rep_def\<close>)

lemma live_key:
  assumes "book_rep b G" and "i \<in> live b"
  shows "nd_price (node_at b i) \<in> om_keys (levels_of (nd_side (node_at b i)) b)"
proof (rule ccontr)
  assume "\<not> ?thesis"
  then have "G (nd_side (node_at b i)) (nd_price (node_at b i)) = []"
    using book_repD(8) [OF assms(1)] by (auto simp: levels_rep_def)
  with book_repD(5) [OF assms] show False by simp
qed

lemma levels_rep_find:
  assumes "om_ordered (better sd) m" and "levels_rep N m g"
  shows "om_find (better sd) p m = Some l \<Longrightarrow> level_ok N l (g p)"
    and "om_find (better sd) p m = None \<Longrightarrow> g p = []"
  using assms price_keys.find_eq_map_of [of sd m p]
  by (auto simp: levels_rep_def map_of_None_keys dest!: map_of_SomeD)

lemma find_at_key:
  assumes "om_ordered (better sd) m" and "p \<in> om_keys m"
  obtains xs l ys where "m = xs @ (p, l) # ys" and "om_find (better sd) p m = Some l"
proof -
  from assms(2) obtain l where "(p, l) \<in> set m" by (auto simp: om_keys_def)
  then obtain xs ys where m: "m = xs @ (p, l) # ys" by (auto dest: split_list)
  with assms(1) have "om_find (better sd) p m = Some l"
    by (simp add: price_keys.find_split)
  with m that show thesis by blast
qed

text \<open>A segment read through any prefix; in particular the head of a queue.\<close>

lemma level_ok_head:
  assumes "level_ok N l xs" and "npos \<notin> set xs"
  shows "lv_head l = npos \<longleftrightarrow> xs = []" and "xs \<noteq> [] \<Longrightarrow> lv_head l = hd xs"
proof -
  have h: "lv_head l = (if xs = [] then npos else hd xs)"
    using assms(1) by (auto simp: level_ok_def dest: dseg_ends(1))
  then show "xs \<noteq> [] \<Longrightarrow> lv_head l = hd xs" by simp
  show "lv_head l = npos \<longleftrightarrow> xs = []"
    using h assms(2) by (metis hd_in_set)
qed

section \<open>Updating the levels of one side\<close>

lemmas price_in_put = price_keys.in_put [simplified]
lemmas price_in_erase = price_keys.in_erase [simplified]
lemmas price_keys_put = price_keys.keys_put [simplified]
lemmas price_keys_erase = price_keys.keys_erase [simplified]

lemma om_put_key:
  "p \<in> om_keys m \<Longrightarrow> om_keys (om_put (better sd) p l m) = om_keys m"
  by (auto simp: price_keys_put)

lemma levels_rep_put:
  assumes "om_ordered (better sd) m" and "levels_rep N m g"
    and "level_ok N' l xs"
    and frame: "\<And>q l. q \<noteq> p \<Longrightarrow> level_ok N l (g q) \<Longrightarrow> level_ok N' l (g q)"
  shows "levels_rep N' (om_put (better sd) p l m) (g(p := xs))"
  using assms by (fastforce simp: levels_rep_def price_in_put price_keys_put split: if_splits)

lemma levels_rep_erase:
  assumes "om_ordered (better sd) m" and "levels_rep N m g"
    and frame: "\<And>q l. q \<noteq> p \<Longrightarrow> level_ok N l (g q) \<Longrightarrow> level_ok N' l (g q)"
  shows "levels_rep N' (om_erase (better sd) p m) (g(p := []))"
  using assms by (fastforce simp: levels_rep_def price_in_erase price_keys_erase)

lemma levels_rep_frame:
  assumes "levels_rep N m g" and "\<And>q l. level_ok N l (g q) \<Longrightarrow> level_ok N' l (g q)"
  shows "levels_rep N' m g"
  using assms by (auto simp: levels_rep_def)

lemma level_ok_cong:
  assumes "\<And>i. i \<in> set xs \<Longrightarrow> nd_prev (N' i) = nd_prev (N i) \<and> nd_next (N' i) = nd_next (N i) \<and>
     nd_remaining (N' i) = nd_remaining (N i)"
  shows "level_ok N' l xs \<longleftrightarrow> level_ok N l xs"
proof -
  have "dseg N' npos (lv_head l) xs npos (lv_tail l) \<longleftrightarrow> dseg N npos (lv_head l) xs npos (lv_tail l)"
    using assms by (intro dseg_cong) auto
  moreover have "map (\<lambda>i. nd_remaining (N' i)) xs = map (\<lambda>i. nd_remaining (N i)) xs"
    using assms by simp
  ultimately show ?thesis unfolding level_ok_def by argo
qed

section \<open>Taking an order out\<close>

definition order_fields ::
  "node \<Rightarrow> order_id \<times> client_id \<times> price \<times> quantity \<times> side \<times> bool" where
  "order_fields n = (nd_id n, nd_client_id n, nd_price n, nd_remaining n, nd_side n, nd_active n)"

lemma order_fields_links [simp]:
  "order_fields (n\<lparr>nd_prev := x\<rparr>) = order_fields n"
  "order_fields (n\<lparr>nd_next := x\<rparr>) = order_fields n"
  by (simp_all add: order_fields_def)

lemma order_fields_eqD:
  assumes "order_fields m = order_fields n"
  shows "nd_id m = nd_id n" "nd_client_id m = nd_client_id n" "nd_price m = nd_price n"
    "nd_remaining m = nd_remaining n" "nd_side m = nd_side n" "nd_active m = nd_active n"
  using assms by (simp_all add: order_fields_def)

lemma finite_valid: "finite {i. valid_index b i}"
  by (rule finite)

lemma finite_live [simp]: "finite (live b)"
  by (rule finite)

lemma card_live_less: "book_rep b G \<Longrightarrow> card (live b) < 2 ^ 32"
proof -
  assume rep: "book_rep b G"
  have "unat ` live b \<subseteq> {0..<length (nodes b)}"
    by (auto simp: live_def valid_index_def)
  then have "card (unat ` live b) \<le> length (nodes b)"
    using card_mono [of "{0..<length (nodes b)}" "unat ` live b"] by simp
  moreover have "card (unat ` live b) = card (live b)"
    by (rule card_image) (auto simp: inj_on_def word_unat_eq_iff)
  ultimately show ?thesis using rep by (simp add: book_rep_def)
qed

lemma empty_node_inactive [simp]: "nd_active empty_node = False"
  by (simp add: empty_node_def)

lemma rep_remove:
  assumes rep: "book_rep b G" and i: "i \<in> live b"
    and key: "nd_side (node_at b i) = sd" "nd_price (node_at b i) = p"
    and xs: "xs = remove1 i (G sd p)"
    and len: "length (nodes b') = length (nodes b)"
    and gone: "node_at b' i = empty_node"
    and same: "\<And>j. j \<noteq> i \<Longrightarrow> order_fields (node_at b' j) = order_fields (node_at b j)"
    and frame: "\<And>j. j \<noteq> i \<Longrightarrow> j \<notin> set xs \<Longrightarrow> node_at b' j = node_at b j"
    and level: "(\<exists>l. levels_of sd b' = om_put (better sd) p l (levels_of sd b) \<and>
                    level_ok (node_at b') l xs) \<or>
                (levels_of sd b' = om_erase (better sd) p (levels_of sd b) \<and> xs = [])"
    and other: "levels_of (opposite sd) b' = levels_of (opposite sd) b"
    and free: "free_list b' = free_list b @ [i]"
    and ids: "by_id b' = (by_id b)(nd_id (node_at b i) := None)"
    and count: "active_count b' = active_count b - 1"
  shows "book_rep b' (G(sd := (G sd)(p := xs)))"
proof -
  note same = same [THEN order_fields_eqD(1)] same [THEN order_fields_eqD(3)]
    same [THEN order_fields_eqD(4)] same [THEN order_fields_eqD(5)]
    same [THEN order_fields_eqD(6)]
  have valid [simp]: "valid_index b' j = valid_index b j" for j
    by (simp add: valid_index_def len)
  have vi: "valid_index b i" and act: "nd_active (node_at b i)" using i by (simp_all add: live_def)
  have live': "live b' = live b - {i}"
  proof -
    have "nd_active (node_at b' j) \<longleftrightarrow> j \<noteq> i \<and> nd_active (node_at b j)" for j
      using gone same(5) [of j] by (cases "j = i") simp_all
    then show ?thesis by (auto simp: live_def)
  qed
  have setxs: "set xs = set (G sd p) - {i}"
    using book_repD(6) [OF rep] by (simp add: xs)
  have keep: "level_ok (node_at b') l (G sd' q)"
    if "level_ok (node_at b) l (G sd' q)" "(sd', q) \<noteq> (sd, p)" for l sd' q
  proof -
    have "node_at b' j = node_at b j" if j: "j \<in> set (G sd' q)" for j
    proof -
      have "nd_side (node_at b j) = sd'" "nd_price (node_at b j) = q"
        using book_repD(4) [OF rep j] by auto
      then have "j \<noteq> i" "j \<notin> set xs"
        using key \<open>(sd', q) \<noteq> (sd, p)\<close> setxs book_repD(4) [OF rep, of j sd p] by auto
      then show ?thesis by (rule frame)
    qed
    then show ?thesis using that(1) by (subst level_ok_cong [of _ _ "node_at b"]) auto
  qed
  have lv: "levels_rep (node_at b') (levels_of sd' b') ((G(sd := (G sd)(p := xs))) sd')" for sd'
  proof (cases "sd' = sd")
    case True
    from level show ?thesis
    proof
      assume "\<exists>l. levels_of sd b' = om_put (better sd) p l (levels_of sd b) \<and>
                    level_ok (node_at b') l xs"
      with True book_repD(7,8) [OF rep] show ?thesis
        by (auto intro!: levels_rep_put keep)
    next
      assume "levels_of sd b' = om_erase (better sd) p (levels_of sd b) \<and> xs = []"
      with True book_repD(7,8) [OF rep] show ?thesis
        by (auto intro!: levels_rep_erase keep)
    qed
  next
    case False
    then have "levels_of sd' b' = levels_of sd' b" using other by (cases sd; cases sd') auto
    with False book_repD(8) [OF rep, of sd'] show ?thesis
      by (auto elim!: levels_rep_frame intro: keep)
  qed
  have ord: "om_ordered (better sd') (levels_of sd' b')" for sd'
  proof (cases "sd' = sd")
    case True
    with level book_repD(7) [OF rep, of sd] show ?thesis
      by (auto simp: price_keys.ordered_put price_keys.ordered_erase)
  next
    case False
    then have "levels_of sd' b' = levels_of sd' b" using other by (cases sd; cases sd') auto
    with book_repD(7) [OF rep] show ?thesis by simp
  qed
  have "of_nat (card (live b')) = (of_nat (card (live b)) - 1 :: u64)"
  proof -
    have "0 < card (live b)" using i by (auto simp: card_gt_0_iff)
    then obtain n where "card (live b) = Suc n" using gr0_implies_Suc by blast
    with i show ?thesis by (simp add: live')
  qed
  moreover have inot: "i \<notin> set (free_list b)" using rep vi act by (simp add: book_rep_def)
  moreover have "j \<in> set (free_list b @ [i]) \<longleftrightarrow> valid_index b j \<and> \<not> nd_active (node_at b' j)" for j
    using rep vi gone same(5) [of j] by (cases "j = i") (simp_all add: book_rep_def)
  moreover have "j \<in> set ((G(sd := (G sd)(p := xs))) s q) \<longleftrightarrow>
      j \<in> live b' \<and> nd_side (node_at b' j) = s \<and> nd_price (node_at b' j) = q" for j s q
    using rep key setxs same(2,4) [of j] by (cases "j = i") (auto simp: live' book_rep_def)
  moreover have "distinct ((G(sd := (G sd)(p := xs))) s q)" for s q
    using book_repD(6) [OF rep] by (simp add: xs)
  moreover have "by_id b' oid = Some j \<longleftrightarrow> j \<in> live b' \<and> nd_id (node_at b' j) = oid" for oid j
  proof -
    have id: "by_id b oid = Some j \<longleftrightarrow> j \<in> live b \<and> nd_id (node_at b j) = oid" for oid j
      using rep by (simp add: book_rep_def)
    from id [of oid j] id [of "nd_id (node_at b i)" i] i same(1) [of j] show ?thesis
      by (cases "j = i") (auto simp: ids live')
  qed
  moreover have "\<forall>j \<in> live b'. nd_remaining (node_at b' j) \<noteq> 0 \<and> 0 < nd_price (node_at b' j)"
    using rep same(2,3) by (auto simp: live' book_rep_def)
  ultimately show ?thesis
    using rep lv ord unfolding book_rep_def len free count valid by simp
qed

lemma unlink_frame [simp]:
  "symbol (unlink i b) = symbol b" "free_list (unlink i b) = free_list b"
  "by_id (unlink i b) = by_id b" "active_count (unlink i b) = active_count b"
  "sequence (unlink i b) = sequence b" "stp (unlink i b) = stp b"
  "trade_handler (unlink i b) = trade_handler b"
  "report_handler (unlink i b) = report_handler b" "out (unlink i b) = out b"
  "length (nodes (unlink i b)) = length (nodes b)"
  by (simp_all add: unlink_def Let_def split: option.split)

lemma unlink_effect:
  assumes rep: "book_rep b G" and i: "i \<in> live b"
    and key: "nd_side (node_at b i) = sd" "nd_price (node_at b i) = p"
    and G: "G sd p = xs @ i # ys"
  defines "b' \<equiv> unlink i b"
  shows "node_at b' i = node_at b i"
    and "\<And>j. order_fields (node_at b' j) = order_fields (node_at b j)"
    and "\<And>j. j \<notin> set (xs @ ys) \<Longrightarrow> node_at b' j = node_at b j"
    and "(\<exists>l. levels_of sd b' = om_put (better sd) p l (levels_of sd b) \<and>
            level_ok (node_at b') l (xs @ ys) \<and> xs @ ys \<noteq> []) \<or>
         (levels_of sd b' = om_erase (better sd) p (levels_of sd b) \<and> xs @ ys = [])"
    and "levels_of (opposite sd) b' = levels_of (opposite sd) b"
proof -
  define N where "N = node_at b"
  have mem: "i \<in> set (G sd p)" by (simp add: G)
  have "p \<in> om_keys (levels_of sd b)" using live_key [OF rep i] key by simp
  then obtain l where find: "om_find (better sd) p (levels_of sd b) = Some l"
    using find_at_key [OF book_repD(7) [OF rep]] by metis
  have lok: "level_ok N l (xs @ i # ys)"
    using levels_rep_find(1) [OF book_repD(7,8) [OF rep] find] by (simp add: G N_def)
  have dist: "distinct (xs @ i # ys)" and np: "npos \<notin> set (xs @ i # ys)"
    using book_repD(2,6) [OF rep, of sd p] by (simp_all add: G)
  have seg: "dseg N npos (lv_head l) (xs @ i # ys) npos (lv_tail l)"
    using lok by (simp add: level_ok_def)
  define P where "P = nd_prev (N i)"
  define Q where "Q = nd_next (N i)"
  define N1 where "N1 = (if P \<noteq> npos then N(P := N P\<lparr>nd_next := Q\<rparr>) else N)"
  define N2 where "N2 = (if Q \<noteq> npos then N1(Q := N1 Q\<lparr>nd_prev := P\<rparr>) else N1)"
  note rem = dseg_remove [OF seg dist np, folded P_def Q_def, folded N1_def, folded N2_def]
  have Pin: "P \<noteq> npos \<Longrightarrow> P \<in> set xs" and Qin: "Q \<noteq> npos \<Longrightarrow> Q \<in> set ys"
    using rem by auto
  have ok: "\<And>j. j \<in> set (xs @ i # ys) \<Longrightarrow> valid_index b j"
    using book_repD(3) [OF rep, of _ sd p] by (simp add: G)
  have ne: "P \<noteq> npos \<Longrightarrow> i \<noteq> P" "Q \<noteq> npos \<Longrightarrow> i \<noteq> Q" "P \<noteq> npos \<Longrightarrow> Q \<noteq> npos \<Longrightarrow> P \<noteq> Q"
    using Pin Qin dist by auto
  define l' where "l' = l\<lparr>lv_head := (if P \<noteq> npos then lv_head l else Q),
      lv_tail := (if Q \<noteq> npos then lv_tail l else P),
      lv_total := lv_total l - nd_remaining (N i), lv_order_count := lv_order_count l - 1\<rparr>"
  have eff: "node_at b' = N2 \<and> levels_of (opposite sd) b' = levels_of (opposite sd) b \<and>
      levels_of sd b' = (if lv_head l' = npos then om_erase (better sd) p (levels_of sd b)
        else om_put (better sd) p l' (levels_of sd b))"
  proof -
    have links: "nd_prev (node_at b i) = P" "nd_next (node_at b i) = Q"
      by (simp_all add: P_def Q_def N_def)
    have "P \<noteq> npos \<Longrightarrow> valid_index b P" "Q \<noteq> npos \<Longrightarrow> valid_index b Q"
      using ok Pin Qin by auto
    then show ?thesis
      unfolding b'_def unlink_def using ne find
      by (cases "P = npos"; cases "Q = npos")
        (simp_all add: key links N1_def N2_def l'_def N_def)
  qed
  show "node_at b' i = node_at b i"
    using eff ne by (simp add: N2_def N1_def N_def)
  show "order_fields (node_at b' j) = order_fields (node_at b j)" for j
    using eff by (simp add: N2_def N1_def N_def)
  show "node_at b' j = node_at b j" if "j \<notin> set (xs @ ys)" for j
    using eff Pin Qin that by (auto simp: N2_def N1_def N_def)
  have "(\<Sum>j\<leftarrow>ks. nd_remaining (N2 j)) = (\<Sum>j\<leftarrow>ks. nd_remaining (N j))" for ks
    by (rule arg_cong [of _ _ sum_list]) (simp add: N2_def N1_def)
  then have lok': "level_ok N2 l' (xs @ ys)"
    using rem(1) lok by (simp add: level_ok_def l'_def)
  have "lv_head l' = npos \<longleftrightarrow> xs @ ys = []"
    using level_ok_head(1) [OF lok'] np by simp
  with eff lok' show "(\<exists>l. levels_of sd b' = om_put (better sd) p l (levels_of sd b) \<and>
            level_ok (node_at b') l (xs @ ys) \<and> xs @ ys \<noteq> []) \<or>
         (levels_of sd b' = om_erase (better sd) p (levels_of sd b) \<and> xs @ ys = [])"
    by (cases "xs @ ys = []") auto
  show "levels_of (opposite sd) b' = levels_of (opposite sd) b" using eff by simp
qed

lemma no_empty_levelI:
  assumes "no_empty_level b G"
    and "\<And>sd' q. (sd', q) \<noteq> (sd, p) \<Longrightarrow> q \<in> om_keys (levels_of sd' b') \<Longrightarrow> q \<in> om_keys (levels_of sd' b)"
    and "p \<in> om_keys (levels_of sd b') \<Longrightarrow> xs \<noteq> []"
  shows "no_empty_level b' (G(sd := (G sd)(p := xs)))"
  unfolding no_empty_level_def
proof (intro allI ballI)
  fix s q assume q: "q \<in> om_keys (levels_of s b')"
  show "(G(sd := (G sd)(p := xs))) s q \<noteq> []"
  proof (cases "(s, q) = (sd, p)")
    case False
    with q assms(1,2) show ?thesis by (auto simp: no_empty_level_def)
  qed (use q assms(3) in simp)
qed

lemma remove1_split: "distinct (xs @ i # ys) \<Longrightarrow> remove1 i (xs @ i # ys) = xs @ ys"
  by (simp add: remove1_append)

lemma remove_frame [simp]:
  "symbol (remove_without_report i b) = symbol b"
  "sequence (remove_without_report i b) = sequence b" "stp (remove_without_report i b) = stp b"
  "trade_handler (remove_without_report i b) = trade_handler b"
  "report_handler (remove_without_report i b) = report_handler b"
  "out (remove_without_report i b) = out b"
  "length (nodes (remove_without_report i b)) = length (nodes b)"
  by (simp_all add: remove_without_report_def release_node_def Let_def)

lemma node_at_free_list [simp]: "node_at (b\<lparr>free_list := f\<rparr>) = node_at b"
  by (simp add: fun_eq_iff node_at_def)

lemma levels_of_free_list [simp]: "levels_of sd (b\<lparr>free_list := f\<rparr>) = levels_of sd b"
  by (cases sd) simp_all

lemma release_frame [simp]:
  "levels_of sd (release_node i b) = levels_of sd b" "by_id (release_node i b) = by_id b"
  "active_count (release_node i b) = active_count b"
  "free_list (release_node i b) = free_list b @ [i]"
  "length (nodes (release_node i b)) = length (nodes b)"
  "valid_index b i \<Longrightarrow> node_at (release_node i b) = (node_at b)(i := empty_node)"
  by (simp_all add: release_node_def Let_def)

lemma by_id_active_frame [simp]:
  "node_at (b\<lparr>by_id := f\<rparr>) = node_at b" "node_at (b\<lparr>active_count := c\<rparr>) = node_at b"
  "levels_of sd (b\<lparr>by_id := f\<rparr>) = levels_of sd b"
  "levels_of sd (b\<lparr>active_count := c\<rparr>) = levels_of sd b"
  "valid_index (b\<lparr>by_id := f\<rparr>) i = valid_index b i"
  "valid_index (b\<lparr>active_count := c\<rparr>) i = valid_index b i"
  by (cases sd; simp add: fun_eq_iff node_at_def valid_index_def)+

lemma rep_remove_without_report:
  assumes rep: "book_rep b G" and i: "i \<in> live b"
    and key: "nd_side (node_at b i) = sd" "nd_price (node_at b i) = p"
  defines "b' \<equiv> remove_without_report i b" and "xs \<equiv> remove1 i (G sd p)"
  shows "book_rep b' (G(sd := (G sd)(p := xs)))"
    and "levels_of (opposite sd) b' = levels_of (opposite sd) b"
    and "om_keys (levels_of sd b') = om_keys (levels_of sd b) - (if xs = [] then {p} else {})"
    and "\<And>j. j \<noteq> i \<Longrightarrow> order_fields (node_at b' j) = order_fields (node_at b j)"
    and "map fst (levels_of sd b') =
      (if xs = [] then remove1 p (map fst (levels_of sd b)) else map fst (levels_of sd b))"
proof -
  from book_repD(5) [OF rep i] key have "i \<in> set (G sd p)" by simp
  then obtain us vs where G: "G sd p = us @ i # vs" by (auto dest: split_list)
  then have xs: "xs = us @ vs"
    using book_repD(6) [OF rep, of sd p] by (simp add: xs_def remove1_split)
  note eff = unlink_effect [OF rep i key G]
  have vi: "valid_index (unlink i b) i" using i by (simp add: live_def valid_index_def)
  have nodes: "node_at b' = (node_at (unlink i b))(i := empty_node)"
    using vi by (simp add: b'_def remove_without_report_def Let_def)
  have lv: "levels_of s b' = levels_of s (unlink i b)" for s
    by (simp add: b'_def remove_without_report_def Let_def)
  have notin: "i \<notin> set xs" using book_repD(6) [OF rep, of sd p] by (simp add: G xs)
  show same: "order_fields (node_at b' j) = order_fields (node_at b j)" if "j \<noteq> i" for j
    using that eff(2) by (simp add: nodes)
  have level: "(\<exists>l. levels_of sd b' = om_put (better sd) p l (levels_of sd b) \<and>
                    level_ok (node_at b') l xs \<and> xs \<noteq> []) \<or>
                (levels_of sd b' = om_erase (better sd) p (levels_of sd b) \<and> xs = [])"
  proof -
    have "level_ok (node_at b') l xs \<longleftrightarrow> level_ok (node_at (unlink i b)) l xs" for l
      using notin by (intro level_ok_cong) (auto simp: nodes)
    then show ?thesis using eff(4) by (simp add: lv xs)
  qed
  show "book_rep b' (G(sd := (G sd)(p := xs)))"
  proof (rule rep_remove [OF rep i key xs_def [THEN meta_eq_to_obj_eq] _ _ same])
    show "node_at b' j = node_at b j" if "j \<noteq> i" "j \<notin> set xs" for j
      using that eff(3) by (simp add: nodes xs)
    show "levels_of (opposite sd) b' = levels_of (opposite sd) b" by (simp add: lv eff(5))
    show "free_list b' = free_list b @ [i]" "by_id b' = (by_id b)(nd_id (node_at b i) := None)"
      "active_count b' = active_count b - 1"
      by (simp_all add: b'_def remove_without_report_def Let_def eff(1))
  qed (use level nodes in \<open>auto simp: b'_def\<close>)
  show "levels_of (opposite sd) b' = levels_of (opposite sd) b" by (simp add: lv eff(5))
  have pin: "p \<in> om_keys (levels_of sd b)" using live_key [OF rep i] key by simp
  have ord: "om_ordered (better sd) (levels_of sd b)" by (rule book_repD(7) [OF rep])
  from find_at_key [OF ord pin] obtain ls l ls' where
    m: "levels_of sd b = ls @ (p, l) # ls'" by metis
  have d: "distinct (map fst (levels_of sd b))" by (rule price_keys.ordered_distinct [OF ord]) simp
  then have "p \<notin> fst ` set ls" by (auto simp: m)
  then have [simp]: "remove1 p (map fst ls @ p # map fst ls') = map fst ls @ map fst ls'"
    by (simp add: remove1_append)
  show "map fst (levels_of sd b') =
      (if xs = [] then remove1 p (map fst (levels_of sd b)) else map fst (levels_of sd b))"
    using level ord by (auto simp: m price_split_simps)
  show "om_keys (levels_of sd b') = om_keys (levels_of sd b) - (if xs = [] then {p} else {})"
    using level ord pin by (auto simp: om_put_key price_keys_erase)
qed

section \<open>Changing a quantity in place\<close>

lemma sum_list_change:
  fixes f g :: "'a \<Rightarrow> 'b :: ab_group_add"
  assumes "distinct xs" and "i \<in> set xs" and "\<And>j. j \<noteq> i \<Longrightarrow> g j = f j"
  shows "(\<Sum>j\<leftarrow>xs. g j) = (\<Sum>j\<leftarrow>xs. f j) - (f i - g i)"
proof -
  obtain us vs where xs: "xs = us @ i # vs" using assms(2) by (auto dest: split_list)
  with assms(1) have "i \<notin> set us" "i \<notin> set vs" by auto
  then have "sum_list (map g us) = sum_list (map f us)" "sum_list (map g vs) = sum_list (map f vs)"
    by (metis assms(3) map_cong)+
  then show ?thesis by (simp add: xs algebra_simps)
qed

lemma rep_requantity:
  assumes rep: "book_rep b G" and i: "i \<in> live b"
    and key: "nd_side (node_at b i) = sd" "nd_price (node_at b i) = p"
    and find: "om_find (better sd) p (levels_of sd b) = Some l"
    and q: "q \<noteq> 0"
    and nodes: "node_at b' = (node_at b)(i := node_at b i\<lparr>nd_remaining := q\<rparr>)"
    and len: "length (nodes b') = length (nodes b)"
    and level: "levels_of sd b' = om_put (better sd) p
      (l\<lparr>lv_total := lv_total l - (nd_remaining (node_at b i) - q)\<rparr>) (levels_of sd b)"
    and other: "levels_of (opposite sd) b' = levels_of (opposite sd) b"
    and rest: "free_list b' = free_list b" "by_id b' = by_id b" "active_count b' = active_count b"
  shows "book_rep b' G"
proof -
  have valid [simp]: "valid_index b' j = valid_index b j" for j
    by (simp add: valid_index_def len)
  have live': "live b' = live b" by (auto simp: live_def nodes)
  have ord: "om_ordered (better sd') (levels_of sd' b')" for sd'
    using book_repD(7) [OF rep, of sd'] level other
    by (cases sd'; cases sd) (auto simp: price_keys.ordered_put)
  have keep: "level_ok (node_at b') k (G sd' q')"
    if "level_ok (node_at b) k (G sd' q')" "(sd', q') \<noteq> (sd, p)" for k sd' q'
  proof -
    have "i \<notin> set (G sd' q')" using book_repD(4) [OF rep, of i sd' q'] that(2) key by auto
    with that(1) show ?thesis by (subst level_ok_cong [of _ _ "node_at b"]) (auto simp: nodes)
  qed
  have "level_ok (node_at b) l (G sd p)"
    by (rule levels_rep_find(1) [OF book_repD(7,8) [OF rep] find])
  then have here: "level_ok (node_at b')
      (l\<lparr>lv_total := lv_total l - (nd_remaining (node_at b i) - q)\<rparr>) (G sd p)"
    using sum_list_change [OF book_repD(6) [OF rep, of sd p], of i
        "\<lambda>j. nd_remaining (node_at b' j)" "\<lambda>j. nd_remaining (node_at b j)"]
      book_repD(5) [OF rep i] key
      dseg_cong [of "G sd p" "node_at b'" "node_at b" npos "lv_head l" npos "lv_tail l"]
    by (simp add: level_ok_def nodes)
  have lv: "levels_rep (node_at b') (levels_of sd' b') (G sd')" for sd'
  proof (cases "sd' = sd")
    case True
    have "levels_rep (node_at b') (levels_of sd b') ((G sd)(p := G sd p))"
      unfolding level by (rule levels_rep_put [OF book_repD(7,8) [OF rep] here]) (auto intro: keep)
    with True show ?thesis by simp
  next
    case False
    then have "levels_of sd' b' = levels_of sd' b" using other by (cases sd; cases sd') auto
    with False book_repD(8) [OF rep, of sd'] show ?thesis
      by (auto elim!: levels_rep_frame intro: keep)
  qed
  show ?thesis
    using rep lv ord unfolding book_rep_def live' len rest valid
    by (simp add: nodes q)
qed

section \<open>Appending an order\<close>

lemma rep_append:
  assumes rep: "book_rep b G" and i: "free_list b = fs @ [i]"
    and new: "order_fields (node_at b' i) = (oid, cid, p, q, sd, True)"
    and ok: "q \<noteq> 0" "0 < p" "by_id b oid = None"
    and xs: "xs = G sd p @ [i]"
    and len: "length (nodes b') = length (nodes b)"
    and same: "\<And>j. j \<noteq> i \<Longrightarrow> order_fields (node_at b' j) = order_fields (node_at b j)"
    and frame: "\<And>j. j \<noteq> i \<Longrightarrow> j \<notin> set (G sd p) \<Longrightarrow> node_at b' j = node_at b j"
    and level: "levels_of sd b' = om_put (better sd) p l (levels_of sd b)"
      "level_ok (node_at b') l xs"
    and other: "levels_of (opposite sd) b' = levels_of (opposite sd) b"
    and free: "free_list b' = fs"
    and ids: "by_id b' = (by_id b)(oid \<mapsto> i)"
    and count: "active_count b' = active_count b + 1"
  shows "book_rep b' (G(sd := (G sd)(p := xs)))" and "live b' = insert i (live b)" and "i \<notin> live b"
proof -
  note same = same [THEN order_fields_eqD(1)] same [THEN order_fields_eqD(3)]
    same [THEN order_fields_eqD(4)] same [THEN order_fields_eqD(5)]
    same [THEN order_fields_eqD(6)]
  have new: "nd_id (node_at b' i) = oid" "nd_price (node_at b' i) = p"
    "nd_remaining (node_at b' i) = q" "nd_side (node_at b' i) = sd" "nd_active (node_at b' i)"
    using new by (simp_all add: order_fields_def)
  have valid [simp]: "valid_index b' j = valid_index b j" for j
    by (simp add: valid_index_def len)
  have "i \<in> set (free_list b)" by (simp add: i)
  then have vi: "valid_index b i" and act: "\<not> nd_active (node_at b i)"
    using rep by (simp_all add: book_rep_def)
  then show nl: "i \<notin> live b" by (simp add: live_def)
  have actv: "nd_active (node_at b' j) \<longleftrightarrow> j = i \<or> nd_active (node_at b j)" for j
    using new(5) same(5) [of j] by (cases "j = i") simp_all
  show live': "live b' = insert i (live b)"
    using vi actv by (auto simp: live_def)
  have notin: "i \<notin> set (G s r)" for s r using book_repD(4) [OF rep, of i s r] nl by blast
  have keep: "level_ok (node_at b') k (G sd' q')"
    if "level_ok (node_at b) k (G sd' q')" "(sd', q') \<noteq> (sd, p)" for k sd' q'
  proof -
    have "node_at b' j = node_at b j" if j: "j \<in> set (G sd' q')" for j
    proof -
      have "j \<notin> set (G sd p)"
        using book_repD(4) [OF rep j] book_repD(4) [OF rep, of j sd p] \<open>(sd', q') \<noteq> (sd, p)\<close>
        by auto
      with notin j show ?thesis by (intro frame) auto
    qed
    then show ?thesis using that(1) by (subst level_ok_cong [of _ _ "node_at b"]) auto
  qed
  have lv: "levels_rep (node_at b') (levels_of sd' b') ((G(sd := (G sd)(p := xs))) sd')" for sd'
  proof (cases "sd' = sd")
    case True
    with level book_repD(7,8) [OF rep] show ?thesis
      by (auto intro!: levels_rep_put keep)
  next
    case False
    then have "levels_of sd' b' = levels_of sd' b" using other by (cases sd; cases sd') auto
    with False book_repD(8) [OF rep, of sd'] show ?thesis
      by (auto elim!: levels_rep_frame intro: keep)
  qed
  have ord: "om_ordered (better sd') (levels_of sd' b')" for sd'
    using book_repD(7) [OF rep, of sd'] level(1) other
    by (cases sd'; cases sd) (auto simp: price_keys.ordered_put)
  have "of_nat (card (live b')) = (of_nat (card (live b)) + 1 :: u64)"
    using nl by (simp add: live')
  moreover have fr: "distinct fs" "i \<notin> set fs" using rep i by (auto simp: book_rep_def)
  moreover have "j \<in> set fs \<longleftrightarrow> valid_index b j \<and> \<not> nd_active (node_at b' j)" for j
  proof -
    have "j \<in> set (fs @ [i]) \<longleftrightarrow> valid_index b j \<and> \<not> nd_active (node_at b j)"
      using rep by (simp add: book_rep_def flip: i)
    then show ?thesis using fr(2) by (auto simp: actv)
  qed
  moreover have "j \<in> set ((G(sd := (G sd)(p := xs))) s r) \<longleftrightarrow>
      j \<in> live b' \<and> nd_side (node_at b' j) = s \<and> nd_price (node_at b' j) = r" for j s r
  proof (cases "j = i")
    case True
    with new notin show ?thesis by (auto simp: live' xs)
  next
    case False
    with rep same(2,4) [of j] show ?thesis by (auto simp: live' xs book_rep_def)
  qed
  moreover have "distinct ((G(sd := (G sd)(p := xs))) s r)" for s r
    using book_repD(6) [OF rep] notin by (simp add: xs)
  moreover have "by_id b' o' = Some j \<longleftrightarrow> j \<in> live b' \<and> nd_id (node_at b' j) = o'" for o' j
  proof -
    have id: "by_id b o' = Some j \<longleftrightarrow> j \<in> live b \<and> nd_id (node_at b j) = o'" for o' j
      using rep by (simp add: book_rep_def)
    from id [of o' j] id [of oid j] ok(3) nl new(1) same(1) [of j] show ?thesis
      by (cases "j = i") (auto simp: ids live')
  qed
  moreover have "nd_remaining (node_at b' j) \<noteq> 0 \<and> 0 < nd_price (node_at b' j)"
    if "j \<in> live b'" for j
    using rep same(2,3) [of j] new ok that
    by (cases "j = i") (simp_all add: live' book_rep_def)
  ultimately show "book_rep b' (G(sd := (G sd)(p := xs)))"
    using rep lv ord unfolding book_rep_def len free count valid by simp
qed

lemma append_node_frame [simp]:
  "symbol (append_node i r q b) = symbol b" "free_list (append_node i r q b) = free_list b"
  "by_id (append_node i r q b) = by_id b" "active_count (append_node i r q b) = active_count b"
  "sequence (append_node i r q b) = sequence b" "stp (append_node i r q b) = stp b"
  "trade_handler (append_node i r q b) = trade_handler b"
  "report_handler (append_node i r q b) = report_handler b"
  "out (append_node i r q b) = out b" "length (nodes (append_node i r q b)) = length (nodes b)"
  by (simp_all add: append_node_def Let_def split: option.split)

definition order_node :: "order_request \<Rightarrow> quantity \<Rightarrow> node" where
  "order_node r q = \<lparr>nd_id = rq_order_id r, nd_client_id = rq_client_id r,
     nd_price = rq_price r, nd_remaining = q, nd_prev = npos, nd_next = npos,
     nd_side = rq_side r, nd_active = True\<rparr>"

lemma rest_full: "free_list b = [] \<Longrightarrow> rest r q b = (Inl OrderCapacityExceeded, b)"
  by (simp add: rest_def allocate_node_def)

lemma rep_rest:
  assumes rep: "book_rep b G" and i: "free_list b = fs @ [i]"
    and ok: "q \<noteq> 0" "0 < rq_price r" "by_id b (rq_order_id r) = None"
  defines "sd \<equiv> rq_side r" and "p \<equiv> rq_price r"
  obtains b' where "rest r q b = (Inr (), b')"
    and "book_rep b' (G(sd := (G sd)(p := G sd p @ [i])))"
    and "\<forall>j. j \<noteq> i \<longrightarrow> order_fields (node_at b' j) = order_fields (node_at b j)"
    and "order_fields (node_at b' i) =
      (rq_order_id r, rq_client_id r, rq_price r, q, rq_side r, True)"
    and "levels_of (opposite sd) b' = levels_of (opposite sd) b"
    and "\<exists>l. levels_of sd b' = om_put (better sd) p l (levels_of sd b)"
    and "i \<notin> live b" and "live b' = insert i (live b)"
    and "symbol b' = symbol b" "sequence b' = sequence b" "stp b' = stp b"
      "trade_handler b' = trade_handler b" "report_handler b' = report_handler b" "out b' = out b"
      "free_list b' = fs" "length (nodes b') = length (nodes b)"
proof -
  define b1 where "b1 = set_node i (order_node r q) (b\<lparr>free_list := fs\<rparr>)"
  define b2 where "b2 = append_node i r q b1"
  define b' where "b' = b2\<lparr>by_id := (by_id b2)(rq_order_id r \<mapsto> i), active_count := active_count b2 + 1\<rparr>"
  have eq: "rest r q b = (Inr (), b')"
    by (simp add: rest_def allocate_node_def i b1_def b2_def b'_def order_node_def Let_def)
  have "i \<in> set (free_list b)" by (simp add: i)
  then have vi: "valid_index b i" and inact: "\<not> nd_active (node_at b i)"
    using rep by (simp_all add: book_rep_def)
  have vi1: "valid_index (b\<lparr>free_list := fs\<rparr>) i" using vi by (simp add: valid_index_def)
  have N1: "node_at b1 = (node_at b)(i := order_node r q)" using vi1 by (simp add: b1_def)
  have lv1: "levels_of s b1 = levels_of s b" for s by (simp add: b1_def)
  have ord: "om_ordered (better sd) (levels_of sd b)" by (rule book_repD(7) [OF rep])
  define l where "l = (case om_find (better sd) p (levels_of sd b) of None \<Rightarrow> empty_level | Some l \<Rightarrow> l)"
  have lok: "level_ok (node_at b) l (G sd p)"
  proof (cases "om_find (better sd) p (levels_of sd b)")
    case None
    from levels_rep_find(2) [OF ord book_repD(8) [OF rep] None] None show ?thesis
      by (simp add: l_def level_ok_def empty_level_def)
  next
    case (Some k)
    from levels_rep_find(1) [OF ord book_repD(8) [OF rep] Some] Some show ?thesis by (simp add: l_def)
  qed
  have inot: "i \<notin> set (G sd p)" using book_repD(4) [OF rep, of i sd p] inact by (auto simp: live_def)
  have npi: "i \<noteq> npos" using vi book_repD(1) [OF rep] by auto
  have seg: "dseg (node_at b1) npos (lv_head l) (G sd p) npos (lv_tail l)"
    using lok inot by (simp add: level_ok_def N1)
  define t where "t = lv_tail l"
  define N2 where "N2 = (node_at b1)(i := node_at b1 i\<lparr>nd_prev := t\<rparr>)"
  define N3 where "N3 = (if t \<noteq> npos then N2(t := N2 t\<lparr>nd_next := i\<rparr>) else N2)"
  note snoc = dseg_snoc [OF seg book_repD(6) [OF rep] inot npi book_repD(2) [OF rep], folded t_def,
      folded N2_def, folded N3_def]
  have nxt: "nd_next (node_at b1 i) = npos" by (simp add: N1 order_node_def)
  have tin: "t \<in> set (G sd p)" if "t \<noteq> npos" using snoc(2,3) nxt that by auto
  then have vt: "t \<noteq> npos \<Longrightarrow> valid_index b t \<and> t \<noteq> i"
    using book_repD(3) [OF rep] inot by auto
  define l' where "l' = l\<lparr>lv_head := (if t \<noteq> npos then lv_head l else i), lv_tail := i,
     lv_total := lv_total l + q, lv_order_count := lv_order_count l + 1\<rparr>"
  have vb1: "valid_index b1 j = valid_index b j" for j by (simp add: b1_def valid_index_def)
  have find1: "om_find (better sd) p (om_try_emplace (better sd) p empty_level (levels_of sd b)) = Some l"
    by (simp add: price_keys.find_try_emplace l_def)
  have eff: "node_at b2 = N3 \<and> levels_of (opposite sd) b2 = levels_of (opposite sd) b \<and>
      levels_of sd b2 = om_put (better sd) p l' (levels_of sd b)"
    unfolding b2_def append_node_def
    using find1 vi vt
    by (cases "t = npos")
      (simp_all add: Let_def sd_def [symmetric] p_def [symmetric] lv1 vb1 t_def [symmetric]
        N3_def N2_def l'_def price_keys.put_try_emplace)
  have N': "node_at b' = N3" and lv': "levels_of s b' = levels_of s b2" for s
    using eff by (simp_all add: b'_def)
  have same: "order_fields (node_at b' j) = order_fields (node_at b j)" if "j \<noteq> i" for j
    using that by (simp add: N' N3_def N2_def N1)
  have new: "order_fields (node_at b' i) =
      (rq_order_id r, rq_client_id r, rq_price r, q, rq_side r, True)"
    using vt by (cases "t = npos") (auto simp: N' N3_def N2_def N1 order_node_def order_fields_def)
  have frame: "node_at b' j = node_at b j" if "j \<noteq> i" "j \<notin> set (G sd p)" for j
    using that tin by (auto simp: N' N3_def N2_def N1)
  have sums: "(\<Sum>j\<leftarrow>G sd p. nd_remaining (N3 j)) = (\<Sum>j\<leftarrow>G sd p. nd_remaining (node_at b j))"
  proof -
    have "nd_remaining (N3 j) = nd_remaining (node_at b j)" if "j \<in> set (G sd p)" for j
      using that inot same [of j] by (auto simp: N' [symmetric] dest: order_fields_eqD(4))
    then have "map (\<lambda>j. nd_remaining (N3 j)) (G sd p) = map (\<lambda>j. nd_remaining (node_at b j)) (G sd p)"
      by simp
    then show ?thesis by (rule arg_cong)
  qed
  have ri: "nd_remaining (N3 i) = q" using new by (simp add: order_fields_def N')
  have lok': "level_ok (node_at b') l' (G sd p @ [i])"
    using lok snoc(1) [OF nxt] sums ri by (simp add: level_ok_def l'_def N' t_def)
  have facts: "length (nodes b') = length (nodes b)"
    "levels_of sd b' = om_put (better sd) p l' (levels_of sd b)"
    "levels_of (opposite sd) b' = levels_of (opposite sd) b" "free_list b' = fs"
    "by_id b' = (by_id b)(rq_order_id r \<mapsto> i)" "active_count b' = active_count b + 1"
    using eff by (simp_all add: lv', simp_all add: b'_def b2_def b1_def)
  have ap: "book_rep b' (G(sd := (G sd)(p := G sd p @ [i])))" "live b' = insert i (live b)"
    "i \<notin> live b"
    by (rule rep_append [OF rep i new [folded sd_def p_def] ok(1) _ ok(3) refl facts(1) same frame
          facts(2) lok' facts(3-6)]; use ok in \<open>simp add: p_def\<close>)+
  with eq same new facts ap show thesis
    by (intro that [of b']) (auto simp: b'_def b2_def b1_def)
qed

end
