(* ===== verification/Book_Spec.thy ===== *)
theory Book_Spec
  imports Order_Book
begin

text \<open>
  What the order book promises, with none of its machinery: each side is a list of price levels,
  best first, each level a queue of resting orders, oldest first, and the events of an operation
  are a list that is numbered afterwards. There are no indices, links, free list, level totals or
  id map here. Book\_Refine proves that src/order\_book.cpp implements these operations.
\<close>

record resting =
  ro_id :: order_id
  ro_client :: client_id
  ro_quantity :: quantity

type_synonym queue = "resting list"
type_synonym ladder = "(price \<times> queue) list"

datatype a_event =
    ATrade order_id order_id price quantity side
  | AReport order_id report_status quantity reject_reason

record a_book =
  ab_symbol :: symbol_id
  ab_capacity :: nat
  ab_ladder :: "side \<Rightarrow> ladder"
  ab_stp :: stp_policy
  ab_trades :: bool
  ab_reports :: bool
  ab_sequence :: sequence_no
  ab_out :: "book_event list"

section \<open>Events\<close>

text \<open>Every event takes the next sequence number; a callback that is not installed hears nothing.\<close>

fun number_event :: "symbol_id \<Rightarrow> sequence_no \<Rightarrow> a_event \<Rightarrow> book_event" where
  "number_event sy s (ATrade m t p q sd) =
     EvTrade \<lparr>tr_sequence = s, tr_maker_order_id = m, tr_taker_order_id = t, tr_price = p,
       tr_quantity = q, tr_taker_side = sd, tr_symbol = sy\<rparr>"
| "number_event sy s (AReport i st q re) =
     EvReport \<lparr>er_sequence = s, er_order_id = i, er_status = st, er_remaining = q,
       er_reject_reason = re, er_symbol = sy\<rparr>"

fun is_trade :: "a_event \<Rightarrow> bool" where
  "is_trade (ATrade m t p q sd) = True"
| "is_trade (AReport i st q re) = False"

fun stamp :: "symbol_id \<Rightarrow> bool \<Rightarrow> bool \<Rightarrow> sequence_no \<Rightarrow> a_event list \<Rightarrow> book_event list" where
  "stamp sy tr rp s [] = []"
| "stamp sy tr rp s (e # es) =
     (if (if is_trade e then tr else rp) then [number_event sy (s + 1) e] else []) @
     stamp sy tr rp (s + 1) es"

definition a_emit :: "a_event list \<Rightarrow> a_book \<Rightarrow> a_book" where
  "a_emit es A =
     A\<lparr>ab_sequence := ab_sequence A + of_nat (length es),
       ab_out := ab_out A @
         stamp (ab_symbol A) (ab_trades A) (ab_reports A) (ab_sequence A) es\<rparr>"

definition a_set :: "side \<Rightarrow> ladder \<Rightarrow> a_book \<Rightarrow> a_book" where
  "a_set sd L A = A\<lparr>ab_ladder := (ab_ladder A)(sd := L)\<rparr>"

section \<open>Ladders\<close>

definition ladder_orders :: "ladder \<Rightarrow> queue" where
  "ladder_orders L = concat (map snd L)"

definition a_orders :: "a_book \<Rightarrow> queue" where
  "a_orders A = ladder_orders (ab_ladder A Buy) @ ladder_orders (ab_ladder A Sell)"

definition a_known :: "a_book \<Rightarrow> order_id \<Rightarrow> bool" where
  "a_known A oid \<longleftrightarrow> oid \<in> ro_id ` set (a_orders A)"

text \<open>An order joins the queue of its price, which is created when it is not there.\<close>

fun ladder_insert :: "side \<Rightarrow> price \<Rightarrow> resting \<Rightarrow> ladder \<Rightarrow> ladder" where
  "ladder_insert sd p x [] = [(p, [x])]"
| "ladder_insert sd p x ((k, q) # L) =
     (if better sd p k then (p, [x]) # (k, q) # L
      else if better sd k p then (k, q) # ladder_insert sd p x L
      else (k, q @ [x]) # L)"

text \<open>A queue that becomes empty takes its level with it.\<close>

fun put_queue :: "price \<Rightarrow> queue \<Rightarrow> ladder \<Rightarrow> ladder" where
  "put_queue p [] L = L"
| "put_queue p (x # q) L = (p, x # q) # L"

definition ladder_map :: "(queue \<Rightarrow> queue) \<Rightarrow> ladder \<Rightarrow> ladder" where
  "ladder_map f L = filter (\<lambda>(p, q). q \<noteq> []) (map (\<lambda>(p, q). (p, f q)) L)"

definition ladder_remove :: "order_id \<Rightarrow> ladder \<Rightarrow> ladder" where
  "ladder_remove oid = ladder_map (filter (\<lambda>x. ro_id x \<noteq> oid))"

definition ladder_requantity :: "order_id \<Rightarrow> quantity \<Rightarrow> ladder \<Rightarrow> ladder" where
  "ladder_requantity oid n =
     ladder_map (map (\<lambda>x. if ro_id x = oid then x\<lparr>ro_quantity := n\<rparr> else x))"

section \<open>Matching\<close>

text \<open>
  The taker \<open>t\<close> with \<open>rem\<close> left meets the ladder of the other side: the events, what is left of
  the ladder, what is left of the taker, and how it ended.
\<close>

fun a_match ::
  "stp_policy \<Rightarrow> order_request \<Rightarrow> quantity \<Rightarrow> ladder \<Rightarrow>
   a_event list \<times> ladder \<times> quantity \<times> match_outcome" where
  "a_match pol t rem [] = ([], [], rem, Completed)"
| "a_match pol t rem ((p, []) # L) = a_match pol t rem L"
| "a_match pol t rem ((p, m # q) # L) =
     (if rem = 0 \<or> \<not> crosses t p then ([], (p, m # q) # L, rem, Completed)
      else if pol \<noteq> StpNone \<and> ro_client m = rq_client_id t then
        (if pol = CancelNewest then
           ([AReport (rq_order_id t) Cancelled rem RejNone], (p, m # q) # L, rem, TakerCancelled)
         else if pol = CancelBoth then
           ([AReport (ro_id m) Cancelled (ro_quantity m) RejNone,
             AReport (rq_order_id t) Cancelled rem RejNone],
            put_queue p q L, rem, TakerCancelled)
         else
           (case a_match pol t rem ((p, q) # L) of
              (es, r) \<Rightarrow> (AReport (ro_id m) Cancelled (ro_quantity m) RejNone # es, r)))
      else if ro_quantity m \<le> rem then
        (case a_match pol t (rem - ro_quantity m) ((p, q) # L) of
           (es, r) \<Rightarrow>
             (ATrade (ro_id m) (rq_order_id t) p (ro_quantity m) (rq_side t) #
              AReport (ro_id m) Filled 0 RejNone # es, r))
      else
        ([ATrade (ro_id m) (rq_order_id t) p rem (rq_side t),
          AReport (ro_id m) PartiallyFilled (ro_quantity m - rem) RejNone],
         (p, m\<lparr>ro_quantity := ro_quantity m - rem\<rparr> # q) # L, 0, Completed))"

section \<open>Operations\<close>

definition a_validate :: "order_request \<Rightarrow> a_book \<Rightarrow> reject_reason" where
  "a_validate r A =
     (if rq_symbol r \<noteq> ab_symbol A then InvalidPrice
      else if rq_quantity r = 0 then InvalidQuantity
      else if rq_type r \<noteq> Market \<and> rq_price r \<le> 0 then InvalidPrice
      else if rq_type r = Market \<and> rq_price r \<noteq> market_price then InvalidPrice
      else if a_known A (rq_order_id r) then DuplicateOrderId
      else if length (a_orders A) = ab_capacity A then CapacityExceeded
      else RejNone)"

definition a_would_trade :: "order_request \<Rightarrow> ladder \<Rightarrow> bool" where
  "a_would_trade r L \<longleftrightarrow>
     (case L of [] \<Rightarrow> False
      | (p, q) # _ \<Rightarrow> (case rq_side r of Buy \<Rightarrow> p \<le> rq_price r | Sell \<Rightarrow> rq_price r \<le> p))"

text \<open>
  The quantity of a level is the sum its 32-bit total can hold; the sum over levels is taken in
  64 bits and cut off at the quantity of the order.
\<close>

definition queue_total :: "queue \<Rightarrow> quantity" where
  "queue_total q = (\<Sum>x\<leftarrow>q. ro_quantity x)"

fun a_available :: "order_request \<Rightarrow> ladder \<Rightarrow> u64 \<Rightarrow> quantity" where
  "a_available r [] acc = ucast acc"
| "a_available r ((p, q) # L) acc =
     (if \<not> crosses r p then ucast acc
      else if acc + ucast (queue_total q) \<ge> ucast (rq_quantity r) then rq_quantity r
      else a_available r L (acc + ucast (queue_total q)))"

definition a_rest :: "order_request \<Rightarrow> quantity \<Rightarrow> a_book \<Rightarrow> a_book" where
  "a_rest r n A =
     a_set (rq_side r)
       (ladder_insert (rq_side r) (rq_price r)
         \<lparr>ro_id = rq_order_id r, ro_client = rq_client_id r, ro_quantity = n\<rparr>
         (ab_ladder A (rq_side r))) A"

definition a_taker_events :: "order_request \<Rightarrow> quantity \<Rightarrow> a_event list" where
  "a_taker_events r rem =
     (if rem = 0 then [AReport (rq_order_id r) Filled 0 RejNone]
      else if rem < rq_quantity r then [AReport (rq_order_id r) PartiallyFilled rem RejNone]
      else [])"

definition a_finish :: "order_request \<Rightarrow> quantity \<Rightarrow> a_book \<Rightarrow> a_book" where
  "a_finish r rem A =
     (let A = a_emit (a_taker_events r rem) A in
      if rem = 0 then A
      else if rq_type r = Limit \<or> rq_type r = PostOnly then a_rest r rem A
      else a_emit [AReport (rq_order_id r) Expired rem RejNone] A)"

definition a_reject :: "order_id \<Rightarrow> quantity \<Rightarrow> reject_reason \<Rightarrow> a_book \<Rightarrow> bool \<times> a_book" where
  "a_reject oid n re A = (False, a_emit [AReport oid Rejected n re] A)"

definition a_submit :: "order_request \<Rightarrow> a_book \<Rightarrow> bool \<times> a_book" where
  "a_submit r A =
     (let L = ab_ladder A (opposite (rq_side r)) in
      if a_validate r A \<noteq> RejNone
      then a_reject (rq_order_id r) (rq_quantity r) (a_validate r A) A
      else if rq_type r = PostOnly \<and> a_would_trade r L
      then a_reject (rq_order_id r) (rq_quantity r) WouldTrade A
      else if rq_type r = FOK \<and> a_available r L 0 < rq_quantity r
      then a_reject (rq_order_id r) (rq_quantity r) InsufficientLiquidity A
      else (case a_match (ab_stp A) r (rq_quantity r) L of
        (es, L', rem, outcome) \<Rightarrow>
          let A = a_emit (AReport (rq_order_id r) Accepted (rq_quantity r) RejNone # es)
                    (a_set (opposite (rq_side r)) L' A) in
          (True, if outcome = TakerCancelled then A else a_finish r rem A)))"

text \<open>Where an order rests, and what it is.\<close>

fun ladder_lookup :: "order_id \<Rightarrow> ladder \<Rightarrow> (price \<times> resting) option" where
  "ladder_lookup oid [] = None"
| "ladder_lookup oid ((p, q) # L) =
     (case find (\<lambda>x. ro_id x = oid) q of
        Some x \<Rightarrow> Some (p, x) | None \<Rightarrow> ladder_lookup oid L)"

definition a_lookup :: "order_id \<Rightarrow> a_book \<Rightarrow> (side \<times> price \<times> resting) option" where
  "a_lookup oid A =
     (case ladder_lookup oid (ab_ladder A Buy) of
        Some (p, x) \<Rightarrow> Some (Buy, p, x)
      | None \<Rightarrow>
          (case ladder_lookup oid (ab_ladder A Sell) of
             Some (p, x) \<Rightarrow> Some (Sell, p, x) | None \<Rightarrow> None))"

definition a_delete :: "side \<Rightarrow> order_id \<Rightarrow> a_book \<Rightarrow> a_book" where
  "a_delete sd oid A = a_set sd (ladder_remove oid (ab_ladder A sd)) A"

definition a_cancel :: "cancel_request \<Rightarrow> a_book \<Rightarrow> bool \<times> a_book" where
  "a_cancel r A =
     (case a_lookup (cx_order_id r) A of
        None \<Rightarrow> a_reject (cx_order_id r) 0 UnknownOrder A
      | Some (sd, p, x) \<Rightarrow>
          if ro_client x \<noteq> cx_client_id r
          then a_reject (cx_order_id r) (ro_quantity x) ClientMismatch A
          else (True, a_emit [AReport (cx_order_id r) Cancelled (ro_quantity x) RejNone]
                        (a_delete sd (cx_order_id r) A)))"

definition a_replace :: "replace_request \<Rightarrow> a_book \<Rightarrow> bool \<times> a_book" where
  "a_replace r A =
     (case a_lookup (rp_order_id r) A of
        None \<Rightarrow> a_reject (rp_order_id r) 0 UnknownOrder A
      | Some (sd, p, x) \<Rightarrow>
          let ev = AReport (rp_order_id r) Replaced (rp_new_quantity r) RejNone in
          if ro_client x \<noteq> rp_client_id r
          then a_reject (rp_order_id r) (ro_quantity x) ClientMismatch A
          else if rp_new_price r \<le> 0 \<or> rp_new_quantity r = 0
          then a_reject (rp_order_id r) (ro_quantity x) InvalidReplacement A
          else if rp_new_price r = p \<and> rp_new_quantity r \<le> ro_quantity x
          then (True, a_emit [ev] (a_set sd
                 (ladder_requantity (rp_order_id r) (rp_new_quantity r) (ab_ladder A sd)) A))
          else a_submit
                 \<lparr>rq_order_id = rp_order_id r, rq_client_id = rp_client_id r, rq_side = sd,
                  rq_type = Limit, rq_price = rp_new_price r, rq_quantity = rp_new_quantity r,
                  rq_symbol = ab_symbol A\<rparr>
                 (a_emit [ev] (a_delete sd (rp_order_id r) A)))"

section \<open>Reasoning about a match\<close>

text \<open>The seven ways a match goes on, as an induction rule over its result.\<close>

lemma a_match_rule [consumes 1, case_names stop skip newest both oldest full partial]:
  assumes "a_match pol t rem L = (es, L', rem', oc)"
    and stop: "\<And>rem L. L = [] \<or> (\<exists>p m q K. L = (p, m # q) # K \<and> (rem = 0 \<or> \<not> crosses t p)) \<Longrightarrow>
      P rem L [] L rem Completed"
    and skip: "\<And>rem p L es L' rem' oc. P rem L es L' rem' oc \<Longrightarrow> P rem ((p, []) # L) es L' rem' oc"
    and newest: "\<And>rem p m q L. rem \<noteq> 0 \<Longrightarrow> crosses t p \<Longrightarrow> pol = CancelNewest \<Longrightarrow>
      ro_client m = rq_client_id t \<Longrightarrow>
      P rem ((p, m # q) # L) [AReport (rq_order_id t) Cancelled rem RejNone]
        ((p, m # q) # L) rem TakerCancelled"
    and both: "\<And>rem p m q L. rem \<noteq> 0 \<Longrightarrow> crosses t p \<Longrightarrow> pol = CancelBoth \<Longrightarrow>
      ro_client m = rq_client_id t \<Longrightarrow>
      P rem ((p, m # q) # L)
        [AReport (ro_id m) Cancelled (ro_quantity m) RejNone,
         AReport (rq_order_id t) Cancelled rem RejNone]
        (put_queue p q L) rem TakerCancelled"
    and oldest: "\<And>rem p m q L es L' rem' oc. rem \<noteq> 0 \<Longrightarrow> crosses t p \<Longrightarrow> pol = CancelOldest \<Longrightarrow>
      ro_client m = rq_client_id t \<Longrightarrow> P rem ((p, q) # L) es L' rem' oc \<Longrightarrow>
      P rem ((p, m # q) # L)
        (AReport (ro_id m) Cancelled (ro_quantity m) RejNone # es) L' rem' oc"
    and full: "\<And>rem p m q L es L' rem' oc. rem \<noteq> 0 \<Longrightarrow> crosses t p \<Longrightarrow>
      pol = StpNone \<or> ro_client m \<noteq> rq_client_id t \<Longrightarrow> ro_quantity m \<le> rem \<Longrightarrow>
      P (rem - ro_quantity m) ((p, q) # L) es L' rem' oc \<Longrightarrow>
      P rem ((p, m # q) # L)
        (ATrade (ro_id m) (rq_order_id t) p (ro_quantity m) (rq_side t) #
         AReport (ro_id m) Filled 0 RejNone # es) L' rem' oc"
    and partial: "\<And>rem p m q L. rem \<noteq> 0 \<Longrightarrow> crosses t p \<Longrightarrow>
      pol = StpNone \<or> ro_client m \<noteq> rq_client_id t \<Longrightarrow> rem < ro_quantity m \<Longrightarrow>
      P rem ((p, m # q) # L)
        [ATrade (ro_id m) (rq_order_id t) p rem (rq_side t),
         AReport (ro_id m) PartiallyFilled (ro_quantity m - rem) RejNone]
        ((p, m\<lparr>ro_quantity := ro_quantity m - rem\<rparr> # q) # L) 0 Completed"
  shows "P rem L es L' rem' oc"
  using assms(1) stop skip newest both oldest full partial
proof (induction pol t rem L arbitrary: es L' rem' oc rule: a_match.induct)
  case (3 pol t rem p m q L)
  let ?K = "(p, m # q) # L"
  show ?case
  proof (cases "rem = 0 \<or> \<not> crosses t p")
    case True
    with 3(3) show ?thesis by (auto intro!: 3(4))
  next
    case go: False
    show ?thesis
    proof (cases "pol \<noteq> StpNone \<and> ro_client m = rq_client_id t")
      case own: True
      then consider "pol = CancelNewest" | "pol = CancelBoth" | "pol = CancelOldest"
        by (cases pol) auto
      then show ?thesis
      proof cases
        case 1
        with 3(3) go own show ?thesis by (auto intro!: 3(6))
      next
        case 2
        with 3(3) go own show ?thesis by (auto intro!: 3(7))
      next
        case old: 3
        obtain ds where m: "a_match pol t rem ((p, q) # L) = (ds, L', rem', oc)"
          and es: "es = AReport (ro_id m) Cancelled (ro_quantity m) RejNone # ds"
          using 3(3) go own old by (auto split: prod.splits)
        have "P rem ((p, q) # L) ds L' rem' oc"
          by (rule 3(1) [OF go own _ _ m 3(4-10)]) (use old in simp_all)
        with go own old show ?thesis unfolding es by (intro 3(8)) auto
      qed
    next
      case other: False
      show ?thesis
      proof (cases "ro_quantity m \<le> rem")
        case le: True
        obtain ds where m: "a_match pol t (rem - ro_quantity m) ((p, q) # L) = (ds, L', rem', oc)"
          and es: "es = ATrade (ro_id m) (rq_order_id t) p (ro_quantity m) (rq_side t) #
             AReport (ro_id m) Filled 0 RejNone # ds"
          using 3(3) go other le by (auto split: prod.splits)
        have "P (rem - ro_quantity m) ((p, q) # L) ds L' rem' oc"
          by (rule 3(2) [OF go other le m 3(4-10)])
        with go other le show ?thesis unfolding es by (intro 3(9)) auto
      next
        case False
        with 3(3) go other show ?thesis by (auto intro!: 3(10))
      qed
    qed
  qed
qed auto

lemma ladder_orders_simps [simp]:
  "ladder_orders [] = []" "ladder_orders ((p, q) # L) = q @ ladder_orders L"
  by (simp_all add: ladder_orders_def)

lemma ladder_orders_put_queue [simp]: "ladder_orders (put_queue p q L) = q @ ladder_orders L"
  by (cases q) simp_all

lemma a_match_orders:
  "a_match pol t n L = (es, L', n', oc) \<Longrightarrow>
   ro_id ` set (ladder_orders L') \<subseteq> ro_id ` set (ladder_orders L) \<and>
   length (ladder_orders L') \<le> length (ladder_orders L)"
  by (induction rule: a_match_rule) auto

end
