(* ===== verification/Book_Effects.thy ===== *)
theory Book_Effects
  imports Book_Rep Book_Spec
begin

text \<open>
  What the steps of the book do to its ladders, the view of a book that Book\_Spec speaks about:
  emitting events, filling the maker at the head of a queue, taking an order out, appending one
  and reducing one in place.
\<close>

section \<open>Emitting events\<close>

definition emits :: "a_event list \<Rightarrow> order_book \<Rightarrow> order_book" where
  "emits es b =
     b\<lparr>sequence := sequence b + of_nat (length es),
       out := out b @ stamp (symbol b) (trade_handler b) (report_handler b) (sequence b) es\<rparr>"

lemma stamp_append:
  "stamp sy tr rp s (es @ ds) = stamp sy tr rp s es @ stamp sy tr rp (s + of_nat (length es)) ds"
  by (induction es arbitrary: s) (simp_all add: add.assoc)

lemma emit_report_emits: "emit_report i st q re b = emits [AReport i st q re] b"
  by (simp add: emit_report_def emits_def Let_def)

lemma emit_trade_emits:
  "emit_trade m t p q b = emits [ATrade (nd_id m) (rq_order_id t) p q (rq_side t)] b"
  by (simp add: emit_trade_def emits_def Let_def)

lemma emits_frame [simp]:
  "symbol (emits es b) = symbol b" "nodes (emits es b) = nodes b"
  "free_list (emits es b) = free_list b" "by_id (emits es b) = by_id b"
  "bids (emits es b) = bids b" "asks (emits es b) = asks b"
  "active_count (emits es b) = active_count b" "stp (emits es b) = stp b"
  "trade_handler (emits es b) = trade_handler b" "report_handler (emits es b) = report_handler b"
  "levels_of sd (emits es b) = levels_of sd b" "node_at (emits es b) = node_at b"
  "valid_index (emits es b) i = valid_index b i" "live (emits es b) = live b"
  by (cases sd; simp add: emits_def node_at_def fun_eq_iff valid_index_def live_def)+

lemma book_rep_emits [simp]: "book_rep (emits es b) G = book_rep b G"
  by (simp add: book_rep_def)

text \<open>What an operation leaves alone, and the events it adds.\<close>

definition evolved :: "order_book \<Rightarrow> order_book \<Rightarrow> a_event list \<Rightarrow> bool" where
  "evolved b b' es \<longleftrightarrow>
     symbol b' = symbol b \<and> stp b' = stp b \<and> trade_handler b' = trade_handler b \<and>
     report_handler b' = report_handler b \<and> length (nodes b') = length (nodes b) \<and>
     sequence b' = sequence b + of_nat (length es) \<and>
     out b' = out b @ stamp (symbol b) (trade_handler b) (report_handler b) (sequence b) es"

lemma evolved_refl [simp]: "evolved b b []"
  by (simp add: evolved_def)

lemma evolved_trans: "evolved b c es \<Longrightarrow> evolved c d ds \<Longrightarrow> evolved b d (es @ ds)"
  by (simp add: evolved_def stamp_append)

lemma evolved_emits [simp]: "evolved b (emits es b) es"
  by (simp add: evolved_def) (simp add: emits_def)

lemma evolved_cons: "evolved b c [e] \<Longrightarrow> evolved c d ds \<Longrightarrow> evolved b d (e # ds)"
  using evolved_trans [of b c "[e]" d ds] by simp

section \<open>The ladders of a book\<close>

definition resting_of :: "node \<Rightarrow> resting" where
  "resting_of n = \<lparr>ro_id = nd_id n, ro_client = nd_client_id n, ro_quantity = nd_remaining n\<rparr>"

lemma resting_of_simps [simp]:
  "ro_id (resting_of n) = nd_id n" "ro_client (resting_of n) = nd_client_id n"
  "ro_quantity (resting_of n) = nd_remaining n"
  by (simp_all add: resting_of_def)

lemma resting_of_fields: "order_fields m = order_fields n \<Longrightarrow> resting_of m = resting_of n"
  by (simp add: resting_of_def order_fields_def)

definition view :: "order_book \<Rightarrow> ghost \<Rightarrow> side \<Rightarrow> ladder" where
  "view b G sd =
     map (\<lambda>p. (p, map (\<lambda>i. resting_of (node_at b i)) (G sd p))) (map fst (levels_of sd b))"

lemma view_emits [simp]: "view (emits es b) G sd = view b G sd"
  by (simp add: view_def)

lemma view_keys: "map fst (view b G sd) = map fst (levels_of sd b)"
  by (simp add: view_def comp_def)

lemma view_ConsD:
  assumes "view b G sd = (p, q) # L"
  obtains l ls where "levels_of sd b = (p, l) # ls" and "q = map (\<lambda>i. resting_of (node_at b i)) (G sd p)"
    and "L = map (\<lambda>p. (p, map (\<lambda>i. resting_of (node_at b i)) (G sd p))) (map fst ls)"
  using assms by (cases "levels_of sd b") (auto simp: view_def)

lemma view_cong:
  assumes "map fst (levels_of sd b') = map fst (levels_of sd b)"
    and "\<And>p. p \<in> om_keys (levels_of sd b) \<Longrightarrow> G' sd p = G sd p"
    and "\<And>p i. i \<in> set (G sd p) \<Longrightarrow> order_fields (node_at b' i) = order_fields (node_at b i)"
  shows "view b' G' sd = view b G sd"
  unfolding view_def assms(1)
  by (rule map_cong [OF refl]) (use assms(2,3) in \<open>auto simp: om_keys_def intro!: resting_of_fields\<close>)

text \<open>An operation on one queue shows nowhere else.\<close>

lemma view_other:
  assumes "book_rep b G" and "levels_of (opposite sd) b' = levels_of (opposite sd) b"
    and "\<And>j. j \<in> live b \<Longrightarrow> j \<noteq> i \<Longrightarrow> order_fields (node_at b' j) = order_fields (node_at b j)"
    and "i \<in> live b \<Longrightarrow> nd_side (node_at b i) = sd"
  shows "view b' (G(sd := X)) (opposite sd) = view b G (opposite sd)"
proof (rule view_cong)
  fix p j assume j: "j \<in> set (G (opposite sd) p)"
  then have "j \<in> live b" "nd_side (node_at b j) = opposite sd"
    using book_repD(4) [OF assms(1)] by auto
  with assms(4) show "order_fields (node_at b' j) = order_fields (node_at b j)"
    by (intro assms(3)) auto
qed (use assms(2) in auto)

lemma view_tail:
  assumes rep: "book_rep b G" and lv: "levels_of sd b = (p, l) # ls"
    and same: "\<And>j. j \<in> live b \<Longrightarrow> j \<noteq> i \<Longrightarrow> order_fields (node_at b' j) = order_fields (node_at b j)"
    and i: "i \<in> live b \<Longrightarrow> nd_price (node_at b i) = p"
  shows "map (\<lambda>r. (r, map (\<lambda>i. resting_of (node_at b' i)) ((G(sd := (G sd)(p := xs))) sd r))) (map fst ls) =
    map (\<lambda>r. (r, map (\<lambda>i. resting_of (node_at b i)) (G sd r))) (map fst ls)"
proof (rule map_cong [OF refl])
  fix r assume "r \<in> set (map fst ls)"
  moreover have "distinct (map fst (levels_of sd b))"
    by (rule price_keys.ordered_distinct [OF book_repD(7) [OF rep]]) simp
  ultimately have r: "r \<noteq> p" using lv by auto
  have "resting_of (node_at b' j) = resting_of (node_at b j)" if "j \<in> set (G sd r)" for j
    using book_repD(4) [OF rep that] i r by (intro resting_of_fields same) auto
  with r show "(r, map (\<lambda>i. resting_of (node_at b' i)) ((G(sd := (G sd)(p := xs))) sd r)) =
      (r, map (\<lambda>i. resting_of (node_at b i)) (G sd r))" by simp
qed

section \<open>Filling the maker at the head\<close>

lemma better_irrefl [simp]: "\<not> better sd p p"
  by (cases sd) simp_all

lemma emits_emits [simp]: "emits ds (emits es b) = emits (es @ ds) b"
  by (simp add: emits_def stamp_append add.assoc add.commute)

lemma emits_Nil [simp]: "emits [] b = b"
  by (simp add: emits_def)

lemma emits_log [simp]:
  "sequence (emits es b) = sequence b + of_nat (length es)"
  "out (emits es b) =
     out b @ stamp (symbol b) (trade_handler b) (report_handler b) (sequence b) es"
  by (simp_all add: emits_def)

lemma release_log [simp]:
  "symbol (release_node i b) = symbol b" "sequence (release_node i b) = sequence b"
  "stp (release_node i b) = stp b" "trade_handler (release_node i b) = trade_handler b"
  "report_handler (release_node i b) = report_handler b" "out (release_node i b) = out b"
  by (simp_all add: release_node_def Let_def)

lemma om_put_hd: "om_put (better sd) p l ((p, k) # ls) = (p, l) # ls"
  by (cases sd) simp_all

lemma om_find_hd: "om_find (better sd) p ((p, k) # ls) = Some k"
  by (cases sd) simp_all

lemma front_level:
  assumes rep: "book_rep b G" and lv: "levels_of sd b = (p, l) # ls" and G: "G sd p = i # is"
  shows "level_ok (node_at b) l (i # is)" and "lv_head l = i" and "valid_index b i"
    and "i \<in> live b" and "nd_side (node_at b i) = sd" and "nd_price (node_at b i) = p"
    and "i \<notin> set is" and "nd_remaining (node_at b i) \<noteq> 0"
proof -
  show l: "level_ok (node_at b) l (i # is)"
    using levels_rep_find(1) [OF book_repD(7,8) [OF rep, of sd], of p l] by (simp add: lv om_find_hd G)
  show "lv_head l = i" using l by (simp add: level_ok_def)
  have "i \<in> set (G sd p)" by (simp add: G)
  with rep show "valid_index b i" "nd_side (node_at b i) = sd" "nd_price (node_at b i) = p"
      "i \<in> live b" "nd_remaining (node_at b i) \<noteq> 0"
    by (auto dest: book_repD(3,4) simp: book_rep_def live_def)
  show "i \<notin> set is" using book_repD(6) [OF rep, of sd p] by (simp add: G)
qed

lemma view_Cons:
  "levels_of sd b = (p, l) # ls \<Longrightarrow> view b G sd =
     (p, map (\<lambda>i. resting_of (node_at b i)) (G sd p)) #
     map (\<lambda>r. (r, map (\<lambda>i. resting_of (node_at b i)) (G sd r))) (map fst ls)"
  by (simp add: view_def)

lemma view_front:
  assumes rep: "book_rep b G" and lv: "levels_of sd b = (p, l) # ls"
      "map fst (levels_of sd b') = p # map fst ls"
    and same: "\<And>j. j \<noteq> i \<Longrightarrow> order_fields (node_at b' j) = order_fields (node_at b j)"
    and i: "i \<in> live b" "nd_price (node_at b i) = p"
    and V: "view b G sd = (p, q) # L"
  shows "view b' (G(sd := (G sd)(p := xs))) sd =
    (p, map (\<lambda>i. resting_of (node_at b' i)) xs) # L"
proof -
  have "L = map (\<lambda>r. (r, map (\<lambda>i. resting_of (node_at b i)) (G sd r))) (map fst ls)"
    using V by (simp add: view_Cons [OF lv(1)])
  also have "\<dots> = map (\<lambda>r. (r, map (\<lambda>i. resting_of (node_at b' i))
      ((G(sd := (G sd)(p := xs))) sd r))) (map fst ls)"
    using i by (intro view_tail [OF rep lv(1), symmetric] same) auto
  finally show ?thesis by (simp add: view_def lv(2))
qed

lemma fill_partial:
  assumes rep: "book_rep b G" and lv: "levels_of sd b = (p, l) # ls" and G: "G sd p = i # is"
    and V: "view b G sd = (p, m # q) # L"
    and less: "remaining < ro_quantity m" "remaining \<noteq> 0"
  obtains b' where "fill_maker sd p l t b remaining = (b', 0)" and "book_rep b' G"
    and "view b' G sd = (p, m\<lparr>ro_quantity := ro_quantity m - remaining\<rparr> # q) # L"
    and "view b' G (opposite sd) = view b G (opposite sd)"
    and "evolved b b' [ATrade (ro_id m) (rq_order_id t) p remaining (rq_side t),
       AReport (ro_id m) PartiallyFilled (ro_quantity m - remaining) RejNone]"
proof -
  note front = front_level [OF rep lv G]
  from V lv G have m: "m = resting_of (node_at b i)"
    and q: "q = map (\<lambda>i. resting_of (node_at b i)) is" by (simp_all add: view_Cons)
  define nd where "nd = node_at b i\<lparr>nd_remaining := nd_remaining (node_at b i) - remaining\<rparr>"
  define l' where "l' = l\<lparr>lv_total := lv_total l - remaining\<rparr>"
  define b1 where "b1 = set_levels sd ((p, l') # ls) (set_node i nd b)"
  define b' where "b' = emits [ATrade (ro_id m) (rq_order_id t) p remaining (rq_side t),
       AReport (ro_id m) PartiallyFilled (ro_quantity m - remaining) RejNone] b1"
  have less': "remaining < nd_remaining (node_at b i)" using less m by simp
  then have nz: "nd_remaining (node_at b i) - remaining \<noteq> 0" by auto
  have mn: "min remaining (nd_remaining (node_at b i)) = remaining" using less' by simp
  have N: "node_at b1 = (node_at b)(i := nd)" using front(3) by (simp add: b1_def)
  have eq: "fill_maker sd p l t b remaining = (b', 0)"
    using nz mn front(2,3,6)
    by (simp add: fill_maker_def Let_def emit_trade_emits emit_report_emits lv om_put_hd
        b'_def b1_def l'_def nd_def m)
  have fields: "evolved b b1 []"
    by (simp add: evolved_def b1_def)
  have rep1: "book_rep b1 G"
    by (rule rep_requantity [OF rep front(4-6), of l "nd_remaining (node_at b i) - remaining"])
      (use nz front(3) in \<open>simp_all add: lv om_find_hd om_put_hd b1_def nd_def l'_def\<close>)
  have Gid: "G(sd := (G sd)(p := i # is)) = G" using G by (auto simp: fun_eq_iff)
  have lv1: "levels_of sd b1 = (p, l') # ls" by (simp add: b1_def)
  have "view b1 G sd = (p, m\<lparr>ro_quantity := ro_quantity m - remaining\<rparr> # q) # L"
  proof -
    have "map (\<lambda>i. resting_of (node_at b1 i)) (i # is) =
        m\<lparr>ro_quantity := ro_quantity m - remaining\<rparr> # q"
      unfolding q using front(7) by (auto simp: N nd_def m resting_of_def intro!: map_cong)
    then show ?thesis
      using view_front [OF rep lv _ _ front(4,6) V, of b1 "i # is"] lv1 unfolding Gid by (simp add: N)
  qed
  moreover have "view b1 (G(sd := G sd)) (opposite sd) = view b G (opposite sd)"
    by (rule view_other [OF rep, of sd b1 i]) (simp_all add: b1_def front(3,5))
  ultimately show thesis
    using eq rep1 evolved_trans [OF fields evolved_emits]
    by (intro that [of b']) (simp_all add: b'_def)
qed


lemma fill_full:
  assumes rep: "book_rep b G" and lv: "levels_of sd b = (p, l) # ls" and G: "G sd p = i # is"
    and V: "view b G sd = (p, m # q) # L"
    and le: "ro_quantity m \<le> remaining"
  obtains b' l' where "fill_maker sd p l t b remaining = (b', remaining - ro_quantity m)"
    and "book_rep b' (G(sd := (G sd)(p := is)))"
    and "levels_of sd b' = (p, l') # ls"
    and "view b' (G(sd := (G sd)(p := is))) sd = (p, q) # L"
    and "view b' (G(sd := (G sd)(p := is))) (opposite sd) = view b G (opposite sd)"
    and "levels_of (opposite sd) b' = levels_of (opposite sd) b"
    and "evolved b b' [ATrade (ro_id m) (rq_order_id t) p (ro_quantity m) (rq_side t),
       AReport (ro_id m) Filled 0 RejNone]"
proof -
  note front = front_level [OF rep lv G]
  from V lv G have m: "m = resting_of (node_at b i)"
    and q: "q = map (\<lambda>i. resting_of (node_at b i)) is" by (simp_all add: view_Cons)
  define n where "n = nd_next (node_at b i)"
  have seg: "dseg (node_at b) npos i (i # is) npos (lv_tail l)"
    using front(1,2) by (simp add: level_ok_def)
  then have n: "n = (if is = [] then npos else hd is)"
    by (auto simp: n_def dest: dseg_ends(1))
  have isok: "\<And>j. j \<in> set is \<Longrightarrow> valid_index b j" and np: "npos \<notin> set is"
    using book_repD(2) [OF rep, of sd p] book_repD(3) [OF rep, of _ sd p] G by auto
  have nn: "n = npos \<longleftrightarrow> is = []" using n np by (metis hd_in_set)
  then have nv: "n \<noteq> npos \<Longrightarrow> valid_index b n \<and> n \<noteq> i" using n isok front(7)
    by (metis hd_in_set)
  define N1 where "N1 = (if n \<noteq> npos then (node_at b)(n := node_at b n\<lparr>nd_prev := npos\<rparr>) else node_at b)"
  define l' where "l' = l\<lparr>lv_head := n, lv_tail := (if n \<noteq> npos then lv_tail l else npos),
     lv_total := lv_total l - nd_remaining (node_at b i), lv_order_count := lv_order_count l - 1\<rparr>"
  define b' where "b' = snd (fill_maker sd p l t b remaining, fst (fill_maker sd p l t b remaining))"
  have mn: "min remaining (nd_remaining (node_at b i)) = nd_remaining (node_at b i)"
    using le by (simp add: m)
  have eff: "fill_maker sd p l t b remaining = (b', remaining - ro_quantity m) \<and>
      node_at b' = N1(i := empty_node) \<and> levels_of sd b' = (p, l') # ls \<and>
      levels_of (opposite sd) b' = levels_of (opposite sd) b \<and>
      by_id b' = (by_id b)(nd_id (node_at b i) := None) \<and>
      free_list b' = free_list b @ [i] \<and> active_count b' = active_count b - 1 \<and>
      evolved b b' [ATrade (ro_id m) (rq_order_id t) p (ro_quantity m) (rq_side t),
       AReport (ro_id m) Filled 0 RejNone]"
    using nv front(2,3,6) mn
    by (cases "n = npos")
      (auto simp: b'_def fill_maker_def pop_head_def Let_def emit_trade_emits emit_report_emits lv om_put_hd
        n_def [symmetric] N1_def l'_def m fun_eq_iff evolved_def)
  then have lv': "levels_of sd b' = (p, l') # ls" by blast
  have N': "node_at b' j = (if j = i then empty_node else N1 j)" for j using eff by simp
  have same: "order_fields (node_at b' j) = order_fields (node_at b j)" if "j \<noteq> i" for j
    using that by (simp add: N' N1_def)
  have frame: "node_at b' j = node_at b j" if "j \<noteq> i" "j \<notin> set is" for j
  proof -
    have "n = npos \<or> j \<noteq> n" using that(2) n by auto
    with that(1) show ?thesis by (auto simp: N' N1_def)
  qed
  have lok: "level_ok (node_at b') l' is"
  proof -
    have "dseg N1 npos n is npos (if n \<noteq> npos then lv_tail l else npos)"
    proof (cases "is")
      case (Cons k ks)
      then have "k = n" "n \<noteq> npos" using n nn by auto
      with Cons seg book_repD(6) [OF rep, of sd p] G show ?thesis
        using dseg_first_prev [of "node_at b" i n n ks npos "lv_tail l" "node_at b n\<lparr>nd_prev := npos\<rparr>"]
        by (simp add: N1_def n_def [symmetric])
    qed (use nn in simp)
    moreover have "dseg (node_at b') npos n is npos t \<longleftrightarrow> dseg N1 npos n is npos t" for t
      using front(7) by (intro dseg_cong) (auto simp: N')
    moreover have "(\<Sum>j\<leftarrow>is. nd_remaining (node_at b' j)) = (\<Sum>j\<leftarrow>is. nd_remaining (node_at b j))"
      using front(7) same by (intro arg_cong [of _ _ sum_list] map_cong refl)
        (metis order_fields_eqD(4))
    ultimately show ?thesis using front(1) by (simp add: level_ok_def l'_def)
  qed
  have rep': "book_rep b' (G(sd := (G sd)(p := is)))"
    by (rule rep_remove [OF rep front(4-6) _ _ _ same frame])
      (use eff lok in \<open>auto simp: G lv om_put_hd evolved_def\<close>)
  have "map (\<lambda>i. resting_of (node_at b' i)) is = q"
    unfolding q using front(7) by (intro map_cong refl resting_of_fields same) auto
  then have V': "view b' (G(sd := (G sd)(p := is))) sd = (p, q) # L"
    using view_front [OF rep lv _ same front(4,6) V, of "is"] lv' by simp
  have "view b' (G(sd := (G sd)(p := is))) (opposite sd) = view b G (opposite sd)"
    by (rule view_other [OF rep, of sd b' i]) (use eff front same in auto)
  with eff rep' lv' V' show thesis by (intro that [of b' l']) simp_all
qed

section \<open>Taking an order out\<close>

lemma keys_distinct: "book_rep b G \<Longrightarrow> distinct (map fst (levels_of sd b))"
  by (rule price_keys.ordered_distinct [OF book_repD(7)]) simp_all

lemma remove_evolved [simp]: "evolved b (remove_without_report i b) []"
  by (simp add: evolved_def)

lemma view_remove_front:
  assumes rep: "book_rep b G" and lv: "levels_of sd b = (p, l) # ls" and G: "G sd p = i # is"
    and V: "view b G sd = (p, m # q) # L"
  defines "b' \<equiv> remove_without_report i b" and "G' \<equiv> G(sd := (G sd)(p := is))"
  shows "book_rep b' G'" and "view b' G' sd = put_queue p q L"
    and "view b' G' (opposite sd) = view b G (opposite sd)"
proof -
  note front = front_level [OF rep lv G]
  have rm: "remove1 i (G sd p) = is" by (simp add: G)
  note eff = rep_remove_without_report [OF rep front(4-6), unfolded rm, folded b'_def]
  show "book_rep b' G'" using eff(1) by (simp add: G'_def)
  show "view b' G' (opposite sd) = view b G (opposite sd)"
    unfolding G'_def by (rule view_other [OF rep eff(2), of i]) (use eff(4) front in auto)
  from V lv G have q: "q = map (\<lambda>i. resting_of (node_at b i)) is"
    and L: "L = map (\<lambda>r. (r, map (\<lambda>i. resting_of (node_at b i)) (G sd r))) (map fst ls)"
    by (simp_all add: view_Cons)
  have q': "map (\<lambda>i. resting_of (node_at b' i)) is = q"
    unfolding q using front(7) by (intro map_cong refl resting_of_fields eff(4)) auto
  show "view b' G' sd = put_queue p q L"
  proof (cases "is")
    case Nil
    have "view b' G' sd =
        map (\<lambda>r. (r, map (\<lambda>i. resting_of (node_at b' i)) (G' sd r))) (map fst ls)"
      using eff(5) by (simp add: view_def Nil lv)
    also have "\<dots> = L"
      unfolding L G'_def by (rule view_tail [OF rep lv, of i]) (use eff(4) front in auto)
    finally show ?thesis using Nil by (simp add: q)
  next
    case (Cons k ks)
    have "view b' G' sd = (p, q) # L"
      using view_front [OF rep lv _ eff(4) front(4,6) V, of "is"] eff(5) Cons
      unfolding G'_def q' by (simp add: lv)
    with Cons show ?thesis by (simp add: q)
  qed
qed

lemma live_id_inject:
  assumes "book_rep b G" and "i \<in> live b" and "j \<in> live b" and "nd_id (node_at b i) = nd_id (node_at b j)"
  shows "i = j"
proof -
  have "by_id b (nd_id (node_at b j)) = Some i" "by_id b (nd_id (node_at b j)) = Some j"
    using assms by (simp_all add: book_rep_def)
  then show ?thesis by simp
qed

definition no_empty :: "ladder \<Rightarrow> bool" where
  "no_empty L \<longleftrightarrow> (\<forall>(p, q) \<in> set L. q \<noteq> [])"

lemma no_empty_simps [simp]:
  "no_empty []" "no_empty ((p, q) # L) \<longleftrightarrow> q \<noteq> [] \<and> no_empty L"
  by (auto simp: no_empty_def)

lemma no_empty_put_queue: "no_empty (put_queue p q L) = no_empty L"
  by (cases q) simp_all

lemma no_empty_level_iff: "no_empty_level b G \<longleftrightarrow> (\<forall>sd. no_empty (view b G sd))"
  by (auto simp: no_empty_level_def no_empty_def view_def om_keys_def)

lemma ladder_map_map:
  "ladder_map f (map (\<lambda>r. (r, h r)) K) =
     map (\<lambda>r. (r, f (h r))) (filter (\<lambda>r. f (h r) \<noteq> []) K)"
  by (induction K) (simp_all add: ladder_map_def)

lemma view_remove:
  assumes rep: "book_rep b G" and i: "i \<in> live b"
    and key: "nd_side (node_at b i) = sd" "nd_price (node_at b i) = p"
    and ne: "no_empty (view b G sd)"
  defines "b' \<equiv> remove_without_report i b"
    and "G' \<equiv> G(sd := (G sd)(p := remove1 i (G sd p)))"
  shows "book_rep b' G'"
    and "view b' G' sd = ladder_remove (nd_id (node_at b i)) (view b G sd)"
    and "view b' G' (opposite sd) = view b G (opposite sd)"
proof -
  note eff = rep_remove_without_report [OF rep i key, folded b'_def]
  show "book_rep b' G'" using eff(1) by (simp add: G'_def)
  show "view b' G' (opposite sd) = view b G (opposite sd)"
    unfolding G'_def by (rule view_other [OF rep eff(2), of i]) (use eff(4) key in auto)
  let ?f = "filter (\<lambda>x. ro_id x \<noteq> nd_id (node_at b i))"
  have queue: "?f (map (\<lambda>j. resting_of (node_at b j)) (G sd r)) =
      map (\<lambda>j. resting_of (node_at b' j)) (G' sd r)" for r
  proof -
    have "nd_id (node_at b j) \<noteq> nd_id (node_at b i) \<longleftrightarrow> j \<noteq> i" if "j \<in> set (G sd r)" for j
      using live_id_inject [OF rep, of j i] book_repD(4) [OF rep that] i by auto
    then have "?f (map (\<lambda>j. resting_of (node_at b j)) (G sd r)) =
        map (\<lambda>j. resting_of (node_at b j)) (filter (\<lambda>j. j \<noteq> i) (G sd r))"
      by (auto simp: filter_map comp_def intro!: arg_cong [of _ _ "map _"] filter_cong)
    also have "filter (\<lambda>j. j \<noteq> i) (G sd r) = G' sd r"
    proof (cases "r = p")
      case True
      then show ?thesis using book_repD(6) [OF rep, of sd p]
        by (auto simp: G'_def distinct_remove1_removeAll removeAll_filter_not_eq intro!: filter_cong)
    next
      case False
      then have "i \<notin> set (G sd r)" using book_repD(4) [OF rep, of i sd r] key by auto
      then have "\<And>j. j \<in> set (G sd r) \<Longrightarrow> j \<noteq> i" by auto
      with False show ?thesis by (simp add: G'_def)
    qed
    also have "map (\<lambda>j. resting_of (node_at b j)) (G' sd r) = map (\<lambda>j. resting_of (node_at b' j)) (G' sd r)"
    proof (intro map_cong refl resting_of_fields eff(4) [symmetric])
      fix j assume "j \<in> set (G' sd r)"
      then show "j \<noteq> i"
        using book_repD(4) [OF rep, of i sd r] book_repD(6) [OF rep, of sd p] key
        by (auto simp: G'_def split: if_splits)
    qed
    finally show ?thesis .
  qed
  have ne': "G sd r \<noteq> []" if "r \<in> set (map fst (levels_of sd b))" for r
    using ne that by (auto simp: no_empty_def view_def)
  have keys: "map fst (levels_of sd b') = filter (\<lambda>r. G' sd r \<noteq> []) (map fst (levels_of sd b))"
  proof -
    have "filter (\<lambda>r. G' sd r \<noteq> []) (map fst (levels_of sd b)) =
        filter (\<lambda>r. r \<noteq> p \<or> remove1 i (G sd p) \<noteq> []) (map fst (levels_of sd b))"
      using ne' by (intro filter_cong) (auto simp: G'_def)
    also have "\<dots> = map fst (levels_of sd b')"
      unfolding eff(5) using keys_distinct [OF rep, of sd]
      by (auto simp: distinct_remove1_removeAll removeAll_filter_not_eq intro!: filter_cong)
    finally show ?thesis by simp
  qed
  show "view b' G' sd = ladder_remove (nd_id (node_at b i)) (view b G sd)"
    unfolding view_def keys ladder_remove_def ladder_map_map queue by simp
qed


section \<open>Appending and reducing\<close>

lemmas price_key_cases = price_keys.key_cases [OF TrueI TrueI, case_names before same after]

lemma view_insert_keys:
  assumes "om_ordered (better sd) m"
  shows "ladder_insert sd p x (map (\<lambda>r. (r, h r)) (map fst m)) =
    map (\<lambda>r. (r, if r = p then (if p \<in> om_keys m then h p else []) @ [x] else h r))
      (map fst (om_put (better sd) p l m))"
  using assms
proof (induction m)
  case (Cons e m)
  obtain k v where e: "e = (k, v)" by (cases e)
  have k: "\<forall>r \<in> om_keys m. better sd k r" and ord: "om_ordered (better sd) m"
    using Cons.prems by (simp_all add: e)
  have "k \<notin> om_keys m" using k better_irrefl [of sd k] by auto
  have drop: "map (\<lambda>r. (r, if r = a then f r else h r)) (map fst m) = map (\<lambda>r. (r, h r)) (map fst m)"
    if "a \<notin> om_keys m" for a f
    using that by (intro map_cong refl) (auto simp: om_keys_def)
  show ?case
  proof (cases rule: price_key_cases [of sd p k])
    case before
    then have "\<forall>r \<in> om_keys m. better sd p r" using k price_keys.trans [of sd p k] by simp
    then have "p \<notin> om_keys m" using better_irrefl [of sd p] by auto
    with before drop [OF this, of "\<lambda>_. [x]"] show ?thesis
      by (simp add: e) (auto simp: om_keys_def)
  next
    case same
    with drop [OF \<open>k \<notin> om_keys m\<close>, of "\<lambda>_. h k @ [x]"] \<open>k \<notin> om_keys m\<close>
    show ?thesis by (simp add: e) (auto simp: om_keys_def)
  next
    case after
    with Cons.IH [OF ord] show ?thesis by (simp add: e)
  qed
qed simp

lemma no_empty_insert: "no_empty L \<Longrightarrow> no_empty (ladder_insert sd p x L)"
  by (induction sd p x L rule: ladder_insert.induct) auto

lemma unkeyed_queue:
  assumes "book_rep b G" and "p \<notin> om_keys (levels_of sd b)"
  shows "G sd p = []"
  using book_repD(8) [OF assms(1), of sd] assms(2) by (simp add: levels_rep_def)

lemma view_rest:
  assumes rep: "book_rep b G" and i: "free_list b \<noteq> []"
    and ok: "q \<noteq> 0" "0 < rq_price r" "by_id b (rq_order_id r) = None"
  obtains b' G' where "rest r q b = (Inr (), b')" and "book_rep b' G'" and "evolved b b' []"
    and "view b' G' (rq_side r) = ladder_insert (rq_side r) (rq_price r)
      \<lparr>ro_id = rq_order_id r, ro_client = rq_client_id r, ro_quantity = q\<rparr> (view b G (rq_side r))"
    and "view b' G' (opposite (rq_side r)) = view b G (opposite (rq_side r))"
    and "free_list b' = butlast (free_list b)"
    and "by_id b' (rq_order_id r) = Some (last (free_list b))"
proof -
  let ?sd = "rq_side r" and ?p = "rq_price r" and ?i = "last (free_list b)"
  let ?x = "\<lparr>ro_id = rq_order_id r, ro_client = rq_client_id r, ro_quantity = q\<rparr>"
  have fl: "free_list b = butlast (free_list b) @ [?i]" using i by simp
  obtain b' where eq: "rest r q b = (Inr (), b')"
    and rep': "book_rep b' (G(?sd := (G ?sd)(?p := G ?sd ?p @ [?i])))"
    and same: "\<forall>j. j \<noteq> ?i \<longrightarrow> order_fields (node_at b' j) = order_fields (node_at b j)"
    and new: "order_fields (node_at b' ?i) = (rq_order_id r, rq_client_id r, rq_price r, q, rq_side r, True)"
    and other: "levels_of (opposite ?sd) b' = levels_of (opposite ?sd) b"
    and put: "\<exists>l. levels_of ?sd b' = om_put (better ?sd) ?p l (levels_of ?sd b)"
    and i: "?i \<notin> live b" and live': "live b' = insert ?i (live b)"
    and fields: "symbol b' = symbol b" "sequence b' = sequence b" "stp b' = stp b"
      "trade_handler b' = trade_handler b" "report_handler b' = report_handler b" "out b' = out b"
      "free_list b' = butlast (free_list b)" "length (nodes b') = length (nodes b)"
    by (rule rep_rest [OF rep fl ok])
  let ?G = "G(?sd := (G ?sd)(?p := G ?sd ?p @ [?i]))"
  obtain l where l: "levels_of ?sd b' = om_put (better ?sd) ?p l (levels_of ?sd b)" using put by blast
  have ne: "j \<noteq> ?i" if "j \<in> set (G s k)" for j s k
    using book_repD(4) [OF rep that] i by blast
  have old: "map (\<lambda>j. resting_of (node_at b' j)) (G s k) = map (\<lambda>j. resting_of (node_at b j)) (G s k)"
    for s k
    by (intro map_cong refl resting_of_fields same [rule_format] ne)
  have xi: "resting_of (node_at b' ?i) = ?x"
    using new by (simp add: order_fields_def resting_of_def)
  have "view b' ?G ?sd = ladder_insert ?sd ?p ?x (view b G ?sd)"
    unfolding view_def view_insert_keys [OF book_repD(7) [OF rep], of _ _ _ _ l] l [symmetric]
    using unkeyed_queue [OF rep, of ?p ?sd] by (auto simp: old xi)
  moreover have "view b' ?G (opposite ?sd) = view b G (opposite ?sd)"
    by (rule view_other [OF rep other, of ?i]) (use same i in auto)
  moreover have "by_id b' (rq_order_id r) = Some ?i"
    using rep' new live' by (simp add: book_rep_def order_fields_def)
  moreover have "evolved b b' []" using fields by (simp add: evolved_def)
  ultimately show thesis using eq rep' fields by (intro that [of b' ?G]) simp_all
qed

lemma view_reduce:
  assumes rep: "book_rep b G" and i: "i \<in> live b" and n: "n \<noteq> 0"
    and key: "nd_side (node_at b i) = sd" "nd_price (node_at b i) = p"
    and ne: "no_empty (view b G sd)"
  defines "b' \<equiv> reduce_in_place i n b"
  shows "book_rep b' G"
    and "view b' G sd = ladder_requantity (nd_id (node_at b i)) n (view b G sd)"
    and "view b' G (opposite sd) = view b G (opposite sd)"
    and "evolved b b' []" and "nd_remaining (node_at b' i) = n"
proof -
  have "p \<in> om_keys (levels_of sd b)" using live_key [OF rep i] key by simp
  then obtain l where find: "om_find (better sd) p (levels_of sd b) = Some l"
    using find_at_key [OF book_repD(7) [OF rep]] by metis
  have vi: "valid_index b i" using i by (simp add: live_def)
  have N: "node_at b' = (node_at b)(i := node_at b i\<lparr>nd_remaining := n\<rparr>)"
    and lv: "levels_of sd b' = om_put (better sd) p
      (l\<lparr>lv_total := lv_total l - (nd_remaining (node_at b i) - n)\<rparr>) (levels_of sd b)"
    and op: "levels_of (opposite sd) b' = levels_of (opposite sd) b"
    using vi key find by (simp_all add: b'_def reduce_in_place_def Let_def)
  show rep': "book_rep b' G"
    by (rule rep_requantity [OF rep i key find n N _ lv op])
      (use vi key find in \<open>simp_all add: b'_def reduce_in_place_def Let_def\<close>)
  show "evolved b b' []"
    using vi key find by (simp add: b'_def reduce_in_place_def Let_def evolved_def)
  show "nd_remaining (node_at b' i) = n" by (simp add: N)
  show "view b' G (opposite sd) = view b G (opposite sd)"
    using view_other [OF rep op, of i "G sd"] key by (simp add: N)
  obtain us k vs where m: "levels_of sd b = us @ (p, k) # vs"
    using find_at_key [OF book_repD(7) [OF rep] \<open>p \<in> om_keys (levels_of sd b)\<close>] by blast
  with book_repD(7) [OF rep, of sd] have keys: "map fst (levels_of sd b') = map fst (levels_of sd b)"
    unfolding lv m by (simp add: price_split_simps)
  have queue: "map (\<lambda>x. if ro_id x = nd_id (node_at b i) then x\<lparr>ro_quantity := n\<rparr> else x)
      (map (\<lambda>j. resting_of (node_at b j)) (G sd r)) = map (\<lambda>j. resting_of (node_at b' j)) (G sd r)" for r
  proof -
    have "nd_id (node_at b j) = nd_id (node_at b i) \<longleftrightarrow> j = i" if "j \<in> set (G sd r)" for j
      using live_id_inject [OF rep, of j i] book_repD(4) [OF rep that] i by auto
    then show ?thesis by (auto simp: N resting_of_def)
  qed
  have "filter (\<lambda>r. map (\<lambda>j. resting_of (node_at b' j)) (G sd r) \<noteq> []) (map fst (levels_of sd b)) =
      map fst (levels_of sd b)"
    using ne by (intro filter_True) (auto simp: no_empty_def view_def)
  then show "view b' G sd = ladder_requantity (nd_id (node_at b i)) n (view b G sd)"
    unfolding view_def keys ladder_requantity_def ladder_map_map queue by simp
qed

end
