(* ===== verification/Book_Refine.thy ===== *)
theory Book_Refine
  imports Book_Effects
begin

text \<open>
  src/order\_book.cpp implements Book\_Spec: on every well-formed book the loops return, and the
  book they leave has the ladders and the events the specification says. \<open>match\_refines\<close> is the
  heart of it; the operations follow with \<open>abs\_book\<close>, which reads the queues of a book off its
  links.
\<close>

section \<open>The match loops\<close>

text \<open>
  \<open>resume\<close> is the rest of \<open>match_against\<close> from the inside of its inner loop, so that the two
  loops can be followed by one induction, over the ladder as \<open>a_match\<close> consumes it.
\<close>

definition resume ::
  "side \<Rightarrow> price \<Rightarrow> order_request \<Rightarrow> order_book \<Rightarrow> quantity \<Rightarrow>
   (match_outcome \<times> order_book \<times> quantity) option" where
  "resume sd key t b remaining =
     (case match_level sd key t b remaining of
        None \<Rightarrow> None
      | Some (exit, b', remaining') \<Rightarrow>
          (case exit of
             TakerGone \<Rightarrow> Some (TakerCancelled, b', remaining')
           | RestartOuter \<Rightarrow> match_against sd t b' remaining'
           | LevelDone \<Rightarrow> match_against sd t (erase_if_empty sd key b') remaining'))"

lemma match_against_resume:
  "match_against sd t b remaining =
     (case levels_of sd b of
        [] \<Rightarrow> Some (Completed, b, remaining)
      | (p, l) # ls \<Rightarrow>
          if remaining = 0 \<or> \<not> crosses t p then Some (Completed, b, remaining)
          else resume sd p t b remaining)"
proof (cases "levels_of sd b")
  case (Cons e ls)
  obtain p l where e: "e = (p, l)" by (cases e)
  have "fst (hd (levels_of sd b)) = p" by (simp add: Cons e)
  then show ?thesis
    unfolding match_against.simps [of sd t b remaining]
    by (simp only:) (auto simp: Cons e resume_def word_neq_0_conv)
qed (simp add: match_against.simps)

lemma resume_done:
  assumes "levels_of sd b = (p, l) # ls" and "remaining = 0 \<or> lv_head l = npos"
  shows "resume sd p t b remaining = match_against sd t (erase_if_empty sd p b) remaining"
  using assms by (subst resume_def, subst match_level.simps) (auto simp: om_find_hd)

lemma resume_fill:
  assumes "levels_of sd b = (p, l) # ls" and "remaining \<noteq> 0" and "lv_head l \<noteq> npos"
    and "stp b = StpNone \<or> nd_client_id (node_at b (lv_head l)) \<noteq> rq_client_id t"
    and "fill_maker sd p l t b remaining = (b', remaining')"
  shows "resume sd p t b remaining = resume sd p t b' remaining'"
  using assms
  by (subst resume_def, subst match_level.simps)
    (auto simp: om_find_hd word_neq_0_conv resume_def)

lemma resume_own:
  assumes "levels_of sd b = (p, l) # ls" and "remaining \<noteq> 0" and "lv_head l \<noteq> npos"
    and own: "stp b \<noteq> StpNone" "nd_client_id (node_at b (lv_head l)) = rq_client_id t"
  defines "m \<equiv> resting_of (node_at b (lv_head l))"
  defines "ct \<equiv> AReport (rq_order_id t) Cancelled remaining RejNone"
    and "cm \<equiv> AReport (ro_id m) Cancelled (ro_quantity m) RejNone"
    and "b' \<equiv> remove_without_report (lv_head l) b"
  shows "resume sd p t b remaining =
     (if stp b = CancelNewest then Some (TakerCancelled, emits [ct] b, remaining)
      else if stp b = CancelBoth then Some (TakerCancelled, emits [cm, ct] b', remaining)
      else match_against sd t (emits [cm] b') remaining)"
  using assms(1-5)
  by (subst resume_def, subst match_level.simps)
    (auto simp: om_find_hd word_neq_0_conv Let_def emit_report_emits m_def ct_def cm_def b'_def)

lemma rep_erase_empty:
  assumes rep: "book_rep b G" and lv: "levels_of sd b = (p, l) # ls" and G: "G sd p = []"
  shows "erase_if_empty sd p b = set_levels sd ls b" and "book_rep (set_levels sd ls b) G"
proof -
  have "level_ok (node_at b) l []"
    using levels_rep_find(1) [OF book_repD(7,8) [OF rep, of sd], of p l] by (simp add: lv om_find_hd G)
  then have "lv_head l = npos" by (simp add: level_ok_def)
  then show "erase_if_empty sd p b = set_levels sd ls b"
    by (simp add: erase_if_empty_def lv om_find_hd)
  have [simp]: "live (set_levels sd ls b) = live b" by (simp add: live_def)
  have ord: "om_ordered (better sd) ls" using book_repD(7) [OF rep, of sd] by (simp add: lv)
  have "levels_rep (node_at b) ls (G sd)"
    using book_repD(8) [OF rep, of sd] G by (auto simp: levels_rep_def lv)
  then show "book_rep (set_levels sd ls b) G"
    using rep ord by (simp add: book_rep_def)
qed

lemma view_erase_empty:
  assumes "book_rep b G" and "levels_of sd b = (p, l) # ls" and "view b G sd = (p, []) # L"
  defines "b' \<equiv> erase_if_empty sd p b"
  shows "book_rep b' G" and "view b' G sd = L" and "view b' G (opposite sd) = view b G (opposite sd)"
    and "evolved b b' []"
proof -
  have G: "G sd p = []" using assms(2,3) by (simp add: view_Cons)
  note rep_erase_empty [OF assms(1,2) G]
  then show "book_rep b' G" "view b' G sd = L" "view b' G (opposite sd) = view b G (opposite sd)"
    "evolved b b' []"
    using assms(2,3) by (simp_all add: b'_def view_def evolved_def)
qed

lemma view_front_queue:
  assumes "book_rep b G" and "view b G sd = (p, m # q) # L"
  obtains l ls i "is" where "levels_of sd b = (p, l) # ls" and "G sd p = i # is"
    and "lv_head l = i" and "i \<noteq> npos" and "m = resting_of (node_at b i)"
proof -
  obtain l ls where lv: "levels_of sd b = (p, l) # ls"
    and "m # q = map (\<lambda>i. resting_of (node_at b i)) (G sd p)"
    using assms(2) by (rule view_ConsD) simp
  then obtain i "is" where G: "G sd p = i # is" and "m = resting_of (node_at b i)" by auto
  moreover have "i \<noteq> npos" using book_repD(2) [OF assms(1), of sd p] G by auto
  ultimately show thesis using front_level(2) [OF assms(1) lv G] lv by (intro that) simp_all
qed

section \<open>Matching implements its specification\<close>

definition matches ::
  "(match_outcome \<times> order_book \<times> quantity) option \<Rightarrow> order_book \<Rightarrow> ghost \<Rightarrow> side \<Rightarrow>
   a_event list \<times> ladder \<times> quantity \<times> match_outcome \<Rightarrow> bool" where
  "matches X b G sd = (\<lambda>(es, L, remaining, outcome).
     \<exists>b' G'. X = Some (outcome, b', remaining) \<and> book_rep b' G' \<and> view b' G' sd = L \<and>
       view b' G' (opposite sd) = view b G (opposite sd) \<and> evolved b b' es \<and> no_empty L)"

lemma matches_step:
  assumes "matches X b' G' sd (es, r)" and "evolved b b' ds"
    and "view b' G' (opposite sd) = view b G (opposite sd)"
  shows "matches X b G sd (ds @ es, r)"
proof -
  obtain L remaining outcome where r: "r = (L, remaining, outcome)" by (cases r)
  from assms show ?thesis
    unfolding matches_def r by (auto intro: evolved_trans)
qed

lemma matches_Some:
  assumes "book_rep b' G'" and "evolved b b' es" and "no_empty (view b' G' sd)"
    and "view b' G' (opposite sd) = view b G (opposite sd)"
  shows "matches (Some (outcome, b', remaining)) b G sd (es, view b' G' sd, remaining, outcome)"
  using assms by (auto simp: matches_def)

fun settle :: "ladder \<Rightarrow> ladder" where
  "settle [] = []"
| "settle ((p, q) # L) = put_queue p q L"

lemma settle_no_empty: "no_empty L \<Longrightarrow> settle L = L"
  by (induction L rule: settle.induct) (auto simp: neq_Nil_conv)


lemma match_refines:
  assumes "no_empty (settle lad)" and "book_rep b G" and "stp b = pol"
  shows "(view b G sd = settle lad \<longrightarrow>
           matches (match_against sd t b remaining) b G sd (a_match pol t remaining lad)) \<and>
         (\<forall>p q L. view b G sd = lad \<longrightarrow> lad = (p, q) # L \<longrightarrow> crosses t p \<longrightarrow>
           matches (resume sd p t b remaining) b G sd (a_match pol t remaining lad))"
  using assms
proof (induction pol t remaining lad arbitrary: b G rule: a_match.induct)
  case (1 pol t remaining)
  then show ?case
    using matches_Some [of b G b "[]" sd G]
    by (auto simp: match_against_resume view_def)
next
  case (2 pol t remaining p L)
  then have ne: "no_empty L" by simp
  then have st: "settle L = L" by (rule settle_no_empty)
  with ne have ne': "no_empty (settle L)" by simp
  note IH = 2(1) [OF ne']
  show ?case
  proof (intro conjI impI allI)
    assume "view b G sd = settle ((p, []) # L)"
    with IH [OF 2(3,4)] st
    show "matches (match_against sd t b remaining) b G sd (a_match pol t remaining ((p, []) # L))"
      by simp
  next
    fix p' q L'
    assume V: "view b G sd = (p, []) # L" and eq: "(p, []) # L = (p', q) # L'" and "crosses t p'"
    from V obtain l ls where lv: "levels_of sd b = (p, l) # ls" by (rule view_ConsD)
    with V have "G sd p = []" by (simp add: view_Cons)
    then have "lv_head l = npos"
      using levels_rep_find(1) [OF book_repD(7,8) [OF 2(3), of sd], of p l] lv
      by (simp add: om_find_hd level_ok_def)
    then have "resume sd p t b remaining = match_against sd t (erase_if_empty sd p b) remaining"
      using resume_done [OF lv, of remaining t] by simp
    moreover note er = view_erase_empty [OF 2(3) lv V]
    moreover have "stp (erase_if_empty sd p b) = pol" using er(4) 2(4) by (simp add: evolved_def)
    ultimately show "matches (resume sd p' t b remaining) b G sd
        (a_match pol t remaining ((p, []) # L))"
      using IH [OF er(1)] st eq matches_step [OF _ er(4,3)]
      by (cases "a_match pol t remaining L") auto
  qed
next
  case (3 pol t remaining p m q L)
  from 3(3) have neL: "no_empty L" by simp
  have IH1: "matches (match_against sd t c remaining) c K sd (a_match pol t remaining ((p, q) # L))"
    if "remaining \<noteq> 0" "crosses t p" "pol \<noteq> StpNone" "ro_client m = rq_client_id t"
      "pol \<noteq> CancelNewest" "pol \<noteq> CancelBoth"
      "book_rep c K" "stp c = pol" "view c K sd = put_queue p q L" for c K
    using 3(1) [OF _ _ _ _ _ that(7,8)] that neL by (simp add: no_empty_put_queue)
  have IH2: "matches (resume sd p t c (remaining - ro_quantity m)) c K sd
      (a_match pol t (remaining - ro_quantity m) ((p, q) # L))"
    if "remaining \<noteq> 0" "crosses t p" "\<not> (pol \<noteq> StpNone \<and> ro_client m = rq_client_id t)"
      "ro_quantity m \<le> remaining"
      "book_rep c K" "stp c = pol" "view c K sd = (p, q) # L" for c K
    using 3(2) [OF _ that(3,4) _ that(5,6)] that neL by (simp add: no_empty_put_queue)
  note stp = 3(5)
  let ?lad = "(p, m # q) # L"
  have full: "matches (resume sd p t b remaining) b G sd (a_match pol t remaining ?lad)"
    if V: "view b G sd = ?lad" and cr: "crosses t p" and neg: "remaining \<noteq> 0"
  proof -
    obtain l ls i "is" where lv: "levels_of sd b = (p, l) # ls" and G: "G sd p = i # is"
      and h: "lv_head l = i" "i \<noteq> npos" and m: "m = resting_of (node_at b i)"
      using view_front_queue [OF 3(4) V] .
    show ?thesis
    proof (cases "pol \<noteq> StpNone \<and> ro_client m = rq_client_id t")
      case True
      then have own: "stp b \<noteq> StpNone" "nd_client_id (node_at b (lv_head l)) = rq_client_id t"
        using h m 3(5) by simp_all
      let ?cm = "AReport (ro_id m) Cancelled (ro_quantity m) RejNone"
      let ?ct = "AReport (rq_order_id t) Cancelled remaining RejNone"
      define b1 where "b1 = remove_without_report i b"
      define G1 where "G1 = G(sd := (G sd)(p := is))"
      note rf = view_remove_front [OF 3(4) lv G V, folded b1_def G1_def]
      have ev: "resume sd p t b remaining =
         (if pol = CancelNewest then Some (TakerCancelled, emits [?ct] b, remaining)
          else if pol = CancelBoth then Some (TakerCancelled, emits [?cm, ?ct] b1, remaining)
          else match_against sd t (emits [?cm] b1) remaining)"
        using resume_own [OF lv neg _ own] h m 3(5) by (simp add: b1_def)
      have evo: "evolved b (emits es b1) es" for es
        unfolding b1_def by (rule evolved_trans [OF remove_evolved evolved_emits, simplified])
      consider "pol = CancelNewest" | "pol = CancelBoth" | "pol = CancelOldest"
        using True by (cases pol) auto
      then show ?thesis
      proof cases
        case 1
        then show ?thesis
          using matches_Some [of "emits [?ct] b" G b "[?ct]" sd G] 3(4) V True cr neg ev neL by simp
      next
        case 2
        then show ?thesis
          using matches_Some [of "emits [?cm, ?ct] b1" G1 b _ sd G, OF _ evo] rf True cr neg ev neL
          by (simp add: no_empty_put_queue)
      next
        case 3
        have "matches (match_against sd t (emits [?cm] b1) remaining) (emits [?cm] b1) G1 sd
            (a_match pol t remaining ((p, q) # L))"
          using True cr neg 3 rf stp evo [of "[?cm]"]
          by (intro IH1) (simp_all add: evolved_def)
        then have "matches (match_against sd t (emits [?cm] b1) remaining) b G sd
            ([?cm] @ fst (a_match pol t remaining ((p, q) # L)),
             snd (a_match pol t remaining ((p, q) # L)))"
          by (intro matches_step [OF _ evo]) (use rf in simp_all)
        then show ?thesis using ev 3 True cr neg
          by (cases "a_match pol t remaining ((p, q) # L)") simp
      qed
    next
      case False
      then have notown: "stp b = StpNone \<or> nd_client_id (node_at b (lv_head l)) \<noteq> rq_client_id t"
        using h m stp by auto
      have hd: "lv_head l \<noteq> npos" using h by simp
      show ?thesis
      proof (cases "ro_quantity m \<le> remaining")
        case True
        obtain b' l' where fl: "fill_maker sd p l t b remaining = (b', remaining - ro_quantity m)"
            "book_rep b' (G(sd := (G sd)(p := is)))" "levels_of sd b' = (p, l') # ls"
            "view b' (G(sd := (G sd)(p := is))) sd = (p, q) # L"
            "view b' (G(sd := (G sd)(p := is))) (opposite sd) = view b G (opposite sd)"
            "levels_of (opposite sd) b' = levels_of (opposite sd) b"
            "evolved b b' [ATrade (ro_id m) (rq_order_id t) p (ro_quantity m) (rq_side t),
              AReport (ro_id m) Filled 0 RejNone]"
          by (rule fill_full [OF 3(4) lv G V True])
        have "stp b' = pol" using fl(7) stp by (simp add: evolved_def)
        then have "matches (resume sd p t b' (remaining - ro_quantity m)) b'
            (G(sd := (G sd)(p := is))) sd (a_match pol t (remaining - ro_quantity m) ((p, q) # L))"
          using IH2 [OF neg cr False True fl(2) _ fl(4)] by simp
        from matches_step [OF _ fl(7) fl(5), of _ "fst (a_match pol t (remaining - ro_quantity m) ((p, q) # L))"
            "snd (a_match pol t (remaining - ro_quantity m) ((p, q) # L))"] this
        show ?thesis
          using resume_fill [OF lv neg hd notown fl(1)] False True cr neg
          by (cases "a_match pol t (remaining - ro_quantity m) ((p, q) # L)") auto
      next
        case nle: False
        then have less: "remaining < ro_quantity m" by simp
        obtain b' where fl: "fill_maker sd p l t b remaining = (b', 0)" "book_rep b' G"
            "view b' G sd = (p, m\<lparr>ro_quantity := ro_quantity m - remaining\<rparr> # q) # L"
            "view b' G (opposite sd) = view b G (opposite sd)"
            "evolved b b' [ATrade (ro_id m) (rq_order_id t) p remaining (rq_side t),
              AReport (ro_id m) PartiallyFilled (ro_quantity m - remaining) RejNone]"
          by (rule fill_partial [OF 3(4) lv G V less neg])
        obtain l' ls' i' is' where lv': "levels_of sd b' = (p, l') # ls'" and "lv_head l' = i'" "i' \<noteq> npos"
          using view_front_queue [OF fl(2,3)] by metis
        then have "erase_if_empty sd p b' = b'" by (simp add: erase_if_empty_def om_find_hd)
        then have "resume sd p t b' 0 = Some (Completed, b', 0)"
          using resume_done [OF lv', of 0 t] by (simp add: match_against_resume lv')
        then show ?thesis
          using resume_fill [OF lv neg hd notown fl(1)] False nle cr neg neL fl(3)
            matches_Some [OF fl(2,5) _ fl(4), of Completed 0]
          by auto
      qed
    qed
  qed
  show ?case
  proof (intro conjI impI allI)
    assume V: "view b G sd = settle ?lad"
    then obtain l ls where lv: "levels_of sd b = (p, l) # ls" by (auto elim: view_ConsD)
    with V full matches_Some [OF 3(4) evolved_refl _ refl, of sd Completed remaining] neL
    show "matches (match_against sd t b remaining) b G sd (a_match pol t remaining ?lad)"
      by (auto simp: match_against_resume)
  next
    fix p' q' L'
    assume V: "view b G sd = ?lad" and eq: "?lad = (p', q') # L'" and cr: "crosses t p'"
    show "matches (resume sd p' t b remaining) b G sd (a_match pol t remaining ?lad)"
    proof (cases "remaining = 0")
      case True
      obtain l ls i "is" where lv: "levels_of sd b = (p, l) # ls" and "lv_head l = i" "i \<noteq> npos"
        using view_front_queue [OF 3(4) V] by metis
      then have "erase_if_empty sd p b = b" by (simp add: erase_if_empty_def om_find_hd)
      then have "resume sd p t b 0 = Some (Completed, b, 0)"
        using resume_done [OF lv, of 0 t] by (simp add: match_against_resume lv)
      then show ?thesis
        using V True eq neL matches_Some [OF 3(4) evolved_refl _ refl, of sd Completed 0] by auto
    qed (use full V eq cr in auto)
  qed
qed

section \<open>The abstract book\<close>

fun walk :: "nat \<Rightarrow> (u32 \<Rightarrow> node) \<Rightarrow> u32 \<Rightarrow> u32 list" where
  "walk 0 N i = []"
| "walk (Suc n) N i = (if i = npos then [] else i # walk n N (nd_next (N i)))"

definition abs_ladder :: "order_book \<Rightarrow> side \<Rightarrow> ladder" where
  "abs_ladder b sd =
     map (\<lambda>(p, l). (p, map (\<lambda>i. resting_of (node_at b i))
       (walk (length (nodes b)) (node_at b) (lv_head l)))) (levels_of sd b)"

definition abs_book :: "order_book \<Rightarrow> a_book" where
  "abs_book b =
     \<lparr>ab_symbol = symbol b, ab_capacity = length (nodes b), ab_ladder = abs_ladder b,
      ab_stp = stp b, ab_trades = trade_handler b, ab_reports = report_handler b,
      ab_sequence = sequence b, ab_out = out b\<rparr>"

lemma walk_dseg: "dseg N p h xs npos t \<Longrightarrow> npos \<notin> set xs \<Longrightarrow> length xs \<le> n \<Longrightarrow> walk n N h = xs"
proof (induction xs arbitrary: p h n)
  case Nil
  then show ?case by (cases n) simp_all
next
  case (Cons i xs)
  then obtain k where "n = Suc k" by (cases n) simp_all
  with Cons show ?case by auto
qed

lemma queue_length: "book_rep b G \<Longrightarrow> length (G sd p) \<le> length (nodes b)"
proof -
  assume rep: "book_rep b G"
  have "unat ` set (G sd p) \<subseteq> {0..<length (nodes b)}"
    using book_repD(3) [OF rep, of _ sd p] by (auto simp: valid_index_def)
  then have "card (unat ` set (G sd p)) \<le> length (nodes b)"
    using card_mono [of "{0..<length (nodes b)}"] by simp
  moreover have "card (unat ` set (G sd p)) = card (set (G sd p))"
    by (rule card_image) (auto simp: inj_on_def word_unat_eq_iff)
  ultimately show ?thesis using distinct_card [OF book_repD(6) [OF rep]] by simp
qed

lemma abs_ladder_view: "book_rep b G \<Longrightarrow> abs_ladder b = view b G"
proof
  fix sd assume rep: "book_rep b G"
  have "walk (length (nodes b)) (node_at b) (lv_head l) = G sd p" if "(p, l) \<in> set (levels_of sd b)" for p l
  proof -
    have "level_ok (node_at b) l (G sd p)"
      using book_repD(8) [OF rep, of sd] that by (auto simp: levels_rep_def)
    then show ?thesis
      using book_repD(2) [OF rep, of sd p] queue_length [OF rep, of sd p]
      by (intro walk_dseg) (auto simp: level_ok_def)
  qed
  then show "abs_ladder b sd = view b G sd"
    by (auto simp: abs_ladder_def view_def intro!: map_cong)
qed

lemma abs_book_simps [simp]:
  "ab_symbol (abs_book b) = symbol b" "ab_capacity (abs_book b) = length (nodes b)"
  "ab_stp (abs_book b) = stp b" "ab_trades (abs_book b) = trade_handler b"
  "ab_reports (abs_book b) = report_handler b" "ab_sequence (abs_book b) = sequence b"
  "ab_out (abs_book b) = out b" "ab_ladder (abs_book b) = abs_ladder b"
  by (simp_all add: abs_book_def)

text \<open>The abstract book after an operation, from its effect on the ladders and on the log.\<close>

lemma abs_evolved:
  assumes "book_rep b G" and "book_rep b' G'" and "evolved b b' es"
    and "view b' G' sd = L" and "view b' G' (opposite sd) = view b G (opposite sd)"
  shows "abs_book b' = a_emit es (a_set sd L (abs_book b))"
proof -
  have "abs_ladder b' = (abs_ladder b)(sd := L)"
    unfolding abs_ladder_view [OF assms(1)] abs_ladder_view [OF assms(2)]
    using assms(4,5) by (cases sd) (auto simp: fun_eq_iff, (metis side.exhaust)+)
  with assms(3) show ?thesis
    by (simp add: abs_book_def a_emit_def a_set_def evolved_def)
qed

section \<open>The orders of a book\<close>

definition indices :: "order_book \<Rightarrow> ghost \<Rightarrow> side \<Rightarrow> u32 list" where
  "indices b G sd = concat (map (G sd) (map fst (levels_of sd b)))"

lemma ladder_orders_view: "ladder_orders (view b G sd) = map (\<lambda>i. resting_of (node_at b i)) (indices b G sd)"
  by (simp add: ladder_orders_def view_def indices_def map_concat comp_def)

lemma set_indices:
  assumes "book_rep b G"
  shows "set (indices b G sd) = {i \<in> live b. nd_side (node_at b i) = sd}"
proof -
  have "i \<in> set (indices b G sd) \<longleftrightarrow> (\<exists>p. i \<in> set (G sd p))" for i
  proof -
    have "p \<in> om_keys (levels_of sd b)" if "i \<in> set (G sd p)" for p
      using unkeyed_queue [OF assms, of p sd] that by (cases "p \<in> om_keys (levels_of sd b)") auto
    then show ?thesis by (force simp: indices_def om_keys_def)
  qed
  with assms show ?thesis by (auto simp: book_rep_def)
qed

lemma distinct_indices:
  assumes "book_rep b G"
  shows "distinct (indices b G sd)"
proof -
  have disj: "set (G sd p) \<inter> set (G sd q) = {}" if "p \<noteq> q" for p q
  proof (rule ccontr)
    assume "\<not> ?thesis"
    then obtain i where "i \<in> set (G sd p)" "i \<in> set (G sd q)" by blast
    then have "nd_price (node_at b i) = p" "nd_price (node_at b i) = q"
      using book_repD(4) [OF assms] by blast+
    with that show False by simp
  qed
  have "distinct (concat (map (G sd) ks))" if "distinct ks" for ks
    using that
  proof (induction ks)
    case (Cons k ks)
    have "set (G sd k) \<inter> set (G sd r) = {}" if "r \<in> set ks" for r
      using Cons.prems that by (intro disj) auto
    then have "set (G sd k) \<inter> set (concat (map (G sd) ks)) = {}" by auto
    with Cons book_repD(6) [OF assms, of sd k] show ?case by simp
  qed simp
  from this [OF keys_distinct [OF assms]] show ?thesis by (simp only: indices_def)
qed

lemma orders_abs:
  assumes "book_rep b G"
  obtains "is" where "a_orders (abs_book b) = map (\<lambda>i. resting_of (node_at b i)) is"
    and "set is = live b" and "distinct is"
proof
  let ?is = "indices b G Buy @ indices b G Sell"
  show "a_orders (abs_book b) = map (\<lambda>i. resting_of (node_at b i)) ?is"
    by (simp add: a_orders_def abs_ladder_view [OF assms] ladder_orders_view)
  show "set ?is = live b"
    by (auto simp: set_indices [OF assms]) (metis side.exhaust)
  show "distinct ?is"
    using distinct_indices [OF assms] by (auto simp: set_indices [OF assms])
qed

lemma known_abs:
  assumes "book_rep b G"
  shows "a_known (abs_book b) oid \<longleftrightarrow> by_id b oid \<noteq> None"
proof -
  obtain is' where "a_orders (abs_book b) = map (\<lambda>i. resting_of (node_at b i)) is'" "set is' = live b"
    using orders_abs [OF assms] by metis
  then have "a_known (abs_book b) oid \<longleftrightarrow> (\<exists>i \<in> live b. nd_id (node_at b i) = oid)"
    by (auto simp: a_known_def image_image)
  also have "\<dots> \<longleftrightarrow> (\<exists>i. by_id b oid = Some i)" using assms by (auto simp: book_rep_def)
  finally show ?thesis by auto
qed

lemma full_abs:
  assumes "book_rep b G"
  shows "length (a_orders (abs_book b)) = length (nodes b) - length (free_list b)"
    and "length (free_list b) \<le> length (nodes b)"
    and "length (a_orders (abs_book b)) = card (live b)"
proof -
  let ?V = "{i. valid_index b i}"
  have lt: "length (nodes b) < 2 ^ 32" using assms by (simp add: book_rep_def)
  have "unat ` ?V = {0..<length (nodes b)}"
  proof (intro equalityI subsetI)
    fix n assume n: "n \<in> {0..<length (nodes b)}"
    with lt have "unat (of_nat n :: u32) = n" by (simp add: unat_of_nat take_bit_nat_eq_self)
    with n show "n \<in> unat ` ?V" by (intro image_eqI [of _ _ "of_nat n"]) (auto simp: valid_index_def)
  qed (auto simp: valid_index_def)
  moreover have "card (unat ` ?V) = card ?V"
    by (rule card_image) (auto simp: inj_on_def word_unat_eq_iff)
  ultimately have V: "card ?V = length (nodes b)" by simp
  have "?V = set (free_list b) \<union> live b" "set (free_list b) \<inter> live b = {}"
    using assms by (auto simp: book_rep_def live_def)
  moreover have "card (set (free_list b)) = length (free_list b)"
    using assms by (simp add: book_rep_def distinct_card)
  ultimately have sum: "length (free_list b) + card (live b) = length (nodes b)"
    using V card_Un_disjoint [of "set (free_list b)" "live b"] by simp
  obtain is' where "a_orders (abs_book b) = map (\<lambda>i. resting_of (node_at b i)) is'"
      "set is' = live b" "distinct is'"
    using orders_abs [OF assms] by metis
  then show "length (a_orders (abs_book b)) = card (live b)" by (metis distinct_card length_map)
  with sum show "length (a_orders (abs_book b)) = length (nodes b) - length (free_list b)"
    "length (free_list b) \<le> length (nodes b)" by simp_all
qed

section \<open>Looking an order up\<close>

lemma ladder_lookup_None: "ladder_lookup oid L = None \<longleftrightarrow> oid \<notin> ro_id ` set (ladder_orders L)"
  by (induction L rule: ladder_lookup.induct)
    (auto simp: find_None_iff split: option.split, auto simp: find_Some_iff)

lemma ladder_lookup_Some:
  "ladder_lookup oid L = Some (p, x) \<Longrightarrow> \<exists>q. (p, q) \<in> set L \<and> x \<in> set q \<and> ro_id x = oid"
  by (induction L rule: ladder_lookup.induct)
    (auto simp: find_Some_iff split: option.splits dest: nth_mem)

lemma lookup_view:
  assumes "book_rep b G" and "ladder_lookup oid (view b G sd) = Some (p, x)"
  shows "\<exists>i. by_id b oid = Some i \<and> nd_side (node_at b i) = sd \<and> nd_price (node_at b i) = p \<and>
    x = resting_of (node_at b i)"
proof -
  obtain q where "(p, q) \<in> set (view b G sd)" and x: "x \<in> set q" "ro_id x = oid"
    using ladder_lookup_Some [OF assms(2)] by blast
  then obtain i where i: "i \<in> set (G sd p)" "x = resting_of (node_at b i)" by (auto simp: view_def)
  with book_repD(4) [OF assms(1) i(1)] x have "by_id b oid = Some i"
    using assms(1) by (simp add: book_rep_def)
  with i book_repD(4) [OF assms(1) i(1)] show ?thesis by blast
qed

lemma lookup_abs:
  assumes rep: "book_rep b G"
  shows "a_lookup oid (abs_book b) =
     (case by_id b oid of
        None \<Rightarrow> None
      | Some i \<Rightarrow> Some (nd_side (node_at b i), nd_price (node_at b i), resting_of (node_at b i)))"
proof (cases "by_id b oid")
  case None
  then show ?thesis
    using lookup_view [OF rep, of oid]
    by (cases "ladder_lookup oid (view b G Buy)"; cases "ladder_lookup oid (view b G Sell)")
      (auto simp: a_lookup_def abs_ladder_view [OF rep])
next
  case (Some i)
  then have "a_known (abs_book b) oid" by (simp add: known_abs [OF rep])
  then have "ladder_lookup oid (view b G Buy) \<noteq> None \<or> ladder_lookup oid (view b G Sell) \<noteq> None"
    by (auto simp: ladder_lookup_None a_known_def a_orders_def abs_ladder_view [OF rep])
  with Some lookup_view [OF rep, of oid] show ?thesis
    by (cases "ladder_lookup oid (view b G Buy)"; cases "ladder_lookup oid (view b G Sell)")
      (fastforce simp: a_lookup_def abs_ladder_view [OF rep])+
qed

section \<open>The checks of submit\<close>

lemma validate_abs:
  assumes "book_rep b G"
  shows "validate_reason r b = a_validate r (abs_book b)"
proof -
  have "length (a_orders (abs_book b)) = ab_capacity (abs_book b) \<longleftrightarrow> free_list b = []"
    using full_abs(1,2) [OF assms] by (cases "free_list b") auto
  then show ?thesis by (simp add: validate_reason_def a_validate_def known_abs [OF assms])
qed

lemma would_trade_abs:
  assumes "book_rep b G"
  shows "would_trade r b = a_would_trade r (abs_ladder b (opposite (rq_side r)))"
  unfolding abs_ladder_view [OF assms]
  by (cases "rq_side r")
    (auto simp: would_trade_def a_would_trade_def best_ask_def best_bid_def view_def
      split: list.split prod.split)

lemma available_abs:
  assumes "book_rep b G"
  shows "available_to_match r b = a_available r (abs_ladder b (opposite (rq_side r))) 0"
proof -
  let ?sd = "opposite (rq_side r)"
  have tot: "lv_total l = queue_total (map (\<lambda>i. resting_of (node_at b i)) (G ?sd p))"
    if "(p, l) \<in> set (levels_of ?sd b)" for p l
    using book_repD(8) [OF assms, of ?sd] that
    by (auto simp: levels_rep_def level_ok_def queue_total_def comp_def)
  have "available_loop r ls acc =
      a_available r (map (\<lambda>p. (p, map (\<lambda>i. resting_of (node_at b i)) (G ?sd p))) (map fst ls)) acc"
    if "set ls \<subseteq> set (levels_of ?sd b)" for r ls acc
    using that
  proof (induction r ls acc rule: available_loop.induct)
    case (2 r p l ls acc)
    with tot [of p l] show ?case by (simp add: Let_def)
  qed simp
  then show ?thesis
    by (simp add: available_to_match_def abs_ladder_view [OF assms] view_def)
qed

section \<open>Operations\<close>

lemma book_invE:
  assumes "book_inv b"
  obtains G where "book_rep b G" and "\<forall>sd. no_empty (view b G sd)"
  using assms by (auto simp: book_inv_def no_empty_level_iff)

lemma book_invI:
  assumes "book_rep b G" and "no_empty (view b G sd)" and "no_empty (view b G (opposite sd))"
  shows "book_inv b"
proof -
  have "no_empty (view b G s)" for s using assms(2,3) by (cases s; cases sd) simp_all
  with assms(1) show ?thesis by (auto simp: book_inv_def no_empty_level_iff)
qed

lemma book_inv_emits [simp]: "book_inv (emits es b) = book_inv b"
  by (simp add: book_inv_def no_empty_level_def)

lemma abs_emits [simp]: "abs_book (emits es b) = a_emit es (abs_book b)"
  by (simp add: abs_book_def a_emit_def abs_ladder_def fun_eq_iff)

lemma match_against_refines:
  assumes inv: "book_inv b" and m: "a_match (stp b) t n (abs_ladder b sd) = (es, L, n', oc)"
  obtains b' where "match_against sd t b n = Some (oc, b', n')" and "book_inv b'"
    and "abs_book b' = a_emit es (a_set sd L (abs_book b))" and "evolved b b' es"
proof -
  obtain G where rep: "book_rep b G" and ne: "\<forall>sd. no_empty (view b G sd)"
    using inv by (rule book_invE)
  have "matches (match_against sd t b n) b G sd (a_match (stp b) t n (view b G sd))"
    using match_refines [OF _ rep refl, of "view b G sd" sd t n] ne settle_no_empty [OF ne [rule_format]] by simp
  then obtain b' G' where "match_against sd t b n = Some (oc, b', n')" and rep': "book_rep b' G'"
    and v: "view b' G' sd = L" "view b' G' (opposite sd) = view b G (opposite sd)"
    and ev: "evolved b b' es" and "no_empty L"
    using m by (auto simp: matches_def abs_ladder_view [OF rep])
  moreover from this have "book_inv b'"
    using ne by (intro book_invI [OF rep', of sd]) simp_all
  ultimately show thesis
    using abs_evolved [OF rep rep' ev v] by (intro that) simp_all
qed

lemma rest_refines:
  assumes inv: "book_inv b" and ok: "n \<noteq> 0" "0 < rq_price r"
    and new: "\<not> a_known (abs_book b) (rq_order_id r)"
    and room: "length (a_orders (abs_book b)) < ab_capacity (abs_book b)"
  obtains b' where "rest r n b = (Inr (), b')" and "book_inv b'"
    and "abs_book b' = a_rest r n (abs_book b)" and "evolved b b' []"
proof -
  obtain G where rep: "book_rep b G" and ne: "\<forall>sd. no_empty (view b G sd)"
    using inv by (rule book_invE)
  have "free_list b \<noteq> []" "by_id b (rq_order_id r) = None"
    using room full_abs [OF rep] new by (auto simp: known_abs [OF rep])
  then obtain b' G' where "rest r n b = (Inr (), b')" and rep': "book_rep b' G'" and ev: "evolved b b' []"
    and v: "view b' G' (rq_side r) = ladder_insert (rq_side r) (rq_price r)
      \<lparr>ro_id = rq_order_id r, ro_client = rq_client_id r, ro_quantity = n\<rparr> (view b G (rq_side r))"
    "view b' G' (opposite (rq_side r)) = view b G (opposite (rq_side r))"
    using view_rest [OF rep _ ok] by metis
  moreover from v ne have "book_inv b'"
    by (intro book_invI [OF rep', of "rq_side r"]) (simp_all add: no_empty_insert)
  ultimately show thesis
    using abs_evolved [OF rep rep' ev v]
    by (intro that) (simp_all add: a_rest_def a_emit_def abs_ladder_view [OF rep])
qed

lemma a_emit_frame [simp]:
  "ab_symbol (a_emit es A) = ab_symbol A" "ab_capacity (a_emit es A) = ab_capacity A"
  "ab_ladder (a_emit es A) = ab_ladder A" "ab_stp (a_emit es A) = ab_stp A"
  "ab_trades (a_emit es A) = ab_trades A" "ab_reports (a_emit es A) = ab_reports A"
  "a_orders (a_emit es A) = a_orders A" "a_known (a_emit es A) = a_known A"
  "a_emit ds (a_emit es A) = a_emit (es @ ds) A" "a_emit [] A = A"
  by (simp_all add: a_emit_def a_orders_def a_known_def fun_eq_iff stamp_append add.assoc)

lemma a_set_frame [simp]:
  "ab_symbol (a_set sd L A) = ab_symbol A" "ab_capacity (a_set sd L A) = ab_capacity A"
  "ab_ladder (a_set sd L A) = (ab_ladder A)(sd := L)" "ab_stp (a_set sd L A) = ab_stp A"
  "ab_trades (a_set sd L A) = ab_trades A" "ab_reports (a_set sd L A) = ab_reports A"
  "ab_sequence (a_set sd L A) = ab_sequence A" "ab_out (a_set sd L A) = ab_out A"
  "a_set sd L (a_emit es A) = a_emit es (a_set sd L A)"
  by (simp_all add: a_set_def a_emit_def)

lemma a_match_known:
  assumes "a_match pol t n (ab_ladder A sd) = (es, L', n', oc)"
  shows "a_known (a_set sd L' A) oid \<Longrightarrow> a_known A oid"
    and "length (a_orders (a_set sd L' A)) \<le> length (a_orders A)"
  using a_match_orders [OF assms] by (cases sd; auto simp: a_known_def a_orders_def)+

lemma a_reject_emits: "a_reject oid n re (abs_book b) = (False, abs_book (emit_report oid Rejected n re b))"
  by (simp add: a_reject_def emit_report_emits)

lemma finish_refines:
  assumes inv: "book_inv b" and ok: "0 < rq_price r \<or> rq_type r \<noteq> Limit \<and> rq_type r \<noteq> PostOnly"
    and new: "\<not> a_known (abs_book b) (rq_order_id r)"
    and room: "length (a_orders (abs_book b)) < ab_capacity (abs_book b)"
  obtains b' where "finish_submit r n b = (Inr True, b')" and "book_inv b'"
    and "abs_book b' = a_finish r n (abs_book b)"
proof -
  define b1 where "b1 = emits (a_taker_events r n) b"
  have b1: "(if n = 0 then emit_report (rq_order_id r) Filled 0 RejNone b
       else if n < rq_quantity r then emit_report (rq_order_id r) PartiallyFilled n RejNone b
       else b) = b1"
    by (simp add: b1_def a_taker_events_def emit_report_emits)
  have A1: "abs_book b1 = a_emit (a_taker_events r n) (abs_book b)" by (simp add: b1_def)
  show thesis
  proof (cases "n \<noteq> 0 \<and> (rq_type r = Limit \<or> rq_type r = PostOnly)")
    case True
    moreover obtain b' where "rest r n b1 = (Inr (), b')" "book_inv b'"
      "abs_book b' = a_rest r n (abs_book b1)"
      using rest_refines [of b1 n r] inv ok new room True by (auto simp: b1_def)
    ultimately show thesis
      by (intro that [of b'])
        (auto simp: finish_submit_def b1 Let_def word_neq_0_conv a_finish_def A1)
  next
    case False
    with inv show thesis
      by (intro that [of "if n = 0 then b1 else emit_report (rq_order_id r) Expired n RejNone b1"])
        (auto simp: finish_submit_def b1 Let_def word_neq_0_conv a_finish_def emit_report_emits,
          auto simp: b1_def)
  qed
qed

lemma a_validate_RejNone:
  assumes "a_validate r A = RejNone"
  shows "\<not> a_known A (rq_order_id r)" and "length (a_orders A) \<noteq> ab_capacity A"
    and "rq_quantity r \<noteq> 0" and "rq_type r \<noteq> Market \<Longrightarrow> 0 < rq_price r"
    and "rq_symbol r = ab_symbol A"
  using assms by (auto simp: a_validate_def split: if_splits)

lemma capacity_abs: "book_inv b \<Longrightarrow> length (a_orders (abs_book b)) \<le> ab_capacity (abs_book b)"
  using full_abs(1) by (auto elim!: book_invE)

lemma submit_implements:
  assumes inv: "book_inv b"
  obtains b' where "submit r b = Some (Inr (fst (a_submit r (abs_book b))), b')" and "book_inv b'"
    and "abs_book b' = snd (a_submit r (abs_book b))"
proof -
  let ?A = "abs_book b" and ?opp = "opposite (rq_side r)"
  obtain G where rep: "book_rep b G" using inv by (rule book_invE)
  note checks = validate_abs [OF rep] would_trade_abs [OF rep] available_abs [OF rep]
  consider (invalid) "a_validate r ?A \<noteq> RejNone"
    | (trades) "a_validate r ?A = RejNone" "rq_type r = PostOnly" "a_would_trade r (abs_ladder b ?opp)"
    | (thin) "a_validate r ?A = RejNone" "rq_type r = FOK"
        "a_available r (abs_ladder b ?opp) 0 < rq_quantity r"
    | (go) "a_validate r ?A = RejNone" "\<not> (rq_type r = PostOnly \<and> a_would_trade r (abs_ladder b ?opp))"
        "\<not> (rq_type r = FOK \<and> a_available r (abs_ladder b ?opp) 0 < rq_quantity r)"
    by blast
  then show thesis
  proof cases
    case go
    define b1 where "b1 = emits [AReport (rq_order_id r) Accepted (rq_quantity r) RejNone] b"
    have inv1: "book_inv b1" and A1: "abs_book b1 =
        a_emit [AReport (rq_order_id r) Accepted (rq_quantity r) RejNone] ?A"
      using inv by (simp_all add: b1_def)
    obtain es L n oc where m: "a_match (stp b1) r (rq_quantity r) (abs_ladder b1 ?opp) = (es, L, n, oc)"
      by (metis prod_cases4)
    obtain b2 where b2: "match_against ?opp r b1 (rq_quantity r) = Some (oc, b2, n)" "book_inv b2"
      "abs_book b2 = a_emit es (a_set ?opp L (abs_book b1))"
      using match_against_refines [OF inv1 m] by metis
    have m': "a_match (stp b) r (rq_quantity r) (ab_ladder ?A ?opp) = (es, L, n, oc)"
      using m by (simp add: b1_def abs_ladder_def)
    note valid = a_validate_RejNone [OF go(1)] and shrink = a_match_known [OF m']
    have sub: "submit r b = (case oc of TakerCancelled \<Rightarrow> Some (Inr True, b2)
        | Completed \<Rightarrow> Some (finish_submit r n b2))"
      using go b2(1)
      by (auto simp: submit_def validate_def checks b1_def [symmetric] emit_report_emits
          split: match_outcome.split)
    have asub: "a_submit r ?A = (True, if oc = TakerCancelled then abs_book b2 else a_finish r n (abs_book b2))"
      using go m' by (auto simp: a_submit_def b2(3) A1 Let_def)
    show thesis
    proof (cases oc)
      case TakerCancelled
      with sub asub b2 show thesis by (intro that [of b2]) simp_all
    next
      case Completed
      have "\<not> a_known (abs_book b2) (rq_order_id r)"
        using valid(1) shrink(1) by (auto simp: b2(3) A1)
      moreover have "length (a_orders (abs_book b2)) < ab_capacity (abs_book b2)"
        using valid(2) shrink(2) capacity_abs [OF inv] by (simp add: b2(3) A1)
      moreover have "0 < rq_price r \<or> rq_type r \<noteq> Limit \<and> rq_type r \<noteq> PostOnly"
        using valid(4) by auto
      ultimately obtain b' where "finish_submit r n b2 = (Inr True, b')" "book_inv b'"
        "abs_book b' = a_finish r n (abs_book b2)"
        using finish_refines [OF b2(2)] by metis
      with Completed sub asub show thesis by (intro that [of b']) simp_all
    qed
  qed (use inv that in \<open>auto simp: submit_def validate_def checks a_submit_def a_reject_emits
      emit_report_emits\<close>)
qed


lemma remove_implements:
  assumes inv: "book_inv b" and i: "by_id b oid = Some i"
  shows "book_inv (remove_without_report i b)"
    and "abs_book (remove_without_report i b) =
      a_delete (nd_side (node_at b i)) oid (abs_book b)"
proof -
  obtain G where rep: "book_rep b G" and ne: "\<forall>sd. no_empty (view b G sd)"
    using inv by (rule book_invE)
  have live: "i \<in> live b" and oid: "nd_id (node_at b i) = oid" using rep i by (simp_all add: book_rep_def)
  note rm = view_remove [OF rep live refl refl ne [rule_format]]
  show "abs_book (remove_without_report i b) = a_delete (nd_side (node_at b i)) oid (abs_book b)"
    using abs_evolved [OF rep rm(1) remove_evolved rm(2,3)]
    by (simp add: oid a_delete_def abs_ladder_view [OF rep])
  show "book_inv (remove_without_report i b)"
    using rm ne
    by (intro book_invI [OF rm(1), of "nd_side (node_at b i)"])
      (simp_all add: ladder_remove_def ladder_map_def no_empty_def)
qed

lemma by_id_live: "book_inv b \<Longrightarrow> by_id b oid = Some i \<Longrightarrow> i \<in> live b \<and> nd_id (node_at b i) = oid"
  by (auto elim!: book_invE simp: book_rep_def)

lemma lookup_implements:
  "book_inv b \<Longrightarrow> a_lookup oid (abs_book b) =
     (case by_id b oid of
        None \<Rightarrow> None
      | Some i \<Rightarrow> Some (nd_side (node_at b i), nd_price (node_at b i), resting_of (node_at b i)))"
  by (auto elim!: book_invE simp: lookup_abs)

lemma cancel_implements:
  assumes inv: "book_inv b"
  shows "fst (cancel r b) = fst (a_cancel r (abs_book b))" and "book_inv (snd (cancel r b))"
    and "abs_book (snd (cancel r b)) = snd (a_cancel r (abs_book b))"
proof -
  note look = lookup_implements [OF inv, of "cx_order_id r"]
  show "fst (cancel r b) = fst (a_cancel r (abs_book b))" "book_inv (snd (cancel r b))"
    "abs_book (snd (cancel r b)) = snd (a_cancel r (abs_book b))"
    using inv remove_implements [OF inv, of "cx_order_id r"]
    by (auto simp: cancel_def a_cancel_def look emit_report_emits a_reject_def Let_def
        split: option.split)
qed

lemma reduce_implements:
  assumes inv: "book_inv b" and i: "by_id b oid = Some i" and n: "n \<noteq> 0"
  shows "book_inv (reduce_in_place i n b)" and "nd_remaining (node_at (reduce_in_place i n b) i) = n"
    and "abs_book (reduce_in_place i n b) = a_set (nd_side (node_at b i))
      (ladder_requantity oid n (ab_ladder (abs_book b) (nd_side (node_at b i)))) (abs_book b)"
proof -
  obtain G where rep: "book_rep b G" and ne: "\<forall>sd. no_empty (view b G sd)"
    using inv by (rule book_invE)
  have live: "i \<in> live b" and oid: "nd_id (node_at b i) = oid" using rep i by (simp_all add: book_rep_def)
  note rd = view_reduce [OF rep live n refl refl ne [rule_format]]
  show "nd_remaining (node_at (reduce_in_place i n b) i) = n" by (rule rd(5))
  show "abs_book (reduce_in_place i n b) = a_set (nd_side (node_at b i))
      (ladder_requantity oid n (ab_ladder (abs_book b) (nd_side (node_at b i)))) (abs_book b)"
    using abs_evolved [OF rep rd(1,4,2,3)]
    by (simp add: oid abs_ladder_view [OF rep])
  show "book_inv (reduce_in_place i n b)"
    using rd ne
    by (intro book_invI [OF rd(1), of "nd_side (node_at b i)"])
      (simp_all add: ladder_requantity_def ladder_map_def no_empty_def)
qed

lemma replace_implements:
  assumes inv: "book_inv b"
  obtains b' where "replace r b = Some (Inr (fst (a_replace r (abs_book b))), b')" and "book_inv b'"
    and "abs_book b' = snd (a_replace r (abs_book b))"
proof (cases "by_id b (rp_order_id r)")
  case None
  with inv show thesis
    using lookup_implements [OF inv, of "rp_order_id r"]
    by (intro that [of "emit_report (rp_order_id r) Rejected 0 UnknownOrder b"])
      (simp_all add: replace_def a_replace_def a_reject_def emit_report_emits)
next
  case (Some i)
  note look = lookup_implements [OF inv, of "rp_order_id r"]
  let ?nd = "node_at b i" and ?n = "rp_new_quantity r"
  let ?ev = "[AReport (rp_order_id r) Replaced ?n RejNone]"
  let ?q = "\<lparr>rq_order_id = rp_order_id r, rq_client_id = rp_client_id r, rq_side = nd_side ?nd,
    rq_type = Limit, rq_price = rp_new_price r, rq_quantity = ?n, rq_symbol = symbol b\<rparr>"
  consider (client) "nd_client_id ?nd \<noteq> rp_client_id r"
    | (bad) "nd_client_id ?nd = rp_client_id r" "rp_new_price r \<le> 0 \<or> ?n = 0"
    | (reduce) "nd_client_id ?nd = rp_client_id r" "\<not> (rp_new_price r \<le> 0 \<or> ?n = 0)"
        "rp_new_price r = nd_price ?nd \<and> ?n \<le> nd_remaining ?nd"
    | (move) "nd_client_id ?nd = rp_client_id r" "\<not> (rp_new_price r \<le> 0 \<or> ?n = 0)"
        "\<not> (rp_new_price r = nd_price ?nd \<and> ?n \<le> nd_remaining ?nd)"
    by blast
  then show thesis
  proof cases
    case client
    with inv Some look show thesis
      by (intro that [of "emit_report (rp_order_id r) Rejected (nd_remaining ?nd) ClientMismatch b"])
        (simp_all add: replace_def a_replace_def a_reject_def emit_report_emits)
  next
    case bad
    with inv Some look show thesis
      by (intro that [of "emit_report (rp_order_id r) Rejected (nd_remaining ?nd) InvalidReplacement b"])
        (simp_all add: replace_def a_replace_def a_reject_def emit_report_emits Let_def)
  next
    case reduce
    note rd = reduce_implements [OF inv Some, of ?n]
    from reduce Some look rd show thesis
      by (intro that [of "emits ?ev (reduce_in_place i ?n b)"])
        (simp_all add: replace_def a_replace_def emit_report_emits Let_def)
  next
    case move
    define b1 where "b1 = emits ?ev (remove_without_report i b)"
    have b1: "book_inv b1" "abs_book b1 = a_emit ?ev (a_delete (nd_side ?nd) (rp_order_id r) (abs_book b))"
      using remove_implements [OF inv Some] by (simp_all add: b1_def)
    have "replace r b = submit ?q b1"
      using move Some by (auto simp: replace_def Let_def emit_report_emits b1_def)
    moreover have "a_replace r (abs_book b) = a_submit ?q (abs_book b1)"
      using move Some look by (auto simp: a_replace_def b1 Let_def)
    ultimately show thesis
      using submit_implements [OF b1(1), of ?q] that by metis
  qed
qed

end
