(* ===== verification/Book_Correct.thy ===== *)
theory Book_Correct
  imports Book_Refine
begin

text \<open>
  What the implementation of the specification gives the clients of the order book: it never
  crosses, it conserves quantity, makers trade in price-time order, fill-or-kill orders fill or
  leave the book alone, a cancel takes exactly its order out, and events are numbered without
  gaps. The properties are stated of the operations of the code; their proofs are about the
  abstract operations.
\<close>

section \<open>The book is never crossed\<close>

definition uncrossed :: "a_book \<Rightarrow> bool" where
  "uncrossed A \<longleftrightarrow>
     (\<forall>p \<in> om_keys (ab_ladder A Buy). \<forall>q \<in> om_keys (ab_ladder A Sell). p < q)"

definition ladders_ordered :: "a_book \<Rightarrow> bool" where
  "ladders_ordered A \<longleftrightarrow> (\<forall>sd. om_ordered (better sd) (ab_ladder A sd))"

lemma ordered_abs: "book_inv b \<Longrightarrow> ladders_ordered (abs_book b)"
  by (auto elim!: book_invE simp: ladders_ordered_def abs_ladder_view om_ordered_def view_keys
      dest: book_repD(7) [unfolded om_ordered_def])

lemma uncrossed_emit [simp]: "uncrossed (a_emit es A) = uncrossed A"
  by (simp add: uncrossed_def)

lemma uncrossed_shrink:
  assumes "uncrossed A" and "om_keys L \<subseteq> om_keys (ab_ladder A sd)"
  shows "uncrossed (a_set sd L A)"
  using assms by (cases sd) (auto simp: uncrossed_def)

lemma keys_put_queue: "om_keys (put_queue p q L) \<subseteq> insert p (om_keys L)"
  by (cases q) auto

lemma a_match_keys:
  "a_match pol t n L = (es, L', n', oc) \<Longrightarrow> om_keys L' \<subseteq> om_keys L"
  by (induction rule: a_match_rule) (use keys_put_queue in fastforce)+

lemma a_match_ends:
  "a_match pol t n L = (es, L', n', oc) \<Longrightarrow> om_ordered (better (opposite (rq_side t))) L \<Longrightarrow>
   oc = Completed \<Longrightarrow> n' \<noteq> 0 \<Longrightarrow> rq_type t \<noteq> Market \<Longrightarrow>
   p \<in> om_keys L' \<Longrightarrow> \<not> crosses t p"
  by (induction rule: a_match_rule)
    (auto simp: crosses_def split: side.splits, force+)

lemma better_total: "\<not> better sd p k \<Longrightarrow> \<not> better sd k p \<Longrightarrow> p = k"
  by (cases sd) auto

lemma keys_ladder_insert: "om_keys (ladder_insert sd p x L) = insert p (om_keys L)"
  by (induction sd p x L rule: ladder_insert.induct) (auto dest: better_total)

lemma keys_ladder_map: "om_keys (ladder_map f L) \<subseteq> om_keys L"
  by (force simp: ladder_map_def om_keys_def)

lemma uncrossed_rest:
  assumes "uncrossed A"
    and "\<And>p. p \<in> om_keys (ab_ladder A (opposite (rq_side r))) \<Longrightarrow> \<not> crosses r p"
    and "rq_type r \<noteq> Market"
  shows "uncrossed (a_rest r n A)"
  using assms
  by (cases "rq_side r") (auto simp: uncrossed_def a_rest_def keys_ladder_insert crosses_def not_le)

lemma uncrossed_submit:
  assumes unc: "uncrossed A" and ord: "ladders_ordered A"
  shows "uncrossed (snd (a_submit r A))"
proof -
  let ?opp = "opposite (rq_side r)"
  obtain es L n oc where m: "a_match (ab_stp A) r (rq_quantity r) (ab_ladder A ?opp) = (es, L, n, oc)"
    by (metis prod_cases4)
  have sh: "uncrossed (a_set ?opp L A)"
    by (rule uncrossed_shrink [OF unc a_match_keys [OF m]])
  have "uncrossed (a_finish r n (a_emit ds (a_set ?opp L A)))" if "oc = Completed" for ds
  proof -
    have "\<not> crosses r p" if "n \<noteq> 0" "rq_type r \<noteq> Market" "p \<in> om_keys L" for p
      using a_match_ends [OF m _ \<open>oc = Completed\<close> that] ord by (simp add: ladders_ordered_def)
    then have "uncrossed (a_rest r n (a_emit (ds @ a_taker_events r n) (a_set ?opp L A)))"
      if "n \<noteq> 0" "rq_type r \<noteq> Market"
      using that sh by (intro uncrossed_rest) simp_all
    then show ?thesis using sh by (auto simp: a_finish_def Let_def)
  qed
  then show ?thesis
    using unc sh by (cases oc) (auto simp: a_submit_def Let_def m a_reject_def)
qed

lemma uncrossed_cancel: "uncrossed A \<Longrightarrow> uncrossed (snd (a_cancel r A))"
  by (auto simp: a_cancel_def a_reject_def a_delete_def ladder_remove_def
      intro!: uncrossed_shrink keys_ladder_map split: option.split)

lemma ordered_ladder_map: "om_ordered lt L \<Longrightarrow> om_ordered lt (ladder_map f L)"
proof (induction L)
  case (Cons e L)
  then show ?case using keys_ladder_map [of f L]
    by (cases e) (auto simp: ladder_map_def)
qed (simp add: ladder_map_def)

lemma uncrossed_replace:
  assumes unc: "uncrossed A" and ord: "ladders_ordered A"
  shows "uncrossed (snd (a_replace r A))"
proof -
  have "uncrossed (a_emit es (a_delete sd oid A))" "ladders_ordered (a_emit es (a_delete sd oid A))"
    for es sd oid
    using unc ord
    by (auto simp: a_delete_def ladder_remove_def ladders_ordered_def
        intro!: uncrossed_shrink keys_ladder_map ordered_ladder_map)
  then show ?thesis
    using unc
    by (auto simp: a_replace_def a_reject_def Let_def ladder_requantity_def
        intro!: uncrossed_submit uncrossed_shrink keys_ladder_map split: option.split)
qed

section \<open>Reachable books\<close>

text \<open>Every book a client of the class can have: constructed, configured, and operated on.\<close>

inductive reachable :: "order_book \<Rightarrow> bool" where
  new: "capacity < 2 ^ 32 \<Longrightarrow> reachable (new_book capacity sy)"
| stp: "reachable b \<Longrightarrow> reachable (b\<lparr>stp := pol\<rparr>)"
| handlers: "reachable b \<Longrightarrow> reachable (b\<lparr>trade_handler := tr, report_handler := rp\<rparr>)"
| submit: "reachable b \<Longrightarrow> submit r b = Some (res, b') \<Longrightarrow> reachable b'"
| cancel: "reachable b \<Longrightarrow> reachable (snd (cancel c b))"
| replace: "reachable b \<Longrightarrow> replace q b = Some (res, b') \<Longrightarrow> reachable b'"
| reset: "reachable b \<Longrightarrow> reachable (reset b)"

lemma free_indices_set: "c < 2 ^ 32 \<Longrightarrow> i \<in> set (free_indices c) \<longleftrightarrow> unat i < c"
  by (auto simp: free_indices_def unat_of_nat take_bit_nat_eq_self intro!: image_eqI [of _ _ "unat i"])

lemma free_indices_distinct: "c < 2 ^ 32 \<Longrightarrow> distinct (free_indices c)"
  by (auto simp: free_indices_def distinct_map unat_of_nat take_bit_nat_eq_self
      intro!: inj_on_inverseI [of _ unat])

lemma empty_book_inv:
  assumes "length (nodes b) < 2 ^ 32" and "nodes b = replicate (length (nodes b)) empty_node"
    and "free_list b = free_indices (length (nodes b))" and "by_id b = Map.empty"
    and "bids b = []" and "asks b = []" and "active_count b = 0"
  shows "book_inv b"
proof -
  have node: "node_at b i = empty_node" if "valid_index b i" for i
    using that by (subst node_at_def, subst assms(2)) (simp add: valid_index_def)
  then have live: "live b = {}" by (auto simp: live_def)
  have lv: "levels_of sd b = []" for sd using assms(5,6) by (cases sd) simp_all
  have "book_rep b (\<lambda>_ _. [])"
    using assms(1,3,4,7) node
    by (auto simp: book_rep_def live lv levels_rep_def free_indices_distinct free_indices_set
        valid_index_def)
  moreover have "no_empty_level b (\<lambda>_ _. [])" by (simp add: no_empty_level_def lv)
  ultimately show ?thesis by (auto simp: book_inv_def)
qed

lemma config_frame [simp]:
  "levels_of sd (b\<lparr>stp := x\<rparr>) = levels_of sd b" "node_at (b\<lparr>stp := x\<rparr>) = node_at b"
  "levels_of sd (b\<lparr>trade_handler := tr, report_handler := rp\<rparr>) = levels_of sd b"
  "node_at (b\<lparr>trade_handler := tr, report_handler := rp\<rparr>) = node_at b"
  by (cases sd; simp add: node_at_def fun_eq_iff)+

lemma config_inv [simp]:
  "book_inv (b\<lparr>stp := x\<rparr>) = book_inv b"
  "book_inv (b\<lparr>trade_handler := tr, report_handler := rp\<rparr>) = book_inv b"
  by (simp_all add: book_inv_def book_rep_def no_empty_level_def live_def valid_index_def)

lemma config_uncrossed [simp]:
  "uncrossed (abs_book (b\<lparr>stp := x\<rparr>)) = uncrossed (abs_book b)"
  "uncrossed (abs_book (b\<lparr>trade_handler := tr, report_handler := rp\<rparr>)) = uncrossed (abs_book b)"
  by (simp_all add: uncrossed_def abs_ladder_def)

lemma reset_inv:
  assumes "length (nodes b) < 2 ^ 32"
  shows "book_inv (reset b)" and "uncrossed (abs_book (reset b))"
  using assms by (auto intro!: empty_book_inv simp: reset_def uncrossed_def abs_ladder_def)

lemma new_book_inv:
  assumes "capacity < 2 ^ 32"
  shows "book_inv (new_book capacity sy)" and "uncrossed (abs_book (new_book capacity sy))"
  using assms by (auto intro!: empty_book_inv simp: new_book_def uncrossed_def abs_ladder_def)

lemma book_inv_length: "book_inv b \<Longrightarrow> length (nodes b) < 2 ^ 32"
  by (auto elim!: book_invE simp: book_rep_def)

lemma submitD:
  assumes "book_inv b" and "submit r b = Some (res, b')"
  shows "res = Inr (fst (a_submit r (abs_book b)))" and "book_inv b'"
    and "abs_book b' = snd (a_submit r (abs_book b))"
  using submit_implements [OF assms(1), of r] assms(2) by (metis option.inject prod.inject)+

lemma replaceD:
  assumes "book_inv b" and "replace r b = Some (res, b')"
  shows "res = Inr (fst (a_replace r (abs_book b)))" and "book_inv b'"
    and "abs_book b' = snd (a_replace r (abs_book b))"
  using replace_implements [OF assms(1), of r] assms(2) by (metis option.inject prod.inject)+

lemma reachable_inv: "reachable b \<Longrightarrow> book_inv b \<and> uncrossed (abs_book b)"
proof (induction rule: reachable.induct)
  case (submit b r res b')
  with submitD [of b r res b'] show ?case by (auto intro!: uncrossed_submit ordered_abs)
next
  case (cancel b c)
  with cancel_implements(2,3) [of b c] show ?case by (simp add: uncrossed_cancel)
next
  case (replace b q res b')
  with replaceD [of b q res b'] show ?case by (auto intro!: uncrossed_replace ordered_abs)
next
  case (reset b)
  with reset_inv [OF book_inv_length] show ?case by simp
qed (simp_all add: new_book_inv)

section \<open>Conservation of quantity\<close>

definition total :: "queue \<Rightarrow> nat" where
  "total q = (\<Sum>x\<leftarrow>q. unat (ro_quantity x))"

lemma total_simps [simp]:
  "total [] = 0" "total (x # q) = unat (ro_quantity x) + total q" "total (q @ r) = total q + total r"
  by (simp_all add: total_def)

fun traded :: "a_event list \<Rightarrow> nat" where
  "traded [] = 0"
| "traded (ATrade m t p q sd # es) = unat q + traded es"
| "traded (AReport i st q re # es) = traded es"

text \<open>What leaves the market without trading.\<close>

fun withdrawn :: "a_event list \<Rightarrow> nat" where
  "withdrawn [] = 0"
| "withdrawn (ATrade m t p q sd # es) = withdrawn es"
| "withdrawn (AReport i st q re # es) = (if st \<in> {Cancelled, Expired} then unat q else 0) + withdrawn es"

lemma traded_append [simp]: "traded (es @ ds) = traded es + traded ds"
  by (induction es rule: traded.induct) simp_all

lemma withdrawn_append [simp]: "withdrawn (es @ ds) = withdrawn es + withdrawn ds"
  by (induction es rule: withdrawn.induct) simp_all

lemma unat_minus: "(a :: u32) \<le> b \<Longrightarrow> unat (b - a) = unat b - unat a \<and> unat a \<le> unat b"
  by (simp add: unat_sub word_le_nat_alt)

lemma a_match_conserves:
  "a_match pol t n L = (es, L', n', oc) \<Longrightarrow>
   total (ladder_orders L') + unat n' + 2 * traded es + withdrawn es =
     total (ladder_orders L) + unat n + (if oc = TakerCancelled then unat n' else 0)"
  by (induction rule: a_match_rule) (auto dest: unat_minus [OF less_imp_le] unat_minus)

lemma a_match_taker:
  "a_match pol t n L = (es, L', n', oc) \<Longrightarrow> traded es + unat n' = unat n"
  by (induction rule: a_match_rule) (auto dest: unat_minus)

section \<open>What an operation adds to the log\<close>

definition new_events :: "order_book \<Rightarrow> order_book \<Rightarrow> book_event list" where
  "new_events b b' = drop (length (out b)) (out b')"

fun ev_traded :: "book_event list \<Rightarrow> nat" where
  "ev_traded [] = 0"
| "ev_traded (EvTrade t # es) = unat (tr_quantity t) + ev_traded es"
| "ev_traded (EvReport r # es) = ev_traded es"

fun ev_withdrawn :: "book_event list \<Rightarrow> nat" where
  "ev_withdrawn [] = 0"
| "ev_withdrawn (EvTrade t # es) = ev_withdrawn es"
| "ev_withdrawn (EvReport r # es) =
     (if er_status r \<in> {Cancelled, Expired} then unat (er_remaining r) else 0) + ev_withdrawn es"

fun ev_fills :: "book_event list \<Rightarrow> (order_id \<times> price \<times> quantity) list" where
  "ev_fills [] = []"
| "ev_fills (EvTrade t # es) = (tr_maker_order_id t, tr_price t, tr_quantity t) # ev_fills es"
| "ev_fills (EvReport r # es) = ev_fills es"

fun fills :: "a_event list \<Rightarrow> (order_id \<times> price \<times> quantity) list" where
  "fills [] = []"
| "fills (ATrade m t p q sd # es) = (m, p, q) # fills es"
| "fills (AReport i st q re # es) = fills es"

lemma fills_append [simp]: "fills (es @ ds) = fills es @ fills ds"
  by (induction es rule: fills.induct) simp_all

lemma stamp_traded [simp]: "ev_traded (stamp sy True rp s es) = traded es"
  by (induction es arbitrary: s rule: traded.induct; cases rp) simp_all

lemma stamp_withdrawn [simp]: "ev_withdrawn (stamp sy tr True s es) = withdrawn es"
  by (induction es arbitrary: s rule: traded.induct; cases tr) simp_all

lemma stamp_fills [simp]: "ev_fills (stamp sy True rp s es) = fills es"
  by (induction es arbitrary: s rule: traded.induct; cases rp) simp_all

definition a_adds :: "a_book \<Rightarrow> a_book \<Rightarrow> a_event list \<Rightarrow> bool" where
  "a_adds A A' es \<longleftrightarrow>
     ab_symbol A' = ab_symbol A \<and> ab_capacity A' = ab_capacity A \<and> ab_stp A' = ab_stp A \<and>
     ab_trades A' = ab_trades A \<and> ab_reports A' = ab_reports A \<and>
     ab_sequence A' = ab_sequence A + of_nat (length es) \<and>
     ab_out A' = ab_out A @ stamp (ab_symbol A) (ab_trades A) (ab_reports A) (ab_sequence A) es"

lemma a_adds_emit: "a_adds A A' es \<Longrightarrow> a_adds A (a_emit ds A') (es @ ds)"
  by (simp add: a_adds_def) (simp add: a_emit_def stamp_append)

lemma a_adds_set: "a_adds A A' es \<Longrightarrow> a_adds A (a_set sd L A') es"
  by (simp add: a_adds_def)

lemma a_adds_refl: "a_adds A A []"
  by (simp add: a_adds_def)

lemmas a_adds_once = a_adds_emit [OF a_adds_refl, simplified]
lemmas a_adds_intros = a_adds_refl a_adds_once a_adds_emit a_adds_set

lemma new_events_abs:
  assumes "a_adds (abs_book b) (abs_book b') es"
  shows "new_events b b' = stamp (symbol b) (trade_handler b) (report_handler b) (sequence b) es"
    and "sequence b' = sequence b + of_nat (length es)"
  using assms by (simp_all add: a_adds_def new_events_def)

text \<open>The events of a submission, and the ladders it leaves.\<close>

definition a_accepts :: "order_request \<Rightarrow> a_book \<Rightarrow> bool" where
  "a_accepts r A \<longleftrightarrow> fst (a_submit r A)"

definition a_closing :: "order_request \<Rightarrow> quantity \<Rightarrow> a_event list" where
  "a_closing r n =
     a_taker_events r n @
     (if n \<noteq> 0 \<and> rq_type r \<noteq> Limit \<and> rq_type r \<noteq> PostOnly
      then [AReport (rq_order_id r) Expired n RejNone] else [])"

definition a_rests :: "order_request \<Rightarrow> quantity \<Rightarrow> bool" where
  "a_rests r n \<longleftrightarrow> n \<noteq> 0 \<and> (rq_type r = Limit \<or> rq_type r = PostOnly)"

lemma a_rest_emit [simp]: "a_rest r n (a_emit es A) = a_emit es (a_rest r n A)"
  by (simp add: a_rest_def)

lemma a_finish_split:
  "a_finish r n A = a_emit (a_closing r n) (if a_rests r n then a_rest r n A else A)"
  by (auto simp: a_finish_def a_closing_def a_rests_def Let_def)

lemma a_submit_rejected:
  assumes "\<not> fst (a_submit r A)"
  obtains re where "snd (a_submit r A) = a_emit [AReport (rq_order_id r) Rejected (rq_quantity r) re] A"
  using assms by (auto simp: a_submit_def a_reject_def Let_def split: if_splits prod.splits)

lemma a_submit_accepted:
  assumes "fst (a_submit r A)"
  obtains es L n oc X where
    "a_match (ab_stp A) r (rq_quantity r) (ab_ladder A (opposite (rq_side r))) = (es, L, n, oc)"
    and "X = a_set (opposite (rq_side r)) L A"
    and "snd (a_submit r A) =
      a_emit (AReport (rq_order_id r) Accepted (rq_quantity r) RejNone # es @
          (if oc = Completed then a_closing r n else []))
        (if oc = Completed \<and> a_rests r n then a_rest r n X else X)"
    and "a_validate r A = RejNone"
    and "rq_type r = PostOnly \<Longrightarrow> \<not> a_would_trade r (ab_ladder A (opposite (rq_side r)))"
    and "rq_type r = FOK \<Longrightarrow> a_available r (ab_ladder A (opposite (rq_side r))) 0 \<ge> rq_quantity r"
proof -
  let ?opp = "opposite (rq_side r)"
  obtain es L n oc where m: "a_match (ab_stp A) r (rq_quantity r) (ab_ladder A ?opp) = (es, L, n, oc)"
    by (metis prod_cases4)
  with assms show thesis
    by (intro that [OF m refl])
      (cases oc; auto simp: a_submit_def a_reject_def Let_def a_finish_split split: if_splits)+
qed

lemma a_accepts_adds:
  assumes "a_match (ab_stp A) r (rq_quantity r) (ab_ladder A (opposite (rq_side r))) = (es, L, n, oc)"
    and "snd (a_submit r A) =
      a_emit ds (if oc = Completed \<and> a_rests r n then a_rest r n X else X)"
    and "X = a_set (opposite (rq_side r)) L A"
  shows "a_adds A (snd (a_submit r A)) ds"
proof -
  have over: "a_adds A Y [] \<Longrightarrow> a_adds A (a_emit ds Y) ds" for Y
    using a_adds_emit [of A Y "[]" ds] by simp
  show ?thesis
    unfolding assms(2) assms(3) a_rest_def by (intro over) (auto intro!: a_adds_intros)
qed

lemma orders_ladder_insert:
  "\<exists>us vs. ladder_orders L = us @ vs \<and> ladder_orders (ladder_insert sd p x L) = us @ x # vs"
proof (induction sd p x L rule: ladder_insert.induct)
  case (2 sd p x k q L)
  then obtain us vs where "ladder_orders L = us @ vs"
    "\<not> better sd p k \<Longrightarrow> better sd k p \<Longrightarrow> ladder_orders (ladder_insert sd p x L) = us @ x # vs"
    by (metis append_Nil)
  then show ?case
    by (cases "better sd p k"; cases "better sd k p")
      (auto intro: exI [of _ "[]"] exI [of _ q] exI [of _ "q @ us"])
qed simp

lemma total_rest:
  "total (a_orders (a_rest r n A)) = total (a_orders A) + unat n"
  using orders_ladder_insert [of "ab_ladder A (rq_side r)" "rq_side r" "rq_price r"
      "\<lparr>ro_id = rq_order_id r, ro_client = rq_client_id r, ro_quantity = n\<rparr>"]
  by (cases "rq_side r") (auto simp: a_rest_def a_orders_def)

lemma closing_counts:
  "traded (a_closing r n) = 0"
  "withdrawn (a_closing r n) = (if n \<noteq> 0 \<and> \<not> a_rests r n then unat n else 0)"
  by (auto simp: a_closing_def a_taker_events_def a_rests_def)

lemma a_submit_conserves:
  assumes "fst (a_submit r A)"
  shows "\<exists>es. a_adds A (snd (a_submit r A)) es \<and>
    total (a_orders (snd (a_submit r A))) + 2 * traded es + withdrawn es =
      total (a_orders A) + unat (rq_quantity r)"
  using assms
proof (rule a_submit_accepted)
  fix es L n oc X
  assume m: "a_match (ab_stp A) r (rq_quantity r) (ab_ladder A (opposite (rq_side r))) = (es, L, n, oc)"
    and X: "X = a_set (opposite (rq_side r)) L A"
    and sub: "snd (a_submit r A) =
      a_emit (AReport (rq_order_id r) Accepted (rq_quantity r) RejNone # es @
          (if oc = Completed then a_closing r n else []))
        (if oc = Completed \<and> a_rests r n then a_rest r n X else X)"
  have "total (a_orders X) + total (ladder_orders (ab_ladder A (opposite (rq_side r)))) =
      total (a_orders A) + total (ladder_orders L)"
    unfolding X by (cases "rq_side r") (simp_all add: a_orders_def)
  with a_match_conserves [OF m]
  have "total (a_orders (snd (a_submit r A))) +
      2 * traded (AReport (rq_order_id r) Accepted (rq_quantity r) RejNone # es @
          (if oc = Completed then a_closing r n else [])) +
      withdrawn (AReport (rq_order_id r) Accepted (rq_quantity r) RejNone # es @
          (if oc = Completed then a_closing r n else [])) = total (a_orders A) + unat (rq_quantity r)"
    by (cases oc; auto simp: sub total_rest closing_counts a_rests_def)
  with a_accepts_adds [OF m sub X] show ?thesis by blast
qed

section \<open>Price-time priority\<close>

definition flat :: "ladder \<Rightarrow> (price \<times> resting) list" where
  "flat L = concat (map (\<lambda>(p, q). map (\<lambda>x. (p, x)) q) L)"

lemma flat_simps [simp]:
  "flat [] = []" "flat ((p, q) # L) = map (\<lambda>x. (p, x)) q @ flat L"
  by (simp_all add: flat_def)

definition whole_fill :: "price \<times> resting \<Rightarrow> order_id \<times> price \<times> quantity" where
  "whole_fill = (\<lambda>(p, x). (ro_id x, p, ro_quantity x))"

text \<open>
  Trades in price-time priority: the orders at the front of the queue are filled whole, one
  after the other, and at most one more is filled in part.
\<close>

definition priority_fills ::
  "(price \<times> resting) list \<Rightarrow> (order_id \<times> price \<times> quantity) list \<Rightarrow> (price \<times> resting) list \<Rightarrow> bool" where
  "priority_fills Q fs Q' \<longleftrightarrow>
     (\<exists>k \<le> length Q. fs = map whole_fill (take k Q) \<and> Q' = drop k Q) \<or>
     (\<exists>k < length Q. \<exists>p x n. Q ! k = (p, x) \<and> 0 < n \<and> n < ro_quantity x \<and>
        fs = map whole_fill (take k Q) @ [(ro_id x, p, n)] \<and>
        Q' = (p, x\<lparr>ro_quantity := ro_quantity x - n\<rparr>) # drop (Suc k) Q)"

lemma priority_fills_Nil: "priority_fills Q [] Q"
  unfolding priority_fills_def by (intro disjI1 exI [of _ 0]) simp

lemma priority_fills_Cons:
  assumes "priority_fills Q fs Q'"
  shows "priority_fills ((p, x) # Q) ((ro_id x, p, ro_quantity x) # fs) Q'"
proof -
  from assms consider
      (whole) k where "k \<le> length Q" "fs = map whole_fill (take k Q)" "Q' = drop k Q"
    | (part) k r y n where "k < length Q" "Q ! k = (r, y)" "0 < n" "n < ro_quantity y"
        "fs = map whole_fill (take k Q) @ [(ro_id y, r, n)]"
        "Q' = (r, y\<lparr>ro_quantity := ro_quantity y - n\<rparr>) # drop (Suc k) Q"
    unfolding priority_fills_def by blast
  then show ?thesis
  proof cases
    case whole
    then show ?thesis
      unfolding priority_fills_def by (intro disjI1 exI [of _ "Suc k"]) (simp add: whole_fill_def)
  next
    case part
    then show ?thesis
      unfolding priority_fills_def
      by (intro disjI2 exI [of _ "Suc k"] conjI exI [of _ r] exI [of _ y] exI [of _ n])
        (simp_all add: whole_fill_def)
  qed
qed

lemma a_match_priority:
  "a_match pol t n L = (es, L', n', oc) \<Longrightarrow> pol = StpNone \<Longrightarrow> priority_fills (flat L) (fills es) (flat L')"
proof (induction rule: a_match_rule)
  case (partial rem p m q L)
  then show ?case
    unfolding priority_fills_def
    by (intro disjI2 exI [of _ 0] conjI exI [of _ p] exI [of _ m] exI [of _ rem])
      (simp_all add: word_neq_0_conv)
qed (simp_all add: priority_fills_Nil priority_fills_Cons)

lemma a_match_limit:
  "a_match pol t n L = (es, L', n', oc) \<Longrightarrow> (i, p, q) \<in> set (fills es) \<Longrightarrow> crosses t p"
  by (induction rule: a_match_rule) auto

lemma fills_closing [simp]: "fills (a_closing r n) = []"
  by (simp add: a_closing_def a_taker_events_def)

section \<open>Fill or kill\<close>

definition crossing_total :: "order_request \<Rightarrow> ladder \<Rightarrow> nat" where
  "crossing_total r L = total (ladder_orders (takeWhile (\<lambda>(p, q). crosses r p) L))"

text \<open>The quantity at every price fits the 32-bit total of its level.\<close>

definition totals_fit :: "ladder \<Rightarrow> bool" where
  "totals_fit L \<longleftrightarrow> (\<forall>(p, q) \<in> set L. total q < 2 ^ 32)"

lemma unat_queue_total: "total q < 2 ^ 32 \<Longrightarrow> unat (queue_total q) = total q"
proof -
  have "queue_total q = of_nat (total q)"
    by (induction q) (simp_all add: queue_total_def)
  then show "total q < 2 ^ 32 \<Longrightarrow> unat (queue_total q) = total q"
    by (simp add: unat_of_nat take_bit_nat_eq_self)
qed

lemma available_crossing:
  "rq_quantity r \<le> a_available r L acc \<Longrightarrow> totals_fit L \<Longrightarrow> unat acc < unat (rq_quantity r) \<Longrightarrow>
   unat (rq_quantity r) \<le> unat acc + crossing_total r L"
proof (induction r L acc rule: a_available.induct)
  case (1 r acc)
  have "unat acc < 2 ^ 32" using 1(3) unat_u32 [of "rq_quantity r"] by (rule less_trans)
  with 1 show ?case
    by (simp add: word_le_nat_alt crossing_total_def take_bit_nat_eq_self
        unsigned_ucast_eq take_bit_nat_def)
next
  case (2 r p q L acc)
  have small: "unat acc < 2 ^ 32" using 2(4) unat_u32 [of "rq_quantity r"] by (rule less_trans)
  show ?case
  proof (cases "crosses r p")
    case False
    with 2 small show ?thesis
      by (simp add: word_le_nat_alt crossing_total_def unsigned_ucast_eq take_bit_nat_def)
  next
    case True
    have q: "total q < 2 ^ 32" and L: "totals_fit L" using 2(3) by (simp_all add: totals_fit_def)
    have "unat (ucast (queue_total q) :: u64) = total q"
      using q by (simp add: unat_queue_total)
    then have sum: "unat (acc + ucast (queue_total q)) = unat acc + total q"
      using small q by (simp add: unat_word_ariths)
    have tot: "crossing_total r ((p, q) # L) = total q + crossing_total r L"
      using True by (simp add: crossing_total_def)
    have qq: "unat (ucast (rq_quantity r) :: u64) = unat (rq_quantity r)" by simp
    show ?thesis
    proof (cases "ucast (rq_quantity r) \<le> acc + ucast (queue_total q)")
      case True
      then have "unat (rq_quantity r) \<le> unat acc + total q"
        by (simp add: word_le_nat_alt sum qq)
      with tot show ?thesis by simp
    next
      case nle: False
      then have "unat acc + total q < unat (rq_quantity r)" by (simp add: word_le_nat_alt sum qq)
      with 2(1) [OF _ nle] 2(2) True nle L sum show ?thesis by (simp add: tot)
    qed
  qed
qed

lemma a_match_fills_all:
  "a_match pol t n L = (es, L', n', oc) \<Longrightarrow> pol = StpNone \<Longrightarrow> unat n \<le> crossing_total t L \<Longrightarrow>
   n' = 0 \<and> oc = Completed"
  by (induction rule: a_match_rule)
    (auto simp: crossing_total_def unat_eq_0 dest: unat_minus split: if_splits)

section \<open>Properties\<close>

text \<open>A small book for the witnesses: two asks at 101 and one at 102, capacity 8.\<close>

definition request :: "u64 \<Rightarrow> u32 \<Rightarrow> side \<Rightarrow> order_type \<Rightarrow> int \<Rightarrow> u32 \<Rightarrow> order_request" where
  "request oid client sd ty px q =
     \<lparr>rq_order_id = oid, rq_client_id = client, rq_side = sd, rq_type = ty, rq_price = px,
      rq_quantity = q, rq_symbol = 1\<rparr>"

fun run_orders :: "order_request list \<Rightarrow> order_book \<Rightarrow> order_book" where
  "run_orders [] b = b"
| "run_orders (r # rs) b =
     (case submit r b of None \<Rightarrow> b | Some (_, b') \<Rightarrow> run_orders rs b')"

lemma reachable_run: "reachable b \<Longrightarrow> reachable (run_orders rs b)"
  by (induction rs arbitrary: b) (auto split: option.split intro: reachable.submit)

definition demo_book :: order_book where
  "demo_book = run_orders
     [request 1 7 Sell Limit 101 5, request 2 8 Sell Limit 101 4, request 3 9 Sell Limit 102 6]
     ((new_book 8 1)\<lparr>trade_handler := True, report_handler := True\<rparr>)"

text \<open>What the example books hold is computed from the specification.\<close>

fun a_run :: "order_request list \<Rightarrow> a_book \<Rightarrow> a_book" where
  "a_run [] A = A"
| "a_run (r # rs) A = a_run rs (snd (a_submit r A))"

lemma abs_run: "book_inv b \<Longrightarrow> abs_book (run_orders rs b) = a_run rs (abs_book b)"
proof (induction rs arbitrary: b)
  case (Cons r rs)
  then obtain b' where "submit r b = Some (Inr (fst (a_submit r (abs_book b))), b')" "book_inv b'"
    "abs_book b' = snd (a_submit r (abs_book b))" by (blast elim: submit_implements)
  with Cons.IH show ?case by simp
qed simp

definition a_empty :: "nat \<Rightarrow> a_book" where
  "a_empty c = \<lparr>ab_symbol = 1, ab_capacity = c, ab_ladder = (\<lambda>_. []), ab_stp = StpNone,
     ab_trades = True, ab_reports = True, ab_sequence = 0, ab_out = []\<rparr>"

lemma abs_empty:
  "abs_book ((new_book c 1)\<lparr>trade_handler := True, report_handler := True\<rparr>) = a_empty c"
proof -
  have "abs_ladder ((new_book c 1)\<lparr>trade_handler := True, report_handler := True\<rparr>) sd = []" for sd
    by (cases sd) (simp_all add: abs_ladder_def new_book_def)
  then show "abs_book ((new_book c 1)\<lparr>trade_handler := True, report_handler := True\<rparr>) = a_empty c"
    by (simp add: abs_book_def a_empty_def new_book_def fun_eq_iff)
qed

lemma demo_reachable: "reachable demo_book"
  unfolding demo_book_def
  by (intro reachable_run reachable.handlers reachable.new) simp

lemma demo_abs: "abs_book demo_book = a_run
     [request 1 7 Sell Limit 101 5, request 2 8 Sell Limit 101 4, request 3 9 Sell Limit 102 6]
     (a_empty 8)"
  unfolding demo_book_def abs_empty [symmetric] by (intro abs_run) (simp add: new_book_inv)

text \<open>C1: Submitting any request to any reachable book returns, leaves a well-formed reachable
  book, and its answer, its queues and its events are those of the specification of queues.\<close>

theorem submit_refines:
  assumes "reachable b"
  shows "\<exists>res b'. submit r b = Some (Inr res, b') \<and> reachable b' \<and> book_inv b' \<and>
    a_submit r (abs_book b) = (res, abs_book b')"
proof -
  have "book_inv b" using reachable_inv [OF assms] by simp
  then obtain b' where b': "submit r b = Some (Inr (fst (a_submit r (abs_book b))), b')"
    "book_inv b'" "abs_book b' = snd (a_submit r (abs_book b))" by (rule submit_implements)
  moreover have "reachable b'" by (rule reachable.submit [OF assms b'(1)])
  ultimately show ?thesis by simp
qed

theorem submit_refines_witness:
  "\<exists>b'. submit (request 4 6 Buy Limit 101 7) demo_book = Some (Inr True, b') \<and> book_inv b' \<and>
     a_submit (request 4 6 Buy Limit 101 7) (abs_book demo_book) = (True, abs_book b')"
proof -
  have "fst (a_submit (request 4 6 Buy Limit 101 7) (abs_book demo_book))"
    unfolding demo_abs by code_simp
  then show ?thesis
    using submit_refines [OF demo_reachable, of "request 4 6 Buy Limit 101 7"] by auto
qed


text \<open>C40: Replacing returns on every reachable book; its answer, queues and events are those of
  the specification.\<close>

theorem replace_refines:
  assumes "reachable b"
  shows "\<exists>res b'. replace q b = Some (Inr res, b') \<and> reachable b' \<and> book_inv b' \<and>
    a_replace q (abs_book b) = (res, abs_book b')"
proof -
  have "book_inv b" using reachable_inv [OF assms] by simp
  then obtain b' where b': "replace q b = Some (Inr (fst (a_replace q (abs_book b))), b')"
    "book_inv b'" "abs_book b' = snd (a_replace q (abs_book b))" by (rule replace_implements)
  moreover have "reachable b'" by (rule reachable.replace [OF assms b'(1)])
  ultimately show ?thesis by simp
qed

definition demo_replace :: replace_request where
  "demo_replace = \<lparr>rp_order_id = 1, rp_client_id = 7, rp_new_price = 103, rp_new_quantity = 9,
     rp_symbol = 1\<rparr>"

theorem replace_refines_witness:
  "\<exists>b'. replace demo_replace demo_book = Some (Inr True, b') \<and> book_inv b' \<and>
     a_replace demo_replace (abs_book demo_book) = (True, abs_book b')"
proof -
  have "fst (a_replace demo_replace (abs_book demo_book))"
    unfolding demo_abs by code_simp
  then show ?thesis using replace_refines [OF demo_reachable, of demo_replace] by auto
qed


definition two_sided_book :: order_book where
  "two_sided_book = run_orders [request 4 6 Buy Limit 100 7] demo_book"

lemma two_sided_reachable: "reachable two_sided_book"
  unfolding two_sided_book_def by (intro reachable_run demo_reachable)

lemma two_sided_abs:
  "abs_book two_sided_book = a_run [request 4 6 Buy Limit 100 7] (abs_book demo_book)"
  unfolding two_sided_book_def by (intro abs_run) (simp add: reachable_inv [OF demo_reachable])


text \<open>C4: An accepted order conserves quantity: what rests afterwards, twice what traded (both
  sides give it up) and what was cancelled or expired are what rested before plus the order.\<close>

theorem submit_conserves:
  assumes "reachable b" and "trade_handler b" and "report_handler b"
    and "submit r b = Some (Inr True, b')"
  shows "total (a_orders (abs_book b')) + 2 * ev_traded (new_events b b') +
      ev_withdrawn (new_events b b') = total (a_orders (abs_book b)) + unat (rq_quantity r)"
proof -
  note sub = submitD [OF conjunct1 [OF reachable_inv [OF assms(1)]] assms(4)]
  from sub(1) obtain es where "a_adds (abs_book b) (abs_book b') es"
    and "total (a_orders (abs_book b')) + 2 * traded es + withdrawn es =
      total (a_orders (abs_book b)) + unat (rq_quantity r)"
    using a_submit_conserves [of r "abs_book b"] by (auto simp: sub(3))
  with assms(2,3) show ?thesis by (simp add: new_events_abs)
qed

lemma demo_submit:
  assumes "fst (a_submit r (abs_book demo_book))"
  obtains b' where "submit r demo_book = Some (Inr True, b')" and "book_inv b'"
    and "abs_book b' = snd (a_submit r (abs_book demo_book))"
  using submit_implements [of demo_book r] reachable_inv [OF demo_reachable] assms by auto

lemma demo_handlers: "trade_handler demo_book" "report_handler demo_book" "stp demo_book = StpNone"
proof -
  have "ab_trades (abs_book demo_book)" "ab_reports (abs_book demo_book)"
    "ab_stp (abs_book demo_book) = StpNone" unfolding demo_abs by code_simp+
  then show "trade_handler demo_book" "report_handler demo_book" "stp demo_book = StpNone"
    by simp_all
qed

theorem submit_conserves_witness:
  "\<exists>b'. submit (request 4 6 Buy Limit 101 12) demo_book = Some (Inr True, b') \<and>
     total (a_orders (abs_book b')) + 2 * ev_traded (new_events demo_book b') +
       ev_withdrawn (new_events demo_book b') = total (a_orders (abs_book demo_book)) + 12"
proof -
  have "fst (a_submit (request 4 6 Buy Limit 101 12) (abs_book demo_book))"
    unfolding demo_abs by code_simp
  then obtain b' where "submit (request 4 6 Buy Limit 101 12) demo_book = Some (Inr True, b')"
    by (rule demo_submit)
  with submit_conserves [OF demo_reachable demo_handlers(1,2) this] show ?thesis
    by (auto simp: request_def)
qed



lemma a_submit_unaccepted:
  assumes "book_inv b" and "submit r b = Some (Inr False, b')"
  shows "abs_ladder b' = abs_ladder b"
proof -
  note sub = submitD [OF assms]
  then have "\<not> fst (a_submit r (abs_book b))" by simp
  then obtain re where "abs_book b' = a_emit [AReport (rq_order_id r) Rejected (rq_quantity r) re] (abs_book b)"
    using sub(3) by (auto elim: a_submit_rejected)
  then have "ab_ladder (abs_book b') = ab_ladder (abs_book b)" by simp
  then show ?thesis by simp
qed

text \<open>C6: A fill-or-kill order, without self-trade prevention and while the level totals fit 32
  bits, trades its whole quantity when it is accepted and changes no queue when it is not.\<close>

theorem fok_all_or_nothing:
  assumes "reachable b" and "trade_handler b" and "stp b = StpNone" and "rq_type r = FOK"
    and "totals_fit (abs_ladder b (opposite (rq_side r)))" and "submit r b = Some (Inr ok, b')"
  shows "if ok then ev_traded (new_events b b') = unat (rq_quantity r)
    else abs_ladder b' = abs_ladder b"
proof (cases ok)
  case False
  with assms(1,6) reachable_inv show ?thesis by (auto dest: a_submit_unaccepted)
next
  case True
  note sub = submitD [OF conjunct1 [OF reachable_inv [OF assms(1)]] assms(6)]
  with True have "fst (a_submit r (abs_book b))" by simp
  then show ?thesis
  proof (rule a_submit_accepted)
    fix es L n oc X
    assume m: "a_match (ab_stp (abs_book b)) r (rq_quantity r)
        (ab_ladder (abs_book b) (opposite (rq_side r))) = (es, L, n, oc)"
      and X: "X = a_set (opposite (rq_side r)) L (abs_book b)"
      and s: "snd (a_submit r (abs_book b)) =
        a_emit (AReport (rq_order_id r) Accepted (rq_quantity r) RejNone # es @
            (if oc = Completed then a_closing r n else []))
          (if oc = Completed \<and> a_rests r n then a_rest r n X else X)"
      and v: "a_validate r (abs_book b) = RejNone"
      and av: "rq_type r = FOK \<Longrightarrow>
        a_available r (ab_ladder (abs_book b) (opposite (rq_side r))) 0 \<ge> rq_quantity r"
    have "unat (rq_quantity r) \<le> crossing_total r (abs_ladder b (opposite (rq_side r)))"
      using available_crossing [OF _ assms(5), of r 0] av assms(4) a_validate_RejNone(3) [OF v]
      by (simp add: unat_gt_0)
    then have "n = 0" using a_match_fills_all [OF m] assms(3) by simp
    moreover have "ev_traded (new_events b b') = traded es"
      using a_accepts_adds [OF m s X] assms(2) closing_counts(1)
      by (simp add: sub(3) [symmetric] new_events_abs)
    ultimately show ?thesis using True a_match_taker [OF m] by simp
  qed
qed

lemma demo_asks: "abs_ladder demo_book Sell =
   [(101, [\<lparr>ro_id = 1, ro_client = 7, ro_quantity = 5\<rparr>, \<lparr>ro_id = 2, ro_client = 8, ro_quantity = 4\<rparr>]),
    (102, [\<lparr>ro_id = 3, ro_client = 9, ro_quantity = 6\<rparr>])]"
proof -
  have "ab_ladder (abs_book demo_book) Sell = [(101, [\<lparr>ro_id = 1, ro_client = 7, ro_quantity = 5\<rparr>,
      \<lparr>ro_id = 2, ro_client = 8, ro_quantity = 4\<rparr>]), (102, [\<lparr>ro_id = 3, ro_client = 9, ro_quantity = 6\<rparr>])]"
    unfolding demo_abs by code_simp
  then show ?thesis by simp
qed

lemma demo_totals: "totals_fit (abs_ladder demo_book Sell)"
  by (simp add: demo_asks totals_fit_def)

theorem fok_all_or_nothing_witness:
  "\<exists>b'. submit (request 4 6 Buy FOK 102 15) demo_book = Some (Inr True, b') \<and>
     ev_traded (new_events demo_book b') = 15"
proof -
  have "fst (a_submit (request 4 6 Buy FOK 102 15) (abs_book demo_book))"
    unfolding demo_abs by code_simp
  then obtain b' where "submit (request 4 6 Buy FOK 102 15) demo_book = Some (Inr True, b')"
    by (rule demo_submit)
  with fok_all_or_nothing [OF demo_reachable demo_handlers(1,3) _ _ this] demo_totals show ?thesis
    by (auto simp: request_def)
qed

lemma lookup_ladder_insert:
  "ro_id x = oid \<Longrightarrow> oid \<notin> ro_id ` set (ladder_orders L) \<Longrightarrow>
   ladder_lookup oid (ladder_insert sd p x L) = Some (p, x)"
proof (induction sd p x L rule: ladder_insert.induct)
  case (2 sd p x k q L)
  then have "find (\<lambda>y. ro_id y = oid) q = None" by (simp add: find_None_iff) blast
  moreover from this have "find (\<lambda>y. ro_id y = oid) (q @ [x]) = Some x"
    using \<open>ro_id x = oid\<close> by (induction q) auto
  ultimately show ?case using 2 better_total [of sd p k] by auto
qed simp

lemma a_lookup_emit [simp]: "a_lookup oid (a_emit es A) = a_lookup oid A"
  by (simp add: a_lookup_def split: option.split)

lemma lookup_rest:
  assumes "\<not> a_known A (rq_order_id r)"
  shows "a_lookup (rq_order_id r) (a_rest r n A) = Some (rq_side r, rq_price r,
    \<lparr>ro_id = rq_order_id r, ro_client = rq_client_id r, ro_quantity = n\<rparr>)"
proof -
  have "rq_order_id r \<notin> ro_id ` set (ladder_orders (ab_ladder A sd))" for sd
    using assms by (cases sd) (auto simp: a_known_def a_orders_def)
  moreover from this have "ladder_lookup (rq_order_id r) (ab_ladder A sd) = None" for sd
    by (simp add: ladder_lookup_None)
  ultimately show ?thesis
    by (cases "rq_side r") (simp_all add: a_lookup_def a_rest_def lookup_ladder_insert)
qed

lemma not_would_trade_crosses:
  "\<not> a_would_trade r L \<Longrightarrow> rq_type r \<noteq> Market \<Longrightarrow> no_empty L \<Longrightarrow>
   a_match pol r n L = ([], L, n, Completed)"
  by (cases "(pol, r, n, L)" rule: a_match.cases)
    (auto simp: a_would_trade_def crosses_def split: side.splits)

text \<open>A post-only order never trades: accepted, it rests with its whole quantity.\<close>

theorem post_only_rests:
  assumes "reachable b" and "trade_handler b" and "rq_type r = PostOnly"
    and "submit r b = Some (Inr True, b')"
  shows "ev_fills (new_events b b') = [] \<and>
    a_lookup (rq_order_id r) (abs_book b') = Some (rq_side r, rq_price r,
      \<lparr>ro_id = rq_order_id r, ro_client = rq_client_id r, ro_quantity = rq_quantity r\<rparr>)"
proof -
  have inv: "book_inv b" using reachable_inv [OF assms(1)] by simp
  note sub = submitD [OF inv assms(4)]
  then have "fst (a_submit r (abs_book b))" by simp
  then show ?thesis
  proof (rule a_submit_accepted)
    fix es L n oc X
    assume m: "a_match (ab_stp (abs_book b)) r (rq_quantity r)
        (ab_ladder (abs_book b) (opposite (rq_side r))) = (es, L, n, oc)"
      and X: "X = a_set (opposite (rq_side r)) L (abs_book b)"
      and s: "snd (a_submit r (abs_book b)) =
        a_emit (AReport (rq_order_id r) Accepted (rq_quantity r) RejNone # es @
            (if oc = Completed then a_closing r n else []))
          (if oc = Completed \<and> a_rests r n then a_rest r n X else X)"
      and v: "a_validate r (abs_book b) = RejNone"
      and w: "rq_type r = PostOnly \<Longrightarrow>
        \<not> a_would_trade r (ab_ladder (abs_book b) (opposite (rq_side r)))"
    have "no_empty (abs_ladder b sd)" for sd
      using inv by (auto elim!: book_invE simp: abs_ladder_view)
    then have m': "es = []" "L = abs_ladder b (opposite (rq_side r))" "n = rq_quantity r" "oc = Completed"
      using not_would_trade_crosses [OF w] assms(3) m by auto
    have "ev_fills (new_events b b') = []"
      using a_accepts_adds [OF m s X] assms(2) m'(1)
      by (simp add: sub(3) [symmetric] new_events_abs)
    moreover have "a_lookup (rq_order_id r) (abs_book b') = Some (rq_side r, rq_price r,
      \<lparr>ro_id = rq_order_id r, ro_client = rq_client_id r, ro_quantity = rq_quantity r\<rparr>)"
    proof -
      have "X = a_set (opposite (rq_side r)) (ab_ladder (abs_book b) (opposite (rq_side r))) (abs_book b)"
        by (simp add: X m'(2))
      then have "X = abs_book b" by (simp add: a_set_def)
      then have "abs_book b' = a_emit (AReport (rq_order_id r) Accepted (rq_quantity r) RejNone # es @
          a_closing r n) (a_rest r (rq_quantity r) (abs_book b))"
        using s m' assms(3) a_validate_RejNone(3) [OF v] by (simp add: sub(3) a_rests_def)
      then show ?thesis
        using lookup_rest [OF a_validate_RejNone(1) [OF v]] by simp
    qed
    ultimately show ?thesis by simp
  qed
qed


theorem post_only_rests_witness:
  "\<exists>b'. submit (request 4 6 Buy PostOnly 100 3) demo_book = Some (Inr True, b') \<and>
     ev_fills (new_events demo_book b') = [] \<and>
     a_lookup 4 (abs_book b') = Some (Buy, 100, \<lparr>ro_id = 4, ro_client = 6, ro_quantity = 3\<rparr>)"
proof -
  have "fst (a_submit (request 4 6 Buy PostOnly 100 3) (abs_book demo_book))"
    unfolding demo_abs by code_simp
  then obtain b' where "submit (request 4 6 Buy PostOnly 100 3) demo_book = Some (Inr True, b')"
    by (rule demo_submit)
  with post_only_rests [OF demo_reachable demo_handlers(1) _ this] show ?thesis
    by (auto simp: request_def)
qed

lemma orders_ladder_remove:
  "ladder_orders (ladder_remove oid L) = filter (\<lambda>x. ro_id x \<noteq> oid) (ladder_orders L)"
  by (induction L) (auto simp: ladder_remove_def ladder_map_def)

lemma known_side:
  assumes "book_inv b" and "by_id b oid = Some i" and "sd \<noteq> nd_side (node_at b i)"
  shows "oid \<notin> ro_id ` set (ladder_orders (abs_ladder b sd))"
proof -
  obtain G where rep: "book_rep b G" using assms(1) by (rule book_invE)
  have "ladder_lookup oid (view b G sd) = None"
    using lookup_view [OF rep, of oid sd] assms(2,3)
    by (cases "ladder_lookup oid (view b G sd)") auto
  then show ?thesis by (simp add: ladder_lookup_None abs_ladder_view [OF rep])
qed

lemma filter_id_other: "oid \<notin> ro_id ` set xs \<Longrightarrow> filter (\<lambda>x. ro_id x \<noteq> oid) xs = xs"
  by (rule filter_True) auto

lemma orders_delete:
  assumes "book_inv b" and "by_id b oid = Some i"
  shows "a_orders (a_delete (nd_side (node_at b i)) oid (abs_book b)) =
    filter (\<lambda>x. ro_id x \<noteq> oid) (a_orders (abs_book b))"
  using known_side [OF assms, of "opposite (nd_side (node_at b i))"]
  by (cases "nd_side (node_at b i)")
    (simp_all add: a_delete_def a_orders_def orders_ladder_remove filter_id_other)

lemma orders_by_id:
  assumes "book_inv b"
  shows "x \<in> set (a_orders (abs_book b)) \<longleftrightarrow>
    (\<exists>i. by_id b (ro_id x) = Some i \<and> x = resting_of (node_at b i))"
proof -
  obtain G where rep: "book_rep b G" using assms by (rule book_invE)
  obtain "is" where "a_orders (abs_book b) = map (\<lambda>i. resting_of (node_at b i)) is" "set is = live b"
    using orders_abs [OF rep] by metis
  then have "x \<in> set (a_orders (abs_book b)) \<longleftrightarrow> (\<exists>i \<in> live b. x = resting_of (node_at b i))" by auto
  also have "\<dots> \<longleftrightarrow> (\<exists>i. by_id b (ro_id x) = Some i \<and> x = resting_of (node_at b i))"
    using rep by (auto simp: book_rep_def)
  finally show ?thesis .
qed

text \<open>C5: A cancel succeeds exactly when the order rests and belongs to the client; it then takes
  that order out of the queues, leaves all others in their order and reports what remained.
  Otherwise no queue changes.\<close>

theorem cancel_exact:
  assumes "reachable b"
  shows "(fst (cancel c b) \<longleftrightarrow> (\<exists>x \<in> set (a_orders (abs_book b)).
        ro_id x = cx_order_id c \<and> ro_client x = cx_client_id c)) \<and>
    a_orders (abs_book (snd (cancel c b))) =
      (if fst (cancel c b) then filter (\<lambda>x. ro_id x \<noteq> cx_order_id c) (a_orders (abs_book b))
       else a_orders (abs_book b)) \<and>
    (fst (cancel c b), abs_book (snd (cancel c b))) = a_cancel c (abs_book b)"
proof -
  have inv: "book_inv b" using reachable_inv [OF assms] by simp
  have orders: "(\<exists>x \<in> set (a_orders (abs_book b)). ro_id x = cx_order_id c \<and> ro_client x = cx_client_id c) \<longleftrightarrow>
      (\<exists>i. by_id b (cx_order_id c) = Some i \<and> nd_client_id (node_at b i) = cx_client_id c)"
    by (auto simp: orders_by_id [OF inv] Bex_def) (use inv in \<open>force dest: by_id_live\<close>)
  note look = lookup_implements [OF inv, of "cx_order_id c"]
  show ?thesis
    using cancel_implements [OF inv, of c] orders_delete [OF inv, of "cx_order_id c"]
    unfolding orders
    by (auto simp: a_cancel_def look a_reject_def split: option.splits)
qed

definition demo_cancel :: cancel_request where
  "demo_cancel = \<lparr>cx_order_id = 2, cx_client_id = 8, cx_symbol = 1\<rparr>"

theorem cancel_exact_witness:
  "fst (cancel demo_cancel demo_book) \<and>
   map ro_id (a_orders (abs_book (snd (cancel demo_cancel demo_book)))) = [1, 3]"
proof -
  have bids: "abs_ladder demo_book Buy = []"
  proof -
    have "ab_ladder (abs_book demo_book) Buy = []" unfolding demo_abs by code_simp
    then show ?thesis by simp
  qed
  have orders: "a_orders (abs_book demo_book) = [\<lparr>ro_id = 1, ro_client = 7, ro_quantity = 5\<rparr>,
      \<lparr>ro_id = 2, ro_client = 8, ro_quantity = 4\<rparr>, \<lparr>ro_id = 3, ro_client = 9, ro_quantity = 6\<rparr>]"
    by (simp add: a_orders_def demo_asks bids)
  show ?thesis
    using cancel_exact [OF demo_reachable, of demo_cancel]
    unfolding orders by (simp add: demo_cancel_def)
qed

lemma orders_ladder_requantity:
  "ladder_orders (ladder_requantity oid n L) =
     map (\<lambda>x. if ro_id x = oid then x\<lparr>ro_quantity := n\<rparr> else x) (ladder_orders L)"
  by (induction L) (auto simp: ladder_requantity_def ladder_map_def)

lemma map_id_other:
  "oid \<notin> ro_id ` set xs \<Longrightarrow> map (\<lambda>x. if ro_id x = oid then x\<lparr>ro_quantity := n\<rparr> else x) xs = xs"
  by (rule map_idI) auto

lemma orders_requantity:
  assumes "book_inv b" and "by_id b oid = Some i"
  shows "a_orders (a_set (nd_side (node_at b i))
      (ladder_requantity oid n (abs_ladder b (nd_side (node_at b i)))) (abs_book b)) =
    map (\<lambda>x. if ro_id x = oid then x\<lparr>ro_quantity := n\<rparr> else x) (a_orders (abs_book b))"
  using known_side [OF assms, of "opposite (nd_side (node_at b i))"]
  by (cases "nd_side (node_at b i)")
    (simp_all add: a_orders_def orders_ladder_requantity map_id_other)

text \<open>A replacement that moves cannot be refused: the order it takes out left room for it.\<close>

lemma a_submit_moved:
  assumes inv: "book_inv b" and i: "by_id b oid = Some i" and ok: "0 < px" "n \<noteq> 0"
  shows "fst (a_submit \<lparr>rq_order_id = oid, rq_client_id = c, rq_side = sd, rq_type = Limit,
    rq_price = px, rq_quantity = n, rq_symbol = symbol b\<rparr>
    (a_emit es (a_delete (nd_side (node_at b i)) oid (abs_book b))))"
proof -
  let ?A = "a_delete (nd_side (node_at b i)) oid (abs_book b)"
  note orders = orders_delete [OF inv i]
  have "resting_of (node_at b i) \<in> set (a_orders (abs_book b))"
    using by_id_live [OF inv i] i by (auto simp: orders_by_id [OF inv])
  then have "length (filter (\<lambda>x. ro_id x \<noteq> oid) (a_orders (abs_book b))) < length (a_orders (abs_book b))"
    using by_id_live [OF inv i] by (intro length_filter_less [of "resting_of (node_at b i)"]) simp_all
  moreover have "ab_capacity ?A = ab_capacity (abs_book b)" by (simp add: a_delete_def)
  ultimately have "length (a_orders ?A) < ab_capacity ?A"
    using capacity_abs [OF inv] unfolding orders by simp
  moreover have "\<not> a_known ?A oid" by (auto simp: a_known_def orders)
  moreover have "ab_symbol ?A = symbol b" by (simp add: a_delete_def)
  ultimately show ?thesis
    using ok by (simp add: a_submit_def a_validate_def Let_def split: prod.split)
qed

text \<open>A replacement is accepted exactly when the order rests, belongs to the client and asks
  for a positive price and quantity. When it keeps the price and does not grow, every order keeps
  its place in the queue and only the quantity changes.\<close>

theorem replace_correct:
  assumes "reachable b" and "replace q b = Some (Inr ok, b')"
  shows "(ok \<longleftrightarrow> 0 < rp_new_price q \<and> rp_new_quantity q \<noteq> 0 \<and>
      (\<exists>sd p x. a_lookup (rp_order_id q) (abs_book b) = Some (sd, p, x) \<and>
        ro_client x = rp_client_id q)) \<and>
    (\<forall>sd p x. a_lookup (rp_order_id q) (abs_book b) = Some (sd, p, x) \<and> ok \<and>
        rp_new_price q = p \<and> rp_new_quantity q \<le> ro_quantity x \<longrightarrow>
      a_orders (abs_book b') = map (\<lambda>y. if ro_id y = rp_order_id q
        then y\<lparr>ro_quantity := rp_new_quantity q\<rparr> else y) (a_orders (abs_book b)))"
proof -
  have inv: "book_inv b" using reachable_inv [OF assms(1)] by simp
  note rep = replaceD [OF inv assms(2)]
  show ?thesis
  proof (cases "by_id b (rp_order_id q)")
    case None
    then show ?thesis
      using rep by (simp add: a_replace_def lookup_implements [OF inv] a_reject_def)
  next
    case (Some i)
    with rep show ?thesis
      using a_submit_moved [OF inv Some] orders_requantity [OF inv Some]
      by (auto simp: a_replace_def lookup_implements [OF inv] a_reject_def Let_def)
  qed
qed

theorem replace_correct_witness:
  "\<exists>b'. replace \<lparr>rp_order_id = 2, rp_client_id = 8, rp_new_price = 101, rp_new_quantity = 1,
       rp_symbol = 1\<rparr> demo_book = Some (Inr True, b') \<and>
     map ro_id (a_orders (abs_book b')) = map ro_id (a_orders (abs_book demo_book))"
proof -
  let ?q = "\<lparr>rp_order_id = 2, rp_client_id = 8, rp_new_price = 101, rp_new_quantity = 1,
    rp_symbol = 1\<rparr> :: replace_request"
  have look: "a_lookup 2 (abs_book demo_book) = Some (Sell, 101, \<lparr>ro_id = 2, ro_client = 8, ro_quantity = 4\<rparr>)"
    unfolding demo_abs by code_simp
  have "fst (a_replace ?q (abs_book demo_book))" by (simp add: a_replace_def look Let_def)
  then obtain b' where "replace ?q demo_book = Some (Inr True, b')"
    using replace_implements [OF conjunct1 [OF reachable_inv [OF demo_reachable]], of ?q] by metis
  with replace_correct [OF demo_reachable this] look show ?thesis
    by (auto simp: o_def if_distrib [of ro_id] cong: if_cong)
qed

section \<open>The log\<close>

inductive book_step :: "order_book \<Rightarrow> order_book \<Rightarrow> bool" where
  "submit r b = Some (res, b') \<Longrightarrow> book_step b b'"
| "book_step b (snd (cancel c b))"
| "replace q b = Some (res, b') \<Longrightarrow> book_step b b'"

fun event_sequence :: "book_event \<Rightarrow> sequence_no" where
  "event_sequence (EvTrade t) = tr_sequence t"
| "event_sequence (EvReport r) = er_sequence r"

lemma stamp_numbers:
  "map event_sequence (stamp sy True True s es) = map (\<lambda>k. s + of_nat (Suc k)) [0..<length es]"
proof (induction es arbitrary: s)
  case (Cons e es)
  have "event_sequence (number_event sy (s + 1) e) = s + 1" by (cases e) simp_all
  moreover have "map (\<lambda>k. s + of_nat (Suc k)) [0..<length (e # es)] =
      (s + 1) # map (\<lambda>k. s + 1 + of_nat (Suc k)) [0..<length es]"
    by (simp add: upt_conv_Cons map_Suc_upt [symmetric] del: upt_Suc)
  ultimately show ?case using Cons.IH [of "s + 1"] by simp
qed simp

lemma a_submit_adds: "\<exists>es. a_adds A (snd (a_submit r A)) es"
proof (cases "fst (a_submit r A)")
  case True
  then show ?thesis using a_submit_conserves by blast
next
  case False
  then show ?thesis by (metis a_adds_once a_submit_rejected)
qed

lemma a_adds_trans: "a_adds A B es \<Longrightarrow> a_adds B C ds \<Longrightarrow> a_adds A C (es @ ds)"
  by (simp add: a_adds_def stamp_append)

lemma a_cancel_adds: "\<exists>es. a_adds A (snd (a_cancel c A)) es"
  by (auto simp: a_cancel_def a_reject_def a_delete_def split: option.split intro: a_adds_intros)

lemma a_replace_adds: "\<exists>es. a_adds A (snd (a_replace q A)) es"
proof -
  have "\<exists>es. a_adds A (snd (a_submit r (a_emit ds (a_set sd L A)))) es" for r ds sd L
    using a_submit_adds [of "a_emit ds (a_set sd L A)" r]
      a_adds_trans [OF a_adds_emit [OF a_adds_set [OF a_adds_refl]]] by blast
  then show ?thesis
    by (auto simp: a_replace_def a_reject_def a_delete_def Let_def split: option.split
        intro: a_adds_intros)
qed

text \<open>The events of every operation carry the consecutive numbers that follow the sequence
  number of the book, and the book ends at the number of the last one.\<close>

theorem events_numbered:
  assumes "reachable b" and "trade_handler b" and "report_handler b" and "book_step b b'"
  shows "map event_sequence (new_events b b') =
      map (\<lambda>k. sequence b + of_nat (Suc k)) [0..<length (new_events b b')] \<and>
    sequence b' = sequence b + of_nat (length (new_events b b'))"
proof -
  have inv: "book_inv b" using reachable_inv [OF assms(1)] by simp
  from assms(4) have "\<exists>es. a_adds (abs_book b) (abs_book b') es"
  proof cases
    case (1 r res)
    show ?thesis unfolding submitD(3) [OF inv 1] by (rule a_submit_adds)
  next
    case (2 c)
    show ?thesis unfolding 2 cancel_implements(3) [OF inv] by (rule a_cancel_adds)
  next
    case (3 q res)
    show ?thesis unfolding replaceD(3) [OF inv 3] by (rule a_replace_adds)
  qed
  then obtain es where es: "a_adds (abs_book b) (abs_book b') es" by blast
  have len: "length (stamp sy True True s es) = length es" for sy s
    by (metis length_map length_upt minus_nat.diff_0 stamp_numbers)
  show ?thesis
    using new_events_abs [OF es] assms(2,3) by (simp add: stamp_numbers len)
qed

theorem events_numbered_witness:
  "map event_sequence (new_events demo_book (snd (cancel demo_cancel demo_book))) =
     map (\<lambda>k. sequence demo_book + of_nat (Suc k))
       [0..<length (new_events demo_book (snd (cancel demo_cancel demo_book)))]"
  using events_numbered [OF demo_reachable demo_handlers(1,2) book_step.intros(2), of demo_cancel]
  by simp

section \<open>What the queries read\<close>

lemma depth_loop_take:
  "depth_loop n ls acc = (if length acc > n then acc @ map (\<lambda>(p, l). \<lparr>dl_price = p, dl_quantity = lv_total l,
     dl_order_count = lv_order_count l\<rparr>) ls else acc @ map (\<lambda>(p, l). \<lparr>dl_price = p, dl_quantity = lv_total l,
     dl_order_count = lv_order_count l\<rparr>) (take (n - length acc) ls))"
  by (induction n ls acc rule: depth_loop.induct) (auto simp: take_Cons' Suc_diff_Suc)

lemma level_fields:
  assumes "book_rep b G" and "(p, l) \<in> set (levels_of sd b)"
  shows "lv_total l = queue_total (map (\<lambda>i. resting_of (node_at b i)) (G sd p))"
    and "lv_order_count l = of_nat (length (G sd p))"
  using book_repD(8) [OF assms(1), of sd] assms(2)
  by (auto simp: levels_rep_def level_ok_def queue_total_def comp_def)

lemma depth_abs:
  assumes "book_inv b"
  shows "depth sd n b = map (\<lambda>(p, q). \<lparr>dl_price = p, dl_quantity = queue_total q,
      dl_order_count = of_nat (length q)\<rparr>) (take n (abs_ladder b sd))"
proof -
  obtain G where rep: "book_rep b G" using assms by (rule book_invE)
  have "map (\<lambda>(p, l). \<lparr>dl_price = p, dl_quantity = lv_total l, dl_order_count = lv_order_count l\<rparr>)
      (levels_of sd b) = map (\<lambda>(p, q). \<lparr>dl_price = p, dl_quantity = queue_total q,
      dl_order_count = of_nat (length q)\<rparr>) (abs_ladder b sd)"
    by (auto simp: abs_ladder_view [OF rep] view_def level_fields [OF rep])
  then show ?thesis
    by (simp add: depth_def depth_loop_take take_map [symmetric])
qed

text \<open>The depth of a side lists its best levels in price order, each with the sum of the
  quantities of its queue, as 32 bits hold it, and the number of its orders.\<close>

theorem depth_reads_queues:
  assumes "reachable b"
  shows "depth sd n b = map (\<lambda>(p, q). \<lparr>dl_price = p, dl_quantity = queue_total q,
      dl_order_count = of_nat (length q)\<rparr>) (take n (abs_ladder b sd))"
  using reachable_inv [OF assms] by (intro depth_abs) simp

theorem depth_reads_queues_witness:
  "depth Sell 1 demo_book = [\<lparr>dl_price = 101, dl_quantity = 9, dl_order_count = 2\<rparr>]"
  using depth_reads_queues [OF demo_reachable, of Sell 1]
  by (simp add: demo_asks queue_total_def)

section \<open>The state hash\<close>

definition hash_order :: "resting \<Rightarrow> u64 \<Rightarrow> u64" where
  "hash_order x h = mix (ucast (ro_quantity x)) (mix (ucast (ro_client x)) (mix (ro_id x) h))"

definition hash_ladder :: "ladder \<Rightarrow> u64 \<Rightarrow> u64" where
  "hash_ladder L h = fold (\<lambda>(p, q) h. fold hash_order q (mix (word_of_int p) h)) L h"

definition a_hash :: "a_book \<Rightarrow> u64" where
  "a_hash A =
     mix (of_nat (length (a_orders A)))
       (hash_ladder (ab_ladder A Sell) (mix (ucast (side_code Sell))
         (hash_ladder (ab_ladder A Buy) (mix (ucast (side_code Buy))
           (mix (ucast (ab_symbol A)) fnv_offset)))))"

lemma hash_order_of: "hash_order (resting_of n) h = hash_node n h"
  by (simp add: hash_order_def hash_node_def)

lemma hash_walk_dseg:
  "dseg (node_at b) p h xs npos t \<Longrightarrow> npos \<notin> set xs \<Longrightarrow>
   hash_walk b h acc = Some (fold hash_order (map (\<lambda>i. resting_of (node_at b i)) xs) acc)"
proof (induction xs arbitrary: p h acc)
  case (Cons i xs)
  then show ?case by (subst hash_walk.simps) (auto simp: hash_order_of)
qed (simp add: hash_walk.simps)

lemma resting_walk_dseg:
  "dseg (node_at b) p h xs npos t \<Longrightarrow> npos \<notin> set xs \<Longrightarrow>
   resting_walk b sd px h acc =
     Some (acc @ map (\<lambda>i. order_of_node (symbol b) sd px (node_at b i)) xs)"
proof (induction xs arbitrary: p h acc)
  case (Cons i xs)
  then show ?case by (subst resting_walk.simps) auto
qed (simp add: resting_walk.simps)

lemma level_queue:
  assumes "book_rep b G" and "(p, l) \<in> set (levels_of sd b)"
  shows "dseg (node_at b) npos (lv_head l) (G sd p) npos (lv_tail l)" and "npos \<notin> set (G sd p)"
  using book_repD(8) [OF assms(1), of sd] book_repD(2) [OF assms(1)] assms(2)
  by (auto simp: levels_rep_def level_ok_def)

lemma hash_levels_view:
  assumes rep: "book_rep b G" and "set ls \<subseteq> set (levels_of sd b)"
  shows "hash_levels b ls h = Some (hash_ladder
    (map (\<lambda>p. (p, map (\<lambda>i. resting_of (node_at b i)) (G sd p))) (map fst ls)) h)"
  using assms(2)
proof (induction ls arbitrary: h)
  case (Cons e ls)
  obtain p l where e: "e = (p, l)" by (cases e)
  with Cons.prems have "(p, l) \<in> set (levels_of sd b)" by simp
  note seg = level_queue [OF rep this]
  with Cons show ?case by (simp add: e hash_walk_dseg [OF seg] hash_ladder_def)
qed (simp add: hash_ladder_def)

lemma hash_abs:
  assumes "book_rep b G"
  shows "state_hash b = Some (a_hash (abs_book b))"
proof -
  have lv: "bids b = levels_of Buy b" "asks b = levels_of Sell b" by simp_all
  show ?thesis
    unfolding state_hash_def lv
    using assms full_abs(3) [OF assms]
    by (simp add: hash_levels_view [OF assms order_refl] a_hash_def abs_ladder_view [OF assms]
        view_def book_rep_def del: levels_of.simps)
qed

text \<open>The state hash is computed, and depends only on the symbol and the queues: not on the
  node indices, the free list, or the history of the book.\<close>

theorem hash_reads_queues:
  assumes "reachable b"
  shows "state_hash b = Some (a_hash (abs_book b))"
  using reachable_inv [OF assms] by (auto elim!: book_invE simp: hash_abs)

theorem hash_reads_queues_witness:
  "state_hash demo_book = Some (a_hash (abs_book demo_book))"
  by (rule hash_reads_queues [OF demo_reachable])


section \<open>Snapshots\<close>

definition request_of :: "symbol_id \<Rightarrow> side \<Rightarrow> price \<times> resting \<Rightarrow> order_request" where
  "request_of sy sd = (\<lambda>(p, x). \<lparr>rq_order_id = ro_id x, rq_client_id = ro_client x, rq_side = sd,
     rq_type = Limit, rq_price = p, rq_quantity = ro_quantity x, rq_symbol = sy\<rparr>)"

definition a_snapshot :: "a_book \<Rightarrow> order_request list" where
  "a_snapshot A = map (request_of (ab_symbol A) Buy) (flat (ab_ladder A Buy)) @
     map (request_of (ab_symbol A) Sell) (flat (ab_ladder A Sell))"

lemma resting_levels_view:
  assumes rep: "book_rep b G" and "set ls \<subseteq> set (levels_of sd b)"
  shows "resting_levels b sd ls acc = Some (acc @ map (request_of (symbol b) sd)
    (flat (map (\<lambda>p. (p, map (\<lambda>i. resting_of (node_at b i)) (G sd p))) (map fst ls))))"
  using assms(2)
proof (induction ls arbitrary: acc)
  case (Cons e ls)
  obtain p l where e: "e = (p, l)" by (cases e)
  with Cons.prems have "(p, l) \<in> set (levels_of sd b)" by simp
  note seg = level_queue [OF rep this]
  have "map (\<lambda>i. order_of_node (symbol b) sd p (node_at b i)) (G sd p) =
      map (request_of (symbol b) sd) (map (\<lambda>i. (p, resting_of (node_at b i))) (G sd p))"
    by (simp add: request_of_def order_of_node_def)
  with Cons show ?case by (simp add: e resting_walk_dseg [OF seg] comp_def)
qed simp

lemma snapshot_abs:
  assumes "book_rep b G"
  shows "resting_orders b = Some (a_snapshot (abs_book b))"
proof -
  have lv: "bids b = levels_of Buy b" "asks b = levels_of Sell b" by simp_all
  show ?thesis
    unfolding resting_orders_def lv
    by (simp add: resting_levels_view [OF assms order_refl] a_snapshot_def abs_ladder_view [OF assms]
        view_def del: levels_of.simps)
qed

text \<open>Putting the orders of a ladder back, front first, builds the ladder again.\<close>

lemma insert_last:
  assumes "om_ordered (better sd) (K @ [(p, q)])"
  shows "ladder_insert sd p x (K @ [(p, q)]) = K @ [(p, q @ [x])]"
  using assms by (induction K) (auto simp: price_keys.asym)

lemma insert_new:
  assumes "\<forall>k \<in> om_keys K. better sd k p"
  shows "ladder_insert sd p x K = K @ [(p, [x])]"
  using assms by (induction K) (auto simp: price_keys.asym)

lemma insert_queue:
  assumes "om_ordered (better sd) (K @ [(p, q)])"
  shows "fold (ladder_insert sd p) xs (K @ [(p, q)]) = K @ [(p, q @ xs)]"
  using assms
proof (induction xs arbitrary: q)
  case (Cons x xs)
  from Cons.prems have "om_ordered (better sd) (K @ [(p, q @ [x])])" by simp
  from Cons.IH [OF this] Cons.prems show ?case by (simp add: insert_last)
qed simp

lemma insert_flat:
  assumes "om_ordered (better sd) (K @ L)" and "no_empty L"
  shows "fold (\<lambda>(p, x). ladder_insert sd p x) (flat L) K = K @ L"
  using assms
proof (induction L arbitrary: K)
  case (Cons e L)
  obtain p x q where e: "e = (p, x # q)" using Cons.prems(2) by (cases e) (auto simp: neq_Nil_conv)
  have ord: "om_ordered (better sd) (K @ [(p, [x])])" and front: "\<forall>k \<in> om_keys K. better sd k p"
    using Cons.prems(1) by (simp_all add: e)
  have "fold (\<lambda>(p, x). ladder_insert sd p x) (map (\<lambda>x. (p, x)) (x # q)) K =
      fold (ladder_insert sd p) q (K @ [(p, [x])])"
    using insert_new [OF front] by (simp add: fold_map comp_def)
  also have "\<dots> = K @ [e]" using insert_queue [OF ord] by (simp add: e)
  finally have "fold (\<lambda>(p, x). ladder_insert sd p x) (flat (e # L)) K =
      fold (\<lambda>(p, x). ladder_insert sd p x) (flat L) (K @ [e])"
    by (simp add: e flat_def)
  then show ?case using Cons.IH [of "K @ [e]"] Cons.prems by (simp add: e)
qed simp


definition a_restore :: "order_request list \<Rightarrow> a_book \<Rightarrow> a_book" where
  "a_restore rs A = fold (\<lambda>r. a_rest r (rq_quantity r)) rs A"

lemma resting_eta [simp]:
  "\<lparr>ro_id = ro_id x, ro_client = ro_client x, ro_quantity = ro_quantity x\<rparr> = x"
  by simp

lemma a_rest_frame [simp]:
  "ab_symbol (a_rest r n A) = ab_symbol A" "ab_capacity (a_rest r n A) = ab_capacity A"
  by (simp_all add: a_rest_def)

lemma restore_side:
  "a_restore (map (request_of sy sd) xs) A =
     a_set sd (fold (\<lambda>(p, x). ladder_insert sd p x) xs (ab_ladder A sd)) A"
proof (induction xs arbitrary: A)
  case (Cons e xs)
  then show ?case
    by (cases e) (simp add: a_restore_def request_of_def a_rest_def a_set_def)
qed (simp add: a_restore_def a_set_def)

lemma orders_rest:
  "ro_id ` set (a_orders (a_rest r n A)) = insert (rq_order_id r) (ro_id ` set (a_orders A))"
  "length (a_orders (a_rest r n A)) = Suc (length (a_orders A))"
proof -
  obtain us vs where "ladder_orders (ab_ladder A (rq_side r)) = us @ vs"
    "ladder_orders (ladder_insert (rq_side r) (rq_price r) \<lparr>ro_id = rq_order_id r,
      ro_client = rq_client_id r, ro_quantity = n\<rparr> (ab_ladder A (rq_side r))) =
     us @ \<lparr>ro_id = rq_order_id r, ro_client = rq_client_id r, ro_quantity = n\<rparr> # vs"
    using orders_ladder_insert by metis
  then show "ro_id ` set (a_orders (a_rest r n A)) = insert (rq_order_id r) (ro_id ` set (a_orders A))"
    "length (a_orders (a_rest r n A)) = Suc (length (a_orders A))"
    by (cases "rq_side r"; auto simp: a_orders_def a_rest_def)+
qed

lemma restore_loop_implements:
  assumes "book_inv b" and "\<forall>r \<in> set rs. rq_symbol r = symbol b \<and> rq_quantity r \<noteq> 0 \<and> 0 < rq_price r"
    and "distinct (map rq_order_id rs)" and "\<forall>r \<in> set rs. \<not> a_known (abs_book b) (rq_order_id r)"
    and "length (a_orders (abs_book b)) + length rs \<le> ab_capacity (abs_book b)"
  shows "\<exists>b'. restore_loop rs b = (Inr (), b') \<and> book_inv b' \<and> abs_book b' = a_restore rs (abs_book b)"
  using assms
proof (induction rs arbitrary: b)
  case (Cons r rs)
  obtain b1 where b1: "rest r (rq_quantity r) b = (Inr (), b1)" "book_inv b1"
    "abs_book b1 = a_rest r (rq_quantity r) (abs_book b)"
    by (rule rest_refines [of b "rq_quantity r" r]) (use Cons.prems in auto)
  have known: "a_known (abs_book b1) oid \<longleftrightarrow> oid = rq_order_id r \<or> a_known (abs_book b) oid" for oid
    by (simp add: a_known_def b1(3) orders_rest)
  have frame: "symbol b1 = symbol b" "length (nodes b1) = length (nodes b)"
    "length (a_orders (abs_book b1)) = Suc (length (a_orders (abs_book b)))"
    using arg_cong [OF b1(3), of ab_symbol] arg_cong [OF b1(3), of ab_capacity]
    by (simp_all, simp add: b1(3) orders_rest)
  have "\<exists>b'. restore_loop rs b1 = (Inr (), b') \<and> book_inv b' \<and> abs_book b' = a_restore rs (abs_book b1)"
  proof (rule Cons.IH [OF b1(2)])
    have "rq_order_id s \<noteq> rq_order_id r" if "s \<in> set rs" for s
      using Cons.prems(3) that by (metis distinct.simps(2) image_eqI list.set_map list.simps(9))
    with Cons.prems show "\<forall>r \<in> set rs. \<not> a_known (abs_book b1) (rq_order_id r)"
      by (simp add: known)
  qed (use Cons.prems in \<open>auto simp: frame\<close>)
  then obtain b2 where "restore_loop rs b1 = (Inr (), b2)" "book_inv b2"
    "abs_book b2 = a_restore rs (abs_book b1)" by blast
  moreover have "by_id b (rq_order_id r) = None"
    using Cons.prems(1,4) by (auto elim!: book_invE simp: known_abs)
  ultimately show ?case
    using b1(1,3) Cons.prems(2) by (auto simp: a_restore_def)
qed (simp add: a_restore_def)

lemma snapshot_valid:
  assumes "book_inv b"
  shows "\<forall>r \<in> set (a_snapshot (abs_book b)). rq_symbol r = symbol b \<and> rq_quantity r \<noteq> 0 \<and> 0 < rq_price r"
    and "distinct (map rq_order_id (a_snapshot (abs_book b)))"
    and "length (a_snapshot (abs_book b)) = length (a_orders (abs_book b))"
proof -
  obtain G where rep: "book_rep b G" using assms by (rule book_invE)
  have flat_orders: "map snd (flat L) = ladder_orders L" for L
    by (induction L) (auto simp: comp_def)
  have ids: "map rq_order_id (a_snapshot (abs_book b)) = map ro_id (a_orders (abs_book b))"
    by (simp add: a_snapshot_def a_orders_def request_of_def case_prod_unfold comp_def
        flip: flat_orders)
  then show "length (a_snapshot (abs_book b)) = length (a_orders (abs_book b))"
    by (metis length_map)
  obtain "is" where orders: "a_orders (abs_book b) = map (\<lambda>i. resting_of (node_at b i)) is"
    "set is = live b" "distinct is"
    using orders_abs [OF rep] by metis
  have "inj_on (\<lambda>i. nd_id (node_at b i)) (live b)"
    using live_id_inject [OF rep] by (auto intro: inj_onI)
  then show "distinct (map rq_order_id (a_snapshot (abs_book b)))"
    unfolding ids orders(1) using orders(2,3) by (simp add: comp_def distinct_map)
  have "(p, x) \<in> set (flat (view b G sd)) \<Longrightarrow> ro_quantity x \<noteq> 0 \<and> 0 < p" for p x sd
    using rep book_repD(4) [OF rep] by (fastforce simp: flat_def view_def book_rep_def)
  then show "\<forall>r \<in> set (a_snapshot (abs_book b)). rq_symbol r = symbol b \<and> rq_quantity r \<noteq> 0 \<and> 0 < rq_price r"
    by (fastforce simp: a_snapshot_def request_of_def abs_ladder_view [OF rep])
qed

lemma reset_abs:
  "abs_ladder (reset b) = (\<lambda>_. [])" "symbol (reset b) = symbol b" "length (nodes (reset b)) = length (nodes b)"
  "a_orders (abs_book (reset b)) = []" "stp (reset b) = stp b"
proof -
  show "abs_ladder (reset b) = (\<lambda>_. [])"
  proof
    fix sd show "abs_ladder (reset b) sd = []" by (cases sd) (simp_all add: abs_ladder_def reset_def)
  qed
  then show "a_orders (abs_book (reset b)) = []" by (simp add: a_orders_def)
qed (simp_all add: reset_def)

lemma restored_ladders:
  assumes "book_inv b"
  shows "ab_ladder (a_restore (a_snapshot (abs_book b)) (abs_book (reset c))) = abs_ladder b"
proof -
  have ord: "om_ordered (better sd) (abs_ladder b sd)" for sd
    using ordered_abs [OF assms] by (simp add: ladders_ordered_def)
  have ne: "no_empty (abs_ladder b sd)" for sd
    using assms by (auto elim!: book_invE simp: abs_ladder_view)
  have "fold (\<lambda>(p, x). ladder_insert sd p x) (flat (abs_ladder b sd)) [] = abs_ladder b sd" for sd
    using insert_flat [of sd "[]"] ord ne by simp
  moreover have "a_restore (xs @ ys) A = a_restore ys (a_restore xs A)" for xs ys A
    by (simp add: a_restore_def)
  ultimately have "ab_ladder (a_restore (a_snapshot (abs_book b)) (abs_book (reset c))) =
      ((\<lambda>_. [])(Buy := abs_ladder b Buy))(Sell := abs_ladder b Sell)"
    by (simp add: a_snapshot_def restore_side reset_abs)
  then show ?thesis by (auto simp: fun_eq_iff) (metis side.exhaust)
qed


lemma sequence_inv [simp]: "book_inv (b\<lparr>sequence := s\<rparr>) = book_inv b"
proof -
  have "levels_of sd (b\<lparr>sequence := s\<rparr>) = levels_of sd b" "node_at (b\<lparr>sequence := s\<rparr>) = node_at b" for sd
    by (cases sd; simp add: node_at_def fun_eq_iff)+
  then show ?thesis by (simp add: book_inv_def book_rep_def no_empty_level_def live_def valid_index_def)
qed

lemma sequence_ladder [simp]: "abs_ladder (b\<lparr>sequence := s\<rparr>) = abs_ladder b"
proof
  have "node_at (b\<lparr>sequence := s\<rparr>) = node_at b" by (simp add: node_at_def fun_eq_iff)
  then show "abs_ladder (b\<lparr>sequence := s\<rparr>) sd = abs_ladder b sd" for sd
    by (cases sd) (simp_all add: abs_ladder_def)
qed

lemma a_restore_frame [simp]:
  "ab_symbol (a_restore rs A) = ab_symbol A" "ab_capacity (a_restore rs A) = ab_capacity A"
  by (induction rs arbitrary: A) (simp_all add: a_restore_def)

lemma a_restore_config:
  "ab_stp (a_restore rs A) = ab_stp A" "ab_trades (a_restore rs A) = ab_trades A"
  "ab_reports (a_restore rs A) = ab_reports A" "ab_out (a_restore rs A) = ab_out A"
  by (induction rs arbitrary: A) (simp_all add: a_restore_def a_rest_def a_set_def)

text \<open>What restoring a snapshot of \<open>b\<close> does to a book \<open>c\<close> of the same symbol.\<close>

lemma restore_snapshot:
  assumes inv: "book_inv b" "book_inv c" and "symbol c = symbol b"
    and "length (a_orders (abs_book b)) \<le> length (nodes c)"
  obtains c' where "resting_orders b = Some (a_snapshot (abs_book b))"
    and "restore_resting_orders (a_snapshot (abs_book b)) (sequence b) c = (Inr (), c')"
    and "book_inv c'" and "state_hash c' = state_hash b"
    and "abs_book c' = (abs_book c)\<lparr>ab_ladder := abs_ladder b, ab_sequence := sequence b\<rparr>"
proof -
  obtain G where rep: "book_rep b G" using inv(1) by (rule book_invE)
  let ?rs = "a_snapshot (abs_book b)"
  note valid = snapshot_valid [OF inv(1)]
  have "\<exists>c'. restore_loop ?rs (reset c) = (Inr (), c') \<and> book_inv c' \<and>
      abs_book c' = a_restore ?rs (abs_book (reset c))"
    by (rule restore_loop_implements)
      (use valid assms(3,4) reset_inv [OF book_inv_length [OF inv(2)]] in
        \<open>auto simp: reset_abs a_known_def\<close>)
  then obtain c' where c': "restore_loop ?rs (reset c) = (Inr (), c')" "book_inv c'"
    "abs_book c' = a_restore ?rs (abs_book (reset c))" by blast
  let ?c = "c'\<lparr>sequence := sequence b\<rparr>"
  have lad: "abs_ladder ?c = abs_ladder b"
    using restored_ladders [OF inv(1), of c] by (simp add: c'(3) [symmetric])
  have "symbol c' = symbol c" "length (nodes c') = length (nodes c)" "stp c' = stp c"
    "trade_handler c' = trade_handler c" "report_handler c' = report_handler c" "out c' = out c"
    using arg_cong [OF c'(3), of ab_symbol] arg_cong [OF c'(3), of ab_capacity]
      arg_cong [OF c'(3), of ab_stp] arg_cong [OF c'(3), of ab_trades]
      arg_cong [OF c'(3), of ab_reports] arg_cong [OF c'(3), of ab_out]
    by (simp_all add: a_restore_config reset_def)
  then have abs: "abs_book ?c = (abs_book c)\<lparr>ab_ladder := abs_ladder b, ab_sequence := sequence b\<rparr>"
    using lad by (simp add: abs_book_def)
  have "state_hash ?c = Some (a_hash (abs_book ?c))"
    using c'(2) hash_abs sequence_inv [of "sequence b" c'] by (blast elim: book_invE)
  then have "state_hash ?c = state_hash b"
    using assms(3) by (simp add: hash_abs [OF rep] abs a_hash_def a_orders_def)
  then show thesis
    using that [of ?c] c' abs by (simp add: snapshot_abs [OF rep] restore_resting_orders_def)
qed

text \<open>A restore that succeeds leaves a well-formed book, whatever the orders were.\<close>

lemma restore_loop_inv:
  assumes "book_inv b" and "restore_loop rs b = (Inr u, b')"
  shows "book_inv b' \<and> abs_book b' = a_restore rs (abs_book b)"
  using assms
proof (induction rs arbitrary: b)
  case (Cons r rs)
  then have ok: "rq_quantity r \<noteq> 0" "0 < rq_price r" "by_id b (rq_order_id r) = None"
    by (auto split: if_splits)
  obtain G where rep: "book_rep b G" using Cons.prems(1) by (rule book_invE)
  show ?case
  proof (cases "free_list b")
    case Nil
    then have "rest r (rq_quantity r) b = (Inl OrderCapacityExceeded, b)"
      by (simp add: rest_def allocate_node_def)
    with Cons.prems(2) show ?thesis by (auto split: if_splits)
  next
    case (Cons i fs)
    then have "length (a_orders (abs_book b)) < ab_capacity (abs_book b)"
      using full_abs [OF rep] by simp
    moreover have "\<not> a_known (abs_book b) (rq_order_id r)" using ok(3) known_abs [OF rep] by simp
    ultimately obtain b1 where "rest r (rq_quantity r) b = (Inr (), b1)" "book_inv b1"
      "abs_book b1 = a_rest r (rq_quantity r) (abs_book b)"
      using rest_refines [OF Cons.prems(1) ok(1,2)] by metis
    with Cons.IH [of b1] Cons.prems(2) show ?thesis
      by (auto simp: a_restore_def split: if_splits)
  qed
qed (simp add: a_restore_def)

lemma restore_inv:
  assumes "book_inv b" and "restore_resting_orders rs s b = (Inr u, b')"
  shows "book_inv b'" and "abs_book b' = (a_restore rs (abs_book (reset b)))\<lparr>ab_sequence := s\<rparr>"
proof -
  from assms(2) obtain v c where c: "restore_loop rs (reset b) = (Inr v, c)" "b' = c\<lparr>sequence := s\<rparr>"
    by (auto simp: restore_resting_orders_def split: prod.splits sum.splits)
  have inv: "book_inv c" "abs_book c = a_restore rs (abs_book (reset b))"
    using restore_loop_inv [OF reset_inv(1) [OF book_inv_length [OF assms(1)]] c(1)] by simp_all
  from inv(1) show "book_inv b'" by (simp add: c(2))
  show "abs_book b' = (a_restore rs (abs_book (reset b)))\<lparr>ab_sequence := s\<rparr>"
    unfolding inv(2) [symmetric] by (simp add: c(2) abs_book_def)
qed

lemma restore_frame:
  assumes "book_inv b" and "restore_resting_orders rs s b = (Inr u, b')"
  shows "symbol b' = symbol b" and "length (nodes b') = length (nodes b)" and "stp b' = stp b"
    and "trade_handler b' = trade_handler b" and "report_handler b' = report_handler b"
    and "out b' = out b" and "sequence b' = s"
  using restore_inv(2) [OF assms, THEN arg_cong, of ab_symbol]
    restore_inv(2) [OF assms, THEN arg_cong, of ab_capacity]
    restore_inv(2) [OF assms, THEN arg_cong, of ab_stp]
    restore_inv(2) [OF assms, THEN arg_cong, of ab_trades]
    restore_inv(2) [OF assms, THEN arg_cong, of ab_reports]
    restore_inv(2) [OF assms, THEN arg_cong, of ab_out]
    restore_inv(2) [OF assms, THEN arg_cong, of ab_sequence]
  by (simp_all add: a_restore_config reset_def)

text \<open>C7: A snapshot taken from a reachable book and restored, with its sequence number, into any
  reachable book of the same symbol with room for it gives back the same queues, the same
  sequence number and the same state hash.\<close>

theorem snapshot_roundtrip:
  assumes "reachable b" and "reachable c" and "symbol c = symbol b"
    and "length (a_orders (abs_book b)) \<le> length (nodes c)"
  shows "\<exists>rs c'. resting_orders b = Some rs \<and>
    restore_resting_orders rs (sequence b) c = (Inr (), c') \<and> book_inv c' \<and>
    abs_ladder c' = abs_ladder b \<and> sequence c' = sequence b \<and> state_hash c' = state_hash b"
proof -
  from assms(1,2) have "book_inv b" "book_inv c" using reachable_inv by auto
  from this assms(3,4) show ?thesis
    by (rule restore_snapshot) (auto dest: arg_cong [of _ _ ab_ladder] arg_cong [of _ _ ab_sequence])
qed

theorem snapshot_roundtrip_witness:
  "\<exists>rs c'. resting_orders demo_book = Some rs \<and>
    restore_resting_orders rs (sequence demo_book) (new_book 3 1) = (Inr (), c') \<and>
    abs_ladder c' = abs_ladder demo_book \<and> state_hash c' = state_hash demo_book"
proof -
  have "symbol demo_book = 1" "length (a_orders (abs_book demo_book)) = 3"
  proof -
    have "ab_symbol (abs_book demo_book) = 1" "length (a_orders (abs_book demo_book)) = 3"
      unfolding demo_abs by code_simp+
    then show "symbol demo_book = 1" "length (a_orders (abs_book demo_book)) = 3" by simp_all
  qed
  with snapshot_roundtrip [OF demo_reachable reachable.new, of 3 1] show ?thesis
    by (auto simp: new_book_def)
qed

section \<open>Where fill-or-kill falls short\<close>

definition own_book :: order_book where
  "own_book = run_orders [request 1 6 Sell Limit 101 5, request 2 8 Sell Limit 101 5]
     ((new_book 8 1)\<lparr>trade_handler := True, report_handler := True\<rparr>)\<lparr>stp := CancelOldest\<rparr>"

lemma abs_stp: "abs_book (b\<lparr>stp := x\<rparr>) = (abs_book b)\<lparr>ab_stp := x\<rparr>"
proof -
  have "abs_ladder (b\<lparr>stp := x\<rparr>) sd = abs_ladder b sd" for sd by (simp add: abs_ladder_def)
  then show ?thesis by (simp add: abs_book_def fun_eq_iff)
qed

lemma own_abs: "abs_book own_book =
  (a_run [request 1 6 Sell Limit 101 5, request 2 8 Sell Limit 101 5] (a_empty 8))\<lparr>ab_stp := CancelOldest\<rparr>"
  unfolding own_book_def abs_stp abs_empty [symmetric]
  by (subst abs_run) (simp_all add: new_book_inv)

text \<open>The liquidity check of a fill-or-kill order counts the resting orders of its own
  client, which self-trade prevention then cancels: such an order is accepted, trades in part
  and expires.\<close>

theorem fok_partial_under_stp:
  "\<exists>b r b'. reachable b \<and> stp b = CancelOldest \<and> rq_type r = FOK \<and> rq_quantity r = 8 \<and>
     submit r b = Some (Inr True, b') \<and> ev_traded (new_events b b') = 5 \<and>
     length (a_orders (abs_book b')) = 0"
proof -
  let ?r = "request 4 6 Buy FOK 101 8"
  have reach: "reachable own_book"
    unfolding own_book_def
    by (intro reachable.stp reachable_run reachable.handlers reachable.new) simp
  have inv: "book_inv own_book" using reachable_inv [OF reach] by simp
  have acc: "fst (a_submit ?r (abs_book own_book))"
    and left: "a_orders (snd (a_submit ?r (abs_book own_book))) = []"
    and log: "drop (length (ab_out (abs_book own_book))) (ab_out (snd (a_submit ?r (abs_book own_book)))) =
      [EvReport \<lparr>er_sequence = 3, er_order_id = 4, er_status = Accepted, er_remaining = 8,
         er_reject_reason = RejNone, er_symbol = 1\<rparr>,
       EvReport \<lparr>er_sequence = 4, er_order_id = 1, er_status = Cancelled, er_remaining = 5,
         er_reject_reason = RejNone, er_symbol = 1\<rparr>,
       EvTrade \<lparr>tr_sequence = 5, tr_maker_order_id = 2, tr_taker_order_id = 4, tr_price = 101,
         tr_quantity = 5, tr_taker_side = Buy, tr_symbol = 1\<rparr>,
       EvReport \<lparr>er_sequence = 6, er_order_id = 2, er_status = Filled, er_remaining = 0,
         er_reject_reason = RejNone, er_symbol = 1\<rparr>,
       EvReport \<lparr>er_sequence = 7, er_order_id = 4, er_status = PartiallyFilled, er_remaining = 3,
         er_reject_reason = RejNone, er_symbol = 1\<rparr>,
       EvReport \<lparr>er_sequence = 8, er_order_id = 4, er_status = Expired, er_remaining = 3,
         er_reject_reason = RejNone, er_symbol = 1\<rparr>]"
    unfolding own_abs by code_simp+
  obtain b' where b': "submit ?r own_book = Some (Inr True, b')"
    "abs_book b' = snd (a_submit ?r (abs_book own_book))"
    using submit_implements [OF inv, of ?r] acc by auto
  have "ev_traded (new_events own_book b') = 5"
    using log unfolding b'(2) [symmetric] by (simp add: new_events_def)
  with b' left reach show ?thesis
    by (intro exI [of _ own_book] exI [of _ ?r] exI [of _ b'])
      (simp add: request_def own_book_def)
qed

text \<open>A level total is 32 bits wide and wraps: with two resting orders of 2147483648 at one
  price the level shows the quantity 0, and a fill-or-kill order of 1 is rejected for lack of
  liquidity.\<close>

theorem level_total_wraps:
  "\<exists>b r b'. reachable b \<and> total (ladder_orders (abs_ladder b Sell)) = 4294967296 \<and>
     depth Sell 1 b = [\<lparr>dl_price = 101, dl_quantity = 0, dl_order_count = 2\<rparr>] \<and>
     rq_type r = FOK \<and> rq_quantity r = 1 \<and> crosses r 101 \<and> submit r b = Some (Inr False, b')"
proof -
  let ?rs = "[request 1 6 Sell Limit 101 2147483648, request 2 8 Sell Limit 101 2147483648]"
  let ?b = "run_orders ?rs ((new_book 8 1)\<lparr>trade_handler := True, report_handler := True\<rparr>)"
  let ?r = "request 4 7 Buy FOK 101 1"
  have reach: "reachable ?b" by (intro reachable_run reachable.handlers reachable.new) simp
  have inv: "book_inv ?b" using reachable_inv [OF reach] by simp
  have abs: "abs_book ?b = a_run ?rs (a_empty 8)"
    unfolding abs_empty [symmetric] by (intro abs_run) (simp add: new_book_inv)
  have "ab_ladder (abs_book ?b) Sell = [(101, [\<lparr>ro_id = 1, ro_client = 6, ro_quantity = 2147483648\<rparr>,
      \<lparr>ro_id = 2, ro_client = 8, ro_quantity = 2147483648\<rparr>])]"
    unfolding abs by code_simp
  then have asks: "abs_ladder ?b Sell = [(101, [\<lparr>ro_id = 1, ro_client = 6, ro_quantity = 2147483648\<rparr>,
      \<lparr>ro_id = 2, ro_client = 8, ro_quantity = 2147483648\<rparr>])]" by simp
  have "\<not> fst (a_submit ?r (abs_book ?b))" unfolding abs by code_simp
  then obtain b' where "submit ?r ?b = Some (Inr False, b')"
    using submit_implements [OF inv, of ?r] by auto
  moreover have "depth Sell 1 ?b = [\<lparr>dl_price = 101, dl_quantity = 0, dl_order_count = 2\<rparr>]"
    unfolding depth_abs [OF inv] asks by (simp add: queue_total_def)
  ultimately show ?thesis
    using reach asks
    by (intro exI [of _ ?b] exI [of _ ?r] exI [of _ b']) (simp add: request_def crosses_def)
qed

end
