(* ===== verification/Bytes.thy ===== *)
theory Bytes
  imports Market_Types
begin

text \<open>
  Memory as bytes: the little-endian representation of the integers, the object representation
  of the request structs as \<open>ofstream::write\<close> and \<open>memcpy\<close> copy it, and the FNV-1a step both
  checksums use.

  A struct of types.hpp is laid out with its natural alignment, so an \<open>OrderRequest\<close> has two
  bytes of padding after its one-byte enumerations and a \<open>ReplaceRequest\<close> four bytes before its
  price; the padding bytes have no specified value and are an argument of the writer.
\<close>

fun le_bytes :: "nat \<Rightarrow> nat \<Rightarrow> u8 list" where
  "le_bytes 0 v = []"
| "le_bytes (Suc n) v = of_nat (v mod 256) # le_bytes n (v div 256)"

fun le_value :: "u8 list \<Rightarrow> nat" where
  "le_value [] = 0"
| "le_value (b # bs) = unat b + 256 * le_value bs"

lemma le_bytes_length [simp]: "length (le_bytes n v) = n"
  by (induction n arbitrary: v) simp_all

lemma le_value_bytes: "v < 256 ^ n \<Longrightarrow> le_value (le_bytes n v) = v"
proof (induction n arbitrary: v)
  case (Suc n)
  have "v div 256 < 256 ^ n" using Suc.prems by (simp add: less_mult_imp_div_less)
  with Suc.IH show ?case by (simp add: unat_of_nat take_bit_eq_mod)
qed simp

definition put8 :: "u8 \<Rightarrow> u8 list" where
  "put8 w = [w]"

definition put16 :: "u16 \<Rightarrow> u8 list" where
  "put16 w = le_bytes 2 (unat w)"

definition put32 :: "u32 \<Rightarrow> u8 list" where
  "put32 w = le_bytes 4 (unat w)"

definition put64 :: "u64 \<Rightarrow> u8 list" where
  "put64 w = le_bytes 8 (unat w)"

text \<open>A signed 64-bit integer is stored in two's complement.\<close>

definition put_i64 :: "int \<Rightarrow> u8 list" where
  "put_i64 i = put64 (word_of_int i)"

definition field_at :: "nat \<Rightarrow> nat \<Rightarrow> u8 list \<Rightarrow> nat" where
  "field_at offset n bs = le_value (take n (drop offset bs))"

definition get_i64 :: "nat \<Rightarrow> int" where
  "get_i64 v = sint (of_nat v :: u64)"

definition fits_i64 :: "int \<Rightarrow> bool" where
  "fits_i64 i \<longleftrightarrow> - (2 ^ 63) \<le> i \<and> i < 2 ^ 63"

lemma put_lengths [simp]:
  "length (put8 a) = 1" "length (put16 b) = 2" "length (put32 c) = 4" "length (put64 d) = 8"
  "length (put_i64 i) = 8"
  by (simp_all add: put8_def put16_def put32_def put64_def put_i64_def)

lemma field_at_append:
  "field_at (length xs) (length v) (xs @ v @ ys) = le_value v"
  by (simp add: field_at_def)

text \<open>Reading a field: earlier fields are skipped by their lengths.\<close>

lemma field_at_skip: "length xs \<le> offset \<Longrightarrow> field_at offset n (xs @ ys) = field_at (offset - length xs) n ys"
  by (simp add: field_at_def)

lemma field_at_here: "length v = n \<Longrightarrow> field_at 0 n (v @ ys) = le_value v"
  by (simp add: field_at_def)

lemma field_at_last: "length v = n \<Longrightarrow> field_at 0 n v = le_value v"
  by (simp add: field_at_def)

lemma field_at_Cons: "0 < offset \<Longrightarrow> field_at offset n (x # xs) = field_at (offset - 1) n xs"
  by (cases offset) (simp_all add: field_at_def)

lemmas field_at_simps = field_at_skip field_at_here field_at_last field_at_Cons

lemma le_value_put [simp]:
  "le_value (put8 a) = unat a" "le_value (put16 b) = unat b" "le_value (put32 c) = unat c"
  "le_value (put64 d) = unat d"
  using unsigned_less [of b, where 'a = nat] unsigned_less [of c, where 'a = nat]
    unsigned_less [of d, where 'a = nat]
  by (simp_all add: put8_def put16_def put32_def put64_def le_value_bytes)

lemma sint_word_of_int: "fits_i64 i \<Longrightarrow> sint (word_of_int i :: u64) = i"
  by (simp add: fits_i64_def signed_of_int signed_take_bit_int_eq_self)

lemma get_put_i64 [simp]: "fits_i64 i \<Longrightarrow> get_i64 (le_value (put_i64 i)) = i"
  by (simp add: get_i64_def put_i64_def sint_word_of_int)

text \<open>\<open>in.read(\<dots>, n)\<close> on the bytes that are left: it fails when there are too few.\<close>

definition take_bytes :: "nat \<Rightarrow> u8 list \<Rightarrow> (u8 list \<times> u8 list) option" where
  "take_bytes n bs = (if n \<le> length bs then Some (take n bs, drop n bs) else None)"

lemma take_bytes_append [simp]: "length v = n \<Longrightarrow> take_bytes n (v @ bs) = Some (v, bs)"
  by (simp add: take_bytes_def)

section \<open>Enumerations\<close>

text \<open>
  Reading an enumeration back from its byte. A byte that is not the number of an enumerator
  would give the code a value of the type that equals none of the enumerators; such a value is
  not one of the model's, and the reads below are then undefined.
\<close>

definition side_of_code :: "nat \<Rightarrow> side option" where
  "side_of_code c = (if c = 0 then Some Buy else if c = 1 then Some Sell else None)"

definition order_type_of_code :: "nat \<Rightarrow> order_type option" where
  "order_type_of_code c =
     (if c = 0 then Some Limit else if c = 1 then Some Market else if c = 2 then Some IOC
      else if c = 3 then Some FOK else if c = 4 then Some PostOnly else None)"

lemma enum_codes [simp]:
  "side_of_code (unat (side_code s)) = Some s"
  "order_type_of_code (unat (order_type_code t)) = Some t"
  by (cases s; simp add: side_of_code_def) (cases t; simp add: order_type_of_code_def)

section \<open>The requests in memory\<close>

text \<open>The padding: two bytes in an order request, four in a replace request.\<close>

record padding =
  pad_order :: "u8 \<times> u8"
  pad_replace :: "u8 \<times> u8 \<times> u8 \<times> u8"

definition order_memory :: "padding \<Rightarrow> order_request \<Rightarrow> u8 list" where
  "order_memory p r =
     put64 (rq_order_id r) @ put32 (rq_client_id r) @ put8 (side_code (rq_side r)) @
     put8 (order_type_code (rq_type r)) @ [fst (pad_order p), snd (pad_order p)] @
     put_i64 (rq_price r) @ put32 (rq_quantity r) @ put32 (rq_symbol r)"

definition cancel_memory :: "cancel_request \<Rightarrow> u8 list" where
  "cancel_memory r = put64 (cx_order_id r) @ put32 (cx_client_id r) @ put32 (cx_symbol r)"

definition replace_memory :: "padding \<Rightarrow> replace_request \<Rightarrow> u8 list" where
  "replace_memory p r =
     put64 (rp_order_id r) @ put32 (rp_client_id r) @
     (case pad_replace p of (a, b, c, d) \<Rightarrow> [a, b, c, d]) @
     put_i64 (rp_new_price r) @ put32 (rp_new_quantity r) @ put32 (rp_symbol r)"

definition order_of_memory :: "u8 list \<Rightarrow> order_request option" where
  "order_of_memory bs =
     (case (side_of_code (field_at 12 1 bs), order_type_of_code (field_at 13 1 bs)) of
        (Some sd, Some ty) \<Rightarrow>
          Some \<lparr>rq_order_id = of_nat (field_at 0 8 bs), rq_client_id = of_nat (field_at 8 4 bs),
                rq_side = sd, rq_type = ty, rq_price = get_i64 (field_at 16 8 bs),
                rq_quantity = of_nat (field_at 24 4 bs), rq_symbol = of_nat (field_at 28 4 bs)\<rparr>
      | _ \<Rightarrow> None)"

definition cancel_of_memory :: "u8 list \<Rightarrow> cancel_request" where
  "cancel_of_memory bs =
     \<lparr>cx_order_id = of_nat (field_at 0 8 bs), cx_client_id = of_nat (field_at 8 4 bs),
      cx_symbol = of_nat (field_at 12 4 bs)\<rparr>"

definition replace_of_memory :: "u8 list \<Rightarrow> replace_request" where
  "replace_of_memory bs =
     \<lparr>rp_order_id = of_nat (field_at 0 8 bs), rp_client_id = of_nat (field_at 8 4 bs),
      rp_new_price = get_i64 (field_at 16 8 bs), rp_new_quantity = of_nat (field_at 24 4 bs),
      rp_symbol = of_nat (field_at 28 4 bs)\<rparr>"

lemma memory_roundtrip:
  "fits_i64 (rq_price r) \<Longrightarrow> order_of_memory (order_memory p r) = Some r"
  "cancel_of_memory (cancel_memory c) = c"
  "fits_i64 (rp_new_price q) \<Longrightarrow> replace_of_memory (replace_memory p q) = q"
  by (simp_all add: order_of_memory_def order_memory_def cancel_of_memory_def cancel_memory_def
      replace_of_memory_def replace_memory_def field_at_simps split: prod.split)

lemma memory_length [simp]:
  "length (order_memory p r) = 32" "length (cancel_memory c) = 16" "length (replace_memory p q) = 32"
  by (simp_all add: order_memory_def cancel_memory_def replace_memory_def split: prod.split)

section \<open>Checksums\<close>

definition fnv_step :: "u8 \<Rightarrow> u64 \<Rightarrow> u64" where
  "fnv_step b hash = (xor hash (ucast b)) * 1099511628211"

definition checksum :: "u8 list \<Rightarrow> u64" where
  "checksum bytes = fold fnv_step bytes 1469598103934665603"

text \<open>The multiplier is odd, so a step loses nothing of the hash.\<close>

lemma fnv_prime_cancel: "(x :: u64) * 1099511628211 = y * 1099511628211 \<longleftrightarrow> x = y"
proof
  assume eq: "x * 1099511628211 = y * 1099511628211"
  have inv: "(1099511628211 :: u64) * 14886173955864302971 = 1" by simp
  have "x * 1099511628211 * 14886173955864302971 = y * 1099511628211 * 14886173955864302971"
    using eq by simp
  then show "x = y" by (simp only: mult.assoc inv mult_1_right)
qed simp

lemma xor_cancel: "xor (a :: u64) c = xor b c \<longleftrightarrow> a = b"
proof
  assume "xor a c = xor b c"
  then have "xor (xor a c) c = xor (xor b c) c" by simp
  then show "a = b" by (simp add: xor.assoc)
qed simp

lemma xor_cancel_left: "xor (a :: u64) b = xor a c \<longleftrightarrow> b = c"
  using xor_cancel [of b a c] by (simp add: xor.commute)

lemma fnv_step_inject: "fnv_step b h = fnv_step b k \<longleftrightarrow> h = k"
  by (simp add: fnv_step_def fnv_prime_cancel xor_cancel)

lemma ucast_inject: "ucast (a :: u8) = (ucast b :: u64) \<longleftrightarrow> a = b"
proof -
  have "unat (ucast c :: u64) = unat c" for c :: u8
    using unsigned_less [of c, where 'a = nat]
    by (simp add: unsigned_ucast_eq take_bit_nat_eq_self)
  then show ?thesis using unsigned_word_eqI by metis
qed

lemma fnv_step_byte: "fnv_step a h = fnv_step b h \<longleftrightarrow> a = b"
  by (simp add: fnv_step_def fnv_prime_cancel xor_cancel_left ucast_inject)

lemma fnv_fold_inject: "fold fnv_step bs h = fold fnv_step bs k \<longleftrightarrow> h = k"
  by (induction bs arbitrary: h k) (simp_all add: fnv_step_inject)

lemma checksum_one_byte:
  "checksum (xs @ a # ys) = checksum (xs @ b # ys) \<longleftrightarrow> a = b"
  by (simp add: checksum_def fnv_fold_inject fnv_step_byte)

end
