(* ===== verification/Double.thy ===== *)
theory Double
  imports Complex_Main "HOL-Library.Log_Nat" Prelude
begin

text \<open>
  The type \<open>double\<close> of the code: IEEE 754 binary64 with its NaN, its infinities and its two
  zeros. A finite number is its rational value; every operation computes the exact result and
  rounds it to the nearest representable value, ties to even, overflowing to an infinity, as
  the machine does. All of it is executable on rationals.

  \<open>proper\<close> says that a value is one a \<open>double\<close> can hold.
\<close>

datatype double = NaN | Infinite bool | MinusZero | Number rat

section \<open>Classes and comparisons\<close>

fun is_nan :: "double \<Rightarrow> bool" where
  "is_nan NaN = True"
| "is_nan _ = False"

fun is_finite :: "double \<Rightarrow> bool" where
  "is_finite MinusZero = True"
| "is_finite (Number q) = True"
| "is_finite _ = False"

text \<open>The sign bit: True is negative.\<close>

fun sign_bit :: "double \<Rightarrow> bool" where
  "sign_bit NaN = False"
| "sign_bit (Infinite s) = s"
| "sign_bit MinusZero = True"
| "sign_bit (Number q) = (q < 0)"

fun value_of :: "double \<Rightarrow> rat" where
  "value_of (Number q) = q"
| "value_of _ = 0"

fun d_less :: "double \<Rightarrow> double \<Rightarrow> bool" where
  "d_less NaN y = False"
| "d_less x NaN = False"
| "d_less (Infinite s) (Infinite t) = (s \<and> \<not> t)"
| "d_less (Infinite s) y = s"
| "d_less x (Infinite t) = (\<not> t)"
| "d_less x y = (value_of x < value_of y)"

definition d_le :: "double \<Rightarrow> double \<Rightarrow> bool" where
  "d_le x y \<longleftrightarrow> \<not> is_nan x \<and> \<not> is_nan y \<and> \<not> d_less y x"

definition d_eq :: "double \<Rightarrow> double \<Rightarrow> bool" where
  "d_eq x y \<longleftrightarrow> d_le x y \<and> d_le y x"

text \<open>\<open>std::min\<close> and \<open>std::max\<close>: the first argument, unless the second one is strictly better.\<close>

definition d_min :: "double \<Rightarrow> double \<Rightarrow> double" where
  "d_min x y = (if d_less y x then y else x)"

definition d_max :: "double \<Rightarrow> double \<Rightarrow> double" where
  "d_max x y = (if d_less x y then y else x)"

lemma d_less_nan [simp]: "\<not> d_less NaN y" "\<not> d_less x NaN"
  by (cases x; simp)+

lemma d_less_finite:
  "is_finite x \<Longrightarrow> is_finite y \<Longrightarrow> d_less x y \<longleftrightarrow> value_of x < value_of y"
  by (cases x; cases y; simp)

lemma d_le_finite:
  "is_finite x \<Longrightarrow> is_finite y \<Longrightarrow> d_le x y \<longleftrightarrow> value_of x \<le> value_of y"
  by (cases x; cases y; auto simp: d_le_def)

lemma d_le_trans: "d_le x y \<Longrightarrow> d_le y z \<Longrightarrow> d_le x z"
  by (cases x; cases y; cases z; auto simp: d_le_def)

lemma d_less_le: "d_less x y \<Longrightarrow> d_le x y"
  by (cases x; cases y; auto simp: d_le_def)

lemma d_le_less_trans: "d_le x y \<Longrightarrow> d_less y z \<Longrightarrow> d_less x z"
  by (cases x; cases y; cases z; auto simp: d_le_def)

lemma d_not_less: "\<not> is_nan x \<Longrightarrow> \<not> is_nan y \<Longrightarrow> \<not> d_less x y \<longleftrightarrow> d_le y x"
  by (simp add: d_le_def)

lemma d_le_not_nan: "d_le x y \<Longrightarrow> \<not> is_nan x \<and> \<not> is_nan y"
  by (simp add: d_le_def)

section \<open>Rounding\<close>

text \<open>The binary exponent of a positive rational.\<close>

definition exponent :: "rat \<Rightarrow> int" where
  "exponent q =
     (let (n, d) = quotient_of q;
          k = int (floorlog 2 (nat n)) - int (floorlog 2 (nat d)) in
      if 2 powi k \<le> q then k else k - 1)"

definition ulp_exponent :: "rat \<Rightarrow> int" where
  "ulp_exponent q = max (- 1074) (exponent q - 52)"

definition round_even :: "rat \<Rightarrow> int" where
  "round_even x =
     (let f = \<lfloor>x\<rfloor>; d = x - of_int f in
      if d < 1 / 2 then f else if d > 1 / 2 then f + 1 else if even f then f else f + 1)"

definition round_magnitude :: "rat \<Rightarrow> rat" where
  "round_magnitude q =
     of_int (round_even (q / 2 powi ulp_exponent q)) * 2 powi ulp_exponent q"

text \<open>\<open>zero_sign\<close> is the sign an exact zero gets; an underflow keeps the sign of its value.\<close>

definition round_double :: "bool \<Rightarrow> rat \<Rightarrow> double" where
  "round_double zero_sign q =
     (if q = 0 then if zero_sign then MinusZero else Number 0
      else let v = round_magnitude \<bar>q\<bar> in
        if v \<ge> 2 ^ 1024 then Infinite (q < 0)
        else if v = 0 then if q < 0 then MinusZero else Number 0
        else Number (if q < 0 then - v else v))"

fun proper :: "double \<Rightarrow> bool" where
  "proper (Number q) \<longleftrightarrow> round_double False q = Number q"
| "proper _ \<longleftrightarrow> True"

section \<open>Arithmetic\<close>

fun d_neg :: "double \<Rightarrow> double" where
  "d_neg NaN = NaN"
| "d_neg (Infinite s) = Infinite (\<not> s)"
| "d_neg MinusZero = Number 0"
| "d_neg (Number q) = (if q = 0 then MinusZero else Number (- q))"

fun d_add :: "double \<Rightarrow> double \<Rightarrow> double" where
  "d_add NaN y = NaN"
| "d_add x NaN = NaN"
| "d_add (Infinite s) (Infinite t) = (if s = t then Infinite s else NaN)"
| "d_add (Infinite s) y = Infinite s"
| "d_add x (Infinite t) = Infinite t"
| "d_add MinusZero MinusZero = MinusZero"
| "d_add x y = round_double False (value_of x + value_of y)"

definition d_sub :: "double \<Rightarrow> double \<Rightarrow> double" where
  "d_sub x y = d_add x (d_neg y)"

definition d_mul :: "double \<Rightarrow> double \<Rightarrow> double" where
  "d_mul x y =
     (let s = (sign_bit x \<noteq> sign_bit y) in
      if is_nan x \<or> is_nan y then NaN
      else if is_finite x \<and> is_finite y then round_double s (value_of x * value_of y)
      else if is_finite x \<and> value_of x = 0 \<or> is_finite y \<and> value_of y = 0 then NaN
      else Infinite s)"

definition d_div :: "double \<Rightarrow> double \<Rightarrow> double" where
  "d_div x y =
     (let s = (sign_bit x \<noteq> sign_bit y) in
      if is_nan x \<or> is_nan y then NaN
      else if is_finite x \<and> is_finite y then
        (if value_of y \<noteq> 0 then round_double s (value_of x / value_of y)
         else if value_of x = 0 then NaN else Infinite s)
      else if is_finite y then Infinite s
      else if is_finite x then round_double s 0
      else NaN)"

text \<open>\<open>static_cast<double>\<close> of an integer.\<close>

definition d_of_int :: "int \<Rightarrow> double" where
  "d_of_int i = round_double False (of_int i)"

section \<open>Facts about rounding\<close>

lemma floorlog_powi:
  assumes "0 < n"
  shows "2 powi (int (floorlog 2 n) - 1) \<le> (of_nat n :: rat)" and "(of_nat n :: rat) < 2 powi int (floorlog 2 n)"
proof -
  define k where "k = floorlog 2 n"
  have b: "2 ^ (k - 1) \<le> n" "n < 2 ^ k"
    using floorlog_bounds [of n 2] assms unfolding k_def by auto
  have pos: "0 < k" using assms b(2) by (cases k) simp_all
  have "(of_nat (2 ^ (k - 1)) :: rat) \<le> of_nat n" using b(1) by (rule of_nat_mono)
  moreover have "(2 :: rat) powi (int k - 1) = of_nat (2 ^ (k - 1))"
    using pos by (cases k) simp_all
  ultimately show "2 powi (int (floorlog 2 n) - 1) \<le> (of_nat n :: rat)" by (simp only: k_def)
  have "(of_nat n :: rat) < of_nat (2 ^ k)" using b(2) by (simp only: of_nat_less_iff)
  moreover have "(2 :: rat) powi int k = of_nat (2 ^ k)" by simp
  ultimately show "(of_nat n :: rat) < 2 powi int (floorlog 2 n)" by (simp only: k_def)
qed

lemma powi_split: "(2 :: rat) powi (a + b) = 2 powi a * 2 powi b"
  by (simp add: power_int_add)

lemma powi_join: "a + b = c \<Longrightarrow> (2 :: rat) powi a * 2 powi b = 2 powi c"
  using powi_split [of a b] by simp

lemma powi_pos [simp]: "0 < (2 :: rat) powi a"
  by simp

lemma exponent_bounds:
  assumes "0 < q"
  shows "2 powi exponent q \<le> q" and "q < 2 powi (exponent q + 1)"
proof -
  obtain n d where nd: "quotient_of q = (n, d)" by (cases "quotient_of q")
  then have q: "q = of_int n / of_int d" and d: "0 < d" by (simp_all add: quotient_of_div quotient_of_denom_pos)
  with assms have n: "0 < n" by (simp add: zero_less_divide_iff)
  let ?a = "int (floorlog 2 (nat n))" let ?b = "int (floorlog 2 (nat d))"
  have N: "2 powi (?a - 1) \<le> (of_int n :: rat)" "(of_int n :: rat) < 2 powi ?a"
    using floorlog_powi [of "nat n"] n by (simp_all del: power_int_of_nat)
  have D: "2 powi (?b - 1) \<le> (of_int d :: rat)" "(of_int d :: rat) < 2 powi ?b"
    using floorlog_powi [of "nat d"] d by (simp_all del: power_int_of_nat)
  have "2 powi (?a - ?b - 1) * of_int d \<le> (2 powi (?a - ?b - 1) * 2 powi ?b :: rat)"
    using D(2) by (intro mult_left_mono) simp_all
  also have "\<dots> = 2 powi (?a - 1)" by (rule powi_join) simp
  finally have lo: "2 powi (?a - ?b - 1) \<le> q" using N(1) d by (simp add: q pos_le_divide_eq)
  have "(2 powi ?a :: rat) = 2 powi (?a - ?b + 1) * 2 powi (?b - 1)" by (rule powi_join [symmetric]) simp
  also have "\<dots> \<le> 2 powi (?a - ?b + 1) * of_int d" using D(1) by (intro mult_left_mono) simp_all
  finally have "of_int n < 2 powi (?a - ?b + 1) * (of_int d :: rat)" using N(2) by (rule less_le_trans [rotated])
  then have hi: "q < 2 powi (?a - ?b + 1)" using d by (simp add: q pos_divide_less_eq)
  from lo hi have "2 powi exponent q \<le> q \<and> q < 2 powi (exponent q + 1)"
    by (auto simp: exponent_def nd Let_def)
  then show "2 powi exponent q \<le> q" "q < 2 powi (exponent q + 1)" by simp_all
qed

lemma powi_less_iff: "(2 :: rat) powi a < 2 powi b \<longleftrightarrow> a < b"
  using power_int_strict_increasing [of a b "2 :: rat"] power_int_increasing [of b a "2 :: rat"]
  by (cases "a < b") (simp_all add: not_less)

lemma exponent_mono:
  assumes "0 < q" and "q \<le> r"
  shows "exponent q \<le> exponent r"
proof -
  have "(2 :: rat) powi exponent q < 2 powi (exponent r + 1)"
    using exponent_bounds [of q] exponent_bounds [of r] assms by linarith
  then show ?thesis by (simp add: powi_less_iff)
qed

lemma round_even_bounds: "\<lfloor>x\<rfloor> \<le> round_even x" "round_even x \<le> \<lfloor>x\<rfloor> + 1"
  by (simp_all add: round_even_def Let_def)

lemma round_even_of_int [simp]: "round_even (of_int m) = m"
  by (simp add: round_even_def)

lemma round_even_mono:
  assumes "x \<le> y"
  shows "round_even x \<le> round_even y"
proof (cases "\<lfloor>x\<rfloor> < \<lfloor>y\<rfloor>")
  case True
  then show ?thesis using round_even_bounds [of x] round_even_bounds [of y] by linarith
next
  case False
  with floor_mono [OF assms] have "\<lfloor>x\<rfloor> = \<lfloor>y\<rfloor>" by linarith
  with assms show ?thesis by (auto simp: round_even_def Let_def)
qed

lemma round_magnitude_mono:
  assumes "0 < q" and "q \<le> r"
  shows "round_magnitude q \<le> round_magnitude r"
proof -
  have e: "exponent q \<le> exponent r" by (rule exponent_mono [OF assms])
  let ?E = "ulp_exponent q" let ?F = "ulp_exponent r"
  consider "?E = ?F" | "?E < ?F" using e by (force simp: ulp_exponent_def)
  then show ?thesis
  proof cases
    case 1
    have "round_even (q / 2 powi ?F) \<le> round_even (r / 2 powi ?F)"
      using assms(2) by (intro round_even_mono divide_right_mono) simp_all
    then show ?thesis by (simp add: round_magnitude_def 1)
  next
    case 2
    define k where "k = exponent r"
    from 2 have F: "?F = k - 52" and lt: "exponent q < k" and E: "?E < k - 52"
      by (auto simp: ulp_exponent_def k_def)
    have "q < 2 powi (exponent q + 1)" by (rule exponent_bounds(2) [OF assms(1)])
    also have "\<dots> \<le> 2 powi k" using lt by (intro power_int_increasing) simp_all
    finally have "q / 2 powi ?E \<le> 2 powi k / 2 powi ?E"
      by (intro divide_right_mono) simp_all
    also have "\<dots> = 2 powi (k - ?E)" by (simp add: power_int_diff)
    also have "\<dots> = of_int (2 ^ nat (k - ?E))" using E by (simp add: power_int_def)
    finally have "round_even (q / 2 powi ?E) \<le> 2 ^ nat (k - ?E)"
      using round_even_mono round_even_of_int by metis
    then have "(of_int (round_even (q / 2 powi ?E)) :: rat) \<le> of_int (2 ^ nat (k - ?E))"
      by (simp only: of_int_le_iff)
    also have "\<dots> = 2 powi (k - ?E)" using E by (simp add: power_int_def)
    finally have "round_magnitude q \<le> 2 powi (k - ?E) * 2 powi ?E"
      unfolding round_magnitude_def by (intro mult_right_mono) simp_all
    also have "\<dots> = 2 powi k" by (rule powi_join) simp
    also have "\<dots> = 2 powi 52 * 2 powi ?F" by (rule powi_join [symmetric]) (simp add: F)
    also have "\<dots> \<le> round_magnitude r"
      unfolding round_magnitude_def
    proof (intro mult_right_mono)
      have "2 powi k \<le> r" using exponent_bounds(1) [of r] assms by (simp add: k_def)
      then have "2 powi k / 2 powi ?F \<le> r / 2 powi ?F" by (intro divide_right_mono) simp_all
      moreover have "(2 :: rat) powi k / 2 powi ?F = of_int (2 ^ 52)"
        by (simp add: F power_int_diff)
      ultimately have "2 ^ 52 \<le> round_even (r / 2 powi ?F)"
        using round_even_mono round_even_of_int by metis
      then have "(of_int (2 ^ 52) :: rat) \<le> of_int (round_even (r / 2 powi ?F))"
        by (simp only: of_int_le_iff)
      then show "2 powi 52 \<le> (of_int (round_even (r / 2 powi ?F)) :: rat)" by simp
    qed simp
    finally show ?thesis .
  qed
qed

lemma round_magnitude_nonneg: "0 \<le> q \<Longrightarrow> 0 \<le> round_magnitude q"
proof -
  assume "0 \<le> q"
  then have "0 \<le> q / 2 powi ulp_exponent q" by simp
  then have "0 \<le> round_even (q / 2 powi ulp_exponent q)"
    using round_even_mono [of 0] round_even_of_int [of 0] by simp
  then show ?thesis by (simp add: round_magnitude_def)
qed

lemma round_not_nan [simp]: "\<not> is_nan (round_double s q)"
  by (simp add: round_double_def Let_def)

text \<open>Rounding is monotone.\<close>

lemma round_double_pos:
  "0 < q \<Longrightarrow> round_double s q =
     (if 2 ^ 1024 \<le> round_magnitude q then Infinite False else Number (round_magnitude q))"
  by (simp add: round_double_def Let_def)

lemma round_double_neg:
  "q < 0 \<Longrightarrow> round_double s q =
     (if 2 ^ 1024 \<le> round_magnitude (- q) then Infinite True
      else if round_magnitude (- q) = 0 then MinusZero else Number (- round_magnitude (- q)))"
  by (simp add: round_double_def Let_def)

lemma round_double_0: "round_double s 0 = (if s then MinusZero else Number 0)"
  by (simp add: round_double_def)

lemma round_double_mono:
  assumes "q \<le> r"
  shows "d_le (round_double s q) (round_double t r)"
proof -
  define B :: rat where "B = 2 ^ 1024"
  have B: "0 < B" by (simp add: B_def)
  note round = round_double_pos round_double_neg round_double_0
  consider "0 < q" "0 < r" | "q < 0" "r < 0" | "q < 0" "0 < r" | "q = 0 \<or> r = 0"
    using assms by linarith
  then show ?thesis
  proof cases
    case 1
    with round_magnitude_mono [OF _ assms] show ?thesis
      unfolding round(1) [OF 1(1)] round(1) [OF 1(2)] B_def [symmetric] by (auto simp: d_le_def)
  next
    case 2
    with round_magnitude_mono [of "- r" "- q"] round_magnitude_nonneg [of "- r"] assms show ?thesis
      unfolding round(2) [OF 2(1)] round(2) [OF 2(2)] B_def [symmetric] by (auto simp: d_le_def)
  next
    case 3
    with round_magnitude_nonneg [of "- q"] round_magnitude_nonneg [of r] show ?thesis
      unfolding round(2) [OF 3(1)] round(1) [OF 3(2)] B_def [symmetric] by (auto simp: d_le_def)
  next
    case 4
    with assms have "q = 0 \<and> 0 < r \<or> q = 0 \<and> r = 0 \<or> q < 0 \<and> r = 0" by linarith
    with round_magnitude_nonneg [of "- q"] round_magnitude_nonneg [of r] B show ?thesis
      by (auto simp: round [folded B_def] d_le_def split: if_splits)
  qed
qed

text \<open>A number whose significand fits 53 bits is represented exactly.\<close>

lemma round_magnitude_exact:
  assumes "0 < m" and "m < 2 ^ 53" and "- 1074 \<le> e"
  shows "round_magnitude (of_int m * 2 powi e) = of_int m * 2 powi e"
proof -
  let ?q = "of_int m * 2 powi e :: rat"
  have q: "0 < ?q" using assms(1) by simp
  have "(of_int m :: rat) < of_int (2 ^ 53)" using assms(2) by (simp only: of_int_less_iff)
  then have "?q < 2 powi 53 * 2 powi e" by (intro mult_strict_right_mono) simp_all
  also have "\<dots> = 2 powi (53 + e)" by (simp add: powi_split)
  finally have "(2 :: rat) powi exponent ?q < 2 powi (53 + e)"
    using exponent_bounds(1) [OF q] by linarith
  then have "exponent ?q - 52 \<le> e" by (simp add: powi_less_iff)
  with assms(3) have le: "ulp_exponent ?q \<le> e" by (simp add: ulp_exponent_def)
  let ?E = "ulp_exponent ?q"
  have "?q / 2 powi ?E = of_int m * 2 powi (e - ?E)" by (simp add: power_int_diff)
  also have "\<dots> = of_int (m * 2 ^ nat (e - ?E))" using le by (simp add: power_int_def)
  finally have "round_even (?q / 2 powi ?E) = m * 2 ^ nat (e - ?E)" by (simp only: round_even_of_int)
  then have "round_magnitude ?q = of_int m * 2 powi (e - ?E) * 2 powi ?E"
    using le by (simp add: round_magnitude_def power_int_def)
  also have "\<dots> = ?q" by (simp add: power_int_diff)
  finally show ?thesis .
qed

lemma round_double_int:
  assumes "\<bar>i\<bar> < 2 ^ 53"
  shows "round_double s (of_int i) = (if i = 0 \<and> s then MinusZero else Number (of_int i))"
proof (cases "i = 0")
  case False
  then have m: "round_magnitude (of_int \<bar>i\<bar>) = of_int \<bar>i\<bar>"
    using round_magnitude_exact [of "\<bar>i\<bar>" 0] assms by simp
  have "(of_int \<bar>i\<bar> :: rat) < of_int (2 ^ 53)" using assms by (simp only: of_int_less_iff)
  also have "\<dots> < 2 ^ 1024" by simp
  finally have "(of_int \<bar>i\<bar> :: rat) < 2 ^ 1024" .
  with m False show ?thesis by (auto simp: round_double_def Let_def abs_if)
qed (simp add: round_double_def)

lemma d_of_int_exact: "\<bar>i\<bar> < 2 ^ 53 \<Longrightarrow> d_of_int i = Number (of_int i)"
  by (simp add: d_of_int_def round_double_int)

text \<open>A result of rounding is representable: rounding it again changes nothing.\<close>

lemma round_magnitude_idem:
  assumes "0 < q" and "round_magnitude q \<noteq> 0"
  shows "round_magnitude (round_magnitude q) = round_magnitude q"
proof -
  let ?E = "ulp_exponent q"
  define m where "m = round_even (q / 2 powi ?E)"
  have rm: "round_magnitude q = of_int m * 2 powi ?E" by (simp add: round_magnitude_def m_def)
  have E: "- 1074 \<le> ?E" "exponent q \<le> ?E + 52" by (simp_all add: ulp_exponent_def)
  have "0 \<le> m" using round_even_mono [of 0 "q / 2 powi ?E"] round_even_of_int [of 0] assms(1)
    by (simp add: m_def)
  moreover have "m \<noteq> 0" using assms(2) rm by auto
  ultimately have pos: "0 < m" by simp
  have "q < 2 powi (exponent q + 1)" by (rule exponent_bounds(2) [OF assms(1)])
  also have "\<dots> \<le> 2 powi (?E + 53)" using E(2) by (intro power_int_increasing) simp_all
  finally have "q / 2 powi ?E \<le> 2 powi (?E + 53) / 2 powi ?E" by (intro divide_right_mono) simp_all
  also have "\<dots> = of_int (2 ^ 53)" by (simp add: powi_split)
  finally have le: "m \<le> 2 ^ 53" using round_even_mono round_even_of_int unfolding m_def by metis
  show ?thesis
  proof (cases "m = 2 ^ 53")
    case True
    then have "round_magnitude q = of_int (2 ^ 52) * 2 powi (?E + 1)"
      by (simp add: rm powi_split)
    then show ?thesis using round_magnitude_exact [of "2 ^ 52" "?E + 1"] E(1) by simp
  next
    case False
    with le pos E(1) show ?thesis by (simp add: rm round_magnitude_exact)
  qed
qed

lemma round_double_idem:
  assumes "round_double s q = Number v"
  shows "round_double t v = Number v \<or> v = 0"
proof (cases "v = 0")
  case False
  define B :: rat where "B = 2 ^ 1024"
  consider "0 < q" | "q < 0" | "q = 0" by linarith
  then show ?thesis
  proof cases
    case 1
    with assms have v: "v = round_magnitude q" "\<not> B \<le> v"
      by (auto simp: round_double_pos [folded B_def] split: if_splits)
    then have "0 < v" using False round_magnitude_nonneg [of q] 1 by simp
    moreover have "round_magnitude v = v"
      using round_magnitude_idem [OF 1] False by (simp add: v(1))
    ultimately show ?thesis using v(2) by (simp add: round_double_pos [folded B_def])
  next
    case 2
    with assms have v: "- v = round_magnitude (- q)" "\<not> B \<le> - v"
      by (auto simp: round_double_neg [folded B_def] split: if_splits)
    then have "v < 0" using False round_magnitude_nonneg [of "- q"] 2 by linarith
    moreover have "round_magnitude (- v) = - v"
      using round_magnitude_idem [of "- q"] 2 False by (simp add: v(1) [symmetric])
    ultimately show ?thesis using v(2) by (simp add: round_double_neg [folded B_def])
  qed (use assms False in \<open>simp add: round_double_0 split: if_splits\<close>)
qed simp

lemma round_finite:
  assumes "\<bar>q\<bar> \<le> 2 ^ 1000"
  shows "is_finite (round_double s q)"
proof -
  have E: "round_magnitude (2 ^ 1000) = (2 ^ 1000 :: rat)"
    using round_magnitude_exact [of 1 1000] by (simp add: power_int_def)
  have small: "round_magnitude r < 2 ^ 1024" if "0 < r" "r \<le> 2 ^ 1000" for r
  proof -
    have "round_magnitude r \<le> 2 ^ 1000" using round_magnitude_mono [OF that] E by simp
    also have "\<dots> < (2 ^ 1024 :: rat)" by (rule power_strict_increasing) simp_all
    finally show ?thesis .
  qed
  consider "0 < q" | "q < 0" | "q = 0" by linarith
  then show ?thesis
  proof cases
    case 1
    with small [of q] assms show ?thesis unfolding round_double_pos [OF 1] by (simp add: abs_if not_le)
  next
    case 2
    with small [of "- q"] assms show ?thesis unfolding round_double_neg [OF 2] by (simp add: abs_if not_le)
  qed (simp add: round_double_0)
qed

lemma d_of_int_finite: "\<bar>i\<bar> \<le> 2 ^ 64 \<Longrightarrow> is_finite (d_of_int i)"
proof -
  assume "\<bar>i\<bar> \<le> 2 ^ 64"
  then have "(of_int \<bar>i\<bar> :: rat) \<le> of_int (2 ^ 64)" by (simp only: of_int_le_iff)
  also have "\<dots> = 2 ^ 64" by simp
  also have "\<dots> \<le> 2 ^ 1000" by (rule power_increasing) simp_all
  finally show ?thesis unfolding d_of_int_def by (intro round_finite) simp
qed

lemma d_of_int_mono: "i \<le> j \<Longrightarrow> d_le (d_of_int i) (d_of_int j)"
  by (simp add: d_of_int_def round_double_mono)

lemma d_of_int_not_nan [simp]: "\<not> is_nan (d_of_int i)"
  by (simp add: d_of_int_def)

text \<open>Scaling a positive integer by a factor that is not above 1 does not raise it, by one that
  is not below 1 does not lower it.\<close>

lemma d_of_int_pos:
  assumes "0 < i" and "i \<le> 2 ^ 64"
  obtains v where "d_of_int i = Number v" and "0 < v" and "\<And>s. round_double s v = Number v"
proof -
  have fin: "is_finite (d_of_int i)" using assms by (intro d_of_int_finite) simp
  have one: "d_of_int 1 = Number 1" by (simp add: d_of_int_exact)
  have le: "d_le (Number 1) (d_of_int i)" using d_of_int_mono [of 1 i] assms(1) by (simp add: one)
  obtain v where v: "d_of_int i = Number v"
    using fin le by (cases "d_of_int i") (simp_all add: d_le_def)
  with le have "1 \<le> v" by (simp add: d_le_def)
  moreover have "round_double s v = Number v" for s
    using round_double_idem [of False "of_int i" v s] v \<open>1 \<le> v\<close> by (auto simp: d_of_int_def)
  ultimately show thesis using that v by simp
qed

lemma d_mul_at_most:
  assumes "0 < i" and "i \<le> 2 ^ 64" and "d_le y (Number 1)"
  shows "d_le (d_mul (d_of_int i) y) (d_of_int i)"
proof -
  obtain v where v: "d_of_int i = Number v" "0 < v" "\<And>s. round_double s v = Number v"
    using d_of_int_pos assms(1,2) by metis
  show ?thesis
  proof (cases "is_finite y")
    case True
    then have y: "value_of y \<le> 1" using assms(3) by (simp add: d_le_finite)
    have "v * value_of y \<le> v" using mult_left_mono [OF y, of v] v(2) by simp
    then have "d_le (round_double (sign_bit y) (v * value_of y)) (round_double False v)"
      by (rule round_double_mono)
    with True v show ?thesis by (cases y) (simp_all add: d_mul_def)
  next
    case False
    then show ?thesis using assms(3) v by (cases y) (simp_all add: d_mul_def d_le_def)
  qed
qed

lemma d_mul_at_least:
  assumes "0 < i" and "i \<le> 2 ^ 64" and "d_le (Number 1) y"
  shows "d_le (d_of_int i) (d_mul (d_of_int i) y)"
proof -
  obtain v where v: "d_of_int i = Number v" "0 < v" "\<And>s. round_double s v = Number v"
    using d_of_int_pos assms(1,2) by metis
  show ?thesis
  proof (cases "is_finite y")
    case True
    then have y: "1 \<le> value_of y" using assms(3) by (simp add: d_le_finite)
    have "v \<le> v * value_of y" using mult_left_mono [OF y, of v] v(2) by simp
    then have "d_le (round_double False v) (round_double (sign_bit y) (v * value_of y))"
      by (rule round_double_mono)
    with True v show ?thesis by (cases y) (simp_all add: d_mul_def)
  next
    case False
    then show ?thesis using assms(3) v by (cases y) (simp_all add: d_mul_def d_le_def)
  qed
qed

lemma round_one [simp]: "round_double s 1 = Number 1"
  using round_double_int [of 1 s] by simp

lemma d_add_one:
  assumes "\<not> is_nan x" and "\<not> d_less x (Number 0)"
  shows "d_le (Number 1) (d_add (Number 1) x)" and "d_le (d_sub (Number 1) x) (Number 1)"
proof -
  have "d_le (round_double False 1) (round_double False (1 + q))" if "0 \<le> q" for q
    using that by (intro round_double_mono) simp
  then show "d_le (Number 1) (d_add (Number 1) x)"
    using assms by (cases x) (simp_all add: d_le_def)
  have "d_le (round_double False (1 - q)) (round_double False 1)" if "0 \<le> q" for q
    using that by (intro round_double_mono) simp
  then show "d_le (d_sub (Number 1) x) (Number 1)"
    using assms by (cases x) (simp_all add: d_le_def d_sub_def)
qed

lemma d_div_nonneg:
  assumes "\<not> is_nan x" and "\<not> d_less x (Number 0)" and "0 < c"
  shows "\<not> is_nan (d_div x (Number c))" and "\<not> d_less (d_div x (Number c)) (Number 0)"
proof -
  show "\<not> is_nan (d_div x (Number c))"
    using assms by (cases x) (simp_all add: d_div_def)
  have "d_le (round_double False 0) (round_double s (q / c))" if "0 \<le> q" for q s
    using that assms(3) by (intro round_double_mono) simp
  then show "\<not> d_less (d_div x (Number c)) (Number 0)"
    using assms by (cases x) (simp_all add: d_div_def d_le_def round_double_0)
qed

end
