(* ===== verification/Exchange.thy ===== *)
theory Exchange
  imports Book_Correct Bytes Double "HOL-Library.AList"
begin

text \<open>
  The exchange, include/minimatch/exchange.hpp and src/exchange.cpp: one order book for each
  symbol that has been named, the halts and price bands in front of the books, the two
  callbacks, the state hash over all books and the snapshot file.

  \<open>books_\<close> is an unordered map. Its iteration order is not specified; the model keeps the
  entries in the order of their insertion, and the operations that iterate either sort the
  symbols first or do not depend on the order. Every book gets both callbacks; each forwards to
  the handler of the exchange when one is installed. \<open>ex_out\<close> holds the calls made to the
  handlers, oldest first.
\<close>

record price_band =
  pb_reference_price :: price
  pb_percent :: double

record exchange =
  ex_capacity :: nat
  ex_books :: "(symbol_id \<times> order_book) list"
  ex_trade_handler :: bool
  ex_report_handler :: bool
  ex_stp :: stp_policy
  ex_globally_halted :: bool
  ex_halted_symbols :: "symbol_id set"
  ex_price_bands :: "symbol_id \<rightharpoonup> price_band"
  ex_out :: "book_event list"

datatype exchange_error =
    BookError book_error
  | InvalidPriceBand
  | CannotOpenSnapshot
  | SnapshotWriteFailed
  | BadSnapshotHeader
  | InvalidSnapshotBook
  | TruncatedSnapshot
  | SnapshotHashMismatch

definition new_exchange :: "nat \<Rightarrow> exchange" where
  "new_exchange per_symbol_capacity =
     \<lparr>ex_capacity = per_symbol_capacity, ex_books = [], ex_trade_handler = False,
      ex_report_handler = False, ex_stp = StpNone, ex_globally_halted = False,
      ex_halted_symbols = {}, ex_price_bands = Map.empty, ex_out = []\<rparr>"

definition attach_handlers :: "order_book \<Rightarrow> order_book" where
  "attach_handlers b = b\<lparr>trade_handler := True, report_handler := True\<rparr>"

definition book_for :: "symbol_id \<Rightarrow> exchange \<Rightarrow> order_book \<times> exchange" where
  "book_for sy e =
     (case map_of (ex_books e) sy of
        Some b \<Rightarrow> (b, e)
      | None \<Rightarrow>
          let b = attach_handlers (new_book (ex_capacity e) sy\<lparr>stp := ex_stp e\<rparr>) in
          (b, e\<lparr>ex_books := ex_books e @ [(sy, b)]\<rparr>))"

text \<open>The calls of a book's callbacks that reach a handler of the exchange.\<close>

fun handled :: "exchange \<Rightarrow> book_event \<Rightarrow> bool" where
  "handled e (EvTrade t) = ex_trade_handler e"
| "handled e (EvReport r) = ex_report_handler e"

definition forward :: "book_event list \<Rightarrow> exchange \<Rightarrow> exchange" where
  "forward evs e = e\<lparr>ex_out := ex_out e @ filter (handled e) evs\<rparr>"

definition put_book :: "symbol_id \<Rightarrow> order_book \<Rightarrow> exchange \<Rightarrow> exchange" where
  "put_book sy b e = e\<lparr>ex_books := AList.update sy b (ex_books e)\<rparr>"

text \<open>An operation on the book of a symbol. None: the book's operation does not return.\<close>

definition with_book ::
  "symbol_id \<Rightarrow> (order_book \<Rightarrow> ((book_error + bool) \<times> order_book) option) \<Rightarrow> exchange \<Rightarrow>
   ((exchange_error + bool) \<times> exchange) option" where
  "with_book sy f e =
     (case book_for sy e of (b, e) \<Rightarrow>
        (case f b of
           None \<Rightarrow> None
         | Some (res, b') \<Rightarrow>
             Some (map_sum BookError id res,
                   forward (drop (length (out b)) (out b')) (put_book sy b' e))))"

definition rejection :: "order_request \<Rightarrow> reject_reason \<Rightarrow> book_event" where
  "rejection r reason =
     EvReport \<lparr>er_sequence = 0, er_order_id = rq_order_id r, er_status = Rejected,
       er_remaining = rq_quantity r, er_reject_reason = reason, er_symbol = rq_symbol r\<rparr>"

definition band_lower :: "price_band \<Rightarrow> double" where
  "band_lower band =
     d_mul (d_of_int (pb_reference_price band))
       (d_sub (Number 1) (d_div (pb_percent band) (Number 100)))"

definition band_upper :: "price_band \<Rightarrow> double" where
  "band_upper band =
     d_mul (d_of_int (pb_reference_price band))
       (d_add (Number 1) (d_div (pb_percent band) (Number 100)))"

definition outside_band :: "price \<Rightarrow> price_band \<Rightarrow> bool" where
  "outside_band p band \<longleftrightarrow>
     d_less (d_of_int p) (band_lower band) \<or> d_less (band_upper band) (d_of_int p)"

definition submit_order ::
  "order_request \<Rightarrow> exchange \<Rightarrow> ((exchange_error + bool) \<times> exchange) option" where
  "submit_order r e =
     (if ex_globally_halted e \<or> rq_symbol r \<in> ex_halted_symbols e then
        Some (Inr False, forward [rejection r TradingHalted] e)
      else if rq_type r \<noteq> Market \<and>
              (case ex_price_bands e (rq_symbol r) of
                 None \<Rightarrow> False | Some band \<Rightarrow> outside_band (rq_price r) band) then
        Some (Inr False, forward [rejection r PriceBandViolation] e)
      else with_book (rq_symbol r) (submit r) e)"

definition cancel_order ::
  "cancel_request \<Rightarrow> exchange \<Rightarrow> ((exchange_error + bool) \<times> exchange) option" where
  "cancel_order r e =
     with_book (cx_symbol r) (\<lambda>b. case cancel r b of (ok, b) \<Rightarrow> Some (Inr ok, b)) e"

definition replace_order ::
  "replace_request \<Rightarrow> exchange \<Rightarrow> ((exchange_error + bool) \<times> exchange) option" where
  "replace_order r e = with_book (rp_symbol r) (replace r) e"

section \<open>Halts, bands and handlers\<close>

definition halt_all :: "exchange \<Rightarrow> exchange" where
  "halt_all e = e\<lparr>ex_globally_halted := True\<rparr>"

definition resume_all :: "exchange \<Rightarrow> exchange" where
  "resume_all e = e\<lparr>ex_globally_halted := False\<rparr>"

definition halt_symbol :: "symbol_id \<Rightarrow> exchange \<Rightarrow> exchange" where
  "halt_symbol sy e = e\<lparr>ex_halted_symbols := insert sy (ex_halted_symbols e)\<rparr>"

definition resume_symbol :: "symbol_id \<Rightarrow> exchange \<Rightarrow> exchange" where
  "resume_symbol sy e = e\<lparr>ex_halted_symbols := ex_halted_symbols e - {sy}\<rparr>"

definition symbol_halted :: "symbol_id \<Rightarrow> exchange \<Rightarrow> bool" where
  "symbol_halted sy e \<longleftrightarrow> sy \<in> ex_halted_symbols e"

definition set_price_band ::
  "symbol_id \<Rightarrow> price \<Rightarrow> double \<Rightarrow> exchange \<Rightarrow> (exchange_error + unit) \<times> exchange" where
  "set_price_band sy reference_price band_percent e =
     (if reference_price \<le> 0 \<or> d_le band_percent (Number 0) then (Inl InvalidPriceBand, e)
      else (Inr (), e\<lparr>ex_price_bands := (ex_price_bands e)(sy \<mapsto>
        \<lparr>pb_reference_price = reference_price, pb_percent = band_percent\<rparr>)\<rparr>))"

definition clear_price_band :: "symbol_id \<Rightarrow> exchange \<Rightarrow> exchange" where
  "clear_price_band sy e = e\<lparr>ex_price_bands := (ex_price_bands e)(sy := None)\<rparr>"

definition map_books :: "(order_book \<Rightarrow> order_book) \<Rightarrow> exchange \<Rightarrow> exchange" where
  "map_books f e = e\<lparr>ex_books := map (\<lambda>(sy, b). (sy, f b)) (ex_books e)\<rparr>"

text \<open>The argument tells whether the given function is one that can be called.\<close>

definition on_trade :: "bool \<Rightarrow> exchange \<Rightarrow> exchange" where
  "on_trade handler e = map_books attach_handlers (e\<lparr>ex_trade_handler := handler\<rparr>)"

definition on_report :: "bool \<Rightarrow> exchange \<Rightarrow> exchange" where
  "on_report handler e = map_books attach_handlers (e\<lparr>ex_report_handler := handler\<rparr>)"

definition set_stp_policy :: "stp_policy \<Rightarrow> exchange \<Rightarrow> exchange" where
  "set_stp_policy policy e = map_books (\<lambda>b. b\<lparr>stp := policy\<rparr>) (e\<lparr>ex_stp := policy\<rparr>)"

section \<open>Queries\<close>

definition find_book :: "symbol_id \<Rightarrow> exchange \<Rightarrow> order_book option" where
  "find_book sy e = map_of (ex_books e) sy"

definition symbols :: "exchange \<Rightarrow> symbol_id list" where
  "symbols e = sort (map fst (ex_books e))"

definition active_orders :: "exchange \<Rightarrow> u64" where
  "active_orders e = fold (\<lambda>(sy, b) total_orders. total_orders + active_count b) (ex_books e) 0"

fun hash_symbols :: "exchange \<Rightarrow> symbol_id list \<Rightarrow> u64 \<Rightarrow> u64 option" where
  "hash_symbols e [] hash = Some hash"
| "hash_symbols e (sy # sys) hash =
     (case find_book sy e of
        None \<Rightarrow> None
      | Some b \<Rightarrow>
          (case state_hash b of
             None \<Rightarrow> None
           | Some h \<Rightarrow> hash_symbols e sys (mix h (mix (ucast sy) hash))))"

definition exchange_hash :: "exchange \<Rightarrow> u64 option" where
  "exchange_hash e = hash_symbols e (symbols e) fnv_offset"

section \<open>Snapshot files\<close>

record snapshot_header =
  sh_magic :: u32
  sh_version :: u16
  sh_reserved :: u16
  sh_symbol_count :: u32

record snapshot_book_header =
  sb_symbol :: symbol_id
  sb_sequence :: sequence_no
  sb_order_count :: u64
  sb_state_hash :: u64

definition snapshot_header_bytes :: "snapshot_header \<Rightarrow> u8 list" where
  "snapshot_header_bytes h =
     put32 (sh_magic h) @ put16 (sh_version h) @ put16 (sh_reserved h) @ put32 (sh_symbol_count h)"

definition read_snapshot_header :: "u8 list \<Rightarrow> snapshot_header" where
  "read_snapshot_header bs =
     \<lparr>sh_magic = of_nat (field_at 0 4 bs), sh_version = of_nat (field_at 4 2 bs),
      sh_reserved = of_nat (field_at 6 2 bs), sh_symbol_count = of_nat (field_at 8 4 bs)\<rparr>"

definition book_header_bytes :: "snapshot_book_header \<Rightarrow> u8 list" where
  "book_header_bytes h =
     put32 (sb_symbol h) @ put64 (sb_sequence h) @ put64 (sb_order_count h) @ put64 (sb_state_hash h)"

definition read_book_header :: "u8 list \<Rightarrow> snapshot_book_header" where
  "read_book_header bs =
     \<lparr>sb_symbol = of_nat (field_at 0 4 bs), sb_sequence = of_nat (field_at 4 8 bs),
      sb_order_count = of_nat (field_at 12 8 bs), sb_state_hash = of_nat (field_at 20 8 bs)\<rparr>"

text \<open>The padding bytes of an order in the file may depend on the order.\<close>

type_synonym paddings = "order_request \<Rightarrow> padding"

fun write_books :: "paddings \<Rightarrow> exchange \<Rightarrow> symbol_id list \<Rightarrow> u8 list option" where
  "write_books pad e [] = Some []"
| "write_books pad e (sy # sys) =
     (case find_book sy e of
        None \<Rightarrow> None
      | Some b \<Rightarrow>
          (case (resting_orders b, state_hash b, write_books pad e sys) of
             (Some orders, Some hash, Some bs) \<Rightarrow>
               Some (book_header_bytes \<lparr>sb_symbol = sy, sb_sequence = sequence b,
                       sb_order_count = of_nat (length orders), sb_state_hash = hash\<rparr> @
                     concat (map (\<lambda>r. order_memory (pad r) r) orders) @ bs)
           | _ \<Rightarrow> None))"

text \<open>\<open>opened\<close> and \<open>good\<close> are the two answers of the file system.\<close>

definition write_snapshot ::
  "paddings \<Rightarrow> bool \<Rightarrow> bool \<Rightarrow> exchange \<Rightarrow> (exchange_error + u8 list) option" where
  "write_snapshot pad opened good e =
     (if \<not> opened then Some (Inl CannotOpenSnapshot)
      else
        let header = \<lparr>sh_magic = 0x4D4D5350, sh_version = 1, sh_reserved = 0,
                      sh_symbol_count = of_nat (length (symbols e))\<rparr> in
        (case write_books pad e (symbols e) of
           None \<Rightarrow> None
         | Some bs \<Rightarrow>
             if \<not> good then Some (Inl SnapshotWriteFailed)
             else Some (Inr (snapshot_header_bytes header @ bs))))"

fun read_orders :: "nat \<Rightarrow> u8 list \<Rightarrow> order_request list option" where
  "read_orders 0 bs = Some []"
| "read_orders (Suc n) bs =
     (case (order_of_memory (take 32 bs), read_orders n (drop 32 bs)) of
        (Some r, Some rs) \<Rightarrow> Some (r # rs)
      | _ \<Rightarrow> None)"

text \<open>
  One round of the loading loop: the new exchange and the bytes left. The outer None: an order
  with a byte that is no enumerator. An exception leaves the books loaded so far in place.
\<close>

definition load_book ::
  "u8 list \<Rightarrow> exchange \<Rightarrow> ((exchange_error + u8 list) \<times> exchange) option" where
  "load_book bs e =
     (case take_bytes 28 bs of
        None \<Rightarrow> Some (Inl InvalidSnapshotBook, e)
      | Some (hs, bs) \<Rightarrow>
          let h = read_book_header hs in
          if unat (sb_order_count h) > ex_capacity e then Some (Inl InvalidSnapshotBook, e)
          else
            (case take_bytes (unat (sb_order_count h) * 32) bs of
               None \<Rightarrow> Some (Inl TruncatedSnapshot, e)
             | Some (os, bs) \<Rightarrow>
                 (case read_orders (unat (sb_order_count h)) os of
                    None \<Rightarrow> None
                  | Some orders \<Rightarrow>
                      let b = attach_handlers (new_book (ex_capacity e) (sb_symbol h)\<lparr>stp := ex_stp e\<rparr>) in
                      (case restore_resting_orders orders (sb_sequence h) b of
                         (Inl err, b) \<Rightarrow> Some (Inl (BookError err), e)
                       | (Inr _, b) \<Rightarrow>
                           (case state_hash b of
                              None \<Rightarrow> None
                            | Some hash \<Rightarrow>
                                if hash \<noteq> sb_state_hash h then Some (Inl SnapshotHashMismatch, e)
                                else if map_of (ex_books e) (sb_symbol h) \<noteq> None then Some (Inr bs, e)
                                else Some (Inr bs,
                                  e\<lparr>ex_books := ex_books e @ [(sb_symbol h, b)]\<rparr>))))))"

fun load_books :: "nat \<Rightarrow> u8 list \<Rightarrow> exchange \<Rightarrow> ((exchange_error + unit) \<times> exchange) option" where
  "load_books 0 bs e = Some (Inr (), e)"
| "load_books (Suc n) bs e =
     (case load_book bs e of
        None \<Rightarrow> None
      | Some (Inl err, e) \<Rightarrow> Some (Inl err, e)
      | Some (Inr bs, e) \<Rightarrow> load_books n bs e)"

definition load_snapshot ::
  "u8 list option \<Rightarrow> exchange \<Rightarrow> ((exchange_error + unit) \<times> exchange) option" where
  "load_snapshot path e =
     (case path of
        None \<Rightarrow> Some (Inl CannotOpenSnapshot, e)
      | Some content \<Rightarrow>
          (case take_bytes 12 content of
             None \<Rightarrow> Some (Inl BadSnapshotHeader, e)
           | Some (hs, bs) \<Rightarrow>
               let h = read_snapshot_header hs in
               if sh_magic h \<noteq> 0x4D4D5350 \<or> sh_version h \<noteq> 1 then Some (Inl BadSnapshotHeader, e)
               else load_books (unat (sh_symbol_count h)) bs (e\<lparr>ex_books := []\<rparr>)))"

end
