(* ===== verification/Exchange_Correct.thy ===== *)
theory Exchange_Correct
  imports Exchange "HOL-Library.Multiset"
begin

text \<open>
  What an exchange keeps true of its books, and what its operations do, over the abstract books
  of Book\_Spec. The locale \<open>book_operation\<close> states what the exchange relies on in an operation
  of a book; the three operations it calls are its interpretations.
\<close>

section \<open>Well-formed exchanges\<close>

definition book_in :: "exchange \<Rightarrow> symbol_id \<Rightarrow> order_book \<Rightarrow> bool" where
  "book_in e sy b \<longleftrightarrow>
     symbol b = sy \<and> stp b = ex_stp e \<and> trade_handler b \<and> report_handler b \<and>
     length (nodes b) = ex_capacity e \<and> book_inv b"

definition exchange_inv :: "exchange \<Rightarrow> bool" where
  "exchange_inv e \<longleftrightarrow>
     ex_capacity e < 2 ^ 32 \<and> distinct (map fst (ex_books e)) \<and>
     (\<forall>sy b. map_of (ex_books e) sy = Some b \<longrightarrow> book_in e sy b)"

lemma exchange_invD:
  assumes "exchange_inv e"
  shows "ex_capacity e < 2 ^ 32" and "distinct (map fst (ex_books e))"
    and "find_book sy e = Some b \<Longrightarrow> book_in e sy b"
  using assms by (simp_all add: exchange_inv_def find_book_def)

definition fresh_book :: "exchange \<Rightarrow> symbol_id \<Rightarrow> order_book" where
  "fresh_book e sy = attach_handlers (new_book (ex_capacity e) sy\<lparr>stp := ex_stp e\<rparr>)"

text \<open>What the clients of an exchange see of it: the queues behind every symbol.\<close>

definition abs_exchange :: "exchange \<Rightarrow> symbol_id \<Rightarrow> a_book option" where
  "abs_exchange e sy = map_option abs_book (find_book sy e)"

definition a_fresh :: "exchange \<Rightarrow> symbol_id \<Rightarrow> a_book" where
  "a_fresh e sy =
     \<lparr>ab_symbol = sy, ab_capacity = ex_capacity e, ab_ladder = (\<lambda>_. []), ab_stp = ex_stp e,
      ab_trades = True, ab_reports = True, ab_sequence = 0, ab_out = []\<rparr>"

definition a_book_for :: "exchange \<Rightarrow> symbol_id \<Rightarrow> a_book" where
  "a_book_for e sy = (case abs_exchange e sy of None \<Rightarrow> a_fresh e sy | Some A \<Rightarrow> A)"

lemma fresh_book_in: "ex_capacity e < 2 ^ 32 \<Longrightarrow> book_in e sy (fresh_book e sy)"
  using new_book_inv(1) [of "ex_capacity e" sy]
  by (simp add: book_in_def fresh_book_def attach_handlers_def) (simp add: new_book_def)

lemma abs_fresh: "abs_book (fresh_book e sy) = a_fresh e sy"
proof -
  have "abs_ladder (fresh_book e sy) sd = []" for sd
    by (cases sd) (simp_all add: abs_ladder_def fresh_book_def attach_handlers_def new_book_def)
  then show ?thesis
    by (simp add: abs_book_def a_fresh_def fun_eq_iff) (simp add: fresh_book_def attach_handlers_def new_book_def)
qed

lemma book_for_cases:
  assumes "exchange_inv e"
  obtains b e' where "book_for sy e = (b, e')" and "exchange_inv e'" and "book_in e sy b"
    and "abs_book b = a_book_for e sy" and "find_book sy e' = Some b"
    and "e' = e\<lparr>ex_books := ex_books e'\<rparr>"
    and "\<forall>s. s \<noteq> sy \<longrightarrow> find_book s e' = find_book s e"
proof (cases "find_book sy e")
  case None
  let ?e = "e\<lparr>ex_books := ex_books e @ [(sy, fresh_book e sy)]\<rparr>"
  have "sy \<notin> fst ` set (ex_books e)" using None by (simp add: find_book_def map_of_eq_None_iff)
  moreover have "book_in ?e = book_in e" by (simp add: book_in_def fun_eq_iff)
  ultimately have "exchange_inv ?e"
    using assms fresh_book_in [of e sy]
    by (auto simp: exchange_inv_def map_add_def split: option.splits if_splits)
  with None show thesis
    using exchange_invD(1) [OF assms]
    by (intro that [of "fresh_book e sy" ?e])
      (auto simp: book_for_def find_book_def fresh_book_def [symmetric] fresh_book_in abs_fresh
        a_book_for_def abs_exchange_def map_add_def Let_def split: option.split)
next
  case (Some b)
  then show thesis
    using assms exchange_invD(3) [OF assms Some]
    by (intro that [of b e]) (simp_all add: book_for_def find_book_def a_book_for_def abs_exchange_def)
qed

section \<open>The interface of a book operation\<close>

text \<open>
  What the exchange relies on: an operation of a book returns, gives an answer and not an
  exception, keeps the book well-formed, implements its specification and changes nothing of the
  book but its queues, its sequence number and its log.
\<close>

locale book_operation =
  fixes f :: "order_book \<Rightarrow> ((book_error + bool) \<times> order_book) option"
    and g :: "a_book \<Rightarrow> bool \<times> a_book"
  assumes implements: "book_inv b \<Longrightarrow>
      \<exists>b'. f b = Some (Inr (fst (g (abs_book b))), b') \<and> book_inv b' \<and>
        abs_book b' = snd (g (abs_book b))"
    and adds: "\<exists>es. a_adds A (snd (g A)) es"
begin

lemma frame:
  assumes "book_in e sy b" and "abs_book b' = snd (g (abs_book b))" and "book_inv b'"
  shows "book_in e sy b'" and "drop (length (out b)) (out b') =
    drop (length (ab_out (abs_book b))) (ab_out (snd (g (abs_book b))))"
proof -
  obtain es where "a_adds (abs_book b) (abs_book b') es" using adds assms(2) by metis
  with assms(1,3) show "book_in e sy b'" by (auto simp: a_adds_def book_in_def)
  show "drop (length (out b)) (out b') =
    drop (length (ab_out (abs_book b))) (ab_out (snd (g (abs_book b))))"
    by (simp flip: assms(2))
qed

lemma with_book_refines:
  assumes inv: "exchange_inv e"
  obtains e' where "with_book sy f e = Some (Inr (fst (g (a_book_for e sy))), e')"
    and "exchange_inv e'"
    and "abs_exchange e' = (abs_exchange e)(sy \<mapsto> snd (g (a_book_for e sy)))"
    and "\<forall>s. s \<noteq> sy \<longrightarrow> find_book s e' = find_book s e"
    and "e' = e\<lparr>ex_books := ex_books e', ex_out := ex_out e @ filter (handled e)
        (drop (length (ab_out (a_book_for e sy))) (ab_out (snd (g (a_book_for e sy)))))\<rparr>"
proof (rule book_for_cases [OF inv, of sy])
  fix b e1
  assume b: "book_for sy e = (b, e1)" and inv1: "exchange_inv e1" and bin: "book_in e sy b"
    and abs: "abs_book b = a_book_for e sy" and "find_book sy e1 = Some b"
    and "e1 = e\<lparr>ex_books := ex_books e1\<rparr>"
    and others: "\<forall>s. s \<noteq> sy \<longrightarrow> find_book s e1 = find_book s e"
  then obtain bs where e1: "e1 = e\<lparr>ex_books := bs\<rparr>" by blast
  from bin have "book_inv b" by (simp add: book_in_def)
  then obtain b' where f: "f b = Some (Inr (fst (g (abs_book b))), b')" and "book_inv b'"
    and abs': "abs_book b' = snd (g (abs_book b))" using implements by blast
  note fr = frame [OF bin abs' \<open>book_inv b'\<close>]
  define e2 where "e2 = forward (drop (length (out b)) (out b')) (put_book sy b' e1)"
  have books: "map_of (ex_books e2) = (map_of (ex_books e1))(sy \<mapsto> b')"
    by (simp add: e2_def forward_def put_book_def update_conv')
  have find: "find_book s e2 = (if s = sy then Some b' else find_book s e)" for s
    using others by (simp add: find_book_def books)
  have conf: "ex_capacity e2 = ex_capacity e" "ex_stp e2 = ex_stp e"
    by (simp_all add: e2_def e1 forward_def put_book_def)
  have "distinct (map fst (ex_books e2))"
    using exchange_invD(2) [OF inv1]
    by (simp add: e2_def forward_def put_book_def distinct_update)
  moreover have "book_in e2 s c" if "find_book s e2 = Some c" for s c
    using that fr(1) exchange_invD(3) [OF inv, of s c] conf
    by (auto simp: find book_in_def split: if_splits)
  ultimately have "exchange_inv e2"
    using exchange_invD(1) [OF inv] conf by (simp add: exchange_inv_def find_book_def)
  moreover have "with_book sy f e = Some (Inr (fst (g (a_book_for e sy))), e2)"
    by (simp add: with_book_def b f abs [symmetric] e2_def)
  moreover have "abs_exchange e2 = (abs_exchange e)(sy \<mapsto> snd (g (a_book_for e sy)))"
    by (simp add: fun_eq_iff abs_exchange_def find abs' abs)
  moreover have "handled (e\<lparr>ex_books := ds\<rparr>) = handled e" for ds
    by (rule ext, rename_tac ev, case_tac ev) simp_all
  then have "e2 = e\<lparr>ex_books := ex_books e2, ex_out := ex_out e @ filter (handled e)
      (drop (length (ab_out (a_book_for e sy))) (ab_out (snd (g (a_book_for e sy)))))\<rparr>"
    using fr(2) by (simp add: e2_def e1 forward_def put_book_def flip: abs)
  ultimately show thesis using find that [of e2] by simp
qed

end

interpretation submitting: book_operation "submit r" "a_submit r" for r
  by unfold_locales (metis submit_implements, rule a_submit_adds)

interpretation cancelling: book_operation
  "\<lambda>b. case cancel c b of (ok, b) \<Rightarrow> Some (Inr ok, b)" "a_cancel c" for c
  by unfold_locales (simp add: case_prod_unfold cancel_implements, rule a_cancel_adds)

interpretation replacing: book_operation "replace q" "a_replace q" for q
  by unfold_locales (metis replace_implements, rule a_replace_adds)

section \<open>Reachable exchanges\<close>

text \<open>Every operation that changes an exchange, \<open>load_snapshot\<close> of any file included.\<close>

inductive exchange_step :: "exchange \<Rightarrow> exchange \<Rightarrow> bool" where
  "submit_order r e = Some (res, e') \<Longrightarrow> exchange_step e e'"
| "cancel_order c e = Some (res, e') \<Longrightarrow> exchange_step e e'"
| "replace_order q e = Some (res, e') \<Longrightarrow> exchange_step e e'"
| "exchange_step e (halt_all e)"
| "exchange_step e (resume_all e)"
| "exchange_step e (halt_symbol sy e)"
| "exchange_step e (resume_symbol sy e)"
| "exchange_step e (snd (set_price_band sy p v e))"
| "exchange_step e (clear_price_band sy e)"
| "exchange_step e (on_trade h e)"
| "exchange_step e (on_report h e)"
| "exchange_step e (set_stp_policy pol e)"
| "load_snapshot fl e = Some (lres, e') \<Longrightarrow> exchange_step e e'"

inductive reachable_exchange :: "exchange \<Rightarrow> bool" where
  new: "capacity < 2 ^ 32 \<Longrightarrow> reachable_exchange (new_exchange capacity)"
| step: "reachable_exchange e \<Longrightarrow> exchange_step e e' \<Longrightarrow> reachable_exchange e'"

lemma inv_config:
  assumes "exchange_inv e" and "ex_books e' = ex_books e" and "ex_capacity e' = ex_capacity e"
    and "ex_stp e' = ex_stp e"
  shows "exchange_inv e'"
  using assms by (simp add: exchange_inv_def book_in_def)

lemma map_of_map_books: "map_of (map (\<lambda>(sy, b). (sy, f b)) bs) sy = map_option f (map_of bs sy)"
  by (induction bs) auto

lemma inv_map_books:
  assumes "exchange_inv e" and "\<And>sy b. book_in e sy b \<Longrightarrow> book_in e' sy (f b)"
    and "ex_books e' = ex_books e" and "ex_capacity e' = ex_capacity e"
  shows "exchange_inv (map_books f e')"
proof -
  have "book_in (map_books f e') = book_in e'" by (simp add: book_in_def map_books_def fun_eq_iff)
  with assms show ?thesis
    by (auto simp: exchange_inv_def map_books_def map_of_map_books case_prod_unfold comp_def)
qed

lemma inv_add_book:
  assumes "exchange_inv e" and "map_of (ex_books e) sy = None" and "book_in e sy b"
  shows "exchange_inv (e\<lparr>ex_books := ex_books e @ [(sy, b)]\<rparr>)"
proof -
  have "book_in (e\<lparr>ex_books := ex_books e @ [(sy, b)]\<rparr>) = book_in e"
    by (simp add: book_in_def fun_eq_iff)
  with assms show ?thesis
    by (auto simp: exchange_inv_def map_of_eq_None_iff map_add_def split: option.splits if_splits)
qed

lemma load_book_inv:
  assumes inv: "exchange_inv e" and load: "load_book bs e = Some (res, e')"
  shows "exchange_inv e'"
proof (cases "e' = e")
  case False
  let ?h = "read_book_header (take 28 bs)"
  let ?c = "fresh_book e (sb_symbol ?h)"
  from load False obtain orders u b where
    re: "restore_resting_orders orders (sb_sequence ?h) ?c = (Inr u, b)"
    and "map_of (ex_books e) (sb_symbol ?h) = None"
    and e': "e' = e\<lparr>ex_books := ex_books e @ [(sb_symbol ?h, b)]\<rparr>"
    by (auto simp: load_book_def take_bytes_def Let_def fresh_book_def
        split: option.splits if_splits prod.splits sum.splits)
  have fresh: "book_in e (sb_symbol ?h) ?c"
    by (rule fresh_book_in [OF exchange_invD(1) [OF inv]])
  then have "book_inv ?c" by (simp add: book_in_def)
  from restore_inv(1) [OF this re] restore_frame [OF this re] fresh
  have "book_in e (sb_symbol ?h) b" by (simp add: book_in_def)
  with inv e' \<open>map_of (ex_books e) (sb_symbol ?h) = None\<close> show ?thesis
    by (simp add: inv_add_book)
qed (use inv in simp)

lemma load_books_inv: "exchange_inv e \<Longrightarrow> load_books n bs e = Some (res, e') \<Longrightarrow> exchange_inv e'"
  by (induction n bs e rule: load_books.induct)
    (auto split: option.splits prod.splits sum.splits dest: load_book_inv)

lemma load_snapshot_inv:
  assumes "exchange_inv e" and "load_snapshot fl e = Some (res, e')"
  shows "exchange_inv e'"
proof -
  have "exchange_inv (e\<lparr>ex_books := []\<rparr>)"
    using assms(1) by (simp add: exchange_inv_def)
  with assms show ?thesis
    by (auto simp: load_snapshot_def Let_def split: option.splits if_splits dest: load_books_inv)
qed

lemma forward_inv: "exchange_inv e \<Longrightarrow> exchange_inv (forward evs e)"
  by (erule inv_config) (simp_all add: forward_def)

lemma submit_order_total:
  assumes "exchange_inv e"
  obtains ok e' where "submit_order r e = Some (Inr ok, e')" and "exchange_inv e'"
  using assms forward_inv submitting.with_book_refines [OF assms, of "rq_symbol r" r]
  unfolding submit_order_def by (metis (full_types))

lemma cancel_order_total:
  assumes "exchange_inv e"
  obtains ok e' where "cancel_order r e = Some (Inr ok, e')" and "exchange_inv e'"
  using cancelling.with_book_refines [OF assms, of "cx_symbol r" r]
  unfolding cancel_order_def by metis

lemma replace_order_total:
  assumes "exchange_inv e"
  obtains ok e' where "replace_order r e = Some (Inr ok, e')" and "exchange_inv e'"
  using replacing.with_book_refines [OF assms, of "rp_symbol r" r]
  unfolding replace_order_def by metis

lemma step_inv: "exchange_step e e' \<Longrightarrow> exchange_inv e \<Longrightarrow> exchange_inv e'"
proof (induction rule: exchange_step.induct)
  case (1 r e res e')
  then show ?case by (metis submit_order_total option.inject prod.inject)
next
  case (2 c e res e')
  then show ?case by (metis cancel_order_total option.inject prod.inject)
next
  case (3 q e res e')
  then show ?case by (metis replace_order_total option.inject prod.inject)
next
  case (10 e h)
  then show ?case
    unfolding on_trade_def
    by (rule inv_map_books) (simp_all add: book_in_def attach_handlers_def)
next
  case (11 e h)
  then show ?case
    unfolding on_report_def
    by (rule inv_map_books) (simp_all add: book_in_def attach_handlers_def)
next
  case (12 e pol)
  then show ?case
    unfolding set_stp_policy_def by (rule inv_map_books) (simp_all add: book_in_def)
next
  case (13 fl e lres e')
  then show ?case by (blast intro: load_snapshot_inv)
qed (erule inv_config; simp add: halt_all_def resume_all_def halt_symbol_def resume_symbol_def
    set_price_band_def clear_price_band_def)+

lemma reachable_exchange_inv: "reachable_exchange e \<Longrightarrow> exchange_inv e"
  by (induction rule: reachable_exchange.induct)
    (simp_all add: step_inv, simp add: exchange_inv_def new_exchange_def)

section \<open>Orders\<close>


lemma halted_reachable:
  "reachable_exchange (halt_symbol 1 (on_report True (new_exchange 8)))"
proof -
  have "reachable_exchange (new_exchange 8)" by (rule reachable_exchange.new) simp
  then have "reachable_exchange (on_report True (new_exchange 8))"
    by (rule reachable_exchange.step) (rule exchange_step.intros)
  then show ?thesis by (rule reachable_exchange.step) (rule exchange_step.intros)
qed


definition refused :: "order_request \<Rightarrow> exchange \<Rightarrow> reject_reason option" where
  "refused r e =
     (if ex_globally_halted e \<or> rq_symbol r \<in> ex_halted_symbols e then Some TradingHalted
      else if rq_type r \<noteq> Market \<and>
        (\<exists>band. ex_price_bands e (rq_symbol r) = Some band \<and> outside_band (rq_price r) band)
      then Some PriceBandViolation else None)"

lemma submit_order_cases:
  "submit_order r e =
     (case refused r e of
        Some reason \<Rightarrow> Some (Inr False, forward [rejection r reason] e)
      | None \<Rightarrow> with_book (rq_symbol r) (submit r) e)"
  by (auto simp: submit_order_def refused_def split: option.splits)

lemma abs_forward [simp]: "abs_exchange (forward evs e) = abs_exchange e"
  by (simp add: abs_exchange_def find_book_def forward_def fun_eq_iff)

text \<open>C8: An order that a halt or a band refuses changes no book and is answered by one rejection,
  numbered 0, with the reason; a market order is never refused by a band. Any other order does
  to the book of its symbol what the abstract book says, on a fresh book when the symbol is new;
  no other book changes, and the handlers get the events of that book.\<close>

theorem submit_order_refines:
  assumes "reachable_exchange e" and "submit_order r e = Some (res, e')"
  defines "A \<equiv> a_book_for e (rq_symbol r)"
  shows "case refused r e of
      Some reason \<Rightarrow> res = Inr False \<and> abs_exchange e' = abs_exchange e \<and>
        ex_out e' = ex_out e @ (if ex_report_handler e then [rejection r reason] else [])
    | None \<Rightarrow> res = Inr (fst (a_submit r A)) \<and>
        abs_exchange e' = (abs_exchange e)(rq_symbol r \<mapsto> snd (a_submit r A)) \<and>
        ex_out e' = ex_out e @ filter (handled e)
          (drop (length (ab_out A)) (ab_out (snd (a_submit r A))))"
proof (cases "refused r e")
  case None
  with assms(2) have w: "with_book (rq_symbol r) (submit r) e = Some (res, e')"
    by (simp add: submit_order_cases)
  obtain e2 where e2: "with_book (rq_symbol r) (submit r) e = Some (Inr (fst (a_submit r A)), e2)"
    "abs_exchange e2 = (abs_exchange e)(rq_symbol r \<mapsto> snd (a_submit r A))"
    "e2 = e\<lparr>ex_books := ex_books e2, ex_out := ex_out e @ filter (handled e)
        (drop (length (ab_out A)) (ab_out (snd (a_submit r A))))\<rparr>"
    using submitting.with_book_refines [OF reachable_exchange_inv [OF assms(1)], of "rq_symbol r" r]
    unfolding A_def by metis
  from e2(3) have "ex_out e2 = ex_out e @ filter (handled e)
        (drop (length (ab_out A)) (ab_out (snd (a_submit r A))))"
    by (metis exchange.ext_inject exchange.surjective exchange.update_convs(9))
  with None w e2(1,2) show ?thesis by simp
next
  case (Some reason)
  with assms(2) show ?thesis
    by (auto simp: submit_order_cases forward_def rejection_def abs_exchange_def find_book_def fun_eq_iff)
qed

lemma submit_order_refines_witness:
  "\<exists>e'. submit_order (request 1 7 Sell Limit 101 5)
      (halt_symbol 1 (on_report True (new_exchange 8))) = Some (Inr False, e') \<and>
    ex_out e' = [rejection (request 1 7 Sell Limit 101 5) TradingHalted]"
proof -
  let ?r = "request 1 7 Sell Limit 101 5" and ?e = "halt_symbol 1 (on_report True (new_exchange 8))"
  have re: "refused ?r ?e = Some TradingHalted"
    by (simp add: refused_def halt_symbol_def request_def)
  then have "submit_order ?r ?e = Some (Inr False, forward [rejection ?r TradingHalted] ?e)"
    by (simp add: submit_order_cases)
  from submit_order_refines [OF halted_reachable this] this re show ?thesis
    by (simp add: halt_symbol_def on_report_def map_books_def new_exchange_def)
qed

section \<open>Price bands\<close>

lemma d_less_trans_le: "d_less x y \<Longrightarrow> d_le y z \<Longrightarrow> d_less x z"
  by (cases x; cases y; cases z; auto simp: d_le_def)

lemma band_convex:
  assumes "p \<le> q" and "q \<le> r" and "\<not> outside_band p band" and "\<not> outside_band r band"
  shows "\<not> outside_band q band"
  using assms d_of_int_mono [of p q] d_of_int_mono [of q r]
  by (auto simp: outside_band_def dest: d_le_less_trans d_less_trans_le)

lemma d_nan_arith [simp]:
  "d_div NaN x = NaN" "d_add x NaN = NaN" "d_sub x NaN = NaN" "d_mul x NaN = NaN"
  by (cases x; simp add: d_div_def d_sub_def d_mul_def)+

lemma reference_inside:
  assumes "0 < ref" and "ref \<le> 2 ^ 63" and "\<not> d_le pct (Number 0)"
  shows "\<not> outside_band ref \<lparr>pb_reference_price = ref, pb_percent = pct\<rparr>"
proof (cases "is_nan pct")
  case True
  then have "pct = NaN" by (cases pct) simp_all
  then show ?thesis by (simp add: outside_band_def band_lower_def band_upper_def)
next
  case False
  have ref: "ref \<le> 2 ^ 64" using assms(2) by simp
  have "\<not> d_less pct (Number 0)" using assms(3) d_less_le by blast
  note x = d_div_nonneg [OF False this, of 100, simplified]
  note f = d_add_one [OF x]
  show ?thesis
    using d_mul_at_most [OF assms(1) ref f(2)] d_mul_at_least [OF assms(1) ref f(1)]
    by (auto simp: outside_band_def band_lower_def band_upper_def d_le_def)
qed

text \<open>Whatever rounding does to its bounds, a price band that has been set admits its own
  reference price, and the prices it admits are an interval.\<close>

theorem price_band_interval:
  assumes "set_price_band sy reference_price pct e = (Inr u, e')" and "fits_i64 reference_price"
  shows "\<exists>band. ex_price_bands e' sy = Some band \<and> \<not> outside_band reference_price band \<and>
    (\<forall>p q r. p \<le> q \<and> q \<le> r \<and> \<not> outside_band p band \<and> \<not> outside_band r band \<longrightarrow> \<not> outside_band q band)"
proof -
  from assms(1) have "0 < reference_price" "\<not> d_le pct (Number 0)"
    and e': "ex_price_bands e' sy = Some \<lparr>pb_reference_price = reference_price, pb_percent = pct\<rparr>"
    by (auto simp: set_price_band_def split: if_splits)
  moreover have "reference_price \<le> 2 ^ 63" using assms(2) by (simp add: fits_i64_def)
  ultimately show ?thesis
    using reference_inside band_convex by blast
qed

lemma price_band_interval_witness:
  "\<exists>band. ex_price_bands (snd (set_price_band 1 10000 (Number 5) (new_exchange 8))) 1 = Some band \<and>
    \<not> outside_band 10000 band"
proof -
  have "set_price_band 1 10000 (Number 5) (new_exchange 8) =
      (Inr (), snd (set_price_band 1 10000 (Number 5) (new_exchange 8)))"
    by (simp add: set_price_band_def d_le_def)
  from price_band_interval [OF this] show ?thesis by (auto simp: fits_i64_def)
qed

text \<open>Halts and price bands stop new orders only. A replacement does exactly the same on an
  exchange that is halted, whose symbol is halted or whose symbol has a band as on one without
  them: it can move an order to a price outside the band, and trade during a halt.\<close>

theorem replace_ignores_controls:
  "replace_order q (halt_all e) = map_option (\<lambda>(res, e'). (res, halt_all e')) (replace_order q e) \<and>
   replace_order q (halt_symbol sy e) =
     map_option (\<lambda>(res, e'). (res, halt_symbol sy e')) (replace_order q e) \<and>
   replace_order q (snd (set_price_band sy p pct e)) =
     map_option (\<lambda>(res, e'). (res, snd (set_price_band sy p pct e'))) (replace_order q e)"
proof (intro conjI)
  have w: "replace_order q (F e) = map_option (\<lambda>(res, e'). (res, F e')) (replace_order q e)"
    if "F = (\<lambda>e. e\<lparr>ex_globally_halted := g e, ex_halted_symbols := h e, ex_price_bands := k e\<rparr>)"
      and "\<And>bs ds. g (e\<lparr>ex_books := bs, ex_out := ds\<rparr>) = g e"
      and "\<And>bs ds. h (e\<lparr>ex_books := bs, ex_out := ds\<rparr>) = h e"
      and "\<And>bs ds. k (e\<lparr>ex_books := bs, ex_out := ds\<rparr>) = k e" for F g h k
  proof -
    have handled: "handled (e\<lparr>ex_globally_halted := a, ex_halted_symbols := b, ex_price_bands := c,
        ex_books := d\<rparr>) = handled (e\<lparr>ex_books := d\<rparr>)" for a b c d
      by (rule ext, rename_tac ev, case_tac ev) simp_all
    have upd: "g (e\<lparr>ex_books := bs\<rparr>) = g e \<and> h (e\<lparr>ex_books := bs\<rparr>) = h e \<and> k (e\<lparr>ex_books := bs\<rparr>) = k e" for bs
      using that(2-4) [where bs = bs and ds = "ex_out e"] by simp
    show ?thesis
      unfolding that(1)
      by (auto simp: replace_order_def with_book_def book_for_def forward_def put_book_def Let_def
          handled that(2-4) upd split: option.splits prod.splits)
  qed
  show "replace_order q (halt_all e) = map_option (\<lambda>(res, e'). (res, halt_all e')) (replace_order q e)"
    by (rule w [where g = "\<lambda>_. True" and h = ex_halted_symbols and k = ex_price_bands])
      (simp_all add: halt_all_def fun_eq_iff)
  show "replace_order q (halt_symbol sy e) =
     map_option (\<lambda>(res, e'). (res, halt_symbol sy e')) (replace_order q e)"
    by (rule w [where g = ex_globally_halted and h = "\<lambda>e. insert sy (ex_halted_symbols e)" and k = ex_price_bands])
      (simp_all add: halt_symbol_def fun_eq_iff)
  show "replace_order q (snd (set_price_band sy p pct e)) =
     map_option (\<lambda>(res, e'). (res, snd (set_price_band sy p pct e'))) (replace_order q e)"
    by (rule w [where g = ex_globally_halted and h = ex_halted_symbols
          and k = "\<lambda>e. ex_price_bands (snd (set_price_band sy p pct e))"])
      (simp_all add: set_price_band_def fun_eq_iff)
qed

section \<open>What does not depend on the order of the books\<close>

lemma hash_symbols_cong:
  "(\<And>sy. sy \<in> set sys \<Longrightarrow> find_book sy e = find_book sy e') \<Longrightarrow> hash_symbols e sys h = hash_symbols e' sys h"
  by (induction sys arbitrary: h) (auto split: option.split)

lemma active_orders_sum: "active_orders e = (\<Sum>(sy, b)\<leftarrow>ex_books e. active_count b)"
proof -
  have "fold (\<lambda>(sy, b) t. t + active_count b) bs n = n + (\<Sum>(sy, b)\<leftarrow>bs. active_count b)" for bs n
    by (induction bs arbitrary: n) (auto simp: add.assoc)
  from this [of "ex_books e" 0] show ?thesis by (simp add: active_orders_def)
qed

text \<open>What an exchange answers about itself does not depend on the order in which its hash
  table iterates: two exchanges with the same books, in any order, list the same symbols, count
  the same active orders and have the same state hash.\<close>

theorem iteration_order_irrelevant:
  assumes "mset (ex_books e) = mset (ex_books e')" and "distinct (map fst (ex_books e))"
  shows "symbols e = symbols e' \<and> active_orders e = active_orders e' \<and>
    exchange_hash e = exchange_hash e'"
proof -
  have "mset (map fst (ex_books e)) = mset (map fst (ex_books e'))" using assms(1) by simp
  then have sy: "symbols e = symbols e'"
    unfolding symbols_def by (metis properties_for_sort mset_sort sorted_sort)
  have set: "set (ex_books e) = set (ex_books e')" using assms(1) by (metis set_mset_mset)
  have "distinct (map fst (ex_books e'))"
    using assms(2) \<open>mset (map fst _) = _\<close> by (metis mset_eq_imp_distinct_iff)
  then have find: "find_book s e = find_book s e'" for s
    unfolding find_book_def using set assms(2) by (metis map_of_inject_set)
  have "active_orders e = active_orders e'"
    unfolding active_orders_sum
    using assms(1) by (metis sum_mset_sum_list mset_map)
  then show ?thesis
    unfolding exchange_hash_def using sy hash_symbols_cong [OF find] by simp
qed

lemma iteration_order_irrelevant_witness:
  "let e = new_exchange 8; b = fresh_book e in
   exchange_hash (e\<lparr>ex_books := [(1, b 1), (2, b 2)]\<rparr>) =
   exchange_hash (e\<lparr>ex_books := [(2, b 2), (1, b 1)]\<rparr>)"
  unfolding Let_def
  by (rule iteration_order_irrelevant [THEN conjunct2, THEN conjunct2]) simp_all

section \<open>Snapshots\<close>

lemma read_header_bytes_simps [simp]:
  "read_snapshot_header (snapshot_header_bytes h) = h" "length (snapshot_header_bytes h) = 12"
  "read_book_header (book_header_bytes k) = k" "length (book_header_bytes k) = 28"
  by (simp_all add: read_snapshot_header_def snapshot_header_bytes_def read_book_header_def
      book_header_bytes_def field_at_simps)

definition orders_bytes :: "paddings \<Rightarrow> order_request list \<Rightarrow> u8 list" where
  "orders_bytes pad rs = concat (map (\<lambda>r. order_memory (pad r) r) rs)"

lemma orders_bytes_length [simp]: "length (orders_bytes pad rs) = 32 * length rs"
  by (induction rs) (simp_all add: orders_bytes_def)

lemma read_orders_bytes:
  "\<forall>r \<in> set rs. fits_i64 (rq_price r) \<Longrightarrow> read_orders (length rs) (orders_bytes pad rs) = Some rs"
  by (induction rs) (simp_all add: orders_bytes_def memory_roundtrip)

definition prices_fit :: "exchange \<Rightarrow> bool" where
  "prices_fit e \<longleftrightarrow> (\<forall>sy b. find_book sy e = Some b \<longrightarrow>
     (\<forall>r \<in> set (a_snapshot (abs_book b)). fits_i64 (rq_price r)))"

text \<open>The bytes of one book, and what loading them adds to an exchange.\<close>

definition book_bytes :: "paddings \<Rightarrow> symbol_id \<Rightarrow> order_book \<Rightarrow> u8 list" where
  "book_bytes pad sy b =
     book_header_bytes \<lparr>sb_symbol = sy, sb_sequence = sequence b,
       sb_order_count = of_nat (length (a_snapshot (abs_book b))), sb_state_hash = the (state_hash b)\<rparr> @
     orders_bytes pad (a_snapshot (abs_book b))"

lemma hash_returns: "book_inv b \<Longrightarrow> \<exists>h. state_hash b = Some h"
  using hash_abs by (blast elim: book_invE)

lemma write_books_bytes:
  assumes "exchange_inv e" and "\<forall>sy \<in> set sys. find_book sy e \<noteq> None"
  shows "write_books pad e sys = Some (concat (map (\<lambda>sy. book_bytes pad sy (the (find_book sy e))) sys))"
  using assms(2)
proof (induction sys)
  case (Cons sy sys)
  then obtain b where b: "find_book sy e = Some b" by auto
  with exchange_invD(3) [OF assms(1)] have "book_inv b" by (auto simp: book_in_def)
  then obtain G h where "book_rep b G" "state_hash b = Some h"
    using hash_returns by (blast elim: book_invE)
  with Cons b show ?case by (simp add: book_bytes_def orders_bytes_def snapshot_abs)
qed simp

definition restored_book :: "exchange \<Rightarrow> symbol_id \<Rightarrow> order_book \<Rightarrow> a_book" where
  "restored_book e sy b = (a_fresh e sy)\<lparr>ab_ladder := abs_ladder b, ab_sequence := sequence b\<rparr>"

lemma load_book_bytes:
  assumes b: "book_in e sy b" and e0: "ex_capacity e \<le> ex_capacity e0" "ex_capacity e0 < 2 ^ 32"
    and new: "find_book sy e0 = None"
    and fit: "\<forall>r \<in> set (a_snapshot (abs_book b)). fits_i64 (rq_price r)"
  obtains b' where "\<forall>bs. load_book (book_bytes pad sy b @ bs) e0 =
      Some (Inr bs, e0\<lparr>ex_books := ex_books e0 @ [(sy, b')]\<rparr>)"
    and "abs_book b' = restored_book e0 sy b" and "state_hash b' = state_hash b"
proof -
  let ?rs = "a_snapshot (abs_book b)" and ?c = "fresh_book e0 sy"
  from b have inv: "book_inv b" and cap: "length (nodes b) = ex_capacity e" and sy: "symbol b = sy"
    by (simp_all add: book_in_def)
  have len: "length ?rs \<le> ex_capacity e0"
    using snapshot_valid(3) [OF inv] capacity_abs [OF inv] cap e0(1) by simp
  have "book_in e0 sy ?c" by (rule fresh_book_in [OF e0(2)])
  then have c: "book_inv ?c" "symbol ?c = symbol b" "length (a_orders (abs_book b)) \<le> length (nodes ?c)"
    using sy len snapshot_valid(3) [OF inv] by (simp_all add: book_in_def)
  obtain c' where c': "restore_resting_orders ?rs (sequence b) ?c = (Inr (), c')"
    "state_hash c' = state_hash b"
    "abs_book c' = (abs_book ?c)\<lparr>ab_ladder := abs_ladder b, ab_sequence := sequence b\<rparr>"
    using restore_snapshot [OF inv c] by metis
  obtain h where h: "state_hash b = Some h" using hash_returns [OF inv] by blast
  have "length ?rs < 2 ^ 64" using len e0(2) by simp
  then have count: "unat (of_nat (length ?rs) :: u64) = length ?rs"
    by (simp add: unat_of_nat take_bit_nat_eq_self)
  have "\<forall>bs. load_book (book_bytes pad sy b @ bs) e0 =
      Some (Inr bs, e0\<lparr>ex_books := ex_books e0 @ [(sy, c')]\<rparr>)"
    using len new h c'(1,2) read_orders_bytes [OF fit, of pad]
    by (simp add: load_book_def book_bytes_def count Let_def fresh_book_def find_book_def mult.commute)
  with c'(2,3) that show thesis by (simp add: restored_book_def abs_fresh)
qed

lemma load_books_bytes:
  assumes "exchange_inv e" and "ex_capacity e \<le> ex_capacity e0" and "ex_capacity e0 < 2 ^ 32"
    and "prices_fit e" and "distinct sys" and "\<forall>sy \<in> set sys. find_book sy e \<noteq> None \<and> find_book sy e0 = None"
  shows "\<exists>e1. load_books (length sys)
      (concat (map (\<lambda>sy. book_bytes pad sy (the (find_book sy e))) sys)) e0 = Some (Inr (), e1) \<and>
    e1 = e0\<lparr>ex_books := ex_books e1\<rparr> \<and> map fst (ex_books e1) = map fst (ex_books e0) @ sys \<and>
    (\<forall>sy. sy \<notin> set sys \<longrightarrow> find_book sy e1 = find_book sy e0) \<and>
    (\<forall>sy \<in> set sys. \<exists>b'. find_book sy e1 = Some b' \<and>
       abs_book b' = restored_book e0 sy (the (find_book sy e)) \<and>
       state_hash b' = state_hash (the (find_book sy e)))"
  using assms(2,3,5,6)
proof (induction sys arbitrary: e0)
  case (Cons sy sys)
  then obtain b where b: "find_book sy e = Some b" and new: "find_book sy e0 = None" by auto
  have bin: "book_in e sy b" by (rule exchange_invD(3) [OF assms(1) b])
  have fit: "\<forall>r \<in> set (a_snapshot (abs_book b)). fits_i64 (rq_price r)"
    using assms(4) b by (simp add: prices_fit_def)
  obtain b' where load: "\<forall>bs. load_book (book_bytes pad sy b @ bs) e0 =
      Some (Inr bs, e0\<lparr>ex_books := ex_books e0 @ [(sy, b')]\<rparr>)"
    and b': "abs_book b' = restored_book e0 sy b" "state_hash b' = state_hash b"
    using load_book_bytes [OF bin Cons.prems(1,2) new fit] by metis
  let ?e = "e0\<lparr>ex_books := ex_books e0 @ [(sy, b')]\<rparr>"
  have find: "find_book s ?e = (if s = sy then Some b' else find_book s e0)" for s
    using new by (auto simp: find_book_def map_add_def split: option.split)
  have re: "restored_book ?e = restored_book e0"
    by (simp add: restored_book_def a_fresh_def fun_eq_iff)
  have "\<forall>s \<in> set sys. find_book s e \<noteq> None \<and> find_book s ?e = None" "distinct sys"
    using Cons.prems(3,4) by (auto simp: find)
  from Cons.IH [OF _ _ this(2,1)] Cons.prems(1,2) obtain e1 where
    e1: "load_books (length sys) (concat (map (\<lambda>sy. book_bytes pad sy (the (find_book sy e))) sys)) ?e =
      Some (Inr (), e1)" "e1 = ?e\<lparr>ex_books := ex_books e1\<rparr>"
      "map fst (ex_books e1) = map fst (ex_books ?e) @ sys"
      "\<forall>s. s \<notin> set sys \<longrightarrow> find_book s e1 = find_book s ?e"
      "\<forall>s \<in> set sys. \<exists>b'. find_book s e1 = Some b' \<and>
       abs_book b' = restored_book ?e s (the (find_book s e)) \<and>
       state_hash b' = state_hash (the (find_book s e))"
    by auto
  have "e1 = e0\<lparr>ex_books := ex_books e1\<rparr>" by (subst e1(2)) simp
  moreover have "find_book sy e1 = Some b'" using e1(4) Cons.prems(3) by (simp add: find)
  ultimately show ?case
    using e1(1,3,4,5) load b b' re find by (intro exI [of _ e1]) auto
qed simp

lemma hash_symbols_eq:
  "(\<And>sy. sy \<in> set sys \<Longrightarrow>
      map_option state_hash (find_book sy e) = map_option state_hash (find_book sy e')) \<Longrightarrow>
   hash_symbols e sys h = hash_symbols e' sys h"
proof (induction sys arbitrary: h)
  case (Cons sy sys)
  have "map_option state_hash (find_book sy e) = map_option state_hash (find_book sy e')"
    using Cons.prems by simp
  with Cons show ?case
    by (cases "find_book sy e"; cases "find_book sy e'") (auto split: option.split)
qed simp

text \<open>C10: A snapshot of an exchange can always be taken, and loading it into any exchange with at
  least the capacity gives back every book: the same symbols, and under each the same queues and
  the same sequence number; the state hash of the exchange is that of the one saved. The policy
  and the handlers are those of the exchange that loads. The prices must fit their 64 bits.\<close>

theorem exchange_snapshot_roundtrip:
  assumes "reachable_exchange e" and "reachable_exchange e0" and "ex_capacity e \<le> ex_capacity e0"
    and "prices_fit e" and "length (ex_books e) < 2 ^ 32"
  shows "\<exists>bs e1. write_snapshot pad True True e = Some (Inr bs) \<and>
    load_snapshot (Some bs) e0 = Some (Inr (), e1) \<and>
    abs_exchange e1 = (\<lambda>sy. map_option (restored_book e0 sy) (find_book sy e)) \<and>
    symbols e1 = symbols e \<and> exchange_hash e1 = exchange_hash e"
proof -
  note inv = reachable_exchange_inv [OF assms(1)] and inv0 = reachable_exchange_inv [OF assms(2)]
  let ?sys = "symbols e" and ?e0 = "e0\<lparr>ex_books := []\<rparr>"
  have sys: "set ?sys = dom (\<lambda>sy. find_book sy e)" "distinct ?sys" "length ?sys = length (ex_books e)"
    using exchange_invD(2) [OF inv]
    by (auto simp: symbols_def find_book_def dom_map_of_conv_image_fst distinct_map)
  then have "\<forall>sy \<in> set ?sys. find_book sy e \<noteq> None" by auto
  note bytes = write_books_bytes [OF inv this, of pad]
  have "\<forall>sy \<in> set ?sys. find_book sy e \<noteq> None \<and> find_book sy ?e0 = None"
    using sys(1) by (auto simp: find_book_def)
  then obtain e1 where e1: "load_books (length ?sys)
      (concat (map (\<lambda>sy. book_bytes pad sy (the (find_book sy e))) ?sys)) ?e0 = Some (Inr (), e1)"
    "map fst (ex_books e1) = ?sys" "\<forall>sy. sy \<notin> set ?sys \<longrightarrow> find_book sy e1 = None"
    "\<forall>sy \<in> set ?sys. \<exists>b'. find_book sy e1 = Some b' \<and>
       abs_book b' = restored_book ?e0 sy (the (find_book sy e)) \<and>
       state_hash b' = state_hash (the (find_book sy e))"
    using load_books_bytes [OF inv, of ?e0 ?sys pad] assms(3,4) exchange_invD(1) [OF inv0] sys(2)
    by (auto simp: find_book_def)
  let ?h = "\<lparr>sh_magic = 0x4D4D5350, sh_version = 1, sh_reserved = 0, sh_symbol_count = of_nat (length ?sys)\<rparr>"
  have "unat (of_nat (length ?sys) :: u32) = length ?sys"
    using assms(5) sys(3) by (simp add: unat_of_nat take_bit_nat_eq_self)
  then have load: "load_snapshot (Some (snapshot_header_bytes ?h @
      concat (map (\<lambda>sy. book_bytes pad sy (the (find_book sy e))) ?sys))) e0 = Some (Inr (), e1)"
    using e1(1) by (simp add: load_snapshot_def Let_def)
  have book: "\<exists>c. find_book sy e1 = Some c \<and> abs_book c = restored_book e0 sy b \<and> state_hash c = state_hash b"
    if "find_book sy e = Some b" for sy b
  proof -
    from that sys(1) have "sy \<in> set ?sys" by auto
    with e1(4) that show ?thesis by (auto simp: restored_book_def a_fresh_def)
  qed
  have "abs_exchange e1 sy = map_option (restored_book e0 sy) (find_book sy e)" for sy
  proof (cases "find_book sy e")
    case None
    with e1(3) sys(1) show ?thesis by (auto simp: abs_exchange_def)
  next
    case (Some b)
    with book [OF Some] show ?thesis by (auto simp: abs_exchange_def)
  qed
  moreover have syms: "symbols e1 = ?sys"
    using e1(2) by (simp add: symbols_def sorted_sort_id)
  moreover have "exchange_hash e1 = exchange_hash e"
    unfolding exchange_hash_def syms
  proof (rule hash_symbols_eq)
    fix sy assume "sy \<in> set ?sys"
    then obtain b where "find_book sy e = Some b" using sys(1) by auto
    with book [OF this] show "map_option state_hash (find_book sy e1) = map_option state_hash (find_book sy e)"
      by auto
  qed
  moreover have "write_snapshot pad True True e = Some (Inr (snapshot_header_bytes ?h @
      concat (map (\<lambda>sy. book_bytes pad sy (the (find_book sy e))) ?sys)))"
    by (simp add: write_snapshot_def bytes Let_def)
  ultimately show ?thesis using load by blast
qed

definition sell_order :: order_request where
  "sell_order = request 1 7 Sell Limit 101 5"

lemma sell_book:
  "a_snapshot (snd (a_submit sell_order (a_fresh (new_exchange 8) 1))) = [sell_order]"
  unfolding sell_order_def by code_simp

lemma exchange_snapshot_roundtrip_witness:
  "\<forall>pad. \<exists>e. reachable_exchange e \<and> find_book 1 e \<noteq> None \<and>
    (\<exists>bs e1. write_snapshot pad True True e = Some (Inr bs) \<and>
      load_snapshot (Some bs) (new_exchange 16) = Some (Inr (), e1) \<and> exchange_hash e1 = exchange_hash e)"
proof
  fix pad
  let ?e0 = "new_exchange 8" and ?r = sell_order
  have re: "reachable_exchange ?e0" "reachable_exchange (new_exchange 16)"
    by (rule reachable_exchange.new, simp)+
  have A: "a_book_for ?e0 1 = a_fresh ?e0 1"
    by (simp add: a_book_for_def abs_exchange_def find_book_def new_exchange_def)
  obtain e where e: "with_book 1 (submit ?r) ?e0 = Some (Inr (fst (a_submit ?r (a_fresh ?e0 1))), e)"
    and inv: "exchange_inv e"
    and abs: "abs_exchange e = (abs_exchange ?e0)(1 \<mapsto> snd (a_submit ?r (a_fresh ?e0 1)))"
    and cap: "ex_capacity e = 8"
  proof (rule submitting.with_book_refines [OF reachable_exchange_inv [OF re(1)], of 1 ?r, unfolded A])
    fix e assume "with_book 1 (submit ?r) ?e0 = Some (Inr (fst (a_submit ?r (a_fresh ?e0 1))), e)"
      "exchange_inv e" "abs_exchange e = (abs_exchange ?e0)(1 \<mapsto> snd (a_submit ?r (a_fresh ?e0 1)))"
      "e = ?e0\<lparr>ex_books := ex_books e, ex_out := ex_out ?e0 @ filter (handled ?e0)
        (drop (length (ab_out (a_fresh ?e0 1))) (ab_out (snd (a_submit ?r (a_fresh ?e0 1)))))\<rparr>"
    moreover from this(4) have "ex_capacity e = 8" by (rule ssubst) (simp add: new_exchange_def)
    ultimately show thesis by (intro that)
  qed
  have "submit_order ?r ?e0 = with_book 1 (submit ?r) ?e0"
    by (simp add: submit_order_def new_exchange_def sell_order_def request_def)
  with e have "submit_order ?r ?e0 = Some (Inr (fst (a_submit ?r (a_fresh ?e0 1))), e)" by simp
  then have reach: "reachable_exchange e"
    by (rule reachable_exchange.step [OF re(1) exchange_step.intros(1)])
  have find: "find_book s e = None" if "s \<noteq> 1" for s
    using fun_cong [OF abs, of s] that by (simp add: abs_exchange_def find_book_def new_exchange_def)
  obtain b where b: "find_book 1 e = Some b" "abs_book b = snd (a_submit ?r (a_fresh ?e0 1))"
    using fun_cong [OF abs, of 1] by (auto simp: abs_exchange_def)
  have "prices_fit e"
    unfolding prices_fit_def
  proof (intro allI impI)
    fix sy c assume c: "find_book sy e = Some c"
    then have "sy = 1" using find [of sy] by (cases "sy = 1") simp_all
    with b c have "a_snapshot (abs_book c) = [sell_order]" by (simp add: sell_book)
    then show "\<forall>r \<in> set (a_snapshot (abs_book c)). fits_i64 (rq_price r)"
      by (simp add: sell_order_def request_def fits_i64_def)
  qed
  moreover have "fst ` set (ex_books e) \<subseteq> {1}"
    using find by (force simp: find_book_def map_of_eq_None_iff)
  then have "length (ex_books e) \<le> 1"
    using distinct_card [OF exchange_invD(2) [OF inv]] card_mono [of "{1}" "fst ` set (ex_books e)"]
    by simp
  ultimately have "\<exists>bs e1. write_snapshot pad True True e = Some (Inr bs) \<and>
    load_snapshot (Some bs) (new_exchange 16) = Some (Inr (), e1) \<and>
    abs_exchange e1 = (\<lambda>sy. map_option (restored_book (new_exchange 16) sy) (find_book sy e)) \<and>
    symbols e1 = symbols e \<and> exchange_hash e1 = exchange_hash e"
    using cap by (intro exchange_snapshot_roundtrip reach re(2)) (simp_all add: new_exchange_def)
  with reach b(1) show "\<exists>e. reachable_exchange e \<and> find_book 1 e \<noteq> None \<and>
      (\<exists>bs e1. write_snapshot pad True True e = Some (Inr bs) \<and>
        load_snapshot (Some bs) (new_exchange 16) = Some (Inr (), e1) \<and>
        exchange_hash e1 = exchange_hash e)" by blast
qed

text \<open>Loading is not atomic: the books are dropped before the file is known to be good. A file
  with a valid header and nothing behind it makes the load fail, and the exchange has lost every
  book it had.\<close>

theorem failed_load_drops_books:
  "load_snapshot (Some (snapshot_header_bytes \<lparr>sh_magic = 0x4D4D5350, sh_version = 1,
      sh_reserved = 0, sh_symbol_count = 1\<rparr>)) e =
    Some (Inl InvalidSnapshotBook, e\<lparr>ex_books := []\<rparr>)"
proof -
  have "take_bytes 12 (snapshot_header_bytes h) = Some (snapshot_header_bytes h, [])" for h
    by (simp add: take_bytes_def)
  moreover have "load_books (unat (1 :: u32)) [] c = Some (Inl InvalidSnapshotBook, c)" for c
    by (simp add: load_book_def take_bytes_def)
  ultimately show ?thesis by (simp add: load_snapshot_def Let_def)
qed

end
