(* ===== verification/Event_Log.thy ===== *)
theory Event_Log
  imports Bytes
begin

text \<open>
  The log of input events, include/minimatch/event_log.hpp and src/event_log.cpp. A file is the
  bytes it holds; the writer appends a packed header and the object representation of the
  request, the reader checks both.

  A stream that has failed stays failed: the writer's flag \<open>lw_bad\<close> is raised by the file
  system, and a read that finds too few bytes leaves the reader at the end of its input.
\<close>

datatype event_kind = KindSubmit | KindCancel | KindReplace

fun event_kind_code :: "event_kind \<Rightarrow> u8" where
  "event_kind_code KindSubmit = 1"
| "event_kind_code KindCancel = 2"
| "event_kind_code KindReplace = 3"

datatype input_event =
  SubmitEvent order_request | CancelEvent cancel_request | ReplaceEvent replace_request

record log_header =
  lh_magic :: u32
  lh_version :: u16
  lh_kind :: u8
  lh_reserved :: u8
  lh_payload_size :: u32
  lh_event_sequence :: u64
  lh_checksum :: u64

definition default_log_header :: log_header where
  "default_log_header =
     \<lparr>lh_magic = 0x4D4D4C47, lh_version = 2, lh_kind = 0, lh_reserved = 0, lh_payload_size = 0,
      lh_event_sequence = 0, lh_checksum = 0\<rparr>"

definition log_header_bytes :: "log_header \<Rightarrow> u8 list" where
  "log_header_bytes h =
     put32 (lh_magic h) @ put16 (lh_version h) @ put8 (lh_kind h) @ put8 (lh_reserved h) @
     put32 (lh_payload_size h) @ put64 (lh_event_sequence h) @ put64 (lh_checksum h)"

definition read_log_header :: "u8 list \<Rightarrow> log_header" where
  "read_log_header bs =
     \<lparr>lh_magic = of_nat (field_at 0 4 bs), lh_version = of_nat (field_at 4 2 bs),
      lh_kind = of_nat (field_at 6 1 bs), lh_reserved = of_nat (field_at 7 1 bs),
      lh_payload_size = of_nat (field_at 8 4 bs), lh_event_sequence = of_nat (field_at 12 8 bs),
      lh_checksum = of_nat (field_at 20 8 bs)\<rparr>"

section \<open>The events\<close>

fun event_kind_of :: "input_event \<Rightarrow> event_kind" where
  "event_kind_of (SubmitEvent r) = KindSubmit"
| "event_kind_of (CancelEvent r) = KindCancel"
| "event_kind_of (ReplaceEvent r) = KindReplace"

fun event_memory :: "padding \<Rightarrow> input_event \<Rightarrow> u8 list" where
  "event_memory p (SubmitEvent r) = order_memory p r"
| "event_memory p (CancelEvent r) = cancel_memory r"
| "event_memory p (ReplaceEvent r) = replace_memory p r"

section \<open>The writer\<close>

record log_writer =
  lw_file :: "u8 list"
  lw_bad :: bool
  lw_sequence :: u64

datatype log_error =
    CannotOpenEventLog | EventLogWriteFailed | BadLogHeader | LogChecksumMismatch | UnknownLogEvent

text \<open>\<open>open_writer\<close> gets the file as the file system has it, or None when it cannot be opened.
  The file is opened for appending: what it holds stays, and the sequence starts at 0.\<close>

definition open_writer :: "u8 list option \<Rightarrow> log_error + log_writer" where
  "open_writer path =
     (case path of
        None \<Rightarrow> Inl CannotOpenEventLog
      | Some content \<Rightarrow> Inr \<lparr>lw_file = content, lw_bad = False, lw_sequence = 0\<rparr>)"

definition event_header :: "u64 \<Rightarrow> event_kind \<Rightarrow> u8 list \<Rightarrow> log_header" where
  "event_header seq kind value =
     default_log_header\<lparr>lh_kind := event_kind_code kind, lh_payload_size := of_nat (length value),
       lh_event_sequence := seq, lh_checksum := checksum value\<rparr>"

definition write_event :: "event_kind \<Rightarrow> u8 list \<Rightarrow> log_writer \<Rightarrow> (log_error + unit) \<times> log_writer" where
  "write_event kind value w =
     (let w = w\<lparr>lw_sequence := lw_sequence w + 1\<rparr>;
          header = event_header (lw_sequence w) kind value in
      if lw_bad w then (Inl EventLogWriteFailed, w)
      else (Inr (), w\<lparr>lw_file := lw_file w @ log_header_bytes header @ value\<rparr>))"

definition append_event :: "padding \<Rightarrow> input_event \<Rightarrow> log_writer \<Rightarrow> (log_error + unit) \<times> log_writer" where
  "append_event p e w = write_event (event_kind_of e) (event_memory p e) w"

section \<open>The reader\<close>

record log_reader =
  lr_rest :: "u8 list"
  lr_last_sequence :: u64

definition open_reader :: "u8 list option \<Rightarrow> log_error + log_reader" where
  "open_reader path =
     (case path of
        None \<Rightarrow> Inl CannotOpenEventLog
      | Some content \<Rightarrow> Inr \<lparr>lr_rest = content, lr_last_sequence = 0\<rparr>)"

text \<open>\<open>in_.read(\<dots>, n)\<close>: a read past the end fails, and so does every read after it.\<close>

definition read_bytes :: "nat \<Rightarrow> log_reader \<Rightarrow> u8 list option \<times> log_reader" where
  "read_bytes n r =
     (if n \<le> length (lr_rest r)
      then (Some (take n (lr_rest r)), r\<lparr>lr_rest := drop n (lr_rest r)\<rparr>)
      else (None, r\<lparr>lr_rest := []\<rparr>))"

definition read_checked :: "nat \<Rightarrow> log_header \<Rightarrow> log_reader \<Rightarrow> (log_error + u8 list) \<times> log_reader" where
  "read_checked n header r =
     (case read_bytes n r of
        (None, r) \<Rightarrow> (Inl LogChecksumMismatch, r)
      | (Some value, r) \<Rightarrow>
          if checksum value \<noteq> lh_checksum header then (Inl LogChecksumMismatch, r)
          else (Inr value, r))"

text \<open>
  The result of \<open>next\<close>: an error, or the event, or no more events. The outer option is None
  when the enumerations of an order request hold bytes that are no enumerators.
\<close>

type_synonym next_result = "((log_error + input_event option) \<times> log_reader) option"

definition next_event :: "log_reader \<Rightarrow> next_result" where
  "next_event r =
     (case read_bytes 28 r of
        (None, r) \<Rightarrow> Some (Inr None, r)
      | (Some bs, r) \<Rightarrow>
          let header = read_log_header bs in
          if lh_magic header \<noteq> 0x4D4D4C47 \<or> lh_version header \<noteq> 2 \<or>
             lh_event_sequence header \<noteq> lr_last_sequence r + 1
          then Some (Inl BadLogHeader, r)
          else
            let r = r\<lparr>lr_last_sequence := lh_event_sequence header\<rparr> in
            if lh_kind header = event_kind_code KindSubmit \<and> lh_payload_size header = 32 then
              (case read_checked 32 header r of
                 (Inl e, r) \<Rightarrow> Some (Inl e, r)
               | (Inr value, r) \<Rightarrow>
                   (case order_of_memory value of
                      None \<Rightarrow> None | Some q \<Rightarrow> Some (Inr (Some (SubmitEvent q)), r)))
            else if lh_kind header = event_kind_code KindCancel \<and> lh_payload_size header = 16 then
              (case read_checked 16 header r of
                 (Inl e, r) \<Rightarrow> Some (Inl e, r)
               | (Inr value, r) \<Rightarrow> Some (Inr (Some (CancelEvent (cancel_of_memory value))), r))
            else if lh_kind header = event_kind_code KindReplace \<and> lh_payload_size header = 32 then
              (case read_checked 32 header r of
                 (Inl e, r) \<Rightarrow> Some (Inl e, r)
               | (Inr value, r) \<Rightarrow> Some (Inr (Some (ReplaceEvent (replace_of_memory value))), r))
            else Some (Inl UnknownLogEvent, r))"

text \<open>What the loop of apps/replay.cpp collects: the events, and the exception that ended it.\<close>

lemma read_bytes_length: "read_bytes n r = (v, r') \<Longrightarrow> length (lr_rest r') \<le> length (lr_rest r)"
  by (auto simp: read_bytes_def split: if_splits)

lemma read_bytes_shorter: "read_bytes n r = (Some v, r') \<Longrightarrow> 0 < n \<Longrightarrow> length (lr_rest r') < length (lr_rest r)"
  by (auto simp: read_bytes_def split: if_splits)

lemma read_checked_length: "read_checked n h r = (v, r') \<Longrightarrow> length (lr_rest r') \<le> length (lr_rest r)"
  by (auto simp: read_checked_def dest: read_bytes_length split: prod.splits option.splits if_splits)

lemma next_event_shorter:
  assumes "next_event r = Some (Inr (Some e), r')"
  shows "length (lr_rest r') < length (lr_rest r)"
proof -
  obtain v r1 where r1: "read_bytes 28 r = (v, r1)" by (cases "read_bytes 28 r")
  with assms obtain bs where v: "v = Some bs" by (cases v) (auto simp: next_event_def)
  have lt: "length (lr_rest r1) < length (lr_rest r)"
    using read_bytes_shorter r1 v by simp
  have "length (lr_rest r') \<le> length (lr_rest r1)"
    using assms
    by (auto simp: next_event_def r1 v Let_def dest: read_checked_length
        split: if_splits prod.splits sum.splits option.splits)
  with lt show ?thesis by simp
qed

function read_log :: "log_reader \<Rightarrow> (input_event list \<times> log_error option \<times> log_reader) option" where
  "read_log r =
     (case next_event r of
        None \<Rightarrow> None
      | Some (Inl e, r') \<Rightarrow> Some ([], Some e, r')
      | Some (Inr None, r') \<Rightarrow> Some ([], None, r')
      | Some (Inr (Some ev), r') \<Rightarrow>
          (case read_log r' of
             None \<Rightarrow> None
           | Some (evs, e, r'') \<Rightarrow> Some (ev # evs, e, r'')))"
  by pat_completeness auto

termination
  by (relation "measure (length \<circ> lr_rest)") (auto dest: next_event_shorter)

declare read_log.simps [simp del]

section \<open>Records\<close>

definition event_fits :: "input_event \<Rightarrow> bool" where
  "event_fits e \<longleftrightarrow>
     (case e of SubmitEvent r \<Rightarrow> fits_i64 (rq_price r) | CancelEvent r \<Rightarrow> True
      | ReplaceEvent r \<Rightarrow> fits_i64 (rp_new_price r))"

lemma event_memory_length:
  "length (event_memory p e) = (case event_kind_of e of KindCancel \<Rightarrow> 16 | _ \<Rightarrow> 32)"
  by (cases e) (simp_all add: order_memory_def cancel_memory_def replace_memory_def split: prod.split)

lemma log_header_length [simp]: "length (log_header_bytes h) = 28"
  by (simp add: log_header_bytes_def)

lemma read_log_header_bytes [simp]: "read_log_header (log_header_bytes h) = h"
  by (simp add: read_log_header_def log_header_bytes_def field_at_simps)

definition log_record :: "u64 \<Rightarrow> padding \<Rightarrow> input_event \<Rightarrow> u8 list" where
  "log_record seq p e =
     log_header_bytes (event_header seq (event_kind_of e) (event_memory p e)) @ event_memory p e"

fun log_bytes :: "u64 \<Rightarrow> (padding \<times> input_event) list \<Rightarrow> u8 list" where
  "log_bytes seq [] = []"
| "log_bytes seq ((p, e) # es) = log_record (seq + 1) p e @ log_bytes (seq + 1) es"

lemma event_header_simps [simp]:
  "lh_magic (event_header s k v) = 0x4D4D4C47" "lh_version (event_header s k v) = 2"
  "lh_kind (event_header s k v) = event_kind_code k" "lh_event_sequence (event_header s k v) = s"
  "lh_payload_size (event_header s k v) = of_nat (length v)"
  "lh_checksum (event_header s k v) = checksum v"
  by (simp_all add: event_header_def default_log_header_def)

lemma event_kind_code_eq [simp]: "event_kind_code j = event_kind_code k \<longleftrightarrow> j = k"
  by (cases j; cases k) simp_all

text \<open>One call of \<open>next\<close> on a header and a payload of the right size.\<close>

lemma next_record:
  assumes "length v = length (event_memory p e)"
  shows "next_event \<lparr>lr_rest = log_header_bytes (event_header (s + 1) (event_kind_of e) (event_memory p e)) @ v @ bs,
      lr_last_sequence = s\<rparr> =
    (let r = \<lparr>lr_rest = bs, lr_last_sequence = s + 1\<rparr> in
     if checksum v \<noteq> checksum (event_memory p e) then Some (Inl LogChecksumMismatch, r)
     else (case event_kind_of e of
         KindSubmit \<Rightarrow> (case order_of_memory v of None \<Rightarrow> None | Some q \<Rightarrow> Some (Inr (Some (SubmitEvent q)), r))
       | KindCancel \<Rightarrow> Some (Inr (Some (CancelEvent (cancel_of_memory v))), r)
       | KindReplace \<Rightarrow> Some (Inr (Some (ReplaceEvent (replace_of_memory v))), r)))"
  using assms event_memory_length [of p e]
  by (cases "event_kind_of e")
    (simp_all add: next_event_def read_bytes_def read_checked_def Let_def)

lemma next_log_record:
  assumes "event_fits e"
  shows "next_event \<lparr>lr_rest = log_record (s + 1) p e @ bs, lr_last_sequence = s\<rparr> =
    Some (Inr (Some e), \<lparr>lr_rest = bs, lr_last_sequence = s + 1\<rparr>)"
  using assms next_record [of "event_memory p e" p e s bs]
  by (cases e) (simp_all add: log_record_def event_fits_def memory_roundtrip)

lemma read_log_records:
  assumes "\<forall>(p, e) \<in> set es. event_fits e"
  shows "read_log \<lparr>lr_rest = log_bytes s es @ bs, lr_last_sequence = s\<rparr> =
    map_option (\<lambda>(evs, x, r). (map snd es @ evs, x, r))
      (read_log \<lparr>lr_rest = bs, lr_last_sequence = s + of_nat (length es)\<rparr>)"
  using assms
proof (induction s es rule: log_bytes.induct)
  case (1 s)
  show ?case by (auto simp: case_prod_unfold option.map_ident)
next
  case (2 s p e es)
  then have fit: "event_fits e" by simp
  have "read_log \<lparr>lr_rest = log_bytes s ((p, e) # es) @ bs, lr_last_sequence = s\<rparr> =
    (case read_log \<lparr>lr_rest = log_bytes (s + 1) es @ bs, lr_last_sequence = s + 1\<rparr> of
       None \<Rightarrow> None | Some (evs, x, r) \<Rightarrow> Some (e # evs, x, r))"
    by (subst read_log.simps) (simp add: next_log_record [OF fit])
  also have "\<dots> = map_option (\<lambda>(evs, x, r). (map snd ((p, e) # es) @ evs, x, r))
      (read_log \<lparr>lr_rest = bs, lr_last_sequence = s + of_nat (length ((p, e) # es))\<rparr>)"
    using 2 by (simp add: add.assoc split: option.split prod.split)
  finally show ?case .
qed

fun append_events :: "(padding \<times> input_event) list \<Rightarrow> log_writer \<Rightarrow> log_writer" where
  "append_events [] w = w"
| "append_events ((p, e) # es) w = append_events es (snd (append_event p e w))"

lemma append_event_good:
  "\<not> lw_bad w \<Longrightarrow> append_event p e w =
     (Inr (), w\<lparr>lw_sequence := lw_sequence w + 1, lw_file := lw_file w @ log_record (lw_sequence w + 1) p e\<rparr>)"
  by (simp add: append_event_def write_event_def log_record_def Let_def)

lemma append_events_bytes:
  "\<not> lw_bad w \<Longrightarrow> append_events es w =
     w\<lparr>lw_sequence := lw_sequence w + of_nat (length es), lw_file := lw_file w @ log_bytes (lw_sequence w) es\<rparr>"
proof (induction es arbitrary: w)
  case (Cons x es)
  obtain p e where x: "x = (p, e)" by (cases x)
  with Cons show ?case by (simp add: append_event_good add.assoc)
qed simp

lemma read_log_end: "read_log \<lparr>lr_rest = [], lr_last_sequence = s\<rparr> = Some ([], None, \<lparr>lr_rest = [], lr_last_sequence = s\<rparr>)"
  by (subst read_log.simps) (simp add: next_event_def read_bytes_def)

section \<open>Properties\<close>

definition sample_events :: "(padding \<times> input_event) list" where
  "sample_events =
     (let p = \<lparr>pad_order = (3, 4), pad_replace = (1, 2, 3, 4)\<rparr> in
      [(p, SubmitEvent \<lparr>rq_order_id = 7, rq_client_id = 9, rq_side = Sell, rq_type = IOC,
          rq_price = - 5, rq_quantity = 100, rq_symbol = 3\<rparr>),
       (p, CancelEvent \<lparr>cx_order_id = 7, cx_client_id = 9, cx_symbol = 3\<rparr>)])"

lemma sample_fits: "\<forall>(p, e) \<in> set sample_events. event_fits e"
  by (simp add: sample_events_def event_fits_def fits_i64_def Let_def)

text \<open>The log replays what was written: a reader of a file that a new log wrote returns the
  very events in order and then the end of the log, with the sequence number of the last one,
  whatever the padding bytes of the requests held.\<close>

theorem log_roundtrip:
  assumes "\<forall>(p, e) \<in> set es. event_fits e"
    and "open_writer (Some []) = Inr w" and "open_reader (Some (lw_file (append_events es w))) = Inr r"
  shows "\<exists>r'. read_log r = Some (map snd es, None, r') \<and> lr_last_sequence r' = of_nat (length es)"
proof -
  have "lw_file (append_events es w) = log_bytes 0 es"
    using assms(2) by (auto simp: open_writer_def append_events_bytes)
  with assms(3) have "r = \<lparr>lr_rest = log_bytes 0 es @ [], lr_last_sequence = 0\<rparr>"
    by (auto simp: open_reader_def)
  then show ?thesis
    by (simp only: read_log_records [OF assms(1)] read_log_end) simp
qed

lemma log_roundtrip_witness:
  "\<exists>r'. read_log \<lparr>lr_rest = lw_file (append_events sample_events
            \<lparr>lw_file = [], lw_bad = False, lw_sequence = 0\<rparr>), lr_last_sequence = 0\<rparr> =
      Some (map snd sample_events, None, r') \<and> lr_last_sequence r' = of_nat (length sample_events)"
  by (rule log_roundtrip [OF sample_fits]) (simp_all add: open_writer_def open_reader_def)

text \<open>C37: A damaged payload never passes: when one byte of the payload of a logged event is
  changed, the reader returns the events before it and then fails with a checksum mismatch.\<close>

theorem corruption_detected:
  assumes "\<forall>(q, f) \<in> set es. event_fits f"
    and "event_memory p e = xs @ a # ys" and "b \<noteq> a"
    and "log = log_bytes 0 es @
      log_header_bytes (event_header (of_nat (length es) + 1) (event_kind_of e) (event_memory p e)) @
      xs @ b # ys @ bs"
  shows "\<exists>r'. read_log \<lparr>lr_rest = log, lr_last_sequence = 0\<rparr> =
    Some (map snd es, Some LogChecksumMismatch, r')"
proof -
  let ?bad = "log_header_bytes (event_header (of_nat (length es) + 1) (event_kind_of e) (event_memory p e)) @
      (xs @ b # ys) @ bs"
  have "checksum (xs @ b # ys) \<noteq> checksum (event_memory p e)"
    using assms(2,3) by (simp add: checksum_one_byte)
  then have "next_event \<lparr>lr_rest = ?bad, lr_last_sequence = of_nat (length es)\<rparr> =
      Some (Inl LogChecksumMismatch, \<lparr>lr_rest = bs, lr_last_sequence = of_nat (length es) + 1\<rparr>)"
    by (subst next_record) (simp_all add: assms(2))
  then have bad: "read_log \<lparr>lr_rest = ?bad, lr_last_sequence = of_nat (length es)\<rparr> =
      Some ([], Some LogChecksumMismatch, \<lparr>lr_rest = bs, lr_last_sequence = of_nat (length es) + 1\<rparr>)"
    by (subst read_log.simps) simp
  have "log = log_bytes 0 es @ ?bad" by (simp add: assms(4))
  then show ?thesis
    by (simp only: read_log_records [OF assms(1)] add_0 bad) simp
qed

lemma zero_bytes: "le_bytes n 0 = replicate n 0"
  by (induction n) simp_all

lemma zero_cancel:
  "event_memory p (CancelEvent \<lparr>cx_order_id = 0, cx_client_id = 0, cx_symbol = 0\<rparr>) =
     [] @ 0 # replicate 15 0"
  by (simp add: cancel_memory_def put32_def put64_def zero_bytes replicate_add [symmetric]
      flip: replicate_Suc)

lemma corruption_detected_witness:
  "\<exists>r'. read_log \<lparr>lr_rest = log_bytes 0 sample_events @
      log_header_bytes (event_header (of_nat (length sample_events) + 1) KindCancel
        (0 # replicate 15 0)) @
      [] @ 1 # replicate 15 0 @ [], lr_last_sequence = 0\<rparr> =
    Some (map snd sample_events, Some LogChecksumMismatch, r')"
  by (rule corruption_detected [OF sample_fits, where a = 0 and
        e = "CancelEvent \<lparr>cx_order_id = 0, cx_client_id = 0, cx_symbol = 0\<rparr>"])
    (simp_all only: zero_cancel, simp_all)

text \<open>A log does not survive a restart of its writer: when a log that holds events is opened
  for writing again and more events are appended, a reader returns the events of the first
  writer and then fails with a bad header, since the new writer numbers its events from 1.\<close>

theorem reopened_log_unreadable:
  assumes "\<forall>(p, e) \<in> set es. event_fits e" and "es \<noteq> []" and "length es < 2 ^ 64"
    and "open_writer (Some (log_bytes 0 es)) = Inr w" and "ds \<noteq> []"
  shows "\<exists>r'. read_log \<lparr>lr_rest = lw_file (append_events ds w), lr_last_sequence = 0\<rparr> =
    Some (map snd es, Some BadLogHeader, r')"
proof -
  obtain p e ds' where ds: "ds = (p, e) # ds'" using assms(5) by (cases ds) auto
  let ?s = "of_nat (length es) :: u64" and ?new = "log_record 1 p e @ log_bytes 1 ds'"
  have "unat ?s = length es" using assms(3) by (simp add: unat_of_nat take_bit_nat_eq_self)
  with assms(2) have s: "?s \<noteq> 0" by (metis length_0_conv unat_0)
  have "next_event \<lparr>lr_rest = ?new, lr_last_sequence = ?s\<rparr> =
      Some (Inl BadLogHeader, \<lparr>lr_rest = event_memory p e @ log_bytes 1 ds', lr_last_sequence = ?s\<rparr>)"
    using s by (simp add: next_event_def log_record_def read_bytes_def Let_def)
  then have bad: "read_log \<lparr>lr_rest = ?new, lr_last_sequence = ?s\<rparr> =
      Some ([], Some BadLogHeader, \<lparr>lr_rest = event_memory p e @ log_bytes 1 ds', lr_last_sequence = ?s\<rparr>)"
    by (subst read_log.simps) simp
  have "lw_file (append_events ds w) = log_bytes 0 es @ ?new"
    using assms(4) append_events_bytes [of w ds] by (auto simp: open_writer_def ds)
  then show ?thesis
    by (simp only: read_log_records [OF assms(1)] add_0 bad) simp
qed

lemma reopened_log_unreadable_witness:
  "\<exists>r'. read_log \<lparr>lr_rest = lw_file (append_events sample_events
        \<lparr>lw_file = log_bytes 0 sample_events, lw_bad = False, lw_sequence = 0\<rparr>),
        lr_last_sequence = 0\<rparr> =
    Some (map snd sample_events, Some BadLogHeader, r')"
  by (rule reopened_log_unreadable [OF sample_fits])
    (simp_all add: open_writer_def sample_events_def Let_def)

end
