(* ===== verification/Protocol.thy ===== *)
theory Protocol
  imports Bytes
begin

text \<open>
  The binary order protocol, include/minimatch/protocol.hpp and src/protocol.cpp: packed
  structs, a header before each, and the conversions between them and the requests.
\<close>

datatype message_type = MsgNewOrder | MsgCancel | MsgReplace

fun message_type_code :: "message_type \<Rightarrow> u8" where
  "message_type_code MsgNewOrder = 1"
| "message_type_code MsgCancel = 2"
| "message_type_code MsgReplace = 3"

text \<open>The type of a received header is a byte: nothing has tested it yet.\<close>

record wire_header =
  wh_magic :: u32
  wh_version :: u16
  wh_type :: u8
  wh_reserved :: u8
  wh_length :: u32

definition default_wire_header :: wire_header where
  "default_wire_header =
     \<lparr>wh_magic = 0x4D4D4154, wh_version = 2, wh_type = 0, wh_reserved = 0, wh_length = 0\<rparr>"

record wire_order =
  wo_order_id :: u64
  wo_client_id :: u32
  wo_symbol :: u32
  wo_side :: u8
  wo_type :: u8
  wo_price :: int
  wo_quantity :: u32

record wire_cancel =
  wc_order_id :: u64
  wc_client_id :: u32
  wc_symbol :: u32

record wire_replace =
  wr_order_id :: u64
  wr_client_id :: u32
  wr_symbol :: u32
  wr_new_price :: int
  wr_new_quantity :: u32

section \<open>The structs in memory\<close>

definition header_bytes :: "wire_header \<Rightarrow> u8 list" where
  "header_bytes h =
     put32 (wh_magic h) @ put16 (wh_version h) @ put8 (wh_type h) @ put8 (wh_reserved h) @
     put32 (wh_length h)"

definition wire_order_bytes :: "wire_order \<Rightarrow> u8 list" where
  "wire_order_bytes w =
     put64 (wo_order_id w) @ put32 (wo_client_id w) @ put32 (wo_symbol w) @ put8 (wo_side w) @
     put8 (wo_type w) @ put_i64 (wo_price w) @ put32 (wo_quantity w)"

definition wire_cancel_bytes :: "wire_cancel \<Rightarrow> u8 list" where
  "wire_cancel_bytes w = put64 (wc_order_id w) @ put32 (wc_client_id w) @ put32 (wc_symbol w)"

definition wire_replace_bytes :: "wire_replace \<Rightarrow> u8 list" where
  "wire_replace_bytes w =
     put64 (wr_order_id w) @ put32 (wr_client_id w) @ put32 (wr_symbol w) @
     put_i64 (wr_new_price w) @ put32 (wr_new_quantity w)"

definition read_header :: "u8 list \<Rightarrow> wire_header" where
  "read_header bs =
     \<lparr>wh_magic = of_nat (field_at 0 4 bs), wh_version = of_nat (field_at 4 2 bs),
      wh_type = of_nat (field_at 6 1 bs), wh_reserved = of_nat (field_at 7 1 bs),
      wh_length = of_nat (field_at 8 4 bs)\<rparr>"

definition read_wire_order :: "u8 list \<Rightarrow> wire_order" where
  "read_wire_order bs =
     \<lparr>wo_order_id = of_nat (field_at 0 8 bs), wo_client_id = of_nat (field_at 8 4 bs),
      wo_symbol = of_nat (field_at 12 4 bs), wo_side = of_nat (field_at 16 1 bs),
      wo_type = of_nat (field_at 17 1 bs), wo_price = get_i64 (field_at 18 8 bs),
      wo_quantity = of_nat (field_at 26 4 bs)\<rparr>"

definition read_wire_cancel :: "u8 list \<Rightarrow> wire_cancel" where
  "read_wire_cancel bs =
     \<lparr>wc_order_id = of_nat (field_at 0 8 bs), wc_client_id = of_nat (field_at 8 4 bs),
      wc_symbol = of_nat (field_at 12 4 bs)\<rparr>"

definition read_wire_replace :: "u8 list \<Rightarrow> wire_replace" where
  "read_wire_replace bs =
     \<lparr>wr_order_id = of_nat (field_at 0 8 bs), wr_client_id = of_nat (field_at 8 4 bs),
      wr_symbol = of_nat (field_at 12 4 bs), wr_new_price = get_i64 (field_at 16 8 bs),
      wr_new_quantity = of_nat (field_at 24 4 bs)\<rparr>"

section \<open>Operations\<close>

definition encode_payload :: "message_type \<Rightarrow> u8 list \<Rightarrow> u8 list" where
  "encode_payload ty payload =
     header_bytes (default_wire_header
       \<lparr>wh_type := message_type_code ty, wh_length := of_nat (length payload)\<rparr>) @ payload"

definition encode_order :: "order_request \<Rightarrow> u8 list" where
  "encode_order r =
     encode_payload MsgNewOrder (wire_order_bytes
       \<lparr>wo_order_id = rq_order_id r, wo_client_id = rq_client_id r, wo_symbol = rq_symbol r,
        wo_side = side_code (rq_side r), wo_type = order_type_code (rq_type r),
        wo_price = rq_price r, wo_quantity = rq_quantity r\<rparr>)"

definition encode_cancel :: "cancel_request \<Rightarrow> u8 list" where
  "encode_cancel r =
     encode_payload MsgCancel (wire_cancel_bytes
       \<lparr>wc_order_id = cx_order_id r, wc_client_id = cx_client_id r, wc_symbol = cx_symbol r\<rparr>)"

definition encode_replace :: "replace_request \<Rightarrow> u8 list" where
  "encode_replace r =
     encode_payload MsgReplace (wire_replace_bytes
       \<lparr>wr_order_id = rp_order_id r, wr_client_id = rp_client_id r, wr_symbol = rp_symbol r,
        wr_new_price = rp_new_price r, wr_new_quantity = rp_new_quantity r\<rparr>)"

definition decode_order :: "wire_order \<Rightarrow> order_request option" where
  "decode_order w =
     (case (side_of_code (unat (wo_side w)), order_type_of_code (unat (wo_type w))) of
        (Some sd, Some ty) \<Rightarrow>
          Some \<lparr>rq_order_id = wo_order_id w, rq_client_id = wo_client_id w, rq_side = sd,
                rq_type = ty, rq_price = wo_price w, rq_quantity = wo_quantity w,
                rq_symbol = wo_symbol w\<rparr>
      | _ \<Rightarrow> None)"

definition decode_cancel :: "wire_cancel \<Rightarrow> cancel_request" where
  "decode_cancel w =
     \<lparr>cx_order_id = wc_order_id w, cx_client_id = wc_client_id w, cx_symbol = wc_symbol w\<rparr>"

definition decode_replace :: "wire_replace \<Rightarrow> replace_request" where
  "decode_replace w =
     \<lparr>rp_order_id = wr_order_id w, rp_client_id = wr_client_id w, rp_new_price = wr_new_price w,
      rp_new_quantity = wr_new_quantity w, rp_symbol = wr_symbol w\<rparr>"

section \<open>Round trips\<close>

lemma read_header_bytes [simp]: "read_header (header_bytes h @ bs) = h"
  by (simp add: read_header_def header_bytes_def field_at_simps)

lemma header_length [simp]: "length (header_bytes h) = 12"
  by (simp add: header_bytes_def)

lemma payload_lengths [simp]:
  "length (wire_order_bytes w) = 30" "length (wire_cancel_bytes c) = 16"
  "length (wire_replace_bytes r) = 28"
  by (simp_all add: wire_order_bytes_def wire_cancel_bytes_def wire_replace_bytes_def)

lemma read_wire_order_bytes: "fits_i64 (wo_price w) \<Longrightarrow> read_wire_order (wire_order_bytes w) = w"
  by (simp add: read_wire_order_def wire_order_bytes_def field_at_simps)

lemma read_wire_cancel_bytes: "read_wire_cancel (wire_cancel_bytes w) = w"
  by (simp add: read_wire_cancel_def wire_cancel_bytes_def field_at_simps)

lemma read_wire_replace_bytes:
  "fits_i64 (wr_new_price w) \<Longrightarrow> read_wire_replace (wire_replace_bytes w) = w"
  by (simp add: read_wire_replace_def wire_replace_bytes_def field_at_simps)

text \<open>C39: A request survives the wire: the message the encoder builds carries a header that names
  its type and the length of the payload, and reading the payload back as the packed struct and
  decoding it gives the request again. The price must be one the signed 64-bit field can hold.\<close>

theorem wire_roundtrip:
  assumes "fits_i64 (rq_price r)" and "fits_i64 (rp_new_price p)"
  shows "decode_order (read_wire_order (drop 12 (encode_order r))) = Some r \<and>
    decode_cancel (read_wire_cancel (drop 12 (encode_cancel c))) = c \<and>
    decode_replace (read_wire_replace (drop 12 (encode_replace p))) = p \<and>
    read_header (encode_order r) = default_wire_header\<lparr>wh_type := 1, wh_length := 30\<rparr> \<and>
    read_header (encode_cancel c) = default_wire_header\<lparr>wh_type := 2, wh_length := 16\<rparr> \<and>
    read_header (encode_replace p) = default_wire_header\<lparr>wh_type := 3, wh_length := 28\<rparr> \<and>
    length (encode_order r) = 42 \<and> length (encode_cancel c) = 28 \<and>
    length (encode_replace p) = 40"
  using assms
  by (simp_all add: encode_order_def encode_cancel_def encode_replace_def encode_payload_def
      decode_order_def decode_cancel_def decode_replace_def
      read_wire_order_bytes read_wire_cancel_bytes read_wire_replace_bytes)

lemma wire_roundtrip_witness:
  "let r = \<lparr>rq_order_id = 7, rq_client_id = 9, rq_side = Sell, rq_type = IOC, rq_price = - 5,
            rq_quantity = 100, rq_symbol = 3\<rparr> in
   decode_order (read_wire_order (drop 12 (encode_order r))) = Some r"
  unfolding Let_def
  by (rule wire_roundtrip [of _ "\<lparr>rp_order_id = 1, rp_client_id = 1, rp_new_price = 1,
        rp_new_quantity = 1, rp_symbol = 1\<rparr>", THEN conjunct1]) (simp_all add: fits_i64_def)

end
