(* ===== verification/Server.thy ===== *)
theory Server
  imports Exchange_Correct Event_Log Protocol
begin

text \<open>
  The order entry server, apps/server.cpp, and the replay tool, apps/replay.cpp: what composes
  the wire protocol, the event log and the exchange. A session reads a header and then a payload
  of the announced length, over and over, and hands every message to \<open>handle_message\<close>; all
  sessions run on one thread, so a message is handled without interruption. \<open>async_read\<close> calls
  its handler with exactly the bytes asked for, or with an error when the connection ends first.
\<close>

record server =
  sv_exchange :: exchange
  sv_log :: log_writer

datatype server_error = LogFailure log_error | ExchangeFailure exchange_error

fun apply_event :: "input_event \<Rightarrow> exchange \<Rightarrow> ((exchange_error + bool) \<times> exchange) option" where
  "apply_event (SubmitEvent r) e = submit_order r e"
| "apply_event (CancelEvent c) e = cancel_order c e"
| "apply_event (ReplaceEvent q) e = replace_order q e"

text \<open>A decoded request goes to the log before it goes to the exchange. An exception of either
  leaves the handler and ends the server.\<close>

definition log_and_apply ::
  "(input_event \<Rightarrow> padding) \<Rightarrow> input_event \<Rightarrow> server \<Rightarrow> ((server_error + unit) \<times> server) option" where
  "log_and_apply pad ev s =
     (case append_event (pad ev) ev (sv_log s) of
        (Inl err, w) \<Rightarrow> Some (Inl (LogFailure err), s\<lparr>sv_log := w\<rparr>)
      | (Inr _, w) \<Rightarrow>
          let s = s\<lparr>sv_log := w\<rparr> in
          (case apply_event ev (sv_exchange s) of
             None \<Rightarrow> None
           | Some (Inl err, e) \<Rightarrow> Some (Inl (ExchangeFailure err), s\<lparr>sv_exchange := e\<rparr>)
           | Some (Inr _, e) \<Rightarrow> Some (Inr (), s\<lparr>sv_exchange := e\<rparr>)))"

text \<open>None: a side or order type that is no enumerator. A message of another type or length is
  skipped.\<close>

definition handle_message ::
  "(input_event \<Rightarrow> padding) \<Rightarrow> wire_header \<Rightarrow> u8 list \<Rightarrow> server \<Rightarrow>
   ((server_error + unit) \<times> server) option" where
  "handle_message pad h payload s =
     (if wh_type h = message_type_code MsgNewOrder \<and> wh_length h = 30 then
        (case decode_order (read_wire_order payload) of
           None \<Rightarrow> None
         | Some r \<Rightarrow> log_and_apply pad (SubmitEvent r) s)
      else if wh_type h = message_type_code MsgCancel \<and> wh_length h = 16 then
        log_and_apply pad (CancelEvent (decode_cancel (read_wire_cancel payload))) s
      else if wh_type h = message_type_code MsgReplace \<and> wh_length h = 28 then
        log_and_apply pad (ReplaceEvent (decode_replace (read_wire_replace payload))) s
      else Some (Inr (), s))"

text \<open>The next message of a session: None when the session ends instead.\<close>

definition next_message :: "u8 list \<Rightarrow> (wire_header \<times> u8 list \<times> u8 list) option" where
  "next_message bs =
     (case take_bytes 12 bs of
        None \<Rightarrow> None
      | Some (hs, bs) \<Rightarrow>
          let h = read_header hs in
          if wh_magic h \<noteq> 0x4D4D4154 \<or> wh_version h \<noteq> 2 \<or> unat (wh_length h) > 128 then None
          else
            (case take_bytes (unat (wh_length h)) bs of
               None \<Rightarrow> None
             | Some (payload, bs) \<Rightarrow> Some (h, payload, bs)))"

lemma next_message_shorter: "next_message bs = Some (h, payload, cs) \<Longrightarrow> length cs < length bs"
  by (auto simp: next_message_def take_bytes_def Let_def split: option.splits if_splits)

text \<open>A session that has the connection to itself, from its first byte to its last.\<close>

function run_session ::
  "(input_event \<Rightarrow> padding) \<Rightarrow> u8 list \<Rightarrow> server \<Rightarrow> ((server_error + unit) \<times> server) option" where
  "run_session pad bs s =
     (case next_message bs of
        None \<Rightarrow> Some (Inr (), s)
      | Some (h, payload, cs) \<Rightarrow>
          (case handle_message pad h payload s of
             None \<Rightarrow> None
           | Some (Inl err, s) \<Rightarrow> Some (Inl err, s)
           | Some (Inr _, s) \<Rightarrow> run_session pad cs s))"
  by pat_completeness auto

termination
  by (relation "measure (\<lambda>(pad, bs, s). length bs)") (auto dest: next_message_shorter)

declare run_session.simps [simp del]

text \<open>The server as \<open>main\<close> starts it, on a log that does not exist yet; it prints the trades.\<close>

definition default_capacity :: nat where
  "default_capacity = 300000"

definition new_server :: server where
  "new_server =
     \<lparr>sv_exchange = on_trade True (new_exchange default_capacity),
      sv_log = \<lparr>lw_file = [], lw_bad = False, lw_sequence = 0\<rparr>\<rparr>"

section \<open>The replay tool\<close>

fun replay_events :: "input_event list \<Rightarrow> exchange \<Rightarrow> ((exchange_error + unit) \<times> exchange) option" where
  "replay_events [] e = Some (Inr (), e)"
| "replay_events (ev # evs) e =
     (case apply_event ev e of
        None \<Rightarrow> None
      | Some (Inl err, e) \<Rightarrow> Some (Inl err, e)
      | Some (Inr _, e) \<Rightarrow> replay_events evs e)"

text \<open>
  The tool's result on a log: an exception of the reader or of the exchange, or the number of
  events, the last sequence number and the exchange whose state it prints. The events are
  applied as they are read, so those before a damaged record have been applied when it fails.
\<close>

definition replay_tool ::
  "u8 list \<Rightarrow> ((server_error + nat \<times> u64) \<times> exchange) option" where
  "replay_tool file =
     (case read_log \<lparr>lr_rest = file, lr_last_sequence = 0\<rparr> of
        None \<Rightarrow> None
      | Some (evs, err, r) \<Rightarrow>
          (case replay_events evs (new_exchange default_capacity) of
             None \<Rightarrow> None
           | Some (Inl x, e) \<Rightarrow> Some (Inl (ExchangeFailure x), e)
           | Some (Inr _, e) \<Rightarrow>
               (case err of
                  Some x \<Rightarrow> Some (Inl (LogFailure x), e)
                | None \<Rightarrow> Some (Inr (length evs, lr_last_sequence r), e))))"

section \<open>Replaying gives the state of the server\<close>

text \<open>Exchanges that differ at most in their handlers and in what the handlers were told.\<close>

definition same_market :: "exchange \<Rightarrow> exchange \<Rightarrow> bool" where
  "same_market e e' \<longleftrightarrow>
     ex_capacity e' = ex_capacity e \<and> ex_books e' = ex_books e \<and> ex_stp e' = ex_stp e \<and>
     ex_globally_halted e' = ex_globally_halted e \<and> ex_halted_symbols e' = ex_halted_symbols e \<and>
     ex_price_bands e' = ex_price_bands e"

lemma same_market_refl [simp]: "same_market e e"
  by (simp add: same_market_def)

lemma same_forward: "same_market e e' \<Longrightarrow> same_market (forward evs e) (forward evs' e')"
  by (simp add: same_market_def forward_def)

lemma same_with_book:
  assumes "same_market e e'" and "with_book sy f e = Some (res, d)"
  shows "\<exists>d'. with_book sy f e' = Some (res, d') \<and> same_market d d'"
proof -
  obtain b e1 where b: "book_for sy e = (b, e1)" by (cases "book_for sy e")
  then obtain e2 where b': "book_for sy e' = (b, e2)" and same: "same_market e1 e2"
    using assms(1) by (auto simp: same_market_def book_for_def Let_def split: option.splits)
  from assms(2) b obtain x c where f: "f b = Some (x, c)" and res: "res = map_sum BookError id x"
    and d: "d = forward (drop (length (out b)) (out c)) (put_book sy c e1)"
    by (auto simp: with_book_def split: option.splits)
  have "same_market (put_book sy c e1) (put_book sy c e2)"
    using same by (simp add: same_market_def put_book_def)
  then have "same_market d (forward (drop (length (out b)) (out c)) (put_book sy c e2))"
    unfolding d by (rule same_forward)
  then show ?thesis by (simp add: with_book_def b' f res)
qed

lemma same_apply:
  assumes "same_market e e'" and "apply_event ev e = Some (res, d)"
  shows "\<exists>d'. apply_event ev e' = Some (res, d') \<and> same_market d d'"
proof (cases ev)
  case (SubmitEvent r)
  have "refused r e' = refused r e" using assms(1) by (simp add: same_market_def refused_def)
  with SubmitEvent assms show ?thesis
    by (auto simp: submit_order_cases same_forward split: option.splits intro: same_with_book)
qed (use assms in \<open>auto simp: cancel_order_def replace_order_def intro: same_with_book\<close>)

lemma replay_append:
  "replay_events evs e = Some (Inr u, d) \<Longrightarrow> apply_event ev d = Some (Inr ok, d') \<Longrightarrow>
   replay_events (evs @ [ev]) e = Some (Inr (), d')"
  by (induction evs arbitrary: e) (auto split: option.splits sum.splits prod.splits)

lemma log_bytes_append:
  "log_bytes s (es @ ds) = log_bytes s es @ log_bytes (s + of_nat (length es)) ds"
  by (induction es arbitrary: s) (auto simp: add.assoc)

text \<open>The log holds exactly the events that made the exchange what it is.\<close>

definition logged :: "server \<Rightarrow> (padding \<times> input_event) list \<Rightarrow> bool" where
  "logged s es \<longleftrightarrow>
     \<not> lw_bad (sv_log s) \<and> lw_file (sv_log s) = log_bytes 0 es \<and>
     lw_sequence (sv_log s) = of_nat (length es) \<and> (\<forall>(p, e) \<in> set es. event_fits e) \<and>
     exchange_inv (sv_exchange s) \<and>
     (\<exists>e. replay_events (map snd es) (new_exchange default_capacity) = Some (Inr (), e) \<and>
        same_market e (sv_exchange s))"

lemma apply_total:
  assumes "exchange_inv e"
  obtains ok e' where "apply_event ev e = Some (Inr ok, e')" and "exchange_inv e'"
  using assms submit_order_total cancel_order_total replace_order_total
  by (cases ev) (metis apply_event.simps)+

lemma same_market_sym: "same_market e e' \<Longrightarrow> same_market e' e"
  by (simp add: same_market_def)

lemma logged_apply:
  assumes "logged s es" and "event_fits ev"
  obtains s' where "log_and_apply pad ev s = Some (Inr (), s')" and "logged s' (es @ [(pad ev, ev)])"
proof -
  from assms(1) obtain e where e: "replay_events (map snd es) (new_exchange default_capacity) = Some (Inr (), e)"
    "same_market e (sv_exchange s)" and good: "\<not> lw_bad (sv_log s)" and inv: "exchange_inv (sv_exchange s)"
    by (auto simp: logged_def)
  obtain ok d where d: "apply_event ev (sv_exchange s) = Some (Inr ok, d)" "exchange_inv d"
    using apply_total [OF inv] by metis
  obtain e' where e': "apply_event ev e = Some (Inr ok, e')" "same_market d e'"
    using same_apply [OF same_market_sym [OF e(2)] d(1)] by metis
  have re: "replay_events (map snd (es @ [(pad ev, ev)])) (new_exchange default_capacity) = Some (Inr (), e')"
    using replay_append [OF e(1) e'(1)] by simp
  define w where "w = snd (append_event (pad ev) ev (sv_log s))"
  have w: "append_event (pad ev) ev (sv_log s) = (Inr (), w)"
    by (simp add: append_event_good good w_def)
  let ?s = "s\<lparr>sv_log := w, sv_exchange := d\<rparr>"
  have l: "lw_file (sv_log s) = log_bytes 0 es" "lw_sequence (sv_log s) = of_nat (length es)"
    "\<forall>(p, e) \<in> set es. event_fits e"
    using assms(1) unfolding logged_def by blast+
  have w': "\<not> lw_bad w" "lw_file w = log_bytes 0 (es @ [(pad ev, ev)])"
    "lw_sequence w = of_nat (length (es @ [(pad ev, ev)]))"
    using good by (simp_all add: w_def append_event_good log_bytes_append l(1,2))
  have "logged ?s (es @ [(pad ev, ev)])"
    unfolding logged_def
    using w' l(3) assms(2) d(2) re same_market_sym [OF e'(2)]
    by (intro conjI exI [of _ e']) simp_all
  moreover have "log_and_apply pad ev s = Some (Inr (), ?s)"
    by (simp add: log_and_apply_def w d(1) Let_def)
  ultimately show thesis by (intro that)
qed

section \<open>Properties\<close>

text \<open>The states of a server: its sessions hand it messages in any interleaving.\<close>

inductive served :: "(input_event \<Rightarrow> padding) \<Rightarrow> server \<Rightarrow> bool" for pad where
  start: "served pad new_server"
| message: "served pad s \<Longrightarrow> handle_message pad h payload s = Some (Inr (), s') \<Longrightarrow> served pad s'"

lemma get_i64_fits [simp]: "fits_i64 (get_i64 v)"
  using sint_greater_eq [of "of_nat v :: u64"] sint_less [of "of_nat v :: u64"]
  by (simp add: fits_i64_def get_i64_def)

lemma decoded_fits:
  "decode_order (read_wire_order bs) = Some r \<Longrightarrow> event_fits (SubmitEvent r)"
  "event_fits (CancelEvent c)"
  "event_fits (ReplaceEvent (decode_replace (read_wire_replace bs)))"
  by (auto simp: event_fits_def decode_order_def decode_replace_def read_wire_order_def
      read_wire_replace_def split: option.splits prod.splits)

text \<open>What a message asks for: nothing, or an event; None when it cannot be decoded.\<close>

definition message_event :: "wire_header \<Rightarrow> u8 list \<Rightarrow> input_event option option" where
  "message_event h payload =
     (if wh_type h = message_type_code MsgNewOrder \<and> wh_length h = 30 then
        map_option (\<lambda>r. Some (SubmitEvent r)) (decode_order (read_wire_order payload))
      else if wh_type h = message_type_code MsgCancel \<and> wh_length h = 16 then
        Some (Some (CancelEvent (decode_cancel (read_wire_cancel payload))))
      else if wh_type h = message_type_code MsgReplace \<and> wh_length h = 28 then
        Some (Some (ReplaceEvent (decode_replace (read_wire_replace payload))))
      else Some None)"

lemma handle_message_event:
  "handle_message pad h payload s =
     (case message_event h payload of
        None \<Rightarrow> None
      | Some None \<Rightarrow> Some (Inr (), s)
      | Some (Some ev) \<Rightarrow> log_and_apply pad ev s)"
  by (simp add: handle_message_def message_event_def split: option.split)

lemma message_event_fits: "message_event h payload = Some (Some ev) \<Longrightarrow> event_fits ev"
  by (auto simp: message_event_def decoded_fits split: if_splits)

lemma handle_cases:
  assumes "logged s es"
  obtains (invalid) "message_event h payload = None" and "handle_message pad h payload s = None"
    | (skipped) "handle_message pad h payload s = Some (Inr (), s)"
    | (applied) s' ds where "handle_message pad h payload s = Some (Inr (), s')" and "logged s' ds"
proof (cases "message_event h payload")
  case None
  then show thesis by (intro that(1)) (simp_all add: handle_message_event)
next
  case (Some x)
  show thesis
  proof (cases x)
    case None
    with Some show thesis by (intro that(2)) (simp add: handle_message_event)
  next
    fix ev assume "x = Some ev"
    with Some have ev: "message_event h payload = Some (Some ev)" by simp
    then show thesis
      using logged_apply [OF assms message_event_fits [OF ev], of pad] that(3)
      by (metis handle_message_event option.simps(5))
  qed
qed

lemma logged_new: "logged new_server []"
  by (simp add: logged_def new_server_def exchange_inv_def on_trade_def map_books_def new_exchange_def
      same_market_def default_capacity_def)

lemma served_logged: "served pad s \<Longrightarrow> \<exists>es. logged s es"
proof (induction rule: served.induct)
  case start
  then show ?case using logged_new by blast
next
  case (message s h payload s')
  then obtain es where "logged s es" by blast
  then show ?case
    by (cases rule: handle_cases [of s es h payload pad]) (use message in auto)
qed


function session_messages :: "u8 list \<Rightarrow> (wire_header \<times> u8 list) list" where
  "session_messages bs =
     (case next_message bs of
        None \<Rightarrow> [] | Some (h, payload, cs) \<Rightarrow> (h, payload) # session_messages cs)"
  by pat_completeness auto

termination
  by (relation "measure length") (auto dest: next_message_shorter)

declare session_messages.simps [simp del]

text \<open>C18: A server is not brought down by its clients: from every state it can be in, a session
  with any bytes at all returns without an exception, as long as no new order among them has a
  side or a type that is no enumerator, which is the one thing the code does not test.\<close>

theorem session_total:
  assumes "served pad s"
    and "\<forall>(h, payload) \<in> set (session_messages bs). message_event h payload \<noteq> None"
  shows "\<exists>s'. run_session pad bs s = Some (Inr (), s') \<and> served pad s'"
  using assms
proof (induction pad bs s rule: run_session.induct)
  case (1 pad bs s)
  from served_logged [OF 1(2)] obtain es where l: "logged s es" by blast
  show ?case
  proof (cases "next_message bs")
    case None
    with 1(2) show ?thesis by (subst run_session.simps) simp
  next
    case (Some m)
    then obtain h payload cs where m: "next_message bs = Some (h, payload, cs)" by (cases m) simp
    have "session_messages bs = (h, payload) # session_messages cs"
      by (subst session_messages.simps) (simp add: m)
    with 1(3) have valid: "message_event h payload \<noteq> None"
      "\<forall>(h, payload) \<in> set (session_messages cs). message_event h payload \<noteq> None" by simp_all
    obtain s' where h: "handle_message pad h payload s = Some (Inr (), s')"
      by (rule handle_cases [OF l, of h payload pad]) (use valid(1) in auto)
    from 1(1) [OF m _ _ h] served.message [OF 1(2) h] valid(2) show ?thesis
      by (subst run_session.simps) (simp add: m h)
  qed
qed

fun encode_event :: "input_event \<Rightarrow> u8 list" where
  "encode_event (SubmitEvent r) = encode_order r"
| "encode_event (CancelEvent c) = encode_cancel c"
| "encode_event (ReplaceEvent q) = encode_replace q"

lemma read_header_only [simp]: "read_header (header_bytes h) = h"
  using read_header_bytes [of h "[]"] by simp

lemma next_encoded:
  "\<exists>h payload. next_message (encode_event ev @ bs) = Some (h, payload, bs) \<and>
     (event_fits ev \<longrightarrow> message_event h payload = Some (Some ev))"
  by (cases ev)
    (auto simp: next_message_def encode_order_def encode_cancel_def encode_replace_def
      encode_payload_def default_wire_header_def Let_def message_event_def event_fits_def
      decode_order_def decode_cancel_def decode_replace_def
      read_wire_order_bytes read_wire_cancel_bytes read_wire_replace_bytes)

text \<open>C16: What a client encodes is what the server does: from every state of the server a session
  that sends the encodings of some requests, one after the other, applies exactly these requests
  to the exchange in that order.\<close>

theorem session_applies_requests:
  assumes "served pad s" and "\<forall>ev \<in> set evs. event_fits ev"
  shows "\<exists>s'. run_session pad (concat (map encode_event evs)) s = Some (Inr (), s') \<and>
    served pad s' \<and> replay_events evs (sv_exchange s) = Some (Inr (), sv_exchange s')"
  using assms
proof (induction evs arbitrary: s)
  case Nil
  have "next_message [] = None" by (simp add: next_message_def take_bytes_def)
  with Nil show ?case by (subst run_session.simps) simp
next
  case (Cons ev evs)
  obtain h payload where m: "next_message (encode_event ev @ concat (map encode_event evs)) =
      Some (h, payload, concat (map encode_event evs))" "message_event h payload = Some (Some ev)"
    using next_encoded Cons.prems(2) by (metis list.set_intros(1))
  from served_logged [OF Cons.prems(1)] obtain es where l: "logged s es" by blast
  have fit: "event_fits ev" using Cons.prems(2) by simp
  obtain s1 where s1: "log_and_apply pad ev s = Some (Inr (), s1)"
    using logged_apply [OF l fit] by metis
  then have h: "handle_message pad h payload s = Some (Inr (), s1)"
    by (simp add: handle_message_event m(2))
  from s1 obtain ok where ok: "apply_event ev (sv_exchange s) = Some (Inr ok, sv_exchange s1)"
    by (auto simp: log_and_apply_def Let_def split: prod.splits sum.splits option.splits)
  from Cons.IH [OF served.message [OF Cons.prems(1) h]] Cons.prems(2) show ?case
    by (subst run_session.simps) (simp add: m(1) h ok)
qed

definition some_requests :: "input_event list" where
  "some_requests =
     [SubmitEvent sell_order, CancelEvent \<lparr>cx_order_id = 1, cx_client_id = 7, cx_symbol = 1\<rparr>]"

lemma some_requests_fit: "\<forall>ev \<in> set some_requests. event_fits ev"
  by (simp add: some_requests_def event_fits_def sell_order_def request_def fits_i64_def)

lemma session_applies_requests_witness:
  "\<forall>pad. \<exists>s'. run_session pad (concat (map encode_event some_requests)) new_server = Some (Inr (), s') \<and>
    served pad s' \<and> replay_events some_requests (sv_exchange new_server) = Some (Inr (), sv_exchange s')"
  by (rule allI, rule session_applies_requests [OF served.start some_requests_fit])

lemma session_total_witness:
  "\<forall>pad. \<exists>s'. run_session pad (encode_event (SubmitEvent sell_order)) new_server = Some (Inr (), s') \<and>
    served pad s'"
proof (rule allI, rule session_total [OF served.start])
  obtain h payload where m: "next_message (encode_event (SubmitEvent sell_order) @ []) = Some (h, payload, [])"
    "message_event h payload = Some (Some (SubmitEvent sell_order))"
    using next_encoded [of "SubmitEvent sell_order" "[]"] some_requests_fit
    by (auto simp: some_requests_def)
  have "session_messages [] = []"
    by (subst session_messages.simps) (simp add: next_message_def take_bytes_def)
  with m have "session_messages (encode_event (SubmitEvent sell_order)) = [(h, payload)]"
    by (subst session_messages.simps) simp
  with m(2) show "\<forall>(h, payload) \<in> set (session_messages (encode_event (SubmitEvent sell_order))).
      message_event h payload \<noteq> None" by simp
qed


end
