(* ===== verification/Text.thy ===== *)
theory Text
  imports Prelude
begin

text \<open>
  Text as the code handles it: strings of characters, the searches and slices of
  \<open>std::string_view\<close>, \<open>std::to_string\<close>, and \<open>std::from_chars\<close> used strictly, the whole
  string having to be a number in the range of the type.
\<close>

section \<open>Slices and searches\<close>

definition substr :: "string \<Rightarrow> nat \<Rightarrow> nat \<Rightarrow> string" where
  "substr s pos n = take n (drop pos s)"

text \<open>\<open>s.find(c, start)\<close>: None is \<open>npos\<close>.\<close>

fun index_of :: "char \<Rightarrow> string \<Rightarrow> nat option" where
  "index_of c [] = None"
| "index_of c (x # s) = (if x = c then Some 0 else map_option Suc (index_of c s))"

definition sv_find :: "char \<Rightarrow> string \<Rightarrow> nat \<Rightarrow> nat option" where
  "sv_find c s start = map_option (\<lambda>i. start + i) (index_of c (drop start s))"

fun starts_with :: "string \<Rightarrow> string \<Rightarrow> bool" where
  "starts_with [] s = True"
| "starts_with (p # ps) [] = False"
| "starts_with (p # ps) (x # s) = (p = x \<and> starts_with ps s)"

text \<open>\<open>s.rfind(pat)\<close>: the last place where \<open>pat\<close> occurs.\<close>

fun sv_rfind :: "string \<Rightarrow> string \<Rightarrow> nat option" where
  "sv_rfind pat [] = (if starts_with pat [] then Some 0 else None)"
| "sv_rfind pat (x # s) =
     (case sv_rfind pat s of
        Some i \<Rightarrow> Some (Suc i)
      | None \<Rightarrow> if starts_with pat (x # s) then Some 0 else None)"

lemma index_of_None: "c \<notin> set s \<Longrightarrow> index_of c s = None"
  by (induction s) auto

lemma index_of_append: "c \<notin> set s \<Longrightarrow> index_of c (s @ c # t) = Some (length s)"
  by (induction s) auto

lemma index_of_bound: "index_of c s = Some i \<Longrightarrow> i < length s"
  by (induction s arbitrary: i) (auto split: if_splits)

lemma sv_find_bound: "sv_find c s start = Some i \<Longrightarrow> start \<le> i \<and> i < length s"
  by (auto simp: sv_find_def dest: index_of_bound)

lemma sv_find_append:
  "c \<notin> set s \<Longrightarrow> sv_find c (p @ s @ c # t) (length p) = Some (length p + length s)"
  by (simp add: sv_find_def index_of_append)

lemma starts_with_append [simp]: "starts_with p (p @ s)"
  by (induction p) simp_all

lemma starts_with_take: "starts_with p s \<longleftrightarrow> take (length p) s = p"
  by (induction p s rule: starts_with.induct) auto

lemma sv_rfind_None: "\<forall>i. \<not> starts_with pat (drop i s) \<Longrightarrow> sv_rfind pat s = None"
proof (induction s)
  case Nil
  then show ?case by (simp split: if_splits)
next
  case (Cons x s)
  then have "\<not> starts_with pat (drop i s)" for i by (metis drop_Suc_Cons)
  moreover have "\<not> starts_with pat (x # s)" using Cons.prems by (metis drop0)
  ultimately show ?case using Cons.IH by simp
qed

lemma sv_rfind_append:
  assumes "starts_with pat t" and "\<forall>i > 0. \<not> starts_with pat (drop i t)" and "pat \<noteq> []"
  shows "sv_rfind pat (s @ t) = Some (length s)"
proof (induction s)
  case Nil
  show ?case
  proof (cases t)
    case (Cons x u)
    have "sv_rfind pat u = None"
      using assms(2) Cons by (intro sv_rfind_None) (metis drop_Suc_Cons zero_less_Suc)
    with assms(1) Cons show ?thesis by simp
  qed (use assms in \<open>simp add: starts_with_take\<close>)
qed simp

section \<open>Decimal numbers\<close>

definition digit_char :: "nat \<Rightarrow> char" where
  "digit_char d = char_of (48 + d)"

definition digit_value :: "char \<Rightarrow> nat" where
  "digit_value c = of_char c - 48"

definition is_digit :: "char \<Rightarrow> bool" where
  "is_digit c \<longleftrightarrow> 48 \<le> (of_char c :: nat) \<and> (of_char c :: nat) \<le> 57"

fun nat_to_string :: "nat \<Rightarrow> string" where
  "nat_to_string n =
     (if n < 10 then [digit_char n] else nat_to_string (n div 10) @ [digit_char (n mod 10)])"

declare nat_to_string.simps [simp del]

definition int_to_string :: "int \<Rightarrow> string" where
  "int_to_string i = (if i < 0 then CHR ''-'' # nat_to_string (nat (- i)) else nat_to_string (nat i))"

definition digits_value :: "string \<Rightarrow> nat" where
  "digits_value s = foldl (\<lambda>n c. 10 * n + digit_value c) 0 s"

definition parse_digits :: "string \<Rightarrow> nat option" where
  "parse_digits s = (if s \<noteq> [] \<and> list_all is_digit s then Some (digits_value s) else None)"

text \<open>\<open>from_chars\<close> into an unsigned type of \<open>w\<close> bits and into a signed one, all of the text.\<close>

definition parse_unsigned :: "nat \<Rightarrow> string \<Rightarrow> nat option" where
  "parse_unsigned w s =
     (case parse_digits s of None \<Rightarrow> None | Some n \<Rightarrow> if n < 2 ^ w then Some n else None)"

definition parse_signed :: "nat \<Rightarrow> string \<Rightarrow> int option" where
  "parse_signed w s =
     (let (neg, ds) = (case s of c # t \<Rightarrow> if c = CHR ''-'' then (True, t) else (False, s)
                       | [] \<Rightarrow> (False, [])) in
      case parse_digits ds of
        None \<Rightarrow> None
      | Some n \<Rightarrow>
          let i = (if neg then - int n else int n) in
          if - (2 ^ (w - 1)) \<le> i \<and> i < 2 ^ (w - 1) then Some i else None)"

lemma of_char_digit: "d < 10 \<Longrightarrow> (of_char (digit_char d) :: nat) = 48 + d"
  by (simp add: digit_char_def of_char_of)

lemma digit_char_props [simp]:
  "d < 10 \<Longrightarrow> is_digit (digit_char d)" "d < 10 \<Longrightarrow> digit_value (digit_char d) = d"
  by (simp_all add: is_digit_def digit_value_def of_char_digit)

lemma not_digit: "\<not> is_digit (CHR ''-'')" "\<not> is_digit (CHR ''='')" "\<not> is_digit (CHR 0x01)"
  by (simp_all add: is_digit_def)

lemma nat_to_string_digits: "list_all is_digit (nat_to_string n)"
proof (induction n rule: nat_to_string.induct)
  case (1 n)
  then show ?case by (subst nat_to_string.simps) simp
qed

lemma nat_to_string_nonempty [simp]: "nat_to_string n \<noteq> []"
  by (subst nat_to_string.simps) simp

lemma digits_value_nat: "digits_value (nat_to_string n) = n"
proof (induction n rule: nat_to_string.induct)
  case (1 n)
  then show ?case
    by (subst nat_to_string.simps) (auto simp: digits_value_def)
qed

lemma parse_digits_nat [simp]: "parse_digits (nat_to_string n) = Some n"
  by (simp add: parse_digits_def nat_to_string_digits digits_value_nat)

lemma parse_unsigned_nat: "n < 2 ^ w \<Longrightarrow> parse_unsigned w (nat_to_string n) = Some n"
  by (simp add: parse_unsigned_def)

lemma nat_to_string_chars: "c \<in> set (nat_to_string n) \<Longrightarrow> is_digit c"
  using nat_to_string_digits by (simp add: list_all_iff)

lemma hd_nat_to_string: "nat_to_string n = c # t \<Longrightarrow> c \<noteq> CHR ''-''"
  using nat_to_string_chars [of c n] not_digit(1) by auto

lemma parse_signed_int:
  assumes "- (2 ^ (w - 1)) \<le> i" and "i < 2 ^ (w - 1)"
  shows "parse_signed w (int_to_string i) = Some i"
proof (cases "i < 0")
  case False
  obtain c t where s: "nat_to_string (nat i) = c # t" by (meson nat_to_string_nonempty neq_Nil_conv)
  with hd_nat_to_string have "c \<noteq> CHR ''-''" by blast
  with False s assms parse_digits_nat [of "nat i"] show ?thesis
    by (simp add: parse_signed_def int_to_string_def)
qed (use assms in \<open>simp add: parse_signed_def int_to_string_def\<close>)

lemma int_to_string_chars: "c \<in> set (int_to_string i) \<Longrightarrow> is_digit c \<or> c = CHR ''-''"
  by (auto simp: int_to_string_def dest: nat_to_string_chars split: if_splits)

lemma int_to_string_nonempty [simp]: "int_to_string i \<noteq> []"
  by (simp add: int_to_string_def)

text \<open>Left padding, as \<open>setw\<close> and \<open>setfill\<close> do it.\<close>

definition pad_left :: "nat \<Rightarrow> char \<Rightarrow> string \<Rightarrow> string" where
  "pad_left n c s = replicate (n - length s) c @ s"

end
