(* ===== verification/Fix.thy ===== *)
theory Fix
  imports Text
begin

text \<open>
  The FIX codec, include/minimatch/fix.hpp and src/fix.cpp: messages as lists of tagged fields,
  the checksum, \<open>encode_fix_message\<close> and \<open>parse_fix_message\<close> with every error they report, and
  the two builders of resent messages and gap fills. An exception and an invalid
  \<open>FixParseResult\<close> are the left summand, carrying the text of the error.
\<close>

datatype fix_message_type =
    Logon | Logout | Heartbeat | TestRequest | ResendRequest | SequenceReset
  | NewOrderSingle | OrderCancelRequest | ExecutionReport | Reject | Unknown

definition FIX_SOH :: char where
  "FIX_SOH = CHR 0x01"

record fix_field =
  ff_tag :: int
  ff_value :: string

record fix_message =
  fm_begin_string :: string
  fm_body_length :: int
  fm_type :: fix_message_type
  fm_fields :: "fix_field list"
  fm_checksum :: int

definition empty_message :: fix_message where
  "empty_message = \<lparr>fm_begin_string = ''FIX.4.4'', fm_body_length = 0, fm_type = Unknown,
     fm_fields = [], fm_checksum = 0\<rparr>"

fun fields_get :: "int \<Rightarrow> fix_field list \<Rightarrow> string option" where
  "fields_get tag [] = None"
| "fields_get tag (f # fs) = (if ff_tag f = tag then Some (ff_value f) else fields_get tag fs)"

definition fm_get :: "fix_message \<Rightarrow> int \<Rightarrow> string option" where
  "fm_get m tag = fields_get tag (fm_fields m)"

fun fields_set :: "int \<Rightarrow> string \<Rightarrow> fix_field list \<Rightarrow> fix_field list" where
  "fields_set tag v [] = [\<lparr>ff_tag = tag, ff_value = v\<rparr>]"
| "fields_set tag v (f # fs) =
     (if ff_tag f = tag then f\<lparr>ff_value := v\<rparr> # fs else f # fields_set tag v fs)"

definition fm_set :: "int \<Rightarrow> string \<Rightarrow> fix_message \<Rightarrow> fix_message" where
  "fm_set tag v m = m\<lparr>fm_fields := fields_set tag v (fm_fields m)\<rparr>"

section \<open>Message types\<close>

fun fix_type_to_string :: "fix_message_type \<Rightarrow> string" where
  "fix_type_to_string Logon = ''LOGON''"
| "fix_type_to_string Logout = ''LOGOUT''"
| "fix_type_to_string Heartbeat = ''HEARTBEAT''"
| "fix_type_to_string TestRequest = ''TEST_REQUEST''"
| "fix_type_to_string ResendRequest = ''RESEND_REQUEST''"
| "fix_type_to_string SequenceReset = ''SEQUENCE_RESET''"
| "fix_type_to_string NewOrderSingle = ''NEW_ORDER_SINGLE''"
| "fix_type_to_string OrderCancelRequest = ''ORDER_CANCEL_REQUEST''"
| "fix_type_to_string ExecutionReport = ''EXECUTION_REPORT''"
| "fix_type_to_string Reject = ''REJECT''"
| "fix_type_to_string Unknown = ''UNKNOWN''"

definition fix_message_type_from_code :: "string \<Rightarrow> fix_message_type" where
  "fix_message_type_from_code code =
     (if code = ''A'' then Logon
      else if code = ''5'' then Logout
      else if code = ''0'' then Heartbeat
      else if code = ''1'' then TestRequest
      else if code = ''2'' then ResendRequest
      else if code = ''4'' then SequenceReset
      else if code = ''D'' then NewOrderSingle
      else if code = ''F'' then OrderCancelRequest
      else if code = ''8'' then ExecutionReport
      else if code = ''3'' then Reject
      else Unknown)"

fun fix_message_code :: "fix_message_type \<Rightarrow> string" where
  "fix_message_code Logon = ''A''"
| "fix_message_code Logout = ''5''"
| "fix_message_code Heartbeat = ''0''"
| "fix_message_code TestRequest = ''1''"
| "fix_message_code ResendRequest = ''2''"
| "fix_message_code SequenceReset = ''4''"
| "fix_message_code NewOrderSingle = ''D''"
| "fix_message_code OrderCancelRequest = ''F''"
| "fix_message_code ExecutionReport = ''8''"
| "fix_message_code Reject = ''3''"
| "fix_message_code Unknown = []"

section \<open>Fields\<close>

text \<open>\<open>split_fields\<close>: the loop over the start position; empty fields are dropped.\<close>

function split_loop :: "string \<Rightarrow> nat \<Rightarrow> string list \<Rightarrow> string list" where
  "split_loop input start fds =
     (if start < length input then
        (case sv_find FIX_SOH input start of
           None \<Rightarrow> fds @ [substr input start (length input)]
         | Some e \<Rightarrow>
             split_loop input (e + 1)
               (if e > start then fds @ [substr input start (e - start)] else fds))
      else fds)"
  by pat_completeness auto

termination
  by (relation "measure (\<lambda>(input, start, fds). length input - start)")
    (auto dest: sv_find_bound)

declare split_loop.simps [simp del]

definition split_fields :: "string \<Rightarrow> string list" where
  "split_fields input = split_loop input 0 []"

definition parse_integer :: "string \<Rightarrow> int option" where
  "parse_integer s = parse_signed 32 s"

definition parse_field :: "string \<Rightarrow> fix_field option" where
  "parse_field field =
     (case sv_find (CHR ''='') field 0 of
        None \<Rightarrow> None
      | Some separator \<Rightarrow>
          if separator = 0 then None
          else case parse_integer (substr field 0 separator) of
            None \<Rightarrow> None
          | Some tag \<Rightarrow>
              Some \<lparr>ff_tag = tag, ff_value = substr field (separator + 1) (length field)\<rparr>)"

text \<open>The sum is an \<open>unsigned int\<close>.\<close>

definition calculate_fix_checksum :: "string \<Rightarrow> int" where
  "calculate_fix_checksum s = uint (foldl (\<lambda>n c. n + of_nat (of_char c)) (0 :: u32) s mod 256)"

definition format_checksum :: "int \<Rightarrow> string" where
  "format_checksum c = pad_left 3 (CHR ''0'') (int_to_string c)"

section \<open>Encoding\<close>

definition encode_field :: "fix_field \<Rightarrow> string" where
  "encode_field f = int_to_string (ff_tag f) @ ''='' @ ff_value f @ [FIX_SOH]"

definition skipped_tag :: "int \<Rightarrow> bool" where
  "skipped_tag t \<longleftrightarrow> t = 8 \<or> t = 9 \<or> t = 10 \<or> t = 35"

fun encode_fields :: "fix_field list \<Rightarrow> string" where
  "encode_fields [] = []"
| "encode_fields (f # fs) =
     (if skipped_tag (ff_tag f) then encode_fields fs else encode_field f @ encode_fields fs)"

definition encode_fix_message :: "fix_message \<Rightarrow> string + string" where
  "encode_fix_message m =
     (let code = fix_message_code (fm_type m) in
      if code = [] then Inl ''cannot encode unknown FIX message type''
      else
        let body = ''35='' @ code @ [FIX_SOH] @ encode_fields (fm_fields m);
            prefix = ''8='' @ fm_begin_string m @ [FIX_SOH] @ ''9='' @
              nat_to_string (length body) @ [FIX_SOH] @ body in
        Inr (prefix @ ''10='' @ format_checksum (calculate_fix_checksum prefix) @ [FIX_SOH]))"

section \<open>Parsing\<close>

text \<open>The loop over the fields between the body length and the checksum.\<close>

fun parse_body :: "string list \<Rightarrow> fix_message \<Rightarrow> fix_message option" where
  "parse_body [] m = Some m"
| "parse_body (f # fs) m =
     (case parse_field f of
        None \<Rightarrow> None
      | Some p \<Rightarrow>
          let m = (if ff_tag p = 35
                   then m\<lparr>fm_type := fix_message_type_from_code (ff_value p)\<rparr> else m) in
          parse_body fs (m\<lparr>fm_fields := fm_fields m @ [p]\<rparr>))"

text \<open>The start of the body: after the second separator (\<open>npos + 1\<close> is 0).\<close>

definition body_start :: "string \<Rightarrow> nat option" where
  "body_start wire =
     (case sv_find FIX_SOH wire 0 of
        None \<Rightarrow> sv_find FIX_SOH wire 0
      | Some i \<Rightarrow> sv_find FIX_SOH wire (i + 1))"

definition parse_message_body ::
  "string list \<Rightarrow> string \<Rightarrow> int \<Rightarrow> int \<Rightarrow> string + fix_message" where
  "parse_message_body fds begin_value body_length checksum =
     (case parse_body (butlast (drop 2 fds))
        (empty_message\<lparr>fm_begin_string := begin_value, fm_body_length := body_length,
           fm_checksum := checksum\<rparr>) of
        None \<Rightarrow> Inl ''invalid FIX field''
      | Some m \<Rightarrow>
          if fm_type m = Unknown then Inl ''unsupported or missing FIX message type'' else Inr m)"

definition check_frame :: "string \<Rightarrow> int \<Rightarrow> int \<Rightarrow> string option" where
  "check_frame wire body_length checksum =
     (case sv_rfind ''10='' wire of
        None \<Rightarrow> Some ''FIX checksum field not found''
      | Some checksum_position \<Rightarrow>
          if calculate_fix_checksum (substr wire 0 checksum_position) \<noteq> checksum
          then Some ''FIX checksum mismatch''
          else case body_start wire of
            None \<Rightarrow> Some ''FIX body start not found''
          | Some s \<Rightarrow>
              if checksum_position < s + 1 then Some ''invalid FIX body boundaries''
              else if checksum_position - (s + 1) \<noteq> nat body_length
              then Some ''FIX body length mismatch'' else None)"

definition parse_fix_message :: "string \<Rightarrow> string + fix_message" where
  "parse_fix_message wire =
     (let fds = split_fields wire in
      if length fds < 4 then Inl ''FIX message has too few fields''
      else case parse_field (hd fds) of
        None \<Rightarrow> Inl ''FIX message must begin with tag 8''
      | Some begin_field \<Rightarrow>
      if ff_tag begin_field \<noteq> 8 then Inl ''FIX message must begin with tag 8''
      else case parse_field (fds ! 1) of
        None \<Rightarrow> Inl ''FIX message must contain tag 9 second''
      | Some length_field \<Rightarrow>
      if ff_tag length_field \<noteq> 9 then Inl ''FIX message must contain tag 9 second''
      else case parse_integer (ff_value length_field) of
        None \<Rightarrow> Inl ''invalid FIX body length''
      | Some body_length \<Rightarrow>
      if body_length < 0 then Inl ''invalid FIX body length''
      else case parse_field (last fds) of
        None \<Rightarrow> Inl ''FIX message must end with tag 10''
      | Some checksum_field \<Rightarrow>
      if ff_tag checksum_field \<noteq> 10 then Inl ''FIX message must end with tag 10''
      else case parse_integer (ff_value checksum_field) of
        None \<Rightarrow> Inl ''invalid FIX checksum''
      | Some checksum \<Rightarrow>
      if checksum < 0 \<or> checksum > 255 then Inl ''invalid FIX checksum''
      else case check_frame wire body_length checksum of
        Some e \<Rightarrow> Inl e
      | None \<Rightarrow> parse_message_body fds (ff_value begin_field) body_length checksum)"

section \<open>Resends\<close>

definition prepare_fix_resend :: "fix_message \<Rightarrow> u64 \<Rightarrow> string + fix_message" where
  "prepare_fix_resend original timestamp =
     (case fm_get original 52 of
        None \<Rightarrow> Inl ''cannot resend FIX message without SendingTime''
      | Some t \<Rightarrow>
          Inr (fm_set 52 (nat_to_string (unat timestamp)) (fm_set 122 t (fm_set 43 ''Y'' original))))"

definition create_fix_gap_fill ::
  "int \<Rightarrow> int \<Rightarrow> string \<Rightarrow> string \<Rightarrow> u64 \<Rightarrow> string + fix_message" where
  "create_fix_gap_fill seq_no new_seq_no sender target timestamp =
     (if seq_no \<le> 0 \<or> new_seq_no \<le> seq_no then Inl ''invalid FIX gap-fill sequence range''
      else if sender = [] \<or> target = [] then Inl ''FIX gap-fill CompIDs cannot be empty''
      else
        let m = empty_message\<lparr>fm_type := SequenceReset\<rparr>;
            m = fm_set 34 (int_to_string seq_no) m;
            m = fm_set 43 ''Y'' m;
            m = fm_set 123 ''Y'' m;
            m = fm_set 36 (int_to_string new_seq_no) m;
            m = fm_set 49 sender m;
            m = fm_set 56 target m;
            m = fm_set 52 (nat_to_string (unat timestamp)) m;
            m = fm_set 122 (nat_to_string (unat timestamp)) m in
        Inr m)"

section \<open>Encoding and parsing\<close>

definition joined :: "string list \<Rightarrow> string" where
  "joined ss = concat (map (\<lambda>s. s @ [FIX_SOH]) ss)"

lemma joined_simps [simp]:
  "joined [] = []" "joined (s # ss) = s @ FIX_SOH # joined ss" "joined (ss @ ts) = joined ss @ joined ts"
  by (simp_all add: joined_def)

lemma split_loop_joined:
  "\<forall>s \<in> set ss. s \<noteq> [] \<and> FIX_SOH \<notin> set s \<Longrightarrow> split_loop (p @ joined ss) (length p) acc = acc @ ss"
proof (induction ss arbitrary: p acc)
  case (Cons s ss)
  then have "s \<noteq> []" "FIX_SOH \<notin> set s" by simp_all
  with Cons.IH [of "p @ s @ [FIX_SOH]" "acc @ [s]"] Cons.prems show ?case
    by (subst split_loop.simps) (simp add: sv_find_append substr_def)
qed (simp add: split_loop.simps)

lemma split_fields_joined:
  "\<forall>s \<in> set ss. s \<noteq> [] \<and> FIX_SOH \<notin> set s \<Longrightarrow> split_fields (joined ss) = ss"
  using split_loop_joined [of ss "[]" "[]"] by (simp add: split_fields_def)

definition field_text :: "fix_field \<Rightarrow> string" where
  "field_text f = int_to_string (ff_tag f) @ ''='' @ ff_value f"

definition tag_ok :: "int \<Rightarrow> bool" where
  "tag_ok t \<longleftrightarrow> - (2 ^ 31) \<le> t \<and> t < 2 ^ 31"

lemma equals_notin_int: "CHR ''='' \<notin> set (int_to_string i)"
  using int_to_string_chars [of "CHR ''=''" i] not_digit(2) by auto

lemma soh_notin_int: "FIX_SOH \<notin> set (int_to_string i)"
  using int_to_string_chars [of "FIX_SOH" i] not_digit(3) by (auto simp: FIX_SOH_def)

lemma parse_integer_int: "tag_ok i \<Longrightarrow> parse_integer (int_to_string i) = Some i"
  by (simp add: parse_integer_def parse_signed_int tag_ok_def)

lemma parse_field_text:
  assumes "tag_ok (ff_tag f)"
  shows "parse_field (field_text f) = Some f"
proof -
  have "sv_find (CHR ''='') (field_text f) 0 = Some (length (int_to_string (ff_tag f)))"
    using sv_find_append [OF equals_notin_int, of "[]" "ff_tag f" "ff_value f"]
    by (simp add: field_text_def)
  moreover have "substr (field_text f) 0 (length (int_to_string (ff_tag f))) = int_to_string (ff_tag f)"
    by (simp add: field_text_def substr_def)
  moreover have "substr (field_text f) (Suc (length (int_to_string (ff_tag f)))) (length (field_text f)) =
      ff_value f"
    by (simp add: field_text_def substr_def)
  ultimately show ?thesis
    using parse_integer_int [OF assms] by (simp add: parse_field_def)
qed

lemma field_text_ok:
  "FIX_SOH \<notin> set (ff_value f) \<Longrightarrow> field_text f \<noteq> [] \<and> FIX_SOH \<notin> set (field_text f)"
  using soh_notin_int by (auto simp: field_text_def FIX_SOH_def)

definition sent_fields :: "fix_message \<Rightarrow> fix_field list" where
  "sent_fields m = filter (\<lambda>f. \<not> skipped_tag (ff_tag f)) (fm_fields m)"

definition body_fields :: "fix_message \<Rightarrow> fix_field list" where
  "body_fields m = \<lparr>ff_tag = 35, ff_value = fix_message_code (fm_type m)\<rparr> # sent_fields m"

definition body_text :: "fix_message \<Rightarrow> string" where
  "body_text m = joined (map field_text (body_fields m))"

definition prefix_text :: "fix_message \<Rightarrow> string" where
  "prefix_text m = joined [''8='' @ fm_begin_string m, ''9='' @ nat_to_string (length (body_text m))] @
     body_text m"

lemma encode_fields_joined:
  "encode_fields fs = joined (map field_text (filter (\<lambda>f. \<not> skipped_tag (ff_tag f)) fs))"
  by (induction fs) (simp_all add: encode_field_def field_text_def)

lemma small_strings: "int_to_string 35 = ''35''" "int_to_string 8 = ''8''" "int_to_string 9 = ''9''"
    "int_to_string 10 = ''10''"
  by code_simp+

lemma encode_text:
  assumes "fm_type m \<noteq> Unknown"
  shows "encode_fix_message m = Inr (prefix_text m @
    ''10='' @ format_checksum (calculate_fix_checksum (prefix_text m)) @ [FIX_SOH])"
proof -
  have "fix_message_code (fm_type m) \<noteq> []" using assms by (cases "fm_type m") simp_all
  then show ?thesis
    by (simp add: encode_fix_message_def Let_def prefix_text_def body_text_def body_fields_def
        sent_fields_def encode_fields_joined field_text_def small_strings)
qed

lemma checksum_range: "0 \<le> calculate_fix_checksum s \<and> calculate_fix_checksum s \<le> 255"
proof -
  have "uint (x mod (256 :: u32)) = uint x mod 256" for x by (simp add: uint_mod)
  moreover have "0 \<le> k mod 256 \<and> k mod 256 \<le> 255" for k :: int by presburger
  ultimately show ?thesis by (simp add: calculate_fix_checksum_def)
qed

lemma digits_value_zeros: "digits_value (replicate n (CHR ''0'') @ s) = digits_value s"
  by (induction n) (simp_all add: digits_value_def digit_value_def)

lemma format_checksum_digits:
  assumes "0 \<le> c" and "c \<le> 255"
  shows "list_all is_digit (format_checksum c)" and "parse_integer (format_checksum c) = Some c"
    and "format_checksum c \<noteq> []"
proof -
  let ?s = "nat_to_string (nat c)"
  have eq: "format_checksum c = replicate (3 - length ?s) (CHR ''0'') @ ?s"
    using assms by (simp add: format_checksum_def pad_left_def int_to_string_def)
  have zero: "is_digit (CHR ''0'')" by (simp add: is_digit_def)
  then show all: "list_all is_digit (format_checksum c)"
    unfolding eq by (auto simp: list_all_iff dest: nat_to_string_chars)
  show ne: "format_checksum c \<noteq> []" by (simp add: eq)
  have "parse_digits (format_checksum c) = Some (nat c)"
    using all ne by (simp add: parse_digits_def) (simp add: eq digits_value_zeros digits_value_nat)
  moreover obtain x t where xt: "format_checksum c = x # t" using ne by (cases "format_checksum c") simp_all
  moreover have "x \<noteq> CHR ''-''" using all xt not_digit(1) by auto
  ultimately show "parse_integer (format_checksum c) = Some c"
    using assms by (simp add: parse_integer_def parse_signed_def)
qed


lemma rfind_checksum:
  assumes "CHR ''='' \<notin> set c"
  shows "sv_rfind ''10='' (s @ ''10='' @ c) = Some (length s)"
proof (rule sv_rfind_append)
  show "\<forall>i > 0. \<not> starts_with ''10='' (drop i (''10='' @ c))"
  proof (intro allI impI notI)
    fix i :: nat assume i: "0 < i" and st: "starts_with ''10='' (drop i (''10='' @ c))"
    obtain u where u: "drop i (''10='' @ c) = ''10='' @ u"
      using st by (metis append_take_drop_id starts_with_take)
    consider "i = 1" | "i = 2" | "3 \<le> i" using i by linarith
    then show False
    proof cases
      case 3
      then obtain k where "i = Suc (Suc (Suc k))" using le_Suc_ex [of 3 i] by (auto simp: numeral_3_eq_3)
      then have "drop i (''10='' @ c) = drop (i - 3) c" by simp
      then have "CHR ''='' \<in> set (drop (i - 3) c)" using u by simp
      with assms show False by (meson in_set_dropD)
    qed (use u in simp_all)
  qed
qed simp_all

lemma body_start_joined:
  assumes "FIX_SOH \<notin> set a" and "FIX_SOH \<notin> set b"
  shows "body_start (joined [a, b] @ t) = Some (length a + 1 + length b)"
proof -
  have "sv_find FIX_SOH (joined [a, b] @ t) 0 = Some (length a)"
    using sv_find_append [OF assms(1), of "[]"] by simp
  moreover have "sv_find FIX_SOH (joined [a, b] @ t) (length a + 1) = Some (length a + 1 + length b)"
    using sv_find_append [OF assms(2), of "a @ [FIX_SOH]" t] by simp
  ultimately show ?thesis by (simp add: body_start_def)
qed

lemma parse_body_texts:
  assumes "\<forall>f \<in> set fs. tag_ok (ff_tag f) \<and> ff_tag f \<noteq> 35"
  shows "parse_body (map field_text fs) m = Some (m\<lparr>fm_fields := fm_fields m @ fs\<rparr>)"
  using assms by (induction fs arbitrary: m) (simp_all add: parse_field_text)

lemma type_of_code: "fix_message_type_from_code (fix_message_code t) = t"
  by (cases t) (simp_all add: fix_message_type_from_code_def)

text \<open>Messages that survive the wire.\<close>

definition encodable :: "fix_message \<Rightarrow> bool" where
  "encodable m \<longleftrightarrow>
     fm_type m \<noteq> Unknown \<and> FIX_SOH \<notin> set (fm_begin_string m) \<and>
     list_all (\<lambda>f. tag_ok (ff_tag f) \<and> FIX_SOH \<notin> set (ff_value f)) (fm_fields m) \<and>
     int (length (body_text m)) < 2 ^ 31"

definition received :: "fix_message \<Rightarrow> fix_message" where
  "received m = \<lparr>fm_begin_string = fm_begin_string m, fm_body_length = int (length (body_text m)),
     fm_type = fm_type m, fm_fields = body_fields m,
     fm_checksum = calculate_fix_checksum (prefix_text m)\<rparr>"

definition wire_segments :: "fix_message \<Rightarrow> string list" where
  "wire_segments m = [''8='' @ fm_begin_string m, ''9='' @ nat_to_string (length (body_text m))] @
     map field_text (body_fields m) @
     [''10='' @ format_checksum (calculate_fix_checksum (prefix_text m))]"

lemma body_fields_ok:
  assumes "encodable m"
  shows "\<forall>f \<in> set (body_fields m). tag_ok (ff_tag f) \<and> FIX_SOH \<notin> set (ff_value f)"
proof -
  have "FIX_SOH \<notin> set (fix_message_code (fm_type m))"
    by (cases "fm_type m") (simp_all add: FIX_SOH_def)
  with assms show ?thesis
    by (auto simp: encodable_def body_fields_def sent_fields_def list_all_iff tag_ok_def)
qed

lemma split_wire:
  assumes "encodable m"
  shows "split_fields (joined (wire_segments m)) = wire_segments m"
proof (rule split_fields_joined)
  have "FIX_SOH \<notin> set (nat_to_string n)" for n
    using nat_to_string_chars not_digit(3) by (auto simp: FIX_SOH_def)
  moreover have "FIX_SOH \<notin> set (format_checksum (calculate_fix_checksum (prefix_text m)))"
    using format_checksum_digits(1) checksum_range not_digit(3)
    by (auto simp: FIX_SOH_def list_all_iff)
  ultimately show "\<forall>s \<in> set (wire_segments m). s \<noteq> [] \<and> FIX_SOH \<notin> set s"
    using assms body_fields_ok [OF assms] field_text_ok
    by (auto simp: wire_segments_def encodable_def) (auto simp: FIX_SOH_def)
qed

lemma wire_is_joined:
  "prefix_text m @ ''10='' @ format_checksum (calculate_fix_checksum (prefix_text m)) @ [FIX_SOH] =
   joined (wire_segments m)"
  by (simp add: wire_segments_def prefix_text_def body_text_def)

lemma check_frame_wire:
  assumes "encodable m"
  shows "check_frame (joined (wire_segments m)) (int (length (body_text m)))
    (calculate_fix_checksum (prefix_text m)) = None"
proof -
  let ?c = "format_checksum (calculate_fix_checksum (prefix_text m)) @ [FIX_SOH]"
  have "CHR ''='' \<notin> set ?c"
    using format_checksum_digits(1) checksum_range not_digit(2)
    by (auto simp: FIX_SOH_def list_all_iff)
  then have pos: "sv_rfind ''10='' (joined (wire_segments m)) = Some (length (prefix_text m))"
    unfolding wire_is_joined [symmetric] by (rule rfind_checksum)
  have sub: "substr (joined (wire_segments m)) 0 (length (prefix_text m)) = prefix_text m"
    unfolding wire_is_joined [symmetric] by (simp add: substr_def)
  have "FIX_SOH \<notin> set (nat_to_string n)" for n
    using nat_to_string_chars not_digit(3) by (auto simp: FIX_SOH_def)
  then have "body_start (joined (wire_segments m)) =
      Some (length (''8='' @ fm_begin_string m) + 1 + length (''9='' @ nat_to_string (length (body_text m))))"
    using assms unfolding wire_is_joined [symmetric] prefix_text_def append_assoc
    by (intro body_start_joined) (auto simp: encodable_def FIX_SOH_def)
  with pos sub show ?thesis
    by (simp add: check_frame_def) (simp add: prefix_text_def)
qed

lemma parse_prefixed: "parse_field (''8='' @ v) = Some \<lparr>ff_tag = 8, ff_value = v\<rparr>"
  "parse_field (''9='' @ v) = Some \<lparr>ff_tag = 9, ff_value = v\<rparr>"
  "parse_field (''10='' @ v) = Some \<lparr>ff_tag = 10, ff_value = v\<rparr>"
  using parse_field_text [of "\<lparr>ff_tag = 8, ff_value = v\<rparr>"]
    parse_field_text [of "\<lparr>ff_tag = 9, ff_value = v\<rparr>"]
    parse_field_text [of "\<lparr>ff_tag = 10, ff_value = v\<rparr>"]
  by (simp_all add: field_text_def small_strings tag_ok_def)

lemma parse_body_received:
  assumes "encodable m"
  shows "parse_message_body (wire_segments m) (fm_begin_string m) (int (length (body_text m)))
    (calculate_fix_checksum (prefix_text m)) = Inr (received m)"
proof -
  have mid: "butlast (drop 2 (wire_segments m)) = map field_text (body_fields m)"
    by (simp add: wire_segments_def)
  have first: "parse_field (field_text \<lparr>ff_tag = 35, ff_value = v\<rparr>) = Some \<lparr>ff_tag = 35, ff_value = v\<rparr>" for v
    by (rule parse_field_text) (simp add: tag_ok_def)
  have rest: "\<forall>f \<in> set (sent_fields m). tag_ok (ff_tag f) \<and> ff_tag f \<noteq> 35"
    using assms by (auto simp: encodable_def sent_fields_def list_all_iff skipped_tag_def)
  show ?thesis
    using assms
    by (simp add: parse_message_body_def mid body_fields_def first type_of_code
        parse_body_texts [OF rest] received_def empty_message_def encodable_def)
qed

lemma parse_wire:
  assumes "encodable m"
  shows "parse_fix_message (joined (wire_segments m)) = Inr (received m)"
proof -
  let ?s = "wire_segments m" and ?c = "calculate_fix_checksum (prefix_text m)"
  have "length ?s \<ge> 4" "hd ?s = ''8='' @ fm_begin_string m"
    "?s ! 1 = ''9='' @ nat_to_string (length (body_text m))" "last ?s = ''10='' @ format_checksum ?c"
    by (simp_all add: wire_segments_def body_fields_def)
  moreover have "parse_integer (nat_to_string (length (body_text m))) = Some (int (length (body_text m)))"
    using parse_integer_int [of "int (length (body_text m))"] assms
    by (simp add: encodable_def tag_ok_def int_to_string_def)
  moreover have "parse_integer (format_checksum ?c) = Some ?c"
    using format_checksum_digits(2) checksum_range by blast
  ultimately show ?thesis
    using checksum_range [of "prefix_text m"] parse_prefixed
    by (simp add: parse_fix_message_def Let_def split_wire [OF assms] check_frame_wire [OF assms]
        parse_body_received [OF assms])
qed


definition demo_order_message :: fix_message where
  "demo_order_message = empty_message\<lparr>fm_type := NewOrderSingle, fm_fields :=
     [\<lparr>ff_tag = 49, ff_value = ''BUYER''\<rparr>, \<lparr>ff_tag = 10, ff_value = ''x''\<rparr>,
      \<lparr>ff_tag = 38, ff_value = ''100''\<rparr>]\<rparr>"


end
