(* ===== verification/Fix_Session.thy ===== *)
theory Fix_Session
  imports Fix
begin

text \<open>
  A FIX session, include/minimatch/fix\_session.hpp and src/fix\_session.cpp: the state machine
  from logon to logout, the two sequence counters, gap detection, and the administrative messages
  a session builds. An operation takes the session and returns its result with the session
  afterwards; an exception is the left summand and leaves the session alone. The counters are
  \<open>int\<close>: the code's are 32-bit and their overflow, at 2147483647, is undefined behaviour.
\<close>

datatype session_state = Disconnected | AwaitingLogon | Active | LogoutPending | Terminated

datatype session_reject =
    NoReject | InvalidState | InvalidSequenceNumber | MissingRequiredField | SenderMismatch
  | TargetMismatch | UnsupportedMessage | InvalidHeartbeatInterval

record session_config =
  sc_sender :: string
  sc_target :: string
  sc_heartbeat :: int
  sc_reset_on_logon :: bool

definition default_session_config :: session_config where
  "default_session_config = \<lparr>sc_sender = ''MINIMATCH'', sc_target = ''CLIENT'', sc_heartbeat = 30,
     sc_reset_on_logon = False\<rparr>"

record session_result =
  sr_accepted :: bool
  sr_reason :: session_reject
  sr_message :: string
  sr_response :: "fix_message option"
  sr_resend_begin :: "int option"
  sr_resend_end :: "int option"

record fix_session =
  fs_config :: session_config
  fs_state :: session_state
  fs_expected :: int
  fs_next_out :: int
  fs_last_received :: u64
  fs_last_sent :: u64

fun session_state_to_string :: "session_state \<Rightarrow> string" where
  "session_state_to_string Disconnected = ''DISCONNECTED''"
| "session_state_to_string AwaitingLogon = ''AWAITING_LOGON''"
| "session_state_to_string Active = ''ACTIVE''"
| "session_state_to_string LogoutPending = ''LOGOUT_PENDING''"
| "session_state_to_string Terminated = ''TERMINATED''"

fun session_reject_to_string :: "session_reject \<Rightarrow> string" where
  "session_reject_to_string NoReject = ''NONE''"
| "session_reject_to_string InvalidState = ''INVALID_STATE''"
| "session_reject_to_string InvalidSequenceNumber = ''INVALID_SEQUENCE_NUMBER''"
| "session_reject_to_string MissingRequiredField = ''MISSING_REQUIRED_FIELD''"
| "session_reject_to_string SenderMismatch = ''SENDER_MISMATCH''"
| "session_reject_to_string TargetMismatch = ''TARGET_MISMATCH''"
| "session_reject_to_string UnsupportedMessage = ''UNSUPPORTED_MESSAGE''"
| "session_reject_to_string InvalidHeartbeatInterval = ''INVALID_HEARTBEAT_INTERVAL''"

section \<open>Building blocks\<close>

definition nanoseconds_per_second :: u64 where
  "nanoseconds_per_second = 1000000000"

definition parse_positive_integer :: "string option \<Rightarrow> int option" where
  "parse_positive_integer v =
     (case v of
        None \<Rightarrow> None
      | Some s \<Rightarrow>
          (case parse_signed 32 s of
             None \<Rightarrow> None | Some i \<Rightarrow> if i \<le> 0 then None else Some i))"

definition new_session :: "session_config \<Rightarrow> string + fix_session" where
  "new_session c =
     (if sc_sender c = [] \<or> sc_target c = [] then Inl ''FIX session CompIDs cannot be empty''
      else if sc_heartbeat c \<le> 0 then Inl ''FIX heartbeat interval must be positive''
      else Inr \<lparr>fs_config = c, fs_state = Disconnected, fs_expected = 1, fs_next_out = 1,
             fs_last_received = 0, fs_last_sent = 0\<rparr>)"

definition sequence_number :: "fix_message \<Rightarrow> int option" where
  "sequence_number m = parse_positive_integer (fm_get m 34)"

definition validate_comp_ids :: "fix_message \<Rightarrow> fix_session \<Rightarrow> bool" where
  "validate_comp_ids m s \<longleftrightarrow>
     fm_get m 49 = Some (sc_target (fs_config s)) \<and> fm_get m 56 = Some (sc_sender (fs_config s))"

text \<open>The header every outgoing message gets; the counter and the time of the last message move.\<close>

definition stamp_outgoing :: "fix_message \<Rightarrow> u64 \<Rightarrow> fix_session \<Rightarrow> fix_message \<times> fix_session" where
  "stamp_outgoing m ts s =
     (let m = fm_set 34 (int_to_string (fs_next_out s)) m;
          s = s\<lparr>fs_next_out := fs_next_out s + 1\<rparr>;
          m = fm_set 49 (sc_sender (fs_config s)) m;
          m = fm_set 56 (sc_target (fs_config s)) m;
          m = fm_set 52 (nat_to_string (unat ts)) m in
      (m, s\<lparr>fs_last_sent := ts\<rparr>))"

definition create_admin_message ::
  "fix_message_type \<Rightarrow> u64 \<Rightarrow> fix_session \<Rightarrow> fix_message \<times> fix_session" where
  "create_admin_message ty ts s = stamp_outgoing (empty_message\<lparr>fm_type := ty\<rparr>) ts s"

definition result_of ::
  "bool \<Rightarrow> session_reject \<Rightarrow> string \<Rightarrow> fix_message option \<Rightarrow> session_result" where
  "result_of ok re msg resp = \<lparr>sr_accepted = ok, sr_reason = re, sr_message = msg,
     sr_response = resp, sr_resend_begin = None, sr_resend_end = None\<rparr>"

definition reject_with ::
  "session_reject \<Rightarrow> string \<Rightarrow> u64 \<Rightarrow> fix_session \<Rightarrow> session_result \<times> fix_session" where
  "reject_with re msg ts s =
     (case create_admin_message Reject ts s of
        (m, s) \<Rightarrow> (result_of False re msg (Some (fm_set 58 msg m)), s))"

section \<open>Messages a session sends\<close>

definition create_logon :: "u64 \<Rightarrow> fix_session \<Rightarrow> (string + fix_message) \<times> fix_session" where
  "create_logon ts s =
     (if fs_state s \<noteq> Disconnected \<and> fs_state s \<noteq> AwaitingLogon
      then (Inl ''cannot send logon in current FIX state'', s)
      else
        let reset = sc_reset_on_logon (fs_config s);
            s = (if reset then s\<lparr>fs_expected := 1, fs_next_out := 1\<rparr> else s);
            s = s\<lparr>fs_state := AwaitingLogon\<rparr> in
        case create_admin_message Logon ts s of
          (m, s) \<Rightarrow>
            let m = fm_set 98 ''0'' m;
                m = fm_set 108 (int_to_string (sc_heartbeat (fs_config s))) m in
            (Inr (if reset then fm_set 141 ''Y'' m else m), s))"

definition create_logout :: "u64 \<Rightarrow> string \<Rightarrow> fix_session \<Rightarrow> (string + fix_message) \<times> fix_session" where
  "create_logout ts txt s =
     (if fs_state s \<noteq> Active then (Inl ''cannot send logout when session is not active'', s)
      else
        case create_admin_message Logout ts (s\<lparr>fs_state := LogoutPending\<rparr>) of
          (m, s) \<Rightarrow> (Inr (if txt \<noteq> [] then fm_set 58 txt m else m), s))"

definition create_heartbeat :: "u64 \<Rightarrow> string \<Rightarrow> fix_session \<Rightarrow> fix_message \<times> fix_session" where
  "create_heartbeat ts req s =
     (case create_admin_message Heartbeat ts s of
        (m, s) \<Rightarrow> (if req \<noteq> [] then fm_set 112 req m else m, s))"

definition create_test_request ::
  "u64 \<Rightarrow> string \<Rightarrow> fix_session \<Rightarrow> (string + fix_message) \<times> fix_session" where
  "create_test_request ts req s =
     (if req = [] then (Inl ''TestReqID cannot be empty'', s)
      else case create_admin_message TestRequest ts s of
        (m, s) \<Rightarrow> (Inr (fm_set 112 req m), s))"

definition prepare_outbound ::
  "fix_message \<Rightarrow> u64 \<Rightarrow> fix_session \<Rightarrow> (string + fix_message) \<times> fix_session" where
  "prepare_outbound m ts s =
     (if fs_state s \<noteq> Active \<and> fm_type m \<noteq> Logon \<and> fm_type m \<noteq> Logout \<and> fm_type m \<noteq> Reject
      then (Inl ''cannot send application message while FIX session is inactive'', s)
      else case stamp_outgoing m ts s of (m, s) \<Rightarrow> (Inr m, s))"

section \<open>Timers and persistence\<close>

definition heartbeat_due :: "u64 \<Rightarrow> fix_session \<Rightarrow> bool" where
  "heartbeat_due ts s \<longleftrightarrow>
     (if fs_state s \<noteq> Active \<or> fs_last_sent s = 0 then False
      else ts \<ge> fs_last_sent s + of_int (sc_heartbeat (fs_config s)) * nanoseconds_per_second)"

definition test_request_due :: "u64 \<Rightarrow> fix_session \<Rightarrow> bool" where
  "test_request_due ts s \<longleftrightarrow>
     (if fs_state s \<noteq> Active \<or> fs_last_received s = 0 then False
      else ts \<ge> fs_last_received s + of_int (sc_heartbeat (fs_config s)) * nanoseconds_per_second * 2)"

definition reset_session :: "fix_session \<Rightarrow> fix_session" where
  "reset_session s = s\<lparr>fs_state := Disconnected, fs_expected := 1, fs_next_out := 1,
     fs_last_received := 0, fs_last_sent := 0\<rparr>"

definition restore_sequence_state ::
  "int \<Rightarrow> int \<Rightarrow> u64 \<Rightarrow> u64 \<Rightarrow> fix_session \<Rightarrow> (string + unit) \<times> fix_session" where
  "restore_sequence_state next_in next_out rcv sent s =
     (if next_in \<le> 0 \<or> next_out \<le> 0
      then (Inl ''FIX restored sequence numbers must be positive'', s)
      else (Inr (), s\<lparr>fs_expected := next_in, fs_next_out := next_out,
              fs_last_received := rcv, fs_last_sent := sent\<rparr>))"

section \<open>Receiving\<close>

definition process_logon :: "fix_message \<Rightarrow> u64 \<Rightarrow> fix_session \<Rightarrow> session_result \<times> fix_session" where
  "process_logon m ts s =
     (if fs_state s \<noteq> Disconnected \<and> fs_state s \<noteq> AwaitingLogon
      then reject_with InvalidState ''duplicate or unexpected logon'' ts s
      else case parse_positive_integer (fm_get m 108) of
        None \<Rightarrow> reject_with InvalidHeartbeatInterval ''missing or invalid HeartBtInt'' ts s
      | Some heartbeat \<Rightarrow>
          let s = s\<lparr>fs_config := (fs_config s)\<lparr>sc_heartbeat := heartbeat\<rparr>, fs_state := Active\<rparr> in
          case create_admin_message Logon ts s of
            (r, s) \<Rightarrow>
              let r = fm_set 98 ''0'' r;
                  r = fm_set 108 (int_to_string (sc_heartbeat (fs_config s))) r in
              (result_of True NoReject ''logon accepted'' (Some r), s))"

definition process_logout :: "u64 \<Rightarrow> fix_session \<Rightarrow> session_result \<times> fix_session" where
  "process_logout ts s =
     (if fs_state s = Terminated then reject_with InvalidState ''session already terminated'' ts s
      else if fs_state s \<noteq> LogoutPending then
        (case create_admin_message Logout ts s of
           (r, s) \<Rightarrow> (result_of True NoReject ''logout accepted'' (Some r), s\<lparr>fs_state := Terminated\<rparr>))
      else (result_of True NoReject ''logout accepted'' None, s\<lparr>fs_state := Terminated\<rparr>))"

definition process_heartbeat :: "fix_session \<Rightarrow> session_result \<times> fix_session" where
  "process_heartbeat s =
     (if fs_state s \<noteq> Active
      then (result_of False InvalidState ''heartbeat received while session inactive'' None, s)
      else (result_of True NoReject ''heartbeat accepted'' None, s))"

definition process_test_request ::
  "fix_message \<Rightarrow> u64 \<Rightarrow> fix_session \<Rightarrow> session_result \<times> fix_session" where
  "process_test_request m ts s =
     (if fs_state s \<noteq> Active
      then reject_with InvalidState ''test request received while session inactive'' ts s
      else case fm_get m 112 of
        None \<Rightarrow> reject_with MissingRequiredField ''missing TestReqID'' ts s
      | Some req \<Rightarrow>
          if req = [] then reject_with MissingRequiredField ''missing TestReqID'' ts s
          else case create_heartbeat ts req s of
            (r, s) \<Rightarrow> (result_of True NoReject ''test request accepted'' (Some r), s))"

definition process_resend_request :: "fix_message \<Rightarrow> fix_session \<Rightarrow> session_result \<times> fix_session" where
  "process_resend_request m s =
     (if fs_state s \<noteq> Active
      then (result_of False InvalidState ''resend request received while session inactive'' None, s)
      else if fm_get m 7 = None \<or> fm_get m 16 = None
      then (result_of False MissingRequiredField ''missing BeginSeqNo or EndSeqNo'' None, s)
      else case (parse_positive_integer (fm_get m 7), parse_positive_integer (fm_get m 16)) of
        (Some b, Some e) \<Rightarrow>
          if e < b then (result_of False InvalidSequenceNumber ''invalid resend sequence range'' None, s)
          else ((result_of True NoReject ''resend request accepted'' None)
                  \<lparr>sr_resend_begin := Some b, sr_resend_end := Some e\<rparr>, s)
      | _ \<Rightarrow> (result_of False InvalidSequenceNumber ''invalid resend sequence range'' None, s))"

definition process_sequence_reset :: "fix_message \<Rightarrow> fix_session \<Rightarrow> session_result \<times> fix_session" where
  "process_sequence_reset m s =
     (case parse_positive_integer (fm_get m 36) of
        None \<Rightarrow> (result_of False MissingRequiredField ''missing or invalid NewSeqNo'' None, s)
      | Some n \<Rightarrow>
          if n < fs_expected s
          then (result_of False InvalidSequenceNumber ''sequence reset moves session backwards'' None, s)
          else (result_of True NoReject ''sequence reset accepted'' None, s\<lparr>fs_expected := n\<rparr>))"

text \<open>The dispatch on a message that is next in sequence.\<close>

definition dispatch :: "fix_message \<Rightarrow> u64 \<Rightarrow> fix_session \<Rightarrow> session_result \<times> fix_session" where
  "dispatch m ts s =
     (case fm_type m of
        Logon \<Rightarrow> process_logon m ts s
      | Logout \<Rightarrow> process_logout ts s
      | Heartbeat \<Rightarrow> process_heartbeat s
      | TestRequest \<Rightarrow> process_test_request m ts s
      | ResendRequest \<Rightarrow> process_resend_request m s
      | SequenceReset \<Rightarrow> process_sequence_reset m s
      | NewOrderSingle \<Rightarrow>
          if fs_state s \<noteq> Active
          then reject_with InvalidState ''application message received before logon'' ts s
          else (result_of True NoReject ''accepted'' None, s)
      | OrderCancelRequest \<Rightarrow>
          if fs_state s \<noteq> Active
          then reject_with InvalidState ''application message received before logon'' ts s
          else (result_of True NoReject ''accepted'' None, s)
      | _ \<Rightarrow> reject_with UnsupportedMessage ''unsupported FIX message type'' ts s)"

definition receive_gap :: "int \<Rightarrow> u64 \<Rightarrow> fix_session \<Rightarrow> session_result \<times> fix_session" where
  "receive_gap n ts s =
     (case create_admin_message ResendRequest ts s of
        (r, s) \<Rightarrow>
          let r = fm_set 7 (int_to_string (fs_expected s)) r;
              r = fm_set 16 (int_to_string (n - 1)) r in
          ((result_of False InvalidSequenceNumber ''incoming sequence gap detected'' (Some r))
             \<lparr>sr_resend_begin := Some (fs_expected s), sr_resend_end := Some (n - 1)\<rparr>, s))"

definition receive :: "fix_message \<Rightarrow> u64 \<Rightarrow> fix_session \<Rightarrow> session_result \<times> fix_session" where
  "receive m ts s =
     (if \<not> validate_comp_ids m s \<and> fm_get m 49 \<noteq> Some (sc_target (fs_config s))
      then reject_with SenderMismatch ''unexpected SenderCompID'' ts s
      else if \<not> validate_comp_ids m s \<and> fm_get m 56 \<noteq> Some (sc_sender (fs_config s))
      then reject_with TargetMismatch ''unexpected TargetCompID'' ts s
      else case sequence_number m of
        None \<Rightarrow> reject_with MissingRequiredField ''missing or invalid MsgSeqNum'' ts s
      | Some n \<Rightarrow>
          if n > fs_expected s then receive_gap n ts s
          else if n < fs_expected s
          then reject_with InvalidSequenceNumber ''incoming sequence number is too low'' ts s
          else dispatch m ts (s\<lparr>fs_expected := fs_expected s + 1, fs_last_received := ts\<rparr>))"

section \<open>Fields of the messages a session builds\<close>

lemma fields_get_set: "fields_get t (fields_set t' v fs) = (if t = t' then Some v else fields_get t fs)"
  by (induction fs) auto

lemma fm_get_set [simp]: "fm_get (fm_set t v m) t' = (if t' = t then Some v else fm_get m t')"
  by (simp add: fm_get_def fm_set_def fields_get_set)

lemma fm_set_type [simp]: "fm_type (fm_set t v m) = fm_type m"
  by (simp add: fm_set_def)

lemma fm_get_empty [simp]: "fm_get (empty_message\<lparr>fm_type := ty\<rparr>) t = None"
  by (simp add: fm_get_def empty_message_def)

text \<open>What stamping does, once and for all.\<close>

lemma stamp_outgoing_eq:
  "stamp_outgoing m ts s =
     (fm_set 52 (nat_to_string (unat ts)) (fm_set 56 (sc_target (fs_config s))
        (fm_set 49 (sc_sender (fs_config s)) (fm_set 34 (int_to_string (fs_next_out s)) m))),
      s\<lparr>fs_next_out := fs_next_out s + 1, fs_last_sent := ts\<rparr>)"
  by (simp add: stamp_outgoing_def Let_def)

lemmas session_defs = create_admin_message_def stamp_outgoing_eq reject_with_def result_of_def
  process_logon_def process_logout_def process_heartbeat_def process_test_request_def
  process_resend_request_def process_sequence_reset_def create_heartbeat_def receive_gap_def
  dispatch_def Let_def

section \<open>Sequence numbers\<close>

definition numbered :: "fix_message option \<Rightarrow> fix_session \<Rightarrow> fix_session \<Rightarrow> bool" where
  "numbered r s s' \<longleftrightarrow>
     (case r of
        None \<Rightarrow> fs_next_out s' = fs_next_out s
      | Some m \<Rightarrow> fm_get m 34 = Some (int_to_string (fs_next_out s)) \<and>
          fm_get m 49 = Some (sc_sender (fs_config s)) \<and> fm_get m 56 = Some (sc_target (fs_config s)) \<and>
          fs_next_out s' = fs_next_out s + 1)"

lemma numbered_reject:
  "numbered (sr_response (fst (reject_with re msg ts s))) s (snd (reject_with re msg ts s))"
  by (simp add: numbered_def session_defs)

lemma numbered_dispatch:
  "numbered (sr_response (fst (dispatch m ts s))) s (snd (dispatch m ts s))"
  by (cases "fm_type m")
    (auto simp: numbered_def session_defs split: option.splits)

lemma numbered_receive:
  "numbered (sr_response (fst (receive m ts s))) s (snd (receive m ts s))"
proof -
  have "numbered (sr_response (fst (receive_gap n ts s))) s (snd (receive_gap n ts s))" for n
    by (simp add: numbered_def session_defs)
  moreover have "numbered r (s\<lparr>fs_expected := e, fs_last_received := t\<rparr>) s' = numbered r s s'" for r e t s'
    by (simp add: numbered_def split: option.split)
  ultimately show ?thesis
    using numbered_reject numbered_dispatch [of m ts "s\<lparr>fs_expected := fs_expected s + 1, fs_last_received := ts\<rparr>"]
    by (auto simp: receive_def split: option.splits)
qed

lemma config_ids_receive:
  "sc_sender (fs_config (snd (receive m ts s))) = sc_sender (fs_config s) \<and>
   sc_target (fs_config (snd (receive m ts s))) = sc_target (fs_config s)"
  by (cases "fm_type m") (auto simp: receive_def session_defs split: option.splits)

section \<open>Histories of a session\<close>

datatype session_op =
    Receive fix_message u64
  | SendLogon u64
  | SendLogout u64 string
  | SendHeartbeat u64 string
  | SendTestRequest u64 string
  | SendOutbound fix_message u64

fun session_step :: "session_op \<Rightarrow> fix_session \<Rightarrow> fix_message list \<times> fix_session" where
  "session_step (Receive m ts) s =
     (case receive m ts s of (r, s) \<Rightarrow> (case sr_response r of None \<Rightarrow> [] | Some x \<Rightarrow> [x], s))"
| "session_step (SendLogon ts) s =
     (case create_logon ts s of (r, s) \<Rightarrow> (case r of Inl _ \<Rightarrow> [] | Inr m \<Rightarrow> [m], s))"
| "session_step (SendLogout ts txt) s =
     (case create_logout ts txt s of (r, s) \<Rightarrow> (case r of Inl _ \<Rightarrow> [] | Inr m \<Rightarrow> [m], s))"
| "session_step (SendHeartbeat ts req) s = (case create_heartbeat ts req s of (m, s) \<Rightarrow> ([m], s))"
| "session_step (SendTestRequest ts req) s =
     (case create_test_request ts req s of (r, s) \<Rightarrow> (case r of Inl _ \<Rightarrow> [] | Inr m \<Rightarrow> [m], s))"
| "session_step (SendOutbound m ts) s =
     (case prepare_outbound m ts s of (r, s) \<Rightarrow> (case r of Inl _ \<Rightarrow> [] | Inr m \<Rightarrow> [m], s))"

fun session_run :: "session_op list \<Rightarrow> fix_session \<Rightarrow> fix_message list \<times> fix_session" where
  "session_run [] s = ([], s)"
| "session_run (x # xs) s =
     (case session_step x s of (ms, s) \<Rightarrow> (case session_run xs s of (ns, s) \<Rightarrow> (ms @ ns, s)))"

definition sent_numbers :: "fix_message list \<Rightarrow> string option list" where
  "sent_numbers ms = map (\<lambda>m. fm_get m 34) ms"

definition numbers_from :: "int \<Rightarrow> nat \<Rightarrow> string option list" where
  "numbers_from k n = map (\<lambda>i. Some (int_to_string (k + int i))) [0..<n]"

lemma numbers_from_Suc: "numbers_from k (Suc n) = Some (int_to_string k) # numbers_from (k + 1) n"
  by (simp add: numbers_from_def upt_conv_Cons map_Suc_upt [symmetric] add.assoc del: upt_Suc)

lemma numbers_from_add: "numbers_from k (m + n) = numbers_from k m @ numbers_from (k + int m) n"
  by (induction m arbitrary: k) (simp_all add: numbers_from_Suc add.assoc, simp add: numbers_from_def)

lemma step_numbers:
  assumes "\<not> sc_reset_on_logon (fs_config s)" and "session_step x s = (ms, s')"
  shows "sent_numbers ms = numbers_from (fs_next_out s) (length ms)"
    and "fs_next_out s' = fs_next_out s + int (length ms)" and "\<not> sc_reset_on_logon (fs_config s')"
proof -
  have one: "numbers_from k 0 = []" "numbers_from k (Suc 0) = [Some (int_to_string k)]" for k
    by (simp_all add: numbers_from_def)
  have reset: "sc_reset_on_logon (fs_config (snd (receive m ts s))) = sc_reset_on_logon (fs_config s)" for m ts
    by (cases "fm_type m") (auto simp: receive_def session_defs split: option.splits)
  have "sent_numbers ms = numbers_from (fs_next_out s) (length ms) \<and>
      fs_next_out s' = fs_next_out s + int (length ms) \<and> \<not> sc_reset_on_logon (fs_config s')"
  proof (cases x)
    case (Receive m ts)
    then show ?thesis
      using assms numbered_receive [of m ts s] reset [of m ts]
      by (cases "receive m ts s"; cases "sr_response (fst (receive m ts s))")
        (auto simp: numbered_def sent_numbers_def one)
  qed (use assms in \<open>auto simp: sent_numbers_def one create_logon_def create_logout_def session_defs
      create_test_request_def prepare_outbound_def split: if_splits\<close>)
  then show "sent_numbers ms = numbers_from (fs_next_out s) (length ms)"
    "fs_next_out s' = fs_next_out s + int (length ms)" "\<not> sc_reset_on_logon (fs_config s')" by auto
qed

text \<open>Whatever a session receives and is asked to send, the messages it sends carry the
  consecutive sequence numbers that start at its counter (logon not resetting the counters).\<close>

theorem session_numbers:
  assumes "\<not> sc_reset_on_logon (fs_config s)" and "session_run xs s = (ms, s')"
  shows "sent_numbers ms = numbers_from (fs_next_out s) (length ms) \<and>
    fs_next_out s' = fs_next_out s + int (length ms)"
  using assms
proof (induction xs arbitrary: s ms s')
  case (Cons x xs)
  obtain ms1 s1 where x: "session_step x s = (ms1, s1)" by (cases "session_step x s")
  obtain ms2 s2 where xs: "session_run xs s1 = (ms2, s2)" by (cases "session_run xs s1")
  note step = step_numbers [OF Cons.prems(1) x]
  have "ms = ms1 @ ms2" "s' = s2" using Cons.prems(2) x xs by auto
  with step Cons.IH [OF step(3) xs] show ?case
    by (simp add: numbers_from_add) (simp add: sent_numbers_def)
qed (simp add: sent_numbers_def numbers_from_def)

definition demo_session :: fix_session where
  "demo_session = \<lparr>fs_config = default_session_config, fs_state = Disconnected, fs_expected = 1,
     fs_next_out = 1, fs_last_received = 0, fs_last_sent = 0\<rparr>"

theorem session_numbers_witness:
  "sent_numbers (fst (session_run [SendLogon 5, SendHeartbeat 6 ''x''] demo_session)) =
     [Some ''1'', Some ''2'']"
proof -
  let ?r = "session_run [SendLogon 5, SendHeartbeat 6 ''x''] demo_session"
  have "length (fst ?r) = 2" "fs_next_out demo_session = 1" by code_simp+
  moreover have "\<not> sc_reset_on_logon (fs_config demo_session)" by code_simp
  moreover have "numbers_from 1 2 = [Some ''1'', Some ''2'']" by code_simp
  ultimately show ?thesis
    using session_numbers [of demo_session "[SendLogon 5, SendHeartbeat 6 ''x'']" "fst ?r" "snd ?r"]
    by simp
qed

section \<open>The state machine\<close>

fun session_transition :: "session_state \<Rightarrow> session_state \<Rightarrow> bool" where
  "session_transition Disconnected t = (t \<noteq> LogoutPending)"
| "session_transition AwaitingLogon t = (t \<in> {AwaitingLogon, Active, Terminated})"
| "session_transition Active t = (t \<in> {Active, LogoutPending, Terminated})"
| "session_transition LogoutPending t = (t \<in> {LogoutPending, Terminated})"
| "session_transition Terminated t = (t = Terminated)"

lemma transition_refl [simp]: "session_transition s s"
  by (cases s) simp_all

lemma receive_state:
  "session_transition (fs_state s) (fs_state (snd (receive m ts s)))"
  by (cases "fm_type m"; cases "fs_state s")
    (auto simp: receive_def session_defs split: option.splits)

lemma step_state: "session_transition (fs_state s) (fs_state (snd (session_step x s)))"
proof (cases x)
  case (Receive m ts)
  with receive_state [of s m ts] show ?thesis by (cases "receive m ts s") simp
qed (cases "fs_state s"; auto simp: create_logon_def create_logout_def session_defs
    create_test_request_def prepare_outbound_def)+

fun session_rank :: "session_state \<Rightarrow> nat" where
  "session_rank Disconnected = 0"
| "session_rank AwaitingLogon = 1"
| "session_rank Active = 2"
| "session_rank LogoutPending = 3"
| "session_rank Terminated = 4"

lemma transition_rank: "session_transition a b \<Longrightarrow> session_rank a \<le> session_rank b"
  by (cases a; cases b) simp_all

text \<open>Every operation moves the session along an edge of its state diagram, and no sequence of
  operations takes it back: only a reset starts a session again.\<close>

theorem session_state_machine:
  "session_transition (fs_state s) (fs_state (snd (session_step x s))) \<and>
   session_rank (fs_state s) \<le> session_rank (fs_state (snd (session_run xs s)))"
proof
  show "session_rank (fs_state s) \<le> session_rank (fs_state (snd (session_run xs s)))"
  proof (induction xs arbitrary: s)
    case (Cons y xs)
    with transition_rank [OF step_state, of s y] Cons [of "snd (session_step y s)"] show ?case
      by (auto split: prod.split) (metis order_trans snd_conv)
  qed simp
qed (rule step_state)




section \<open>Two sessions\<close>

text \<open>
  Two sessions that send each other what the other answers: \<open>exchange n\<close> hands \<open>m\<close> to \<open>s\<close> and the
  answers back and forth, and counts the messages that were delivered, \<open>n\<close> at most.
\<close>

fun exchange :: "nat \<Rightarrow> fix_message \<Rightarrow> u64 \<Rightarrow> fix_session \<Rightarrow> fix_session \<Rightarrow> nat" where
  "exchange 0 m ts s p = 0"
| "exchange (Suc n) m ts s p =
     (case receive m ts s of
        (r, s) \<Rightarrow> (case sr_response r of None \<Rightarrow> 1 | Some x \<Rightarrow> Suc (exchange n x ts p s)))"

definition mirrored :: "fix_session \<Rightarrow> fix_session \<Rightarrow> bool" where
  "mirrored s p \<longleftrightarrow> sc_sender (fs_config s) = sc_target (fs_config p) \<and>
     sc_target (fs_config s) = sc_sender (fs_config p)"

text \<open>\<open>m\<close> is the next message of \<open>p\<close> to \<open>s\<close>, and \<open>p\<close> has everything \<open>s\<close> sent.\<close>

definition in_flight :: "fix_message \<Rightarrow> fix_session \<Rightarrow> fix_session \<Rightarrow> bool" where
  "in_flight m p s \<longleftrightarrow>
     mirrored s p \<and> 0 < fs_expected s \<and> 0 < fs_expected p \<and>
     fm_get m 34 = Some (int_to_string (fs_expected s)) \<and>
     fm_get m 49 = Some (sc_target (fs_config s)) \<and> fm_get m 56 = Some (sc_sender (fs_config s)) \<and>
     fs_next_out p = fs_expected s + 1 \<and> fs_next_out s = fs_expected p"

lemma parse_positive_int: "0 < i \<Longrightarrow> i < 2 ^ 31 \<Longrightarrow> parse_positive_integer (Some (int_to_string i)) = Some i"
  by (simp add: parse_positive_integer_def parse_signed_int)

lemma receive_in_flight:
  assumes "in_flight m p s" and "fs_expected s < 2 ^ 31"
  shows "receive m ts s = dispatch m ts (s\<lparr>fs_expected := fs_expected s + 1, fs_last_received := ts\<rparr>)"
  using assms parse_positive_int [of "fs_expected s"]
  by (simp add: receive_def in_flight_def validate_comp_ids_def sequence_number_def)

lemma in_flight_reject:
  assumes "in_flight m p s"
  shows "\<exists>r s'. reject_with re msg ts (s\<lparr>fs_expected := fs_expected s + 1, fs_last_received := t\<rparr>) = (r, s') \<and>
    (\<exists>x. sr_response r = Some x \<and> fm_type x = Reject \<and> in_flight x s' p \<and>
      fs_expected s' = fs_expected s + 1 \<and> fs_state s' = fs_state s)"
  using assms by (auto simp: in_flight_def mirrored_def session_defs)

lemma reject_storm:
  assumes "in_flight m p s" and "fm_type m = Reject"
    and "fs_expected s + int n < 2 ^ 31" and "fs_expected p + int n < 2 ^ 31"
  shows "exchange n m ts s p = n"
  using assms
proof (induction n arbitrary: m s p)
  case (Suc n)
  from Suc.prems have rc: "receive m ts s = reject_with UnsupportedMessage ''unsupported FIX message type'' ts
      (s\<lparr>fs_expected := fs_expected s + 1, fs_last_received := ts\<rparr>)"
    by (simp add: receive_in_flight dispatch_def)
  obtain r s' x where r: "receive m ts s = (r, s')" "sr_response r = Some x" "fm_type x = Reject"
      "in_flight x s' p" "fs_expected s' = fs_expected s + 1"
    unfolding rc using in_flight_reject [OF Suc.prems(1)] by metis
  have "exchange n x ts p s' = n"
    by (rule Suc.IH [OF r(4,3)]) (use Suc.prems r(5) in simp_all)
  with r show ?case by simp
qed simp

definition fresh_pair :: "fix_session \<Rightarrow> fix_session \<Rightarrow> bool" where
  "fresh_pair a b \<longleftrightarrow> mirrored a b \<and> fs_state a = Disconnected \<and> fs_state b = Disconnected \<and>
     fs_expected a = 1 \<and> fs_next_out a = 1 \<and> fs_expected b = 1 \<and> fs_next_out b = 1 \<and>
     0 < sc_heartbeat (fs_config a) \<and> sc_heartbeat (fs_config a) < 2 ^ 31"

text \<open>The three messages a logon sets off: the logon, its confirmation, and the answer to that.\<close>

lemma logon_exchange:
  assumes "fresh_pair a b"
  obtains m a1 r b1 x r' a2 y where "create_logon ts a = (Inr m, a1)"
    and "receive m ts b = (r, b1)" and "sr_accepted r" and "sr_response r = Some x"
    and "receive x ts a1 = (r', a2)" and "sr_accepted r'" and "sr_response r' = Some y"
    and "fm_type y = Logon" and "in_flight y a2 b1" and "fs_state a2 = Active" and "fs_state b1 = Active"
    and "sc_heartbeat (fs_config a2) = sc_heartbeat (fs_config a)"
    and "sc_heartbeat (fs_config b1) = sc_heartbeat (fs_config a)"
    and "fs_expected a2 = 2" and "fs_expected b1 = 2" and "fs_next_out b1 = 2" and "fs_next_out a1 = 2"
proof -
  note assms = assms [unfolded fresh_pair_def]
  define a1 where "a1 = a\<lparr>fs_state := AwaitingLogon, fs_next_out := 2, fs_last_sent := ts\<rparr>"
  obtain m where m: "create_logon ts a = (Inr m, a1)" "fm_type m = Logon" "in_flight m a1 b"
    "fm_get m 108 = Some (int_to_string (sc_heartbeat (fs_config a)))"
    using assms
    by (simp add: create_logon_def session_defs a1_def in_flight_def mirrored_def)
  have hb: "parse_positive_integer (Some (int_to_string (sc_heartbeat (fs_config a)))) =
      Some (sc_heartbeat (fs_config a))"
    by (rule parse_positive_int) (use assms in auto)
  have rb: "receive m ts b = process_logon m ts (b\<lparr>fs_expected := 2, fs_last_received := ts\<rparr>)"
    using receive_in_flight [OF m(3)] assms by (simp add: dispatch_def m(2))
  obtain r b1 x where b1: "receive m ts b = (r, b1)" "sr_accepted r" "sr_response r = Some x"
    "fm_type x = Logon" "in_flight x b1 a1" "fs_state b1 = Active" "fs_next_out b1 = 2" "fs_expected b1 = 2"
    "sc_heartbeat (fs_config b1) = sc_heartbeat (fs_config a)"
    "fm_get x 108 = Some (int_to_string (sc_heartbeat (fs_config a)))"
    using assms m(3,4) hb unfolding rb
    by (simp add: session_defs a1_def in_flight_def mirrored_def)
  have ra: "receive x ts a1 = process_logon x ts (a1\<lparr>fs_expected := 2, fs_last_received := ts\<rparr>)"
    using receive_in_flight [OF b1(5)] assms by (simp add: dispatch_def b1(4) a1_def)
  have mir: "sc_sender (fs_config b1) = sc_target (fs_config a)"
    "sc_target (fs_config b1) = sc_sender (fs_config a)"
    using b1(5) by (simp_all add: in_flight_def mirrored_def a1_def)
  define y where "y = fm_set 108 (int_to_string (sc_heartbeat (fs_config a)))
    (fm_set 98 ''0'' (fst (create_admin_message Logon ts a1)))"
  define a2 where "a2 = a1\<lparr>fs_expected := 2, fs_last_received := ts, fs_state := Active,
    fs_next_out := 3, fs_last_sent := ts\<rparr>"
  have ra2: "receive x ts a1 = (result_of True NoReject ''logon accepted'' (Some y), a2)"
    unfolding ra using hb b1(10) by (simp add: session_defs a1_def a2_def y_def)
  have fl: "in_flight y a2 b1"
    using mir b1(7,8) assms
    by (simp add: in_flight_def mirrored_def y_def a2_def a1_def session_defs)
  show thesis
    by (rule that [OF m(1) b1(1-3) ra2 _ _ _ fl _ b1(6) _ b1(9) _ b1(8) b1(7)])
      (simp_all add: result_of_def y_def a2_def a1_def create_admin_message_def stamp_outgoing_eq)
qed

text \<open>The handshake: the logon of a fresh session, received by a fresh session with mirrored
  identifiers, is accepted, and so is the answer to it; both sessions are then active, agree on the
  heartbeat interval, and expect each other's next number.\<close>

theorem logon_handshake:
  assumes "fresh_pair a b"
  shows "\<exists>m a1 r b1 x r' a2. create_logon ts a = (Inr m, a1) \<and> receive m ts b = (r, b1) \<and>
    sr_accepted r \<and> sr_response r = Some x \<and> receive x ts a1 = (r', a2) \<and> sr_accepted r' \<and>
    fs_state a2 = Active \<and> fs_state b1 = Active \<and>
    sc_heartbeat (fs_config a2) = sc_heartbeat (fs_config a) \<and>
    sc_heartbeat (fs_config b1) = sc_heartbeat (fs_config a) \<and>
    fs_expected a2 = fs_next_out b1 \<and> fs_next_out a1 = fs_expected b1"
  by (rule logon_exchange [OF assms, of ts]) auto

definition demo_client :: fix_session where
  "demo_client = demo_session\<lparr>fs_config := default_session_config
     \<lparr>sc_sender := ''CLIENT'', sc_target := ''MINIMATCH''\<rparr>\<rparr>"

lemma demo_fresh: "fresh_pair demo_client demo_session"
  by (simp add: fresh_pair_def mirrored_def demo_client_def demo_session_def default_session_config_def)

theorem logon_handshake_witness:
  "\<exists>m a1 r b1. create_logon 5 demo_client = (Inr m, a1) \<and> receive m 5 demo_session = (r, b1) \<and>
     fs_state b1 = Active"
  using logon_handshake [OF demo_fresh, of 5] by blast

text \<open>A session answers a Reject with a Reject, and the confirmation of its logon with another
  logon: two sessions whose answers are delivered to each other never fall silent.\<close>

theorem sessions_never_silent:
  assumes "fresh_pair a b" and "int n < 2 ^ 31 - 8" and "create_logon ts a = (Inr m, a1)"
  shows "exchange n m ts b a1 = n"
proof (rule logon_exchange [OF assms(1), of ts])
  fix m' a1' r b1 x r' a2 y
  assume m': "create_logon ts a = (Inr m', a1')" and b1: "receive m' ts b = (r, b1)" "sr_response r = Some x"
    and a2: "receive x ts a1' = (r', a2)" "sr_response r' = Some y"
    and y: "fm_type y = Logon" "in_flight y a2 b1" and st: "fs_state b1 = Active"
    and ex: "fs_expected a2 = 2" "fs_expected b1 = 2"
  have eq: "m' = m" "a1' = a1" using m' assms(3) by simp_all
  have "receive y ts b1 = reject_with InvalidState ''duplicate or unexpected logon'' ts
      (b1\<lparr>fs_expected := fs_expected b1 + 1, fs_last_received := ts\<rparr>)"
    using receive_in_flight [OF y(2)] ex st by (simp add: dispatch_def y(1) process_logon_def)
  then obtain q b2 z where b2: "receive y ts b1 = (q, b2)" "sr_response q = Some z" "fm_type z = Reject"
    "in_flight z b2 a2" "fs_expected b2 = fs_expected b1 + 1"
    using in_flight_reject [OF y(2)] by metis
  have storm: "exchange k z ts a2 b2 = k" if "k \<le> n" for k
    by (rule reject_storm [OF b2(4,3)]) (use that assms(2) ex b2(5) in simp_all)
  consider "n = 0" | "n = 1" | "n = 2" | k where "n = Suc (Suc (Suc k))"
    by (metis One_nat_def Suc_1 not0_implies_Suc)
  then show ?thesis
    using b1 a2 b2(1,2) storm unfolding eq
    by cases (simp_all add: numeral_2_eq_2)
qed

theorem sessions_never_silent_witness:
  "\<exists>m a1. create_logon 5 demo_client = (Inr m, a1) \<and> exchange 1000 m 5 demo_session a1 = 1000"
proof -
  obtain m a1 where "create_logon 5 demo_client = (Inr m, a1)"
    by (rule logon_exchange [OF demo_fresh, of 5])
  with sessions_never_silent [OF demo_fresh _ this, of 1000] show ?thesis by auto
qed

end
