(* ===== verification/Replay_Control.thy ===== *)
theory Replay_Control
  imports Double
begin

text \<open>
  The replay controller, include/minimatch/replay_control.hpp and src/replay_control.cpp: the
  status, the speed, the position and the pending requests that the thread driving a replay
  and the threads commanding it share. Every operation holds the mutex from its first read to
  its last write, so it is one step on the state. \<open>notified\<close> counts the calls of
  \<open>condition_.notify_all\<close>; a thread inside \<open>wait_until_runnable\<close> sleeps until it is woken in a
  state where \<open>runnable\<close> holds.
\<close>

datatype replay_status = Ready | Running | Paused | Complete | Stopped

datatype replay_command_type =
  CmdPlay | CmdPause | CmdSetSpeed | CmdRestart | CmdSeekRecord | CmdSeekTimestamp | CmdStop

record replay_command =
  cmd_type :: replay_command_type
  cmd_speed :: double
  cmd_record_index :: u64
  cmd_timestamp_ns :: u64

record replay_snapshot =
  rs_status :: replay_status
  rs_speed :: double
  rs_current_record :: u64
  rs_total_records :: u64
  rs_generation :: u64
  rs_restart_requested :: bool
  rs_seek_record :: "u64 option"
  rs_seek_timestamp_ns :: "u64 option"

record replay_controller =
  rc_status :: replay_status
  rc_speed :: double
  rc_current_record :: u64
  rc_total_records :: u64
  rc_generation :: u64
  rc_restart_requested :: bool
  rc_seek_record :: "u64 option"
  rc_seek_timestamp_ns :: "u64 option"
  rc_notified :: nat

datatype replay_error = SpeedMustBeNonNegative

definition validate_speed :: "double \<Rightarrow> replay_error + unit" where
  "validate_speed speed =
     (if \<not> is_finite speed \<or> d_less speed (Number 0) then Inl SpeedMustBeNonNegative else Inr ())"

fun replay_status_to_string :: "replay_status \<Rightarrow> string" where
  "replay_status_to_string Ready = ''ready''"
| "replay_status_to_string Running = ''running''"
| "replay_status_to_string Paused = ''paused''"
| "replay_status_to_string Complete = ''complete''"
| "replay_status_to_string Stopped = ''stopped''"

definition initial_controller :: "double \<Rightarrow> replay_controller" where
  "initial_controller speed =
     \<lparr>rc_status = Ready, rc_speed = speed, rc_current_record = 0, rc_total_records = 0,
      rc_generation = 0, rc_restart_requested = False, rc_seek_record = None,
      rc_seek_timestamp_ns = None, rc_notified = 0\<rparr>"

definition new_controller :: "double \<Rightarrow> replay_error + replay_controller" where
  "new_controller initial_speed =
     (case validate_speed initial_speed of
        Inl e \<Rightarrow> Inl e | Inr _ \<Rightarrow> Inr (initial_controller initial_speed))"

definition notify_all :: "replay_controller \<Rightarrow> replay_controller" where
  "notify_all c = c\<lparr>rc_notified := rc_notified c + 1\<rparr>"

text \<open>\<open>++generation_\<close>\<close>

definition advance :: "replay_controller \<Rightarrow> replay_controller" where
  "advance c = c\<lparr>rc_generation := rc_generation c + 1\<rparr>"

section \<open>Operations\<close>

text \<open>Where the code returns from inside the lock, nothing is notified.\<close>

definition play :: "replay_controller \<Rightarrow> replay_controller" where
  "play c =
     (if rc_status c = Stopped then c
      else notify_all (advance (c\<lparr>rc_status := Running\<rparr>)))"

definition pause :: "replay_controller \<Rightarrow> replay_controller" where
  "pause c =
     (if rc_status c = Stopped \<or> rc_status c = Complete then c
      else advance (c\<lparr>rc_status := Paused\<rparr>))"

definition set_speed :: "double \<Rightarrow> replay_controller \<Rightarrow> (replay_error + unit) \<times> replay_controller" where
  "set_speed speed c =
     (case validate_speed speed of
        Inl e \<Rightarrow> (Inl e, c)
      | Inr _ \<Rightarrow> (Inr (), notify_all (advance (c\<lparr>rc_speed := speed\<rparr>))))"

definition request_restart :: "replay_controller \<Rightarrow> replay_controller" where
  "request_restart c =
     (if rc_status c = Stopped then c
      else notify_all (advance
        (c\<lparr>rc_restart_requested := True, rc_seek_record := None, rc_current_record := 0,
           rc_status := Running\<rparr>)))"

definition seek_record :: "u64 \<Rightarrow> replay_controller \<Rightarrow> replay_controller" where
  "seek_record record_index c =
     (if rc_status c = Stopped then c
      else notify_all (advance
        (c\<lparr>rc_seek_record := Some record_index, rc_seek_timestamp_ns := None,
           rc_restart_requested := False, rc_current_record := record_index\<rparr>)))"

definition seek_timestamp :: "u64 \<Rightarrow> replay_controller \<Rightarrow> replay_controller" where
  "seek_timestamp timestamp_ns c =
     (if rc_status c = Stopped then c
      else notify_all (advance
        (c\<lparr>rc_seek_timestamp_ns := Some timestamp_ns, rc_seek_record := None,
           rc_restart_requested := False\<rparr>)))"

definition stop :: "replay_controller \<Rightarrow> replay_controller" where
  "stop c = notify_all (advance (c\<lparr>rc_status := Stopped\<rparr>))"

definition mark_running :: "replay_controller \<Rightarrow> replay_controller" where
  "mark_running c =
     notify_all (if rc_status c \<noteq> Stopped then advance (c\<lparr>rc_status := Running\<rparr>) else c)"

definition mark_complete :: "replay_controller \<Rightarrow> replay_controller" where
  "mark_complete c =
     notify_all (if rc_status c \<noteq> Stopped then advance (c\<lparr>rc_status := Complete\<rparr>) else c)"

definition update_progress :: "u64 \<Rightarrow> u64 \<Rightarrow> replay_controller \<Rightarrow> replay_controller" where
  "update_progress current_record total_records c =
     c\<lparr>rc_current_record := current_record, rc_total_records := total_records\<rparr>"

text \<open>The predicate \<open>wait_until_runnable\<close> waits for.\<close>

definition runnable :: "replay_controller \<Rightarrow> bool" where
  "runnable c \<longleftrightarrow> rc_status c \<noteq> Paused"

definition controller_snapshot :: "replay_controller \<Rightarrow> replay_snapshot" where
  "controller_snapshot c =
     \<lparr>rs_status = rc_status c, rs_speed = rc_speed c, rs_current_record = rc_current_record c,
      rs_total_records = rc_total_records c, rs_generation = rc_generation c,
      rs_restart_requested = rc_restart_requested c, rs_seek_record = rc_seek_record c,
      rs_seek_timestamp_ns = rc_seek_timestamp_ns c\<rparr>"

definition consume_restart_request :: "replay_controller \<Rightarrow> bool \<times> replay_controller" where
  "consume_restart_request c = (rc_restart_requested c, c\<lparr>rc_restart_requested := False\<rparr>)"

definition consume_seek_request :: "replay_controller \<Rightarrow> u64 option \<times> replay_controller" where
  "consume_seek_request c = (rc_seek_record c, c\<lparr>rc_seek_record := None\<rparr>)"

definition consume_timestamp_seek_request ::
  "replay_controller \<Rightarrow> u64 option \<times> replay_controller" where
  "consume_timestamp_seek_request c = (rc_seek_timestamp_ns c, c\<lparr>rc_seek_timestamp_ns := None\<rparr>)"

definition is_stopped :: "replay_controller \<Rightarrow> bool" where
  "is_stopped c \<longleftrightarrow> rc_status c = Stopped"

definition apply_command ::
  "replay_command \<Rightarrow> replay_controller \<Rightarrow> (replay_error + unit) \<times> replay_controller" where
  "apply_command command c =
     (case cmd_type command of
        CmdPlay \<Rightarrow> (Inr (), play c)
      | CmdPause \<Rightarrow> (Inr (), pause c)
      | CmdSetSpeed \<Rightarrow> set_speed (cmd_speed command) c
      | CmdRestart \<Rightarrow> (Inr (), request_restart c)
      | CmdSeekRecord \<Rightarrow> (Inr (), seek_record (cmd_record_index command) c)
      | CmdSeekTimestamp \<Rightarrow> (Inr (), seek_timestamp (cmd_timestamp_ns command) c)
      | CmdStop \<Rightarrow> (Inr (), stop c))"

lemmas controller_defs =
  play_def pause_def set_speed_def request_restart_def seek_record_def seek_timestamp_def
  stop_def mark_running_def mark_complete_def update_progress_def notify_all_def advance_def
  consume_restart_request_def consume_seek_request_def consume_timestamp_seek_request_def

section \<open>The threads\<close>

text \<open>
  What the threads do to a controller is a sequence of calls. A call is a command of the
  control side, a report of the driving side, or the consumption of a request.
\<close>

datatype replay_call =
    Command replay_command
  | MarkRunning
  | MarkComplete
  | UpdateProgress u64 u64
  | ConsumeRestart
  | ConsumeSeek
  | ConsumeTimestamp

fun call_controller :: "replay_call \<Rightarrow> replay_controller \<Rightarrow> replay_controller" where
  "call_controller (Command k) c = snd (apply_command k c)"
| "call_controller MarkRunning c = mark_running c"
| "call_controller MarkComplete c = mark_complete c"
| "call_controller (UpdateProgress i n) c = update_progress i n c"
| "call_controller ConsumeRestart c = snd (consume_restart_request c)"
| "call_controller ConsumeSeek c = snd (consume_seek_request c)"
| "call_controller ConsumeTimestamp c = snd (consume_timestamp_seek_request c)"

definition calls :: "replay_call list \<Rightarrow> replay_controller \<Rightarrow> replay_controller" where
  "calls xs c = fold call_controller xs c"

section \<open>Properties\<close>

lemma calls_simps [simp]:
  "calls [] c = c" "calls (x # xs) c = calls xs (call_controller x c)"
  by (simp_all add: calls_def)

lemma call_command_cases:
  obtains (play) "call_controller (Command k) c = play c"
    | (pause) "call_controller (Command k) c = pause c"
    | (speed) "call_controller (Command k) c = snd (set_speed (cmd_speed k) c)"
    | (restart) "call_controller (Command k) c = request_restart c"
    | (seek) "call_controller (Command k) c = seek_record (cmd_record_index k) c"
    | (timestamp) "call_controller (Command k) c = seek_timestamp (cmd_timestamp_ns k) c"
    | (stop) "call_controller (Command k) c = stop c"
  by (cases "cmd_type k") (simp_all add: apply_command_def)

text \<open>A fact that every operation has, every call has.\<close>

lemma call_cases:
  assumes "P (play c)" and "P (pause c)" and "\<And>v. P (snd (set_speed v c))"
    and "P (request_restart c)" and "\<And>i. P (seek_record i c)" and "\<And>t. P (seek_timestamp t c)"
    and "P (stop c)" and "P (mark_running c)" and "P (mark_complete c)"
    and "\<And>i n. P (update_progress i n c)" and "P (snd (consume_restart_request c))"
    and "P (snd (consume_seek_request c))" and "P (snd (consume_timestamp_seek_request c))"
  shows "P (call_controller x c)"
proof (cases x)
  case (Command k)
  show ?thesis
    by (cases k c rule: call_command_cases) (use assms Command in simp_all)
qed (use assms in simp_all)

text \<open>What can be asked of a controller that is stopped: nothing new.\<close>

definition no_more_requests :: "replay_controller \<Rightarrow> replay_controller \<Rightarrow> bool" where
  "no_more_requests c c' \<longleftrightarrow>
     (rc_restart_requested c' \<longrightarrow> rc_restart_requested c) \<and>
     rc_seek_record c' \<in> {None, rc_seek_record c} \<and>
     rc_seek_timestamp_ns c' \<in> {None, rc_seek_timestamp_ns c}"

lemma no_more_requests_refl: "no_more_requests c c"
  by (simp add: no_more_requests_def)

lemma no_more_requests_trans:
  "no_more_requests b c \<Longrightarrow> no_more_requests a b \<Longrightarrow> no_more_requests a c"
  by (auto simp: no_more_requests_def)

lemma call_stopped:
  assumes "rc_status c = Stopped"
  shows "rc_status (call_controller x c) = Stopped \<and> no_more_requests c (call_controller x c)"
  by (rule call_cases) (use assms in \<open>auto simp: controller_defs no_more_requests_def split: sum.split\<close>)

text \<open>Once a controller is stopped it stays stopped, whatever the threads call and in
  whatever order: no play, restart, seek or progress mark revives it, and no request becomes
  pending that was not pending when it was stopped.\<close>

theorem stopped_is_final:
  assumes "rc_status c = Stopped"
  shows "rc_status (calls xs c) = Stopped \<and> no_more_requests c (calls xs c)"
  using assms
proof (induction xs arbitrary: c)
  case (Cons x xs)
  from call_stopped [OF Cons.prems, of x] Cons.IH [of "call_controller x c"] show ?case
    by (auto intro: no_more_requests_trans)
qed (simp add: no_more_requests_refl)

lemma stopped_is_final_witness:
  "let c = stop (seek_record 5 (initial_controller (Number 1)));
       k = \<lparr>cmd_type = CmdPlay, cmd_speed = Number 1, cmd_record_index = 0, cmd_timestamp_ns = 0\<rparr> in
   rc_status (calls [Command k, MarkRunning, ConsumeSeek] c) = Stopped \<and>
   no_more_requests c (calls [Command k, MarkRunning, ConsumeSeek] c)"
  unfolding Let_def
  by (rule stopped_is_final) (simp add: stop_def notify_all_def advance_def)

text \<open>What a poller of snapshots relies on: an unchanged generation means nothing was commanded.\<close>

definition same_control :: "replay_controller \<Rightarrow> replay_controller \<Rightarrow> bool" where
  "same_control c c' \<longleftrightarrow>
     rc_status c' = rc_status c \<and> rc_speed c' = rc_speed c \<and> no_more_requests c c'"

lemma call_generation:
  "rc_generation (call_controller x c) = rc_generation c \<and> same_control c (call_controller x c) \<or>
   rc_generation (call_controller x c) = rc_generation c + 1"
  by (rule call_cases)
    (auto simp: controller_defs same_control_def no_more_requests_def split: sum.split)

lemma calls_generation:
  "\<exists>k \<le> length xs. rc_generation (calls xs c) = rc_generation c + of_nat k \<and>
     (k = 0 \<longrightarrow> same_control c (calls xs c))"
proof (induction xs arbitrary: c)
  case Nil
  show ?case by (simp add: same_control_def no_more_requests_def)
next
  case (Cons x xs)
  obtain k where k: "k \<le> length xs"
    "rc_generation (calls xs (call_controller x c)) = rc_generation (call_controller x c) + of_nat k"
    "k = 0 \<longrightarrow> same_control (call_controller x c) (calls xs (call_controller x c))"
    using Cons.IH by blast
  from call_generation [of x c] show ?case
  proof
    assume "rc_generation (call_controller x c) = rc_generation c \<and> same_control c (call_controller x c)"
    with k show ?thesis
      by (intro exI [of _ k]) (auto simp: same_control_def intro: no_more_requests_trans)
  next
    assume "rc_generation (call_controller x c) = rc_generation c + 1"
    with k show ?thesis by (intro exI [of _ "Suc k"]) simp
  qed
qed

text \<open>The generation of a snapshot tells whether anything was commanded in between: two
  snapshots that are fewer than 2 ^ 64 calls apart and carry the same generation have the
  same status and the same speed, and no request became pending between them.\<close>

theorem generation_detects_commands:
  assumes "length xs < 2 ^ 64"
    and "rs_generation (controller_snapshot (calls xs c)) = rs_generation (controller_snapshot c)"
  shows "rs_status (controller_snapshot (calls xs c)) = rs_status (controller_snapshot c) \<and>
    rs_speed (controller_snapshot (calls xs c)) = rs_speed (controller_snapshot c) \<and>
    no_more_requests c (calls xs c)"
proof -
  obtain k where k: "k \<le> length xs" "rc_generation (calls xs c) = rc_generation c + of_nat k"
    "k = 0 \<longrightarrow> same_control c (calls xs c)"
    using calls_generation [of xs c] by blast
  with assms(2) have "(of_nat k :: u64) = 0" by (simp add: controller_snapshot_def)
  then have "unat (of_nat k :: u64) = 0" by simp
  with k(1) assms(1) have "k = 0" by (simp add: unat_of_nat take_bit_nat_eq_self)
  with k(3) show ?thesis by (simp add: same_control_def controller_snapshot_def)
qed

lemma generation_detects_commands_witness:
  "let c = seek_record 5 (initial_controller (Number 1));
       c' = calls [UpdateProgress 6 100, ConsumeSeek] c in
   rs_status (controller_snapshot c') = rs_status (controller_snapshot c) \<and>
   rs_speed (controller_snapshot c') = rs_speed (controller_snapshot c) \<and> no_more_requests c c'"
  unfolding Let_def
  by (rule generation_detects_commands)
    (simp_all add: controller_defs controller_snapshot_def initial_controller_def)

text \<open>No wake-up is lost: the predicate a sleeping \<open>wait_until_runnable\<close> waits for becomes
  true only in a call that also notifies the sleepers.\<close>

theorem no_lost_wakeup:
  assumes "\<not> runnable c" and "runnable (call_controller x c)"
  shows "rc_notified c < rc_notified (call_controller x c)"
proof -
  have "\<not> runnable c \<longrightarrow> runnable (call_controller x c) \<longrightarrow>
    rc_notified c < rc_notified (call_controller x c)"
    by (rule call_cases) (auto simp: controller_defs runnable_def split: sum.split)
  with assms show ?thesis by simp
qed

lemma no_lost_wakeup_witness:
  "rc_notified (pause (initial_controller (Number 1)))
     < rc_notified (call_controller MarkComplete (pause (initial_controller (Number 1))))"
  by (rule no_lost_wakeup) (simp_all add: controller_defs runnable_def initial_controller_def)

section \<open>Pending requests\<close>

definition one_seek :: "replay_controller \<Rightarrow> bool" where
  "one_seek c \<longleftrightarrow>
     (rc_seek_record c = None \<or> rc_seek_timestamp_ns c = None) \<and>
     (rc_restart_requested c \<longrightarrow> rc_seek_record c = None)"

lemma one_seek_call: "one_seek c \<Longrightarrow> one_seek (call_controller x c)"
  by (rule call_cases) (auto simp: controller_defs one_seek_def split: sum.split)

text \<open>Of a record seek, a timestamp seek and a restart, the last one commanded replaces the
  others, except in one case: a record seek is never pending together with a timestamp seek or
  with a restart, however the calls are interleaved. The remaining pair can be: a restart leaves
  a timestamp seek that was pending before it, and both are then delivered.\<close>

theorem pending_requests:
  "one_seek (calls xs (initial_controller v))"
  "\<exists>xs. rc_restart_requested (calls xs (initial_controller v)) \<and>
        rc_seek_timestamp_ns (calls xs (initial_controller v)) = Some t"
proof -
  have "one_seek c \<Longrightarrow> one_seek (calls xs c)" for c
    by (induction xs arbitrary: c) (simp_all add: one_seek_call)
  then show "one_seek (calls xs (initial_controller v))"
    by (simp add: one_seek_def initial_controller_def)
  let ?k = "\<lambda>ty. \<lparr>cmd_type = ty, cmd_speed = v, cmd_record_index = 0, cmd_timestamp_ns = t\<rparr>"
  show "\<exists>xs. rc_restart_requested (calls xs (initial_controller v)) \<and>
        rc_seek_timestamp_ns (calls xs (initial_controller v)) = Some t"
    by (intro exI [of _ "[Command (?k CmdSeekTimestamp), Command (?k CmdRestart)]"])
      (simp add: apply_command_def controller_defs initial_controller_def)
qed

end
