(* ===== verification/Ring.thy ===== *)
theory Ring
  imports Prelude
begin

text \<open>
  The single-producer single-consumer ring of include/minimatch/spsc_ring.hpp: its operations
  called one at a time, the interface of a bounded queue that they implement, and the two
  threads taken apart into their single accesses to the shared memory.

  \<open>head_\<close> is written by the producer only and \<open>tail_\<close> by the consumer only. A store with release
  order that an acquire load reads makes everything the storing thread did before it visible to
  the loading thread; the step relation therefore orders the accesses of the two threads in one
  sequence, and the theorem \<open>ring_fifo\<close> shows that no two unordered accesses ever touch the same
  element, so that this is all the two threads can see.
\<close>

record 'a ring =
  rg_head :: nat
  rg_tail :: nat
  rg_data :: "'a list"

definition ring_capacity :: "'a ring \<Rightarrow> nat" where
  "ring_capacity r = length (rg_data r)"

text \<open>A ring of a given capacity, its elements value-initialised.\<close>

definition new_ring :: "nat \<Rightarrow> 'a \<Rightarrow> 'a ring" where
  "new_ring capacity x = \<lparr>rg_head = 0, rg_tail = 0, rg_data = replicate capacity x\<rparr>"

definition increment :: "'a ring \<Rightarrow> nat \<Rightarrow> nat" where
  "increment r i = (i + 1) mod ring_capacity r"

definition try_push :: "'a \<Rightarrow> 'a ring \<Rightarrow> bool \<times> 'a ring" where
  "try_push v r =
     (let head = rg_head r; next_head = increment r head in
      if next_head = rg_tail r then (False, r)
      else (True, r\<lparr>rg_data := (rg_data r)[head := v], rg_head := next_head\<rparr>))"

definition try_pop :: "'a ring \<Rightarrow> 'a option \<times> 'a ring" where
  "try_pop r =
     (let tail = rg_tail r in
      if tail = rg_head r then (None, r)
      else (Some (rg_data r ! tail), r\<lparr>rg_tail := increment r tail\<rparr>))"

definition ring_empty :: "'a ring \<Rightarrow> bool" where
  "ring_empty r \<longleftrightarrow> rg_head r = rg_tail r"

definition approximate_size :: "'a ring \<Rightarrow> nat" where
  "approximate_size r =
     (let h = rg_head r; t = rg_tail r in if h \<ge> t then h - t else ring_capacity r - (t - h))"

section \<open>The queue a ring holds\<close>

definition ring_ok :: "'a ring \<Rightarrow> bool" where
  "ring_ok r \<longleftrightarrow> 2 \<le> ring_capacity r \<and> rg_head r < ring_capacity r \<and> rg_tail r < ring_capacity r"

definition slot :: "'a ring \<Rightarrow> nat \<Rightarrow> nat" where
  "slot r k = (rg_tail r + k) mod ring_capacity r"

definition contents :: "'a ring \<Rightarrow> 'a list" where
  "contents r = map (\<lambda>k. rg_data r ! slot r k) [0..<approximate_size r]"

lemma size_less: "ring_ok r \<Longrightarrow> approximate_size r < ring_capacity r"
  by (auto simp: ring_ok_def approximate_size_def Let_def)

lemma slot_head: "ring_ok r \<Longrightarrow> slot r (approximate_size r) = rg_head r"
  by (auto simp: ring_ok_def approximate_size_def slot_def Let_def)

lemma slot_inject:
  assumes "ring_ok r" and "j < ring_capacity r" and "k < ring_capacity r" and "slot r j = slot r k"
  shows "j = k"
proof -
  have *: "j = k" if "j \<le> k" "k < n" "(t + j) mod n = (t + k) mod n" for t j k n :: nat
  proof -
    have "n dvd (t + k) - (t + j)" using that by (metis mod_eq_dvd_iff_nat nat_add_left_cancel_le)
    with that show ?thesis by (auto dest: dvd_imp_le)
  qed
  show ?thesis
    using * [of j k "ring_capacity r" "rg_tail r"] * [of k j "ring_capacity r" "rg_tail r"] assms
    by (cases "j \<le> k") (auto simp: slot_def)
qed

lemma full_iff:
  assumes "ring_ok r"
  shows "increment r (rg_head r) = rg_tail r \<longleftrightarrow> Suc (approximate_size r) = ring_capacity r"
proof (cases "Suc (rg_head r) = ring_capacity r")
  case True
  with assms show ?thesis
    by (auto simp: increment_def approximate_size_def ring_ok_def Let_def)
next
  case False
  with assms have "Suc (rg_head r) < ring_capacity r" by (auto simp: ring_ok_def)
  with assms show ?thesis
    by (auto simp: increment_def approximate_size_def ring_ok_def Let_def)
qed

lemma empty_iff: "ring_ok r \<Longrightarrow> rg_tail r = rg_head r \<longleftrightarrow> approximate_size r = 0"
  by (auto simp: approximate_size_def ring_ok_def Let_def)

lemma contents_length [simp]: "length (contents r) = approximate_size r"
  by (simp add: contents_def)

text \<open>Publishing the element at the head, and giving up the one at the tail.\<close>

lemma advance_head:
  assumes "ring_ok r" and "increment r (rg_head r) \<noteq> rg_tail r"
  defines "r' \<equiv> r\<lparr>rg_head := increment r (rg_head r)\<rparr>"
  shows "ring_ok r'" and "contents r' = contents r @ [rg_data r ! rg_head r]"
proof -
  show "ring_ok r'" using assms(1) by (auto simp: r'_def ring_ok_def ring_capacity_def increment_def intro: mod_less_divisor)
  have cap: "ring_capacity r' = ring_capacity r" "slot r' = slot r" "rg_data r' = rg_data r"
    by (simp_all add: r'_def ring_capacity_def slot_def fun_eq_iff)
  have "approximate_size r' = Suc (approximate_size r)"
  proof (cases "Suc (rg_head r) = ring_capacity r")
    case True
    with assms show ?thesis
      by (auto simp: increment_def approximate_size_def ring_ok_def ring_capacity_def Let_def)
  next
    case False
    with assms(1) have "Suc (rg_head r) < ring_capacity r" by (auto simp: ring_ok_def)
    with assms show ?thesis
      by (auto simp: increment_def approximate_size_def ring_ok_def ring_capacity_def Let_def)
  qed
  then show "contents r' = contents r @ [rg_data r ! rg_head r]"
    using slot_head [OF assms(1)] by (simp add: contents_def cap)
qed

lemma advance_tail:
  assumes "ring_ok r" and "rg_tail r \<noteq> rg_head r"
  defines "r' \<equiv> r\<lparr>rg_tail := increment r (rg_tail r)\<rparr>"
  shows "ring_ok r'" and "contents r = rg_data r ! rg_tail r # contents r'"
proof -
  show "ring_ok r'" using assms(1) by (auto simp: r'_def ring_ok_def ring_capacity_def increment_def intro: mod_less_divisor)
  have slot: "slot r' k = slot r (Suc k)" for k
    by (simp add: r'_def slot_def increment_def ring_capacity_def mod_add_left_eq)
  have size: "approximate_size r = Suc (approximate_size r')"
  proof (cases "Suc (rg_tail r) = ring_capacity r")
    case True
    with assms show ?thesis
      by (auto simp: increment_def approximate_size_def ring_ok_def ring_capacity_def Let_def)
  next
    case False
    with assms(1) have "Suc (rg_tail r) < ring_capacity r" by (auto simp: ring_ok_def)
    with assms show ?thesis
      by (auto simp: increment_def approximate_size_def ring_ok_def ring_capacity_def Let_def)
  qed
  have "slot r 0 = rg_tail r" using assms(1) by (simp add: slot_def ring_ok_def)
  moreover have "rg_data r' = rg_data r" by (simp add: r'_def)
  ultimately show "contents r = rg_data r ! rg_tail r # contents r'"
    unfolding contents_def size by (simp add: upt_conv_Cons map_Suc_upt [symmetric] slot comp_def del: upt_Suc)
qed

text \<open>Writing the element at the head touches none of the queue.\<close>

lemma write_head:
  fixes v
  assumes "ring_ok r"
  defines "r' \<equiv> r\<lparr>rg_data := (rg_data r)[rg_head r := v]\<rparr>"
  shows "ring_ok r'" and "contents r' = contents r" and "rg_data r' ! rg_head r = v"
proof -
  have frame: "ring_capacity r' = ring_capacity r" "slot r' = slot r" "approximate_size r' = approximate_size r"
    by (simp_all add: r'_def ring_capacity_def slot_def approximate_size_def fun_eq_iff Let_def)
  show "ring_ok r'" using assms(1) by (simp add: ring_ok_def frame) (simp add: r'_def)
  have "slot r k \<noteq> rg_head r" if "k < approximate_size r" for k
    using slot_inject [OF assms(1), of k "approximate_size r"] size_less [OF assms(1)] that
      slot_head [OF assms(1)] by auto
  then have "rg_data r' ! slot r k = rg_data r ! slot r k" if "k < approximate_size r" for k
    using that by (metis (no_types, lifting) nth_list_update_neq r'_def ring.select_convs(3) ring.surjective ring.update_convs(3))
  then show "contents r' = contents r"
    by (simp add: contents_def frame)
  show "rg_data r' ! rg_head r = v"
    using assms(1) by (simp add: r'_def ring_ok_def ring_capacity_def)
qed

section \<open>The interface of a bounded queue\<close>

locale bounded_fifo =
  fixes push :: "'a \<Rightarrow> 'q \<Rightarrow> bool \<times> 'q"
    and pop :: "'q \<Rightarrow> 'a option \<times> 'q"
    and queue :: "'q \<Rightarrow> 'a list"
    and limit :: "'q \<Rightarrow> nat"
    and valid :: "'q \<Rightarrow> bool"
  assumes push_valid: "valid q \<Longrightarrow> valid (snd (push x q)) \<and> limit (snd (push x q)) = limit q"
    and pop_valid: "valid q \<Longrightarrow> valid (snd (pop q)) \<and> limit (snd (pop q)) = limit q"
    and push_queue: "valid q \<Longrightarrow> push x q = (ok, q') \<Longrightarrow>
      (ok \<longleftrightarrow> length (queue q) < limit q) \<and> queue q' = queue q @ (if ok then [x] else [])"
    and pop_queue: "valid q \<Longrightarrow> pop q = (y, q') \<Longrightarrow>
      (case y of None \<Rightarrow> queue q = [] \<and> queue q' = [] | Some x \<Rightarrow> queue q = x # queue q')"
begin

text \<open>A sequence of operations, Some a push and None a pop: what was accepted and what came out.\<close>

fun run :: "'a option list \<Rightarrow> 'q \<Rightarrow> 'a list \<times> 'a list \<times> 'q" where
  "run [] q = ([], [], q)"
| "run (Some x # ops) q =
     (case push x q of (ok, q) \<Rightarrow>
        (case run ops q of (ins, outs, q) \<Rightarrow> ((if ok then [x] else []) @ ins, outs, q)))"
| "run (None # ops) q =
     (case pop q of (y, q) \<Rightarrow>
        (case run ops q of (ins, outs, q) \<Rightarrow>
           (ins, (case y of None \<Rightarrow> [] | Some x \<Rightarrow> [x]) @ outs, q)))"

lemma fifo: "valid q \<Longrightarrow> run ops q = (ins, outs, q') \<Longrightarrow> valid q' \<and> queue q @ ins = outs @ queue q'"
proof (induction ops q arbitrary: ins outs q' rule: run.induct)
  case (2 x ops q)
  obtain ok q1 where q1: "push x q = (ok, q1)" by (cases "push x q")
  obtain ins1 outs1 q2 where q2: "run ops q1 = (ins1, outs1, q2)" by (cases "run ops q1")
  have "valid q1" using push_valid [OF 2(2), of x] q1 by simp
  from 2(1) [OF q1 [symmetric] this q2] push_queue [OF 2(2) q1] 2(3) q1 q2 show ?case
    by (auto split: if_splits)
next
  case (3 ops q)
  obtain y q1 where q1: "pop q = (y, q1)" by (cases "pop q")
  obtain ins1 outs1 q2 where q2: "run ops q1 = (ins1, outs1, q2)" by (cases "run ops q1")
  have "valid q1" using pop_valid [OF 3(2)] q1 by simp
  from 3(1) [OF q1 [symmetric] this q2] pop_queue [OF 3(2) q1] 3(3) q1 q2 show ?case
    by (auto split: option.splits)
qed auto

end

lemma try_push_unfold:
  "try_push v r =
     (if increment r (rg_head r) = rg_tail r then (False, r)
      else (True, (r\<lparr>rg_data := (rg_data r)[rg_head r := v]\<rparr>)\<lparr>rg_head := increment r (rg_head r)\<rparr>))"
  by (simp add: try_push_def Let_def)

lemma try_push_spec:
  assumes "ring_ok r" and "try_push v r = (ok, r')"
  shows "ring_ok r'" and "ring_capacity r' = ring_capacity r"
    and "ok \<longleftrightarrow> Suc (length (contents r)) < ring_capacity r"
    and "contents r' = contents r @ (if ok then [v] else [])"
proof -
  let ?w = "r\<lparr>rg_data := (rg_data r)[rg_head r := v]\<rparr>"
  note w = write_head [OF assms(1), of v]
  have full: "ok \<longleftrightarrow> increment r (rg_head r) \<noteq> rg_tail r"
    using assms(2) by (auto simp: try_push_unfold split: if_splits)
  then show "ok \<longleftrightarrow> Suc (length (contents r)) < ring_capacity r"
    using full_iff [OF assms(1)] size_less [OF assms(1)] by auto
  show "ring_capacity r' = ring_capacity r"
    using assms(2) by (auto simp: try_push_unfold ring_capacity_def split: if_splits)
  have inc: "increment ?w (rg_head ?w) = increment r (rg_head r)" by (simp add: increment_def ring_capacity_def)
  show "ring_ok r'" "contents r' = contents r @ (if ok then [v] else [])"
    using assms full w advance_head [OF w(1)] inc
    by (auto simp: try_push_unfold split: if_splits)
qed

lemma try_pop_spec:
  assumes "ring_ok r" and "try_pop r = (y, r')"
  shows "ring_ok r'" and "ring_capacity r' = ring_capacity r"
    and "case y of None \<Rightarrow> contents r = [] \<and> contents r' = [] | Some x \<Rightarrow> contents r = x # contents r'"
  using assms advance_tail [OF assms(1)] empty_iff [OF assms(1)]
  by (auto simp: try_pop_def Let_def ring_capacity_def contents_def split: if_splits)

interpretation ring: bounded_fifo try_push try_pop contents "\<lambda>r. ring_capacity r - 1" ring_ok
proof
  fix r :: "'a ring" and x
  assume ok: "ring_ok r"
  show "ring_ok (snd (try_push x r)) \<and> ring_capacity (snd (try_push x r)) - 1 = ring_capacity r - 1"
    using try_push_spec(1,2) [OF ok surjective_pairing] by simp
  show "ring_ok (snd (try_pop r)) \<and> ring_capacity (snd (try_pop r)) - 1 = ring_capacity r - 1"
    using try_pop_spec(1,2) [OF ok surjective_pairing] by simp
qed (use try_push_spec(3,4) try_pop_spec(3) in \<open>fastforce simp: less_diff_conv\<close>)+

section \<open>The two threads\<close>

text \<open>
  Where each thread is inside its call: before the first access; the producer after it has found
  room, and after it has written the element; the consumer after it has found an element, and
  after it has copied it.
\<close>

datatype 'a producer = ProducerIdle | Writing 'a | Publishing 'a

datatype 'a consumer = ConsumerIdle | Reading | Releasing 'a

record 'a ring_system =
  sys_ring :: "'a ring"
  sys_producer :: "'a producer"
  sys_consumer :: "'a consumer"
  sys_pushed :: "'a list"
  sys_popped :: "'a list"

text \<open>
  One access to the shared memory, named after the line of the source. A call that finds the
  ring full, or empty, returns false and changes nothing. \<open>sys_pushed\<close> records the elements of the
  pushes that have returned true, \<open>sys_popped\<close> those of the pops.
\<close>

inductive ring_step :: "'a ring_system \<Rightarrow> 'a ring_system \<Rightarrow> bool" where
  check_room: "sys_producer s = ProducerIdle \<Longrightarrow>
    increment (sys_ring s) (rg_head (sys_ring s)) \<noteq> rg_tail (sys_ring s) \<Longrightarrow>
    ring_step s (s\<lparr>sys_producer := Writing v\<rparr>)"
| write_data: "sys_producer s = Writing v \<Longrightarrow>
    ring_step s (s\<lparr>sys_ring := (sys_ring s)\<lparr>rg_data :=
        (rg_data (sys_ring s))[rg_head (sys_ring s) := v]\<rparr>, sys_producer := Publishing v\<rparr>)"
| store_head: "sys_producer s = Publishing v \<Longrightarrow>
    ring_step s (s\<lparr>sys_ring := (sys_ring s)\<lparr>rg_head := increment (sys_ring s) (rg_head (sys_ring s))\<rparr>,
      sys_producer := ProducerIdle, sys_pushed := sys_pushed s @ [v]\<rparr>)"
| check_element: "sys_consumer s = ConsumerIdle \<Longrightarrow> rg_tail (sys_ring s) \<noteq> rg_head (sys_ring s) \<Longrightarrow>
    ring_step s (s\<lparr>sys_consumer := Reading\<rparr>)"
| read_data: "sys_consumer s = Reading \<Longrightarrow>
    ring_step s (s\<lparr>sys_consumer := Releasing (rg_data (sys_ring s) ! rg_tail (sys_ring s))\<rparr>)"
| store_tail: "sys_consumer s = Releasing v \<Longrightarrow>
    ring_step s (s\<lparr>sys_ring := (sys_ring s)\<lparr>rg_tail := increment (sys_ring s) (rg_tail (sys_ring s))\<rparr>,
      sys_consumer := ConsumerIdle, sys_popped := sys_popped s @ [v]\<rparr>)"

inductive ring_reachable :: "nat \<Rightarrow> 'a ring_system \<Rightarrow> bool" for capacity where
  start: "2 \<le> capacity \<Longrightarrow> ring_reachable capacity
    \<lparr>sys_ring = new_ring capacity x, sys_producer = ProducerIdle, sys_consumer = ConsumerIdle,
     sys_pushed = [], sys_popped = []\<rparr>"
| step: "ring_reachable capacity s \<Longrightarrow> ring_step s s' \<Longrightarrow> ring_reachable capacity s'"

definition has_room :: "'a ring \<Rightarrow> bool" where
  "has_room r \<longleftrightarrow> increment r (rg_head r) \<noteq> rg_tail r"

definition ring_inv :: "nat \<Rightarrow> 'a ring_system \<Rightarrow> bool" where
  "ring_inv capacity s \<longleftrightarrow>
     ring_ok (sys_ring s) \<and> ring_capacity (sys_ring s) = capacity \<and>
     sys_pushed s = sys_popped s @ contents (sys_ring s) \<and>
     (case sys_producer s of ProducerIdle \<Rightarrow> True | Writing v \<Rightarrow> has_room (sys_ring s)
      | Publishing v \<Rightarrow> has_room (sys_ring s) \<and> rg_data (sys_ring s) ! rg_head (sys_ring s) = v) \<and>
     (case sys_consumer s of ConsumerIdle \<Rightarrow> True
      | Reading \<Rightarrow> rg_tail (sys_ring s) \<noteq> rg_head (sys_ring s)
      | Releasing v \<Rightarrow> rg_tail (sys_ring s) \<noteq> rg_head (sys_ring s) \<and>
          v = rg_data (sys_ring s) ! rg_tail (sys_ring s))"

lemma head_not_tail:
  "ring_ok r \<Longrightarrow> contents r = xs \<Longrightarrow> rg_tail r = rg_head r \<longleftrightarrow> xs = []"
  using empty_iff [of r] contents_length [of r] by (auto simp flip: length_0_conv)

lemma has_room_iff: "ring_ok r \<Longrightarrow> has_room r \<longleftrightarrow> Suc (length (contents r)) < ring_capacity r"
  using full_iff [of r] size_less [of r] by (auto simp: has_room_def)

lemma capacity_simps [simp]:
  "ring_capacity (r\<lparr>rg_head := h\<rparr>) = ring_capacity r" "ring_capacity (r\<lparr>rg_tail := t\<rparr>) = ring_capacity r"
  "ring_capacity (r\<lparr>rg_data := (rg_data r)[i := v]\<rparr>) = ring_capacity r"
  by (simp_all add: ring_capacity_def)

lemma ring_step_inv:
  assumes "ring_step s s'" and "ring_inv capacity s"
  shows "ring_inv capacity s'"
  using assms
proof (induction rule: ring_step.induct)
  case (check_room s v)
  then show ?case by (auto simp: ring_inv_def has_room_def split: consumer.split)
next
  case (write_data s v)
  let ?r = "sys_ring s" and ?w = "(sys_ring s)\<lparr>rg_data := (rg_data (sys_ring s))[rg_head (sys_ring s) := v]\<rparr>"
  from write_data have ok: "ring_ok ?r" by (simp add: ring_inv_def)
  note w = write_head [OF ok, of v]
  have "has_room ?w = has_room ?r" by (simp add: has_room_def increment_def)
  moreover have "rg_tail ?r \<noteq> rg_head ?r \<Longrightarrow> rg_data ?w ! rg_tail ?r = rg_data ?r ! rg_tail ?r" by simp
  ultimately show ?case
    using write_data w by (auto simp: ring_inv_def split: consumer.split)
next
  case (store_head s v)
  then have ok: "ring_ok (sys_ring s)" and room: "has_room (sys_ring s)" by (simp_all add: ring_inv_def)
  note a = advance_head [OF ok room [unfolded has_room_def]]
  from a(2) have "rg_tail (sys_ring s) \<noteq> increment (sys_ring s) (rg_head (sys_ring s))"
    using room by (auto simp: has_room_def)
  with store_head a show ?case by (auto simp: ring_inv_def split: consumer.split)
next
  case (check_element s)
  then show ?case by (auto simp: ring_inv_def split: producer.split)
next
  case (read_data s)
  then show ?case by (auto simp: ring_inv_def split: producer.split)
next
  case (store_tail s v)
  let ?r = "(sys_ring s)\<lparr>rg_tail := increment (sys_ring s) (rg_tail (sys_ring s))\<rparr>"
  from store_tail have ok: "ring_ok (sys_ring s)" and ne: "rg_tail (sys_ring s) \<noteq> rg_head (sys_ring s)"
    by (simp_all add: ring_inv_def)
  note a = advance_tail [OF ok ne]
  have "has_room (sys_ring s) \<Longrightarrow> has_room ?r"
    using a(2) by (simp add: has_room_iff [OF ok] has_room_iff [OF a(1)])
  with store_tail a show ?case by (auto simp: ring_inv_def split: producer.split)
qed

lemma new_ring_ok: "2 \<le> capacity \<Longrightarrow> ring_ok (new_ring capacity x) \<and> contents (new_ring capacity x) = []"
  by (simp add: new_ring_def ring_ok_def ring_capacity_def contents_def approximate_size_def)

lemma ring_reachable_inv: "ring_reachable capacity s \<Longrightarrow> ring_inv capacity s"
proof (induction rule: ring_reachable.induct)
  case (start x)
  then show ?case
    using new_ring_ok [of capacity x] by (simp add: ring_inv_def) (simp add: new_ring_def ring_capacity_def)
qed (rule ring_step_inv)

text \<open>C20: The ring is a queue under every interleaving of its two threads: the elements popped so
  far are the first of those pushed, in order and each once, the rest is in the ring, which never
  holds more than its capacity less one. And the threads do not race: while the producer writes an
  element and the consumer reads one, these are different elements.\<close>

theorem ring_fifo:
  assumes "ring_reachable capacity s"
  shows "sys_pushed s = sys_popped s @ contents (sys_ring s) \<and>
    length (contents (sys_ring s)) < capacity \<and>
    (sys_producer s = Writing v \<and> sys_consumer s = Reading \<longrightarrow>
       rg_head (sys_ring s) \<noteq> rg_tail (sys_ring s))"
  using ring_reachable_inv [OF assms] size_less [of "sys_ring s"] by (auto simp: ring_inv_def)

lemma ring_fifo_witness:
  "\<exists>s. ring_reachable 2 s \<and> sys_pushed s = [5 :: nat] \<and> sys_pushed s = sys_popped s @ contents (sys_ring s)"
proof -
  let ?s0 = "\<lparr>sys_ring = new_ring 2 0, sys_producer = ProducerIdle, sys_consumer = ConsumerIdle,
     sys_pushed = [], sys_popped = []\<rparr> :: nat ring_system"
  have r0: "ring_reachable 2 ?s0" by (rule ring_reachable.start) simp
  have "ring_step ?s0 (?s0\<lparr>sys_producer := Writing 5\<rparr>)"
    by (rule ring_step.check_room) (simp_all add: new_ring_def increment_def ring_capacity_def)
  from ring_reachable.step [OF r0 this]
  have r1: "ring_reachable 2 (?s0\<lparr>sys_producer := Writing 5\<rparr>)" .
  note r2 = ring_reachable.step [OF r1 ring_step.write_data, of 5, simplified]
  note r3 = ring_reachable.step [OF r2 ring_step.store_head, of 5, simplified]
  from ring_fifo [OF r3] r3 show ?thesis by fastforce
qed

end
