(* ===== verification/Pipeline.thy ===== *)
theory Pipeline
  imports Exchange_Correct Ring
begin

text \<open>
  The matching pipeline, include/minimatch/pipeline.hpp and src/pipeline.cpp: clients submit
  commands to a ring, a worker thread takes them out and runs them on an exchange.

  The ring is used one call at a time here, as \<open>Ring.ring_fifo\<close> allows for one producer and one
  consumer. The counters are atomic words, each read and written by itself. The clock is the
  argument \<open>now\<close>, what \<open>now_ns\<close> returned. The worker is its loop body, \<open>work\<close>: None says that the
  ring was empty and the thread yielded. The trade and report callbacks count what the exchange
  tells them.
\<close>

datatype command_kind = CmdNew | CmdCancel | CmdReplace | CmdStopWorker

record pipeline_command =
  pc_kind :: command_kind
  pc_order :: order_request
  pc_cancel :: cancel_request
  pc_replace :: replace_request
  pc_ingress_ns :: u64

definition default_command :: pipeline_command where
  "default_command =
     \<lparr>pc_kind = CmdNew,
      pc_order = \<lparr>rq_order_id = 0, rq_client_id = 0, rq_side = Buy, rq_type = Limit, rq_price = 0,
        rq_quantity = 0, rq_symbol = default_symbol\<rparr>,
      pc_cancel = \<lparr>cx_order_id = 0, cx_client_id = 0, cx_symbol = default_symbol\<rparr>,
      pc_replace = \<lparr>rp_order_id = 0, rp_client_id = 0, rp_new_price = 0, rp_new_quantity = 0,
        rp_symbol = default_symbol\<rparr>,
      pc_ingress_ns = 0\<rparr>"

record pipeline =
  pl_exchange :: exchange
  pl_queue :: "pipeline_command ring"
  pl_running :: bool
  pl_worker :: bool
  pl_submitted :: u64
  pl_processed :: u64
  pl_dropped :: u64
  pl_trades :: u64
  pl_reports :: u64
  pl_max_depth :: u64
  pl_latencies :: "u64 list"

record pipeline_metrics =
  pm_submitted :: u64
  pm_processed :: u64
  pm_dropped :: u64
  pm_trades :: u64
  pm_reports :: u64
  pm_max_queue_depth :: u64
  pm_latency_ns :: "u64 list"

definition queue_capacity :: nat where
  "queue_capacity = 2 ^ 16"

definition new_pipeline :: "nat \<Rightarrow> pipeline" where
  "new_pipeline capacity =
     \<lparr>pl_exchange = on_report True (on_trade True (new_exchange capacity)),
      pl_queue = new_ring queue_capacity default_command, pl_running = False, pl_worker = False,
      pl_submitted = 0, pl_processed = 0, pl_dropped = 0, pl_trades = 0, pl_reports = 0,
      pl_max_depth = 0, pl_latencies = []\<rparr>"

definition pl_start :: "pipeline \<Rightarrow> pipeline" where
  "pl_start p = (if pl_running p then p else p\<lparr>pl_running := True, pl_worker := True\<rparr>)"

text \<open>\<open>stop\<close> in its two halves: the exchange of the flag, whose answer says whether this call has
  to stop the worker, and one attempt to push the Stop command, repeated until the ring takes it.
  Joining the thread is waiting for the worker to end.\<close>

definition stop_command :: pipeline_command where
  "stop_command = default_command\<lparr>pc_kind := CmdStopWorker\<rparr>"

definition pl_stop_flag :: "pipeline \<Rightarrow> bool \<times> pipeline" where
  "pl_stop_flag p = (pl_running p, p\<lparr>pl_running := False\<rparr>)"

definition pl_stop_push :: "pipeline \<Rightarrow> bool \<times> pipeline" where
  "pl_stop_push p =
     (case try_push stop_command (pl_queue p) of (ok, q) \<Rightarrow> (ok, p\<lparr>pl_queue := q\<rparr>))"

definition pl_submit :: "u64 \<Rightarrow> pipeline_command \<Rightarrow> pipeline \<Rightarrow> bool \<times> pipeline" where
  "pl_submit now input p =
     (let c = (if pc_ingress_ns input = 0 then input\<lparr>pc_ingress_ns := now\<rparr> else input);
          p = p\<lparr>pl_submitted := pl_submitted p + 1\<rparr> in
      case try_push c (pl_queue p) of
        (False, q) \<Rightarrow> (False, p\<lparr>pl_dropped := pl_dropped p + 1\<rparr>)
      | (True, q) \<Rightarrow>
          (True, p\<lparr>pl_queue := q, pl_max_depth := max (pl_max_depth p) (of_nat (approximate_size q))\<rparr>))"

fun is_trade_event :: "book_event \<Rightarrow> bool" where
  "is_trade_event (EvTrade t) = True"
| "is_trade_event (EvReport r) = False"

text \<open>The switch of \<open>run\<close>. The option is that of the exchange's operations.\<close>

definition run_command :: "pipeline_command \<Rightarrow> exchange \<Rightarrow> ((exchange_error + bool) \<times> exchange) option" where
  "run_command c e =
     (case pc_kind c of
        CmdNew \<Rightarrow> submit_order (pc_order c) e
      | CmdCancel \<Rightarrow> cancel_order (pc_cancel c) e
      | CmdReplace \<Rightarrow> replace_order (pc_replace c) e
      | CmdStopWorker \<Rightarrow> Some (Inr True, e))"

datatype work_outcome = Yielded | Worked | WorkerEnded | WorkerThrew exchange_error

definition work :: "u64 \<Rightarrow> pipeline \<Rightarrow> (work_outcome \<times> pipeline) option" where
  "work now p =
     (case try_pop (pl_queue p) of
        (None, q) \<Rightarrow> Some (Yielded, p)
      | (Some c, q) \<Rightarrow>
          let p = p\<lparr>pl_queue := q\<rparr> in
          if pc_kind c = CmdStopWorker then Some (WorkerEnded, p\<lparr>pl_worker := False\<rparr>)
          else
            (case run_command c (pl_exchange p) of
               None \<Rightarrow> None
             | Some (res, e) \<Rightarrow>
                 let events = drop (length (ex_out (pl_exchange p))) (ex_out e);
                     p = p\<lparr>pl_exchange := e,
                       pl_trades := pl_trades p + of_nat (length (filter is_trade_event events)),
                       pl_reports := pl_reports p + of_nat (length (filter (\<lambda>ev. \<not> is_trade_event ev) events))\<rparr> in
                 (case res of
                    Inl err \<Rightarrow> Some (WorkerThrew err, p)
                  | Inr _ \<Rightarrow>
                      Some (Worked, p\<lparr>pl_processed := pl_processed p + 1,
                        pl_latencies := pl_latencies p @ [now - pc_ingress_ns c]\<rparr>))))"

definition pl_metrics :: "pipeline \<Rightarrow> pipeline_metrics" where
  "pl_metrics p =
     \<lparr>pm_submitted = pl_submitted p, pm_processed = pl_processed p, pm_dropped = pl_dropped p,
      pm_trades = pl_trades p, pm_reports = pl_reports p, pm_max_queue_depth = pl_max_depth p,
      pm_latency_ns = pl_latencies p\<rparr>"

definition pl_state_hash :: "pipeline \<Rightarrow> u64 option" where
  "pl_state_hash p = exchange_hash (pl_exchange p)"

definition pl_active_orders :: "pipeline \<Rightarrow> u64" where
  "pl_active_orders p = active_orders (pl_exchange p)"

section \<open>Runs\<close>

text \<open>
  The commands that are not Stop, with the ones accepted so far as a ghost: what a run of the
  pipeline is compared with is the exchange given the same commands directly.
\<close>

record pipeline_run =
  run_pipeline :: pipeline
  run_accepted :: "pipeline_command list"

definition is_order :: "pipeline_command \<Rightarrow> bool" where
  "is_order c \<longleftrightarrow> pc_kind c \<noteq> CmdStopWorker"

definition stamped :: "u64 \<Rightarrow> pipeline_command \<Rightarrow> pipeline_command" where
  "stamped now c = (if pc_ingress_ns c = 0 then c\<lparr>pc_ingress_ns := now\<rparr> else c)"

inductive pipeline_step :: "pipeline_run \<Rightarrow> pipeline_run \<Rightarrow> bool" where
  submit_cmd: "is_order c \<Longrightarrow> pl_submit now c (run_pipeline s) = (ok, p) \<Longrightarrow>
    pipeline_step s (s\<lparr>run_pipeline := p,
      run_accepted := run_accepted s @ (if ok then [stamped now c] else [])\<rparr>)"
| start_worker: "pipeline_step s (s\<lparr>run_pipeline := pl_start (run_pipeline s)\<rparr>)"
| stop_flag: "pipeline_step s (s\<lparr>run_pipeline := snd (pl_stop_flag (run_pipeline s))\<rparr>)"
| stop_push: "pipeline_step s (s\<lparr>run_pipeline := snd (pl_stop_push (run_pipeline s))\<rparr>)"
| work_once: "pl_worker (run_pipeline s) \<Longrightarrow> work now (run_pipeline s) = Some (outcome, p) \<Longrightarrow>
    pipeline_step s (s\<lparr>run_pipeline := p\<rparr>)"

inductive pipeline_reachable :: "nat \<Rightarrow> pipeline_run \<Rightarrow> bool" for capacity where
  new: "pipeline_reachable capacity \<lparr>run_pipeline = new_pipeline capacity, run_accepted = []\<rparr>"
| step: "pipeline_reachable capacity s \<Longrightarrow> pipeline_step s s' \<Longrightarrow> pipeline_reachable capacity s'"

fun run_commands :: "pipeline_command list \<Rightarrow> exchange \<Rightarrow> exchange option" where
  "run_commands [] e = Some e"
| "run_commands (c # cs) e =
     (case run_command c e of Some (Inr _, e) \<Rightarrow> run_commands cs e | _ \<Rightarrow> None)"

lemma run_command_total:
  assumes "exchange_inv e"
  obtains ok e' where "run_command c e = Some (Inr ok, e')" and "exchange_inv e'"
  using assms submit_order_total cancel_order_total replace_order_total
  unfolding run_command_def
  by (cases "pc_kind c") (metis command_kind.simps(13-16))+

lemma run_commands_snoc:
  "run_commands cs e = Some d \<Longrightarrow> run_command c d = Some (Inr ok, d') \<Longrightarrow> run_commands (cs @ [c]) e = Some d'"
  by (induction cs arbitrary: e) (auto split: option.splits prod.splits sum.splits)

definition pipeline_inv :: "nat \<Rightarrow> pipeline_run \<Rightarrow> bool" where
  "pipeline_inv capacity s \<longleftrightarrow>
     (let p = run_pipeline s in
      ring_ok (pl_queue p) \<and> ring_capacity (pl_queue p) = queue_capacity \<and>
      exchange_inv (pl_exchange p) \<and>
      (\<exists>ds. run_accepted s = ds @ filter is_order (contents (pl_queue p)) \<and>
         run_commands ds (pl_exchange (new_pipeline capacity)) = Some (pl_exchange p) \<and>
         pl_processed p = of_nat (length ds) \<and> length (pl_latencies p) = length ds) \<and>
      pl_submitted p = pl_dropped p + of_nat (length (run_accepted s)))"

lemma pipeline_invE:
  assumes "pipeline_inv capacity s"
  obtains ds where "ring_ok (pl_queue (run_pipeline s))"
    and "ring_capacity (pl_queue (run_pipeline s)) = queue_capacity"
    and "exchange_inv (pl_exchange (run_pipeline s))"
    and "run_accepted s = ds @ filter is_order (contents (pl_queue (run_pipeline s)))"
    and "run_commands ds (pl_exchange (new_pipeline capacity)) = Some (pl_exchange (run_pipeline s))"
    and "pl_processed (run_pipeline s) = of_nat (length ds)"
    and "length (pl_latencies (run_pipeline s)) = length ds"
    and "pl_submitted (run_pipeline s) = pl_dropped (run_pipeline s) + of_nat (length (run_accepted s))"
  using assms unfolding pipeline_inv_def Let_def by blast

lemma pipeline_invI:
  assumes "ring_ok (pl_queue p)" and "ring_capacity (pl_queue p) = queue_capacity"
    and "exchange_inv (pl_exchange p)"
    and "run_accepted s = ds @ filter is_order (contents (pl_queue p))"
    and "run_commands ds (pl_exchange (new_pipeline capacity)) = Some (pl_exchange p)"
    and "pl_processed p = of_nat (length ds)" and "length (pl_latencies p) = length ds"
    and "pl_submitted p = pl_dropped p + of_nat (length (run_accepted s))"
    and "run_pipeline s = p"
  shows "pipeline_inv capacity s"
  using assms unfolding pipeline_inv_def Let_def by blast

text \<open>The worker's loop body, given the head of the queue.\<close>

lemma work_total:
  assumes "ring_ok (pl_queue p)" and "exchange_inv (pl_exchange p)"
  obtains (idle) "contents (pl_queue p) = []" and "work now p = Some (Yielded, p)"
    | (ended) c q where "contents (pl_queue p) = c # contents q" and "ring_ok q"
        and "ring_capacity q = ring_capacity (pl_queue p)" and "\<not> is_order c"
        and "work now p = Some (WorkerEnded, p\<lparr>pl_queue := q, pl_worker := False\<rparr>)"
    | (worked) c q e ok tr re where "contents (pl_queue p) = c # contents q" and "ring_ok q"
        and "ring_capacity q = ring_capacity (pl_queue p)" and "is_order c"
        and "run_command c (pl_exchange p) = Some (Inr ok, e)" and "exchange_inv e"
        and "work now p = Some (Worked, p\<lparr>pl_queue := q, pl_exchange := e, pl_trades := tr,
          pl_reports := re, pl_processed := pl_processed p + 1,
          pl_latencies := pl_latencies p @ [now - pc_ingress_ns c]\<rparr>)"
proof -
  obtain y q where y: "try_pop (pl_queue p) = (y, q)" by (cases "try_pop (pl_queue p)")
  note pop = try_pop_spec [OF assms(1) y]
  show thesis
  proof (cases y)
    case None
    with pop(3) y idle show thesis by (simp add: work_def)
  next
    case (Some c)
    show thesis
    proof (cases "is_order c")
      case False
      with Some pop y ended [of c q] show thesis by (simp add: work_def is_order_def)
    next
      case True
      obtain ok e where e: "run_command c (pl_exchange p) = Some (Inr ok, e)" "exchange_inv e"
        using run_command_total [OF assms(2)] by metis
      let ?evs = "drop (length (ex_out (pl_exchange p))) (ex_out e)"
      have "work now p = Some (Worked, p\<lparr>pl_queue := q, pl_exchange := e,
          pl_trades := pl_trades p + of_nat (length (filter is_trade_event ?evs)),
          pl_reports := pl_reports p + of_nat (length (filter (\<lambda>ev. \<not> is_trade_event ev) ?evs)),
          pl_processed := pl_processed p + 1, pl_latencies := pl_latencies p @ [now - pc_ingress_ns c]\<rparr>)"
        using True by (simp add: work_def y Some is_order_def Let_def e(1))
      moreover have "contents (pl_queue p) = c # contents q" using pop(3) Some by simp
      ultimately show thesis using worked pop(1,2) True e by blast
    qed
  qed
qed

lemma pipeline_step_inv:
  assumes "pipeline_step s s'" and "pipeline_inv capacity s"
  shows "pipeline_inv capacity s'"
  using assms
proof (induction rule: pipeline_step.induct)
  case (submit_cmd c now s ok p)
  let ?p = "run_pipeline s"
  obtain q where q: "try_push (stamped now c) (pl_queue ?p) = (ok, q)"
    and p: "p = (if ok then ?p\<lparr>pl_submitted := pl_submitted ?p + 1, pl_queue := q,
        pl_max_depth := max (pl_max_depth ?p) (of_nat (approximate_size q))\<rparr>
      else ?p\<lparr>pl_submitted := pl_submitted ?p + 1, pl_dropped := pl_dropped ?p + 1\<rparr>)"
    using submit_cmd(2) by (auto simp: pl_submit_def stamped_def Let_def split: prod.splits bool.splits)
  have order: "is_order (stamped now c)" using submit_cmd(1) by (simp add: stamped_def is_order_def)
  from submit_cmd(3) show ?case
  proof (rule pipeline_invE)
    fix ds
    assume ok: "ring_ok (pl_queue ?p)" "ring_capacity (pl_queue ?p) = queue_capacity"
      and rest: "exchange_inv (pl_exchange ?p)" "run_accepted s = ds @ filter is_order (contents (pl_queue ?p))"
      "run_commands ds (pl_exchange (new_pipeline capacity)) = Some (pl_exchange ?p)"
      "pl_processed ?p = of_nat (length ds)" "length (pl_latencies ?p) = length ds"
      "pl_submitted ?p = pl_dropped ?p + of_nat (length (run_accepted s))"
    note push = try_push_spec [OF ok(1) q]
    show ?thesis
      by (rule pipeline_invI [where p = p and ds = ds]) (use push ok rest order in \<open>auto simp: p\<close>)
  qed
next
  case (start_worker s)
  then show ?case by (auto simp: pipeline_inv_def pl_start_def Let_def)
next
  case (stop_flag s)
  then show ?case by (auto simp: pipeline_inv_def pl_stop_flag_def Let_def)
next
  case (stop_push s)
  let ?p = "run_pipeline s"
  obtain ok q where q: "try_push stop_command (pl_queue ?p) = (ok, q)" by (cases "try_push stop_command (pl_queue ?p)")
  then have p: "snd (pl_stop_push ?p) = ?p\<lparr>pl_queue := q\<rparr>" by (simp add: pl_stop_push_def)
  have stop: "\<not> is_order stop_command" by (simp add: is_order_def stop_command_def)
  from stop_push show ?case
  proof (rule pipeline_invE)
    fix ds
    assume ok: "ring_ok (pl_queue ?p)" "ring_capacity (pl_queue ?p) = queue_capacity"
      and rest: "exchange_inv (pl_exchange ?p)" "run_accepted s = ds @ filter is_order (contents (pl_queue ?p))"
      "run_commands ds (pl_exchange (new_pipeline capacity)) = Some (pl_exchange ?p)"
      "pl_processed ?p = of_nat (length ds)" "length (pl_latencies ?p) = length ds"
      "pl_submitted ?p = pl_dropped ?p + of_nat (length (run_accepted s))"
    note push = try_push_spec [OF ok(1) q]
    show ?thesis
      by (rule pipeline_invI [where p = "?p\<lparr>pl_queue := q\<rparr>" and ds = ds])
        (use push ok rest stop in \<open>auto simp: p\<close>)
  qed
next
  case (work_once s now outcome p)
  let ?p = "run_pipeline s"
  from work_once(3) show ?case
  proof (rule pipeline_invE)
    fix ds
    assume ok: "ring_ok (pl_queue ?p)" "ring_capacity (pl_queue ?p) = queue_capacity"
      and ex: "exchange_inv (pl_exchange ?p)"
      and rest: "run_accepted s = ds @ filter is_order (contents (pl_queue ?p))"
      "run_commands ds (pl_exchange (new_pipeline capacity)) = Some (pl_exchange ?p)"
      "pl_processed ?p = of_nat (length ds)" "length (pl_latencies ?p) = length ds"
      "pl_submitted ?p = pl_dropped ?p + of_nat (length (run_accepted s))"
    from ok(1) ex show ?thesis
    proof (cases rule: work_total [where now = now])
      case idle
      then have "p = ?p" using work_once(2) by simp
      with work_once(3) show ?thesis by simp
    next
      case (ended c q)
      then have "p = ?p\<lparr>pl_queue := q, pl_worker := False\<rparr>" using work_once(2) by simp
      with ended ok ex rest show ?thesis
        by (intro pipeline_invI [where p = p and ds = ds]) simp_all
    next
      case (worked c q e res tr re)
      then have "p = ?p\<lparr>pl_queue := q, pl_exchange := e, pl_trades := tr,
          pl_reports := re, pl_processed := pl_processed ?p + 1,
          pl_latencies := pl_latencies ?p @ [now - pc_ingress_ns c]\<rparr>" using work_once(2) by simp
      with worked ok rest run_commands_snoc [OF rest(2) worked(5)] show ?thesis
        by (intro pipeline_invI [where p = p and ds = "ds @ [c]"]) simp_all
    qed
  qed
qed

section \<open>Properties\<close>

lemma new_pipeline_inv:
  assumes "capacity < 2 ^ 32"
  shows "pipeline_inv capacity \<lparr>run_pipeline = new_pipeline capacity, run_accepted = []\<rparr>"
proof -
  have "exchange_inv (on_report True (on_trade True (new_exchange capacity)))"
    using assms by (intro reachable_exchange_inv reachable_exchange.step [OF _ exchange_step.intros(11)]
        reachable_exchange.step [OF _ exchange_step.intros(10)] reachable_exchange.new)
  moreover have "2 \<le> queue_capacity" by (simp add: queue_capacity_def)
  ultimately show ?thesis
    using new_ring_ok [of queue_capacity default_command]
    by (intro pipeline_invI [where ds = "[]"])
      (simp_all add: new_pipeline_def, simp add: new_ring_def ring_capacity_def)
qed

lemma pipeline_reachable_inv:
  "pipeline_reachable capacity s \<Longrightarrow> capacity < 2 ^ 32 \<Longrightarrow> pipeline_inv capacity s"
  by (induction rule: pipeline_reachable.induct) (simp_all add: new_pipeline_inv pipeline_step_inv)


definition one_command :: pipeline_command where
  "one_command = default_command\<lparr>pc_order := sell_order, pc_ingress_ns := 1\<rparr>"

lemma one_submitted:
  obtains p where "pl_submit 5 one_command (new_pipeline 8) = (True, p)"
    and "pipeline_reachable 8 \<lparr>run_pipeline = p, run_accepted = [one_command]\<rparr>"
    and "contents (pl_queue p) = [one_command]" and "pl_processed p = 0"
proof -
  let ?s = "\<lparr>run_pipeline = new_pipeline 8, run_accepted = []\<rparr>"
  let ?q = "new_ring queue_capacity default_command"
  have ok: "ring_ok ?q" "contents ?q = []" "ring_capacity ?q = queue_capacity"
    using new_ring_ok [of queue_capacity default_command]
    by (simp_all add: queue_capacity_def) (simp_all add: new_ring_def ring_capacity_def queue_capacity_def)
  obtain b q where q: "try_push one_command ?q = (b, q)" by (cases "try_push one_command ?q")
  have cap: "Suc 0 < queue_capacity" by (simp add: queue_capacity_def)
  note push = try_push_spec [OF ok(1) q, unfolded ok(2,3)]
  from push(3) cap have b: "b" by simp
  let ?p = "(new_pipeline 8)\<lparr>pl_submitted := 1, pl_queue := q,
      pl_max_depth := max 0 (of_nat (approximate_size q))\<rparr>"
  have s: "pl_submit 5 one_command (new_pipeline 8) = (True, ?p)"
    using q b by (simp add: pl_submit_def one_command_def new_pipeline_def Let_def)
  have "is_order one_command" by (simp add: is_order_def one_command_def default_command_def)
  from pipeline_reachable.step [OF pipeline_reachable.new pipeline_step.submit_cmd [OF this, of 5 ?s]] s
  have "pipeline_reachable 8 \<lparr>run_pipeline = ?p, run_accepted = [one_command]\<rparr>"
    by (simp add: stamped_def one_command_def)
  moreover have "contents (pl_queue ?p) = [one_command]" using push(4) b by simp
  moreover have "pl_processed ?p = 0" by (simp add: new_pipeline_def)
  ultimately show thesis using that s by blast
qed


text \<open>C24: The worker keeps going: in every state a round of its loop returns without an exception,
  and takes the oldest command out of the ring whenever there is one; only a Stop command ends it.\<close>

theorem worker_progress:
  assumes "pipeline_reachable capacity s" and "capacity < 2 ^ 32"
    and "contents (pl_queue (run_pipeline s)) = c # cs"
  shows "\<exists>p. work now (run_pipeline s) = Some (if is_order c then Worked else WorkerEnded, p) \<and>
    contents (pl_queue p) = cs"
proof -
  from pipeline_reachable_inv [OF assms(1,2)] have
    ok: "ring_ok (pl_queue (run_pipeline s))" "exchange_inv (pl_exchange (run_pipeline s))"
    by (auto elim: pipeline_invE)
  then show ?thesis
    by (cases rule: work_total [where now = now]) (use assms(3) in auto)
qed

lemma worker_progress_witness:
  "\<exists>s p. pipeline_reachable 8 s \<and> work 9 (run_pipeline s) = Some (Worked, p) \<and> contents (pl_queue p) = []"
proof (rule one_submitted)
  fix p assume r: "pipeline_reachable 8 \<lparr>run_pipeline = p, run_accepted = [one_command]\<rparr>"
    and c: "contents (pl_queue p) = [one_command]"
  have "is_order one_command" by (simp add: is_order_def one_command_def default_command_def)
  then have "\<exists>p'. work 9 p = Some (Worked, p') \<and> contents (pl_queue p') = []"
    using worker_progress [OF r _, of one_command "[]" 9] c by simp
  then show ?thesis using r by (metis pipeline_run.select_convs(1))
qed

end
