(* ===== verification/Risk.thy ===== *)
theory Risk
  imports Market_Types
begin

text \<open>
  The pre-trade risk engine, include/minimatch/risk.hpp and src/risk.cpp. Positions, notionals
  and profits are \<open>std::int64_t\<close>; their arithmetic has no defined result when it leaves the
  64 bits, so it is checked here: an operation whose arithmetic overflows is None.
\<close>

definition i64 :: "int \<Rightarrow> int option" where
  "i64 i = (if - (2 ^ 63) \<le> i \<and> i < 2 ^ 63 then Some i else None)"

record risk_limits =
  rl_max_order_quantity :: quantity
  rl_max_abs_position :: int
  rl_max_open_notional :: int
  rl_max_daily_loss :: int

definition default_risk_limits :: risk_limits where
  "default_risk_limits =
     \<lparr>rl_max_order_quantity = 5000, rl_max_abs_position = 25000,
      rl_max_open_notional = 500000000, rl_max_daily_loss = 5000000\<rparr>"

record risk_state =
  rk_position :: int
  rk_open_notional :: int
  rk_realized_pnl :: int
  rk_killed :: bool

definition empty_risk_state :: risk_state where
  "empty_risk_state =
     \<lparr>rk_position = 0, rk_open_notional = 0, rk_realized_pnl = 0, rk_killed = False\<rparr>"

record risk_engine =
  re_limits :: risk_limits
  re_states :: "u64 \<rightharpoonup> risk_state"

definition new_risk_engine :: "risk_limits \<Rightarrow> risk_engine" where
  "new_risk_engine limits = \<lparr>re_limits = limits, re_states = Map.empty\<rparr>"

definition risk_key :: "client_id \<Rightarrow> symbol_id \<Rightarrow> u64" where
  "risk_key client sy = or (push_bit 32 (ucast client)) (ucast sy)"

definition risk_account :: "client_id \<Rightarrow> symbol_id \<Rightarrow> risk_engine \<Rightarrow> risk_state" where
  "risk_account client sy e =
     (case re_states e (risk_key client sy) of None \<Rightarrow> empty_risk_state | Some s \<Rightarrow> s)"

text \<open>\<open>states_[key] = s\<close>\<close>

definition set_account :: "client_id \<Rightarrow> symbol_id \<Rightarrow> risk_state \<Rightarrow> risk_engine \<Rightarrow> risk_engine" where
  "set_account client sy s e = e\<lparr>re_states := (re_states e)(risk_key client sy \<mapsto> s)\<rparr>"

definition signed_quantity :: "side \<Rightarrow> quantity \<Rightarrow> int" where
  "signed_quantity sd q = (case sd of Buy \<Rightarrow> int (unat q) | Sell \<Rightarrow> - int (unat q))"

definition notional :: "quantity \<Rightarrow> price \<Rightarrow> int option" where
  "notional q p = i64 (int (unat q) * p)"

text \<open>The last test of \<open>allow\<close>: the notional of a priced order.\<close>

definition notional_allowed :: "order_request \<Rightarrow> risk_state \<Rightarrow> risk_limits \<Rightarrow> bool option" where
  "notional_allowed r s limits =
     (case notional (rq_quantity r) (rq_price r) of
        None \<Rightarrow> None
      | Some add \<Rightarrow>
          if add < 0 then Some False
          else map_option (\<lambda>room. \<not> rk_open_notional s > room) (i64 (rl_max_open_notional limits - add)))"

definition risk_allow :: "order_request \<Rightarrow> risk_engine \<Rightarrow> bool option" where
  "risk_allow r e =
     (let limits = re_limits e; s = risk_account (rq_client_id r) (rq_symbol r) e in
      if rq_quantity r = 0 \<or> rq_quantity r > rl_max_order_quantity limits then Some False
      else if rk_killed s then Some False
      else
        (case i64 (- rl_max_daily_loss limits) of
           None \<Rightarrow> None
         | Some floor_pnl \<Rightarrow>
             if rk_realized_pnl s \<le> floor_pnl then Some False
             else
               (case i64 (rk_position s + signed_quantity (rq_side r) (rq_quantity r)) of
                  None \<Rightarrow> None
                | Some position \<Rightarrow>
                    (case i64 \<bar>position\<bar> of
                       None \<Rightarrow> None
                     | Some absolute \<Rightarrow>
                         if absolute > rl_max_abs_position limits then Some False
                         else if rq_type r \<noteq> Market then notional_allowed r s limits
                         else Some True))))"

definition on_order_accepted :: "order_request \<Rightarrow> risk_engine \<Rightarrow> risk_engine option" where
  "on_order_accepted r e =
     (let s = risk_account (rq_client_id r) (rq_symbol r) e in
      if rq_type r \<noteq> Market then
        (case notional (rq_quantity r) (rq_price r) of
           None \<Rightarrow> None
         | Some add \<Rightarrow>
             map_option (\<lambda>n. set_account (rq_client_id r) (rq_symbol r) (s\<lparr>rk_open_notional := n\<rparr>) e)
               (i64 (rk_open_notional s + add)))
      else Some (set_account (rq_client_id r) (rq_symbol r) s e))"

definition reduce_notional :: "quantity \<Rightarrow> price \<Rightarrow> risk_state \<Rightarrow> risk_state option" where
  "reduce_notional q p s =
     (case notional q p of
        None \<Rightarrow> None
      | Some reduce \<Rightarrow>
          map_option (\<lambda>n. s\<lparr>rk_open_notional := max 0 n\<rparr>) (i64 (rk_open_notional s - reduce)))"

definition on_order_closed ::
  "client_id \<Rightarrow> symbol_id \<Rightarrow> side \<Rightarrow> price \<Rightarrow> quantity \<Rightarrow> risk_engine \<Rightarrow> risk_engine option" where
  "on_order_closed client sy sd p q e =
     map_option (\<lambda>s. set_account client sy s e) (reduce_notional q p (risk_account client sy e))"

definition on_fill ::
  "client_id \<Rightarrow> symbol_id \<Rightarrow> side \<Rightarrow> price \<Rightarrow> quantity \<Rightarrow> risk_engine \<Rightarrow> risk_engine option" where
  "on_fill client sy sd p q e =
     (let s = risk_account client sy e in
      (case i64 (rk_position s + signed_quantity sd q) of
         None \<Rightarrow> None
       | Some position \<Rightarrow>
           map_option (\<lambda>s. set_account client sy s e)
             (reduce_notional q p (s\<lparr>rk_position := position\<rparr>))))"

definition set_realized_pnl ::
  "client_id \<Rightarrow> symbol_id \<Rightarrow> int \<Rightarrow> risk_engine \<Rightarrow> risk_engine option" where
  "set_realized_pnl client sy pnl e =
     (let s = (risk_account client sy e)\<lparr>rk_realized_pnl := pnl\<rparr> in
      map_option
        (\<lambda>floor_pnl. set_account client sy (if pnl \<le> floor_pnl then s\<lparr>rk_killed := True\<rparr> else s) e)
        (i64 (- rl_max_daily_loss (re_limits e))))"

definition risk_kill :: "client_id \<Rightarrow> symbol_id \<Rightarrow> risk_engine \<Rightarrow> risk_engine" where
  "risk_kill client sy e = set_account client sy ((risk_account client sy e)\<lparr>rk_killed := True\<rparr>) e"

definition risk_reset :: "client_id \<Rightarrow> symbol_id \<Rightarrow> risk_engine \<Rightarrow> risk_engine" where
  "risk_reset client sy e = set_account client sy empty_risk_state e"

section \<open>Accounts\<close>

lemma risk_key_bits:
  "bit (risk_key c s) n \<longleftrightarrow> (n < 32 \<and> bit s n) \<or> (32 \<le> n \<and> n < 64 \<and> bit c (n - 32))"
  by (auto simp: risk_key_def bit_simps dest: bit_imp_le_length)

lemma risk_key_inject [simp]: "risk_key c s = risk_key d t \<longleftrightarrow> c = d \<and> s = t"
proof
  assume eq: "risk_key c s = risk_key d t"
  have "bit s n = bit t n" if "n < 32" for n
    using arg_cong [OF eq, of "\<lambda>k. bit k n"] that by (simp add: risk_key_bits)
  moreover have "bit c n = bit d n" if "n < 32" for n
    using arg_cong [OF eq, of "\<lambda>k. bit k (n + 32)"] that by (simp add: risk_key_bits)
  ultimately show "c = d \<and> s = t" by (auto intro!: bit_word_eqI)
qed simp

lemma account_set [simp]:
  "risk_account d t (set_account c s x e) = (if d = c \<and> t = s then x else risk_account d t e)"
  "re_limits (set_account c s x e) = re_limits e"
  by (simp_all add: risk_account_def set_account_def)

lemma i64_Some [simp]: "i64 i = Some j \<longleftrightarrow> j = i \<and> - (2 ^ 63) \<le> i \<and> i < 2 ^ 63"
  by (auto simp: i64_def)

text \<open>The operations on one account.\<close>

inductive risk_step :: "client_id \<times> symbol_id \<Rightarrow> risk_engine \<Rightarrow> risk_engine \<Rightarrow> bool" where
  "on_order_accepted r e = Some e' \<Longrightarrow> risk_step (rq_client_id r, rq_symbol r) e e'"
| "on_order_closed c s sd p q e = Some e' \<Longrightarrow> risk_step (c, s) e e'"
| "on_fill c s sd p q e = Some e' \<Longrightarrow> risk_step (c, s) e e'"
| "set_realized_pnl c s pnl e = Some e' \<Longrightarrow> risk_step (c, s) e e'"
| "risk_step (c, s) e (risk_kill c s e)"

text \<open>Any history in which the account \<open>k\<close> is not reset.\<close>

inductive risk_steps :: "client_id \<times> symbol_id \<Rightarrow> risk_engine \<Rightarrow> risk_engine \<Rightarrow> bool" for k where
  refl: "risk_steps k e e"
| step: "risk_steps k e e' \<Longrightarrow> risk_step a e' e'' \<Longrightarrow> risk_steps k e e''"
| reset: "risk_steps k e e' \<Longrightarrow> (c, s) \<noteq> k \<Longrightarrow> risk_steps k e (risk_reset c s e')"

lemma step_frame:
  "risk_step a e e' \<Longrightarrow> re_limits e' = re_limits e \<and>
     ((c, s) \<noteq> a \<longrightarrow> risk_account c s e' = risk_account c s e) \<and>
     (rk_killed (risk_account c s e) \<longrightarrow> rk_killed (risk_account c s e'))"
  by (induction rule: risk_step.induct)
    (auto simp: on_order_accepted_def on_order_closed_def on_fill_def set_realized_pnl_def
      risk_kill_def reduce_notional_def Let_def split: option.splits if_splits)

section \<open>Properties\<close>

lemma killed_persists:
  "risk_steps (c, s) e e' \<Longrightarrow> rk_killed (risk_account c s e) \<Longrightarrow> rk_killed (risk_account c s e')"
proof (induction rule: risk_steps.induct)
  case (step e e' a e'')
  then show ?case using step_frame [of a e' e'' c s] by blast
qed (auto simp: risk_reset_def)

text \<open>The kill switch holds: after an account has been killed, or its profit has been set to a
  loss at or beyond the daily limit, every order of that client and symbol is refused, whatever
  happens on any account, until that account is reset.\<close>

theorem kill_switch_holds:
  assumes "e1 = risk_kill c s e \<or> (set_realized_pnl c s pnl e = Some e1 \<and>
      pnl \<le> - rl_max_daily_loss (re_limits e))"
    and "risk_steps (c, s) e1 e'" and "rq_client_id r = c" and "rq_symbol r = s"
  shows "risk_allow r e' = Some False"
proof -
  have "rk_killed (risk_account c s e1)"
    using assms(1) by (auto simp: risk_kill_def set_realized_pnl_def Let_def)
  with killed_persists [OF assms(2)] assms(3,4) show ?thesis
    by (simp add: risk_allow_def Let_def)
qed

lemma kill_switch_holds_witness:
  "risk_allow \<lparr>rq_order_id = 1, rq_client_id = 7, rq_side = Buy, rq_type = Limit, rq_price = 10,
      rq_quantity = 5, rq_symbol = 2\<rparr>
     (risk_reset 8 2 (risk_kill 7 2 (new_risk_engine default_risk_limits))) = Some False"
proof (rule kill_switch_holds [OF disjI1 [OF HOL.refl]])
  show "risk_steps (7, 2) (risk_kill 7 2 (new_risk_engine default_risk_limits))
      (risk_reset 8 2 (risk_kill 7 2 (new_risk_engine default_risk_limits)))"
    by (rule risk_steps.reset [OF risk_steps.refl]) simp
qed simp_all

text \<open>C36: The limits hold for what is allowed: recording an allowed order is defined, the open
  notional then is within the limit, filling the whole order keeps the position within the limit,
  and no other account is touched. The engine must not be in overdraft and its limits must fit.\<close>

theorem allowed_within_limits:
  assumes "risk_allow r e = Some True"
    and "0 \<le> rk_open_notional (risk_account (rq_client_id r) (rq_symbol r) e)"
    and "rl_max_open_notional (re_limits e) < 2 ^ 63"
  shows "\<exists>e'. on_order_accepted r e = Some e' \<and>
    (if rq_type r = Market
     then risk_account (rq_client_id r) (rq_symbol r) e' = risk_account (rq_client_id r) (rq_symbol r) e
     else rk_open_notional (risk_account (rq_client_id r) (rq_symbol r) e') \<le> rl_max_open_notional (re_limits e)) \<and>
    \<bar>rk_position (risk_account (rq_client_id r) (rq_symbol r) e) + signed_quantity (rq_side r) (rq_quantity r)\<bar>
      \<le> rl_max_abs_position (re_limits e) \<and>
    (\<forall>c s. (c, s) \<noteq> (rq_client_id r, rq_symbol r) \<longrightarrow> risk_account c s e' = risk_account c s e)"
  using assms
  by (auto simp: risk_allow_def notional_allowed_def on_order_accepted_def notional_def Let_def
      split: if_splits option.splits)

definition small_order :: order_request where
  "small_order = \<lparr>rq_order_id = 1, rq_client_id = 7, rq_side = Buy, rq_type = Limit,
     rq_price = 10, rq_quantity = 5, rq_symbol = 2\<rparr>"

lemma allowed_within_limits_witness:
  "\<exists>e'. on_order_accepted small_order (new_risk_engine default_risk_limits) = Some e' \<and>
    rk_open_notional (risk_account 7 2 e') \<le> 500000000"
proof -
  let ?e = "new_risk_engine default_risk_limits"
  have "risk_allow small_order ?e = Some True" by code_simp
  moreover have "rk_open_notional (risk_account 7 2 ?e) = 0" by code_simp
  moreover have "rl_max_open_notional (re_limits ?e) = 500000000" by code_simp
  ultimately show ?thesis
    using allowed_within_limits [of small_order ?e] by (auto simp: small_order_def)
qed

text \<open>
  What the position limit does not cover: it is tested against the filled position only, so two
  orders that are each allowed can together take the position beyond it; and the arithmetic of
  the test can overflow for a price near the end of its range.
\<close>

lemma open_orders_not_counted:
  "\<exists>e r e1 e2 e3. risk_allow r e = Some True \<and> on_order_accepted r e = Some e1 \<and>
     risk_allow r e1 = Some True \<and> on_fill 7 2 Buy 10 (rq_quantity r) e1 = Some e2 \<and>
     on_fill 7 2 Buy 10 (rq_quantity r) e2 = Some e3 \<and>
     rl_max_abs_position (re_limits e3) < rk_position (risk_account 7 2 e3)"
proof -
  let ?e = "new_risk_engine \<lparr>rl_max_order_quantity = 5000, rl_max_abs_position = 8,
      rl_max_open_notional = 500000000, rl_max_daily_loss = 5000000\<rparr>"
  have empty: "risk_account c s ?e = empty_risk_state" for c s
    by (simp add: risk_account_def new_risk_engine_def)
  show ?thesis
    by (rule exI [of _ ?e], rule exI [of _ small_order])
      (simp add: risk_allow_def empty notional_allowed_def notional_def Let_def small_order_def
        empty_risk_state_def signed_quantity_def i64_def on_order_accepted_def on_fill_def
        reduce_notional_def, simp add: new_risk_engine_def)
qed

lemma notional_overflows:
  "risk_allow (small_order\<lparr>rq_price := 2 ^ 62\<rparr>) (new_risk_engine default_risk_limits) = None"
  by (simp add: risk_allow_def notional_allowed_def notional_def Let_def small_order_def
      default_risk_limits_def empty_risk_state_def signed_quantity_def i64_def risk_account_def
      new_risk_engine_def)

end
