(* ===== verification/Hash_Map.thy ===== *)
theory Hash_Map
  imports Prelude "HOL-Library.AList"
begin

text \<open>
  The model of \<open>std::unordered_map\<close>: an association list of the entries in the order they were
  inserted, read with \<open>map_of\<close>. \<open>emplace\<close> leaves an entry that is there alone; an assignment through
  an iterator or a reference replaces the value in place, and \<open>operator[]\<close> inserts first.
\<close>

definition hm_emplace :: "'k \<Rightarrow> 'v \<Rightarrow> ('k \<times> 'v) list \<Rightarrow> ('k \<times> 'v) list" where
  "hm_emplace k v m = (if map_of m k = None then m @ [(k, v)] else m)"

definition hm_update :: "'k \<Rightarrow> 'v \<Rightarrow> ('k \<times> 'v) list \<Rightarrow> ('k \<times> 'v) list" where
  "hm_update k v m = AList.update k v m"

lemma hm_update_simps [simp]:
  "hm_update k v [] = [(k, v)]"
  "hm_update k v ((l, w) # m) = (if l = k then (k, v) # m else (l, w) # hm_update k v m)"
  by (simp_all add: hm_update_def)

lemma map_of_hm_update [simp]: "map_of (hm_update k v m) = (map_of m)(k \<mapsto> v)"
  by (simp add: hm_update_def update_conv')

lemma keys_hm_update:
  assumes "map_of m k = Some w"
  shows "map fst (hm_update k v m) = map fst m"
proof -
  have "k \<in> set (map fst m)" using assms by (force dest: map_of_SomeD)
  then show ?thesis by (simp add: hm_update_def update_keys)
qed

lemma length_hm_update: "map_of m k = Some w \<Longrightarrow> length (hm_update k v m) = length m"
  using arg_cong [OF keys_hm_update, of m k w length] by simp

lemma map_of_snoc:
  assumes "map_of m k = None"
  shows "map_of (m @ [(k, v)]) = (map_of m)(k \<mapsto> v)"
proof
  fix x
  show "map_of (m @ [(k, v)]) x = ((map_of m)(k \<mapsto> v)) x"
    using assms by (cases "x = k"; cases "map_of m x") (simp_all add: map_add_def)
qed

lemma map_of_hm_emplace:
  "map_of (hm_emplace k v m) = (if map_of m k = None then (map_of m)(k \<mapsto> v) else map_of m)"
proof (cases "map_of m k")
  case None
  then show ?thesis using map_of_snoc [OF None, of v] by (simp add: hm_emplace_def)
qed (simp add: hm_emplace_def)

lemma keys_hm_emplace:
  "map fst (hm_emplace k v m) = (if map_of m k = None then map fst m @ [k] else map fst m)"
  by (simp add: hm_emplace_def)

lemma hm_update_twice: "hm_update k v (hm_update k w m) = hm_update k v m"
  by (simp add: hm_update_def)

lemma distinct_hm_update: "distinct (map fst m) \<Longrightarrow> distinct (map fst (hm_update k v m))"
  by (simp add: hm_update_def distinct_update)

lemma distinct_hm_emplace: "distinct (map fst m) \<Longrightarrow> distinct (map fst (hm_emplace k v m))"
  by (auto simp: hm_emplace_def map_of_eq_None_iff)

lemma hm_update_same: "map_of m k = Some v \<Longrightarrow> hm_update k v m = m"
  by (simp add: hm_update_def update_triv)

section \<open>Maps whose keys are given out in order\<close>

definition numbered :: "u64 \<Rightarrow> (u64 \<times> 'r) list \<Rightarrow> bool" where
  "numbered n m \<longleftrightarrow> map fst m = map of_nat [1..<Suc (length m)] \<and> n = of_nat (Suc (length m))"

lemma unat_of_nat_u64: "i < 2 ^ 64 \<Longrightarrow> unat (of_nat i :: u64) = i"
  by (simp add: unat_of_nat take_bit_nat_eq_self)

lemma sint_small:
  assumes "i < 2 ^ 63"
  shows "sint (of_nat i :: u64) = int i"
proof -
  have "unat (of_nat i :: u64) = i" using assms by (intro unat_of_nat_u64) simp
  then show ?thesis
    using assms by (simp add: sint_uint uint_nat signed_take_bit_int_eq_self)
qed

lemma small_sint: "unat (w :: u64) < 2 ^ 63 \<Longrightarrow> sint w = int (unat w)"
  using sint_small [of "unat w"] by simp

lemma of_nat_u64_inject: "i < 2 ^ 64 \<Longrightarrow> j < 2 ^ 64 \<Longrightarrow> (of_nat i :: u64) = of_nat j \<longleftrightarrow> i = j"
proof -
  assume "i < 2 ^ 64" and "j < 2 ^ 64"
  then have "unat (of_nat i :: u64) = i" "unat (of_nat j :: u64) = j" by (simp_all only: unat_of_nat_u64)
  then show ?thesis by (metis (no_types))
qed

lemma numbered_distinct:
  assumes "numbered n m" and "length m < 2 ^ 64"
  shows "distinct (map fst m)"
proof -
  have "inj_on (of_nat :: nat \<Rightarrow> u64) (set [1..<Suc (length m)])"
  proof (rule inj_onI)
    fix i j :: nat
    assume "i \<in> set [1..<Suc (length m)]" "j \<in> set [1..<Suc (length m)]" "(of_nat i :: u64) = of_nat j"
    then show "i = j" using assms(2) of_nat_u64_inject [of i j] by auto
  qed
  moreover have "map fst m = map of_nat [1..<Suc (length m)]" using assms(1) unfolding numbered_def by blast
  ultimately show ?thesis by (simp only: distinct_map) simp
qed

lemma numbered_next:
  assumes "numbered n m" and "Suc (length m) < 2 ^ 64"
  shows "map_of m n = None" and "hm_emplace n v m = m @ [(n, v)]" and "numbered (n + 1) (m @ [(n, v)])"
proof -
  have keys: "map fst m = map of_nat [1..<Suc (length m)]" "n = of_nat (Suc (length m))"
    using assms(1) unfolding numbered_def by blast+
  have "n \<notin> set (map fst m)"
  proof
    assume "n \<in> set (map fst m)"
    then have "n \<in> of_nat ` {1..<Suc (length m)}" by (simp only: keys(1) set_map set_upt)
    then obtain i where i: "i \<in> {1..<Suc (length m)}" "n = of_nat i" by (rule imageE)
    then have lt: "i < Suc (length m)" by simp
    have "(of_nat (Suc (length m)) :: u64) = of_nat i" by (rule trans [OF keys(2) [symmetric] i(2)])
    then have "Suc (length m) = i"
      using of_nat_u64_inject [OF assms(2) less_trans [OF lt assms(2)]] by (rule iffD1 [rotated])
    with lt show False by simp
  qed
  then show none: "map_of m n = None" by (simp add: map_of_eq_None_iff)
  show "hm_emplace n v m = m @ [(n, v)]" by (simp add: hm_emplace_def none)
  show "numbered (n + 1) (m @ [(n, v)])"
    unfolding numbered_def map_append keys(1) by (simp add: keys(2) add.commute)
qed

lemma numbered_keys: "map fst m' = map fst m \<Longrightarrow> numbered n m' \<longleftrightarrow> numbered n m"
proof -
  assume eq: "map fst m' = map fst m"
  have "length m' = length m" using arg_cong [OF eq, of length] by (simp only: length_map)
  with eq show ?thesis by (simp only: numbered_def)
qed

end
