(* ===== verification/Oms.thy ===== *)
theory Oms
  imports Double Hash_Map
begin

text \<open>
  The order management system (include/minimatch/oms.hpp, src/oms.cpp): parent orders, the child
  orders they are worked through and the fills of the children, every public operation of the
  class \<open>OrderManagementSystem\<close>.

  The two \<open>std::unordered_map\<close>s are association lists in the order of insertion, which no
  operation shows (\<open>parents\<close> sorts). A result is an exception (\<open>Inl\<close>) or a value (\<open>Inr\<close>),
  beside the state the call leaves, as a call that throws may have changed it. The mutation callback
  is the list of the events it has been called with; without one nothing is recorded.
\<close>

section \<open>Types\<close>

datatype route_side = Buy | Sell

datatype execution_algorithm = Market | TWAP | VWAP | POV | Iceberg

datatype order_status = New | Working | PartiallyFilled | Filled | Cancelled | Rejected

record parent_order_request =
  pr_symbol :: string
  pr_side :: route_side
  pr_quantity :: double
  pr_algorithm :: execution_algorithm

record parent_order =
  po_id :: u64
  po_symbol :: string
  po_side :: route_side
  po_algorithm :: execution_algorithm
  po_quantity :: double
  po_filled_quantity :: double
  po_remaining_quantity :: double
  po_status :: order_status
  po_created_timestamp_ns :: u64
  po_updated_timestamp_ns :: u64
  po_child_ids :: "u64 list"

record child_order_request =
  cr_parent_id :: u64
  cr_venue :: string
  cr_price :: double
  cr_quantity :: double
  cr_created_timestamp_ns :: u64

record child_order =
  co_id :: u64
  co_parent_id :: u64
  co_venue :: string
  co_price :: double
  co_quantity :: double
  co_filled_quantity :: double
  co_remaining_quantity :: double
  co_status :: order_status
  co_created_timestamp_ns :: u64
  co_updated_timestamp_ns :: u64

record oms_execution_report =
  xr_execution_report_id :: u64
  xr_parent_id :: u64
  xr_child_id :: u64
  xr_venue :: string
  xr_price :: double
  xr_quantity :: double
  xr_notional :: double
  xr_fee :: double
  xr_timestamp_ns :: u64

datatype mutation_type =
  ParentCreated | ParentUpdated | ChildCreated | ChildUpdated | FillRecorded

record mutation_event =
  me_type :: mutation_type
  me_parent :: "parent_order option"
  me_child :: "child_order option"
  me_fill :: "oms_execution_report option"

record oms =
  oms_next_parent_id :: u64
  oms_next_child_id :: u64
  oms_next_report_id :: u64
  oms_parents :: "(u64 \<times> parent_order) list"
  oms_children :: "(u64 \<times> child_order) list"
  oms_reports :: "oms_execution_report list"
  oms_callback_set :: bool
  oms_events :: "mutation_event list"

datatype oms_error = InvalidArgument string | LogicError string | OutOfRange

definition new_oms :: oms where
  "new_oms =
     \<lparr>oms_next_parent_id = 1, oms_next_child_id = 1, oms_next_report_id = 1, oms_parents = [],
      oms_children = [], oms_reports = [], oms_callback_set = False, oms_events = []\<rparr>"

definition order_status_string :: "order_status \<Rightarrow> string" where
  "order_status_string status =
     (case status of
        New \<Rightarrow> ''NEW''
      | Working \<Rightarrow> ''WORKING''
      | PartiallyFilled \<Rightarrow> ''PARTIALLY_FILLED''
      | Filled \<Rightarrow> ''FILLED''
      | Cancelled \<Rightarrow> ''CANCELLED''
      | Rejected \<Rightarrow> ''REJECTED'')"

section \<open>Helpers\<close>

text \<open>The constant 1e-12: the nearest double.\<close>

definition oms_epsilon :: double where
  "oms_epsilon = round_double False (1 / 10 ^ 12)"

definition terminal_status :: "order_status \<Rightarrow> bool" where
  "terminal_status status \<longleftrightarrow> status = Filled \<or> status = Cancelled \<or> status = Rejected"

definition validate_positive :: "double \<Rightarrow> string \<Rightarrow> oms_error option" where
  "validate_positive v message =
     (if \<not> is_finite v \<or> d_le v (Number 0) then Some (InvalidArgument message) else None)"

definition set_mutation_callback :: "oms \<Rightarrow> oms" where
  "set_mutation_callback s = s\<lparr>oms_callback_set := True\<rparr>"

definition notify_mutation :: "mutation_event \<Rightarrow> oms \<Rightarrow> oms" where
  "notify_mutation event s =
     (if oms_callback_set s then s\<lparr>oms_events := oms_events s @ [event]\<rparr> else s)"

text \<open>The loop of \<open>refresh_parent\<close> over the children: what they have filled in all, and whether one
  is open, rejected or cancelled.\<close>

fun scan_children ::
  "(u64 \<times> child_order) list \<Rightarrow> u64 list \<Rightarrow> double \<times> bool \<times> bool \<times> bool \<Rightarrow> double \<times> bool \<times> bool \<times> bool"
where
  "scan_children children [] totals = totals"
| "scan_children children (child_id # ids) (filled, working, rejected, cancelled) =
     (case map_of children child_id of
        None \<Rightarrow> scan_children children ids (filled, working, rejected, cancelled)
      | Some child \<Rightarrow> scan_children children ids
          (d_add filled (co_filled_quantity child),
           working \<or> co_status child = New \<or> co_status child = Working \<or>
             co_status child = PartiallyFilled,
           rejected \<or> co_status child = Rejected,
           cancelled \<or> co_status child = Cancelled))"

definition refresh_parent :: "u64 \<Rightarrow> u64 \<Rightarrow> oms \<Rightarrow> oms" where
  "refresh_parent parent_id timestamp_ns s =
     (case map_of (oms_parents s) parent_id of
        None \<Rightarrow> s
      | Some parent \<Rightarrow>
          if po_status parent = Cancelled then s
          else
            let (filled, working, rejected, cancelled) =
                  scan_children (oms_children s) (po_child_ids parent) (Number 0, False, False, False);
                filled_quantity = d_min (po_quantity parent) filled;
                remaining = d_max (Number 0) (d_sub (po_quantity parent) filled_quantity);
                status =
                  (if d_le remaining oms_epsilon then Filled
                   else if d_less oms_epsilon filled_quantity then PartiallyFilled
                   else if working then Working
                   else if rejected \<and> \<not> cancelled then Rejected
                   else if cancelled then Cancelled
                   else New)
            in s\<lparr>oms_parents := hm_update parent_id
                   (parent\<lparr>po_filled_quantity := filled_quantity, po_remaining_quantity := remaining,
                      po_status := status, po_updated_timestamp_ns := timestamp_ns\<rparr>)
                   (oms_parents s)\<rparr>)"

section \<open>Orders\<close>

definition create_parent ::
  "parent_order_request \<Rightarrow> u64 \<Rightarrow> oms \<Rightarrow> (oms_error + u64) \<times> oms"
where
  "create_parent request timestamp_ns s =
     (if pr_symbol request = [] then (Inl (InvalidArgument ''parent symbol cannot be empty''), s)
      else case validate_positive (pr_quantity request) ''parent quantity must be positive'' of
        Some e \<Rightarrow> (Inl e, s)
      | None \<Rightarrow>
          let id = oms_next_parent_id s;
              parents = hm_emplace id
                \<lparr>po_id = id, po_symbol = pr_symbol request, po_side = pr_side request,
                 po_algorithm = pr_algorithm request, po_quantity = pr_quantity request,
                 po_filled_quantity = Number 0, po_remaining_quantity = pr_quantity request,
                 po_status = New, po_created_timestamp_ns = timestamp_ns,
                 po_updated_timestamp_ns = timestamp_ns, po_child_ids = []\<rparr> (oms_parents s);
              s1 = s\<lparr>oms_next_parent_id := id + 1, oms_parents := parents\<rparr>
          in case map_of parents id of
               None \<Rightarrow> (Inl OutOfRange, s1)
             | Some parent \<Rightarrow>
                 (Inr id, notify_mutation \<lparr>me_type = ParentCreated, me_parent = Some parent,
                    me_child = None, me_fill = None\<rparr> s1))"

definition create_child :: "child_order_request \<Rightarrow> oms \<Rightarrow> (oms_error + u64) \<times> oms" where
  "create_child request s =
     (case map_of (oms_parents s) (cr_parent_id request) of
        None \<Rightarrow> (Inl (InvalidArgument ''parent order does not exist''), s)
      | Some parent \<Rightarrow>
          if terminal_status (po_status parent) then
            (Inl (LogicError ''cannot create child for terminal parent''), s)
          else if cr_venue request = [] then
            (Inl (InvalidArgument ''child venue cannot be empty''), s)
          else case validate_positive (cr_price request) ''child price must be positive'' of
            Some e \<Rightarrow> (Inl e, s)
          | None \<Rightarrow>
          (case validate_positive (cr_quantity request) ''child quantity must be positive'' of
            Some e \<Rightarrow> (Inl e, s)
          | None \<Rightarrow>
              if d_less (d_add (po_remaining_quantity parent) oms_epsilon) (cr_quantity request) then
                (Inl (InvalidArgument ''child quantity exceeds parent remainder''), s)
              else
                let id = oms_next_child_id s;
                    children = hm_emplace id
                      \<lparr>co_id = id, co_parent_id = cr_parent_id request, co_venue = cr_venue request,
                       co_price = cr_price request, co_quantity = cr_quantity request,
                       co_filled_quantity = Number 0, co_remaining_quantity = cr_quantity request,
                       co_status = New, co_created_timestamp_ns = cr_created_timestamp_ns request,
                       co_updated_timestamp_ns = cr_created_timestamp_ns request\<rparr> (oms_children s);
                    parent' = parent\<lparr>po_child_ids := po_child_ids parent @ [id],
                      po_status := (if po_status parent = New then Working else po_status parent),
                      po_updated_timestamp_ns := cr_created_timestamp_ns request\<rparr>;
                    s1 = s\<lparr>oms_next_child_id := id + 1, oms_children := children,
                           oms_parents := hm_update (cr_parent_id request) parent' (oms_parents s)\<rparr>
                in case (map_of (oms_parents s1) (cr_parent_id request), map_of children id) of
                     (Some p, Some c) \<Rightarrow>
                       (Inr id, notify_mutation \<lparr>me_type = ChildCreated, me_parent = Some p,
                          me_child = Some c, me_fill = None\<rparr> s1)
                   | _ \<Rightarrow> (Inl OutOfRange, s1)))"

text \<open>What \<open>mark_child_working\<close>, \<open>record_fill\<close>, \<open>cancel_child\<close> and \<open>reject_child\<close> end with: the parent
  is refreshed and the event sent, which reads the parent with \<open>at\<close>.\<close>

definition publish_child ::
  "mutation_type \<Rightarrow> child_order \<Rightarrow> oms_execution_report option \<Rightarrow> u64 \<Rightarrow> 'r \<Rightarrow> oms
    \<Rightarrow> (oms_error + 'r) \<times> oms"
where
  "publish_child type child fill timestamp_ns result s =
     (let s1 = refresh_parent (co_parent_id child) timestamp_ns s
      in case map_of (oms_parents s1) (co_parent_id child) of
           None \<Rightarrow> (Inl OutOfRange, s1)
         | Some parent \<Rightarrow>
             (Inr result, notify_mutation \<lparr>me_type = type, me_parent = Some parent,
                me_child = Some child, me_fill = fill\<rparr> s1))"

definition store_child :: "child_order \<Rightarrow> u64 \<Rightarrow> oms \<Rightarrow> oms" where
  "store_child child child_id s = s\<lparr>oms_children := hm_update child_id child (oms_children s)\<rparr>"

definition mark_child_working :: "u64 \<Rightarrow> u64 \<Rightarrow> oms \<Rightarrow> (oms_error + bool) \<times> oms" where
  "mark_child_working child_id timestamp_ns s =
     (case map_of (oms_children s) child_id of
        None \<Rightarrow> (Inr False, s)
      | Some child \<Rightarrow>
          if terminal_status (co_status child) then (Inr False, s)
          else
            let child' = child\<lparr>co_status :=
                  (if d_less oms_epsilon (co_filled_quantity child) then PartiallyFilled else Working),
                  co_updated_timestamp_ns := timestamp_ns\<rparr>
            in publish_child ChildUpdated child' None timestamp_ns True (store_child child' child_id s))"

definition record_fill ::
  "u64 \<Rightarrow> double \<Rightarrow> double \<Rightarrow> double \<Rightarrow> u64 \<Rightarrow> oms \<Rightarrow> (oms_error + oms_execution_report) \<times> oms"
where
  "record_fill child_id price quantity fee timestamp_ns s =
     (case map_of (oms_children s) child_id of
        None \<Rightarrow> (Inl (InvalidArgument ''child order does not exist''), s)
      | Some child \<Rightarrow>
          if terminal_status (co_status child) then
            (Inl (LogicError ''cannot fill terminal child order''), s)
          else case validate_positive price ''fill price must be positive'' of
            Some e \<Rightarrow> (Inl e, s)
          | None \<Rightarrow>
          (case validate_positive quantity ''fill quantity must be positive'' of
            Some e \<Rightarrow> (Inl e, s)
          | None \<Rightarrow>
              if \<not> is_finite fee \<or> d_less fee (Number 0) then
                (Inl (InvalidArgument ''fill fee must be non-negative''), s)
              else if d_less (d_add (co_remaining_quantity child) oms_epsilon) quantity then
                (Inl (InvalidArgument ''fill exceeds child remaining quantity''), s)
              else
                let filled = d_add (co_filled_quantity child) quantity;
                    remaining = d_max (Number 0) (d_sub (co_quantity child) filled);
                    child' = child\<lparr>co_filled_quantity := filled, co_remaining_quantity := remaining,
                      co_status := (if d_le remaining oms_epsilon then Filled else PartiallyFilled),
                      co_updated_timestamp_ns := timestamp_ns\<rparr>;
                    report = \<lparr>xr_execution_report_id = oms_next_report_id s,
                      xr_parent_id = co_parent_id child', xr_child_id = co_id child',
                      xr_venue = co_venue child', xr_price = price, xr_quantity = quantity,
                      xr_notional = d_mul price quantity, xr_fee = fee,
                      xr_timestamp_ns = timestamp_ns\<rparr>
                in publish_child FillRecorded child' (Some report) timestamp_ns report
                     ((store_child child' child_id s)
                       \<lparr>oms_next_report_id := oms_next_report_id s + 1,
                        oms_reports := oms_reports s @ [report]\<rparr>)))"

definition end_child :: "order_status \<Rightarrow> u64 \<Rightarrow> u64 \<Rightarrow> oms \<Rightarrow> (oms_error + bool) \<times> oms" where
  "end_child status child_id timestamp_ns s =
     (case map_of (oms_children s) child_id of
        None \<Rightarrow> (Inr False, s)
      | Some child \<Rightarrow>
          if terminal_status (co_status child) then (Inr False, s)
          else
            let child' = child\<lparr>co_status := status, co_updated_timestamp_ns := timestamp_ns\<rparr>
            in publish_child ChildUpdated child' None timestamp_ns True (store_child child' child_id s))"

definition cancel_child :: "u64 \<Rightarrow> u64 \<Rightarrow> oms \<Rightarrow> (oms_error + bool) \<times> oms" where
  "cancel_child = end_child Cancelled"

definition reject_child :: "u64 \<Rightarrow> u64 \<Rightarrow> oms \<Rightarrow> (oms_error + bool) \<times> oms" where
  "reject_child = end_child Rejected"

fun cancel_children ::
  "u64 list \<Rightarrow> u64 \<Rightarrow> (u64 \<times> child_order) list \<Rightarrow> (u64 \<times> child_order) list"
where
  "cancel_children [] timestamp_ns children = children"
| "cancel_children (child_id # ids) timestamp_ns children =
     (case map_of children child_id of
        None \<Rightarrow> cancel_children ids timestamp_ns children
      | Some child \<Rightarrow>
          cancel_children ids timestamp_ns
            (if terminal_status (co_status child) then children
             else hm_update child_id
               (child\<lparr>co_status := Cancelled, co_updated_timestamp_ns := timestamp_ns\<rparr>) children))"

definition cancel_parent :: "u64 \<Rightarrow> u64 \<Rightarrow> oms \<Rightarrow> bool \<times> oms" where
  "cancel_parent parent_id timestamp_ns s =
     (case map_of (oms_parents s) parent_id of
        None \<Rightarrow> (False, s)
      | Some parent \<Rightarrow>
          if terminal_status (po_status parent) then (False, s)
          else
            let children = cancel_children (po_child_ids parent) timestamp_ns (oms_children s);
                parent' = parent\<lparr>po_status := Cancelled, po_updated_timestamp_ns := timestamp_ns\<rparr>
            in (True, notify_mutation \<lparr>me_type = ParentUpdated, me_parent = Some parent',
                  me_child = None, me_fill = None\<rparr>
                  (s\<lparr>oms_children := children,
                     oms_parents := hm_update parent_id parent' (oms_parents s)\<rparr>)))"

section \<open>Queries\<close>

definition find_parent :: "u64 \<Rightarrow> oms \<Rightarrow> parent_order option" where
  "find_parent parent_id s = map_of (oms_parents s) parent_id"

definition find_child :: "u64 \<Rightarrow> oms \<Rightarrow> child_order option" where
  "find_child child_id s = map_of (oms_children s) child_id"

definition children_for_parent :: "u64 \<Rightarrow> oms \<Rightarrow> child_order list" where
  "children_for_parent parent_id s =
     (case map_of (oms_parents s) parent_id of
        None \<Rightarrow> []
      | Some parent \<Rightarrow> List.map_filter (map_of (oms_children s)) (po_child_ids parent))"

definition fills_for_parent :: "u64 \<Rightarrow> oms \<Rightarrow> oms_execution_report list" where
  "fills_for_parent parent_id s = filter (\<lambda>report. xr_parent_id report = parent_id) (oms_reports s)"

definition parents :: "oms \<Rightarrow> parent_order list" where
  "parents s = sort_key po_id (map snd (oms_parents s))"

definition parent_count :: "oms \<Rightarrow> nat" where
  "parent_count s = length (oms_parents s)"

definition child_count :: "oms \<Rightarrow> nat" where
  "child_count s = length (oms_children s)"

definition execution_report_count :: "oms \<Rightarrow> nat" where
  "execution_report_count s = length (oms_reports s)"

section \<open>Recovery\<close>

text \<open>The loops of \<open>restore\<close>: the next id is the largest of 1 and the successors, and the first
  record of an id stays.\<close>

fun restore_records :: "('r \<Rightarrow> u64) \<Rightarrow> 'r list \<Rightarrow> u64 \<times> (u64 \<times> 'r) list \<Rightarrow> u64 \<times> (u64 \<times> 'r) list" where
  "restore_records id_of [] acc = acc"
| "restore_records id_of (r # rs) (next_id, m) =
     restore_records id_of rs (max next_id (id_of r + 1), hm_emplace (id_of r) r m)"

definition restore ::
  "parent_order list \<Rightarrow> child_order list \<Rightarrow> oms_execution_report list \<Rightarrow> oms \<Rightarrow> oms"
where
  "restore ps cs reports s =
     (let (next_parent, parent_map) = restore_records po_id ps (1, []);
          (next_child, child_map) = restore_records co_id cs (1, [])
      in s\<lparr>oms_next_parent_id := next_parent, oms_next_child_id := next_child,
           oms_next_report_id := foldl (\<lambda>n r. max n (xr_execution_report_id r + 1)) 1 reports,
           oms_parents := parent_map, oms_children := child_map, oms_reports := reports\<rparr>)"

end
