(* ===== verification/Double_Arith.thy ===== *)
theory Double_Arith
  imports Double
begin

text \<open>
  The arithmetic of doubles as an ordered structure: sums, differences, minima and maxima are
  monotone on the values that are not NaN, and a running sum of non-negative amounts only grows.
  These are the facts behind the fill totals of the order management system.
\<close>

lemma round_numeral [simp]:
  "(numeral k :: int) < 2 ^ 53 \<Longrightarrow> round_double s (numeral k) = Number (numeral k)"
  using round_double_int [of "numeral k" s] by simp

lemma round_neg_numeral:
  "(numeral k :: int) < 2 ^ 53 \<Longrightarrow> round_double s (- numeral k) = Number (- numeral k)"
  using round_double_int [of "- numeral k" s] by simp

lemma d_le_refl [simp]: "d_le x x \<longleftrightarrow> \<not> is_nan x"
  by (cases x) (auto simp: d_le_def)

lemma d_le_total: "\<not> is_nan x \<Longrightarrow> \<not> is_nan y \<Longrightarrow> d_le x y \<or> d_le y x"
  by (cases x; cases y) (auto simp: d_le_def)

lemma d_less_le_trans: "d_less x y \<Longrightarrow> d_le y z \<Longrightarrow> d_less x z"
  by (cases x; cases y; cases z; auto simp: d_le_def)

lemma d_less_imp_not_le: "d_less x y \<Longrightarrow> \<not> d_le y x"
  by (simp add: d_le_def)

abbreviation nonneg :: "double \<Rightarrow> bool" where
  "nonneg x \<equiv> d_le (Number 0) x"

lemma proper_round [simp]: "proper (round_double s q)"
proof (cases "round_double s q")
  case (Number v)
  then show ?thesis
    using round_double_idem [OF Number, of False] by (auto simp: round_double_0)
qed simp_all

lemma d_add_finite:
  "is_finite x \<Longrightarrow> is_finite y \<Longrightarrow>
   d_add x y = (if x = MinusZero \<and> y = MinusZero then MinusZero
     else round_double False (value_of x + value_of y))"
  by (cases x; cases y) simp_all

lemma proper_add [simp]: "proper (d_add x y)"
  by (cases x; cases y) simp_all

lemma d_add_0_right: "proper x \<Longrightarrow> x \<noteq> MinusZero \<Longrightarrow> d_add x (Number 0) = x"
  by (cases x) simp_all

lemma d_add_not_minus_zero: "x \<noteq> MinusZero \<Longrightarrow> d_le (Number 0) x \<Longrightarrow> d_le (Number 0) y \<Longrightarrow> d_add x y \<noteq> MinusZero"
proof -
  assume x: "x \<noteq> MinusZero" "d_le (Number 0) x" "d_le (Number 0) y"
  have "round_double False q \<noteq> MinusZero" if "0 \<le> q" for q
  proof (cases "q = 0")
    case True
    then show ?thesis by (simp add: round_double_0)
  next
    case False
    with that show ?thesis by (simp add: round_double_pos)
  qed
  with x show ?thesis by (cases x; cases y) (simp_all add: d_le_def not_less)
qed

text \<open>The order does not tell the two zeros apart.\<close>

lemma d_le_add_finite:
  assumes "is_finite x" and "is_finite y"
  shows "d_le (d_add x y) z \<longleftrightarrow> d_le (round_double False (value_of x + value_of y)) z"
    and "d_le z (d_add x y) \<longleftrightarrow> d_le z (round_double False (value_of x + value_of y))"
  using assms by (cases x; cases y; cases z; simp add: round_double_0 d_le_def)+

lemma d_add_finite_mono:
  assumes "is_finite a" "is_finite b" "is_finite c" "is_finite d"
    and "value_of a + value_of c \<le> value_of b + value_of d"
  shows "d_le (d_add a c) (d_add b d)"
  using assms round_double_mono [OF assms(5), of False False] by (simp add: d_le_add_finite)

lemma d_add_mono:
  assumes "nonneg a" and "nonneg c" and "d_le a b" and "d_le c d"
  shows "d_le (d_add a c) (d_add b d)"
proof (cases "is_finite b \<and> is_finite d")
  case True
  with assms have fin: "is_finite a" "is_finite c"
    by (cases a; cases b; simp add: d_le_def) (use True assms in \<open>cases c; cases d; simp add: d_le_def\<close>)
  with assms(3,4) True show ?thesis
    by (intro d_add_finite_mono add_mono) (simp_all add: d_le_finite)
next
  case False
  with assms have "b = Infinite False \<or> d = Infinite False"
    by (cases a; cases b; cases c; cases d) (simp_all add: d_le_def)
  moreover have "\<not> is_nan (d_add a c)"
    using assms(1,2) by (cases a; cases c) (simp_all add: d_le_def)
  moreover have "\<not> is_nan b" "\<not> is_nan d" "nonneg b" "nonneg d"
    using assms d_le_trans d_le_not_nan by blast+
  ultimately show ?thesis by (cases b; cases d; cases "d_add a c") (auto simp: d_le_def)
qed

lemma d_add_nonneg: "nonneg x \<Longrightarrow> nonneg y \<Longrightarrow> nonneg (d_add x y)"
  using d_add_mono [of "Number 0" "Number 0" x y] by (simp add: round_double_0)

lemma d_add_grows: "proper x \<Longrightarrow> x \<noteq> MinusZero \<Longrightarrow> nonneg x \<Longrightarrow> nonneg y \<Longrightarrow> d_le x (d_add x y)"
  using d_add_mono [of x "Number 0" x y] by (simp add: d_add_0_right d_le_not_nan)

section \<open>Differences, minima, maxima\<close>

lemma d_le_neg: "d_le x y \<Longrightarrow> d_le (d_neg y) (d_neg x)"
  by (cases x; cases y) (auto simp: d_le_def)

lemma d_sub_antimono:
  assumes "is_finite q" and "nonneg x" and "d_le x y"
  shows "d_le (d_sub q y) (d_sub q x)"
proof (cases "is_finite y")
  case True
  then have x: "is_finite x" using assms(2,3) by (cases x; cases y) (simp_all add: d_le_def)
  have "value_of (d_neg z) = - value_of z" "is_finite (d_neg z)" if "is_finite z" for z
    using that by (cases z; simp)+
  then show ?thesis
    using assms(1,3) x True unfolding d_sub_def
    by (intro d_add_finite_mono) (simp_all add: d_le_finite)
next
  case False
  with assms have y: "y = Infinite False" by (cases x; cases y) (auto simp: d_le_def)
  have "d_sub q y = Infinite True" using assms(1) y by (cases q) (simp_all add: d_sub_def)
  moreover have "\<not> is_nan (d_sub q x)"
    using assms(1,2) by (cases q; cases x) (simp_all add: d_sub_def d_le_def)
  ultimately show ?thesis by (cases "d_sub q x") (simp_all add: d_le_def)
qed

lemma d_min_mono: "\<not> is_nan q \<Longrightarrow> d_le x y \<Longrightarrow> d_le (d_min q x) (d_min q y)"
  by (cases q; cases x; cases y) (auto simp: d_min_def d_le_def)

lemma d_max_mono: "\<not> is_nan q \<Longrightarrow> d_le x y \<Longrightarrow> d_le (d_max q x) (d_max q y)"
  by (cases q; cases x; cases y) (auto simp: d_max_def d_le_def)

lemma d_min_nonneg: "nonneg q \<Longrightarrow> nonneg x \<Longrightarrow> nonneg (d_min q x)"
  by (simp add: d_min_def)

lemma d_min_le: "\<not> is_nan q \<Longrightarrow> \<not> is_nan x \<Longrightarrow> d_le (d_min q x) q"
  by (cases q; cases x) (auto simp: d_min_def d_le_def)

lemma d_max_ge: "\<not> is_nan q \<Longrightarrow> \<not> is_nan x \<Longrightarrow> d_le q (d_max q x)"
  by (cases q; cases x) (auto simp: d_max_def d_le_def)

lemma d_sub_0: "proper x \<Longrightarrow> d_less (Number 0) x \<Longrightarrow> d_sub x (Number 0) = x"
  by (cases x) (auto simp: d_sub_def)

section \<open>Absolute values\<close>

text \<open>\<open>std::abs\<close> clears the sign.\<close>

fun d_abs :: "double \<Rightarrow> double" where
  "d_abs NaN = NaN"
| "d_abs (Infinite s) = Infinite False"
| "d_abs MinusZero = Number 0"
| "d_abs (Number q) = Number \<bar>q\<bar>"

lemma d_abs_nonneg: "\<not> is_nan x \<Longrightarrow> nonneg (d_abs x)"
  by (cases x) (auto simp: d_le_def)

lemma d_abs_is_nan [simp]: "is_nan (d_abs x) = is_nan x"
  by (cases x) simp_all

lemma d_abs_not_minus_zero [simp]: "d_abs x \<noteq> MinusZero"
  by (cases x) simp_all

lemma d_sub_self: "is_finite x \<Longrightarrow> d_sub x x = Number 0"
  by (cases x) (simp_all add: d_sub_def round_double_0)

text \<open>Adding and negating commute up to the sign of a zero, which the order does not see.\<close>

lemma round_double_neg_order:
  "d_le (round_double False (- q)) z \<longleftrightarrow> d_le (d_neg (round_double False q)) z"
proof -
  consider "q = 0" | "0 < q" | "q < 0" by linarith
  then show ?thesis
    by cases (cases z; auto simp: round_double_def Let_def d_le_def)+
qed

lemma d_neg_add_order:
  assumes "\<not> is_nan (d_add x y)"
  shows "d_le (d_neg (d_add x y)) z \<longleftrightarrow> d_le (d_add (d_neg x) (d_neg y)) z"
proof -
  have n: "value_of (d_neg w) = - value_of w" for w by (cases w) simp_all
  show ?thesis
  proof (cases "is_finite x \<and> is_finite y")
    case True
    then have "is_finite (d_neg x)" "is_finite (d_neg y)" by (cases x; cases y; simp)+
    moreover have "d_le (d_neg (d_add x y)) z \<longleftrightarrow> d_le (d_neg (round_double False (value_of x + value_of y))) z"
      using True by (cases z) (auto simp: d_add_finite round_double_0 d_le_def)
    ultimately show ?thesis
      using round_double_neg_order [of "value_of x + value_of y" z] by (simp add: d_le_add_finite n)
  next
    case False
    then show ?thesis using assms by (cases x; cases y; cases z) (auto simp: d_le_def)
  qed
qed

lemma d_add_mono_finite:
  assumes "d_le a b" and "d_le c d" and "is_finite c" and "is_finite d"
  shows "d_le (d_add a c) (d_add b d)"
proof (cases "is_finite a \<and> is_finite b")
  case True
  with assms show ?thesis by (intro d_add_finite_mono add_mono) (simp_all add: d_le_finite)
next
  case False
  have "\<not> is_nan (d_add x y)" if "\<not> is_nan x" "is_finite y" for x y
    using that by (cases x; cases y) simp_all
  then have "\<not> is_nan (d_add a c)" "\<not> is_nan (d_add b d)" using assms by (auto dest: d_le_not_nan)
  moreover have "d_add a c = Infinite True \<or> d_add b d = Infinite False"
    using False assms by (cases a; cases b; cases c; cases d) (auto simp: d_le_def)
  ultimately show ?thesis by (cases "d_add a c"; cases "d_add b d") (auto simp: d_le_def)
qed

lemma d_neg_le_abs: "\<not> is_nan x \<Longrightarrow> d_le (d_neg (d_abs x)) x" and d_le_abs: "\<not> is_nan x \<Longrightarrow> d_le x (d_abs x)"
  by (cases x; auto simp: d_le_def)+

lemma d_abs_le: "d_le x g \<Longrightarrow> d_le (d_neg g) x \<Longrightarrow> d_le (d_abs x) g"
  by (cases x; cases g) (auto simp: d_le_def split: if_splits)

lemma d_add_commute: "d_add x y = d_add y x"
  by (cases x; cases y) (simp_all add: add.commute)

lemma proper_mul [simp]: "proper (d_mul x y)"
  by (simp add: d_mul_def Let_def)

lemma proper_div [simp]: "proper (d_div x y)"
  by (simp add: d_div_def Let_def)

lemma proper_abs [simp]: "proper x \<Longrightarrow> proper (d_abs x)"
  by (cases x) (auto simp: round_double_def Let_def split: if_splits)

lemma d_neg_idem [simp]: "is_finite (d_neg x) = is_finite x" "is_nan (d_neg x) = is_nan x" "is_finite (d_abs x) = is_finite x"
  by (cases x; simp)+

lemma share_bounds:
  assumes "nonneg l" and "d_le l g" and "is_finite l" and "d_less (Number 0) g"
  shows "nonneg (d_mul (d_div l g) (Number 100))" and "d_le (d_mul (d_div l g) (Number 100)) (Number 100)"
proof -
  have *: "\<not> sign_bit g" using assms(4) by (cases g) auto
  have d: "is_finite (d_div l g) \<and> 0 \<le> value_of (d_div l g) \<and> value_of (d_div l g) \<le> 1"
  proof (cases "is_finite g")
    case True
    then have q: "0 \<le> value_of l / value_of g" "value_of l / value_of g \<le> 1" "value_of g \<noteq> 0"
      using assms by (simp_all add: d_le_finite d_less_finite divide_le_eq)
    have eq: "d_div l g = round_double (sign_bit l \<noteq> sign_bit g) (value_of l / value_of g)"
      using True assms(3) q(3) by (cases l; cases g; simp add: d_div_def)
    have "d_le (round_double False 0) (d_div l g)" "d_le (d_div l g) (round_double False 1)"
      unfolding eq by (intro round_double_mono q)+
    then show ?thesis by (cases "d_div l g") (auto simp: d_le_def round_double_0)
  next
    case False
    then have "d_div l g = round_double (sign_bit l) 0"
      using assms(3,4) by (cases l; cases g) (auto simp: d_div_def)
    then show ?thesis by (simp add: round_double_0)
  qed
  then have eq: "d_mul (d_div l g) (Number 100) =
      round_double (sign_bit (d_div l g)) (value_of (d_div l g) * 100)"
    by (cases "d_div l g") (simp_all add: d_mul_def)
  have "d_le (round_double False 0) (d_mul (d_div l g) (Number 100))"
    "d_le (d_mul (d_div l g) (Number 100)) (round_double False 100)"
    unfolding eq using d by (intro round_double_mono; simp)+
  then show "nonneg (d_mul (d_div l g) (Number 100))" "d_le (d_mul (d_div l g) (Number 100)) (Number 100)"
    by (simp_all add: round_double_0)
qed

section \<open>Products and quotients are monotone\<close>

lemma finite_not_nan: "is_finite x \<Longrightarrow> \<not> is_nan x"
  by (cases x) simp_all

lemma d_mul_commute: "d_mul x y = d_mul y x"
proof -
  have "(sign_bit x \<noteq> sign_bit y) = (sign_bit y \<noteq> sign_bit x)" by auto
  then show ?thesis by (auto simp: d_mul_def Let_def mult.commute)
qed

lemma d_mul_mono:
  assumes "nonneg x" "d_le x y" "is_finite z" "d_less (Number 0) z"
  shows "d_le (d_mul x z) (d_mul y z)"
proof (cases "is_finite y")
  case True
  then have x: "is_finite x" using assms(1,2) by (cases x; cases y) (simp_all add: d_le_def)
  have "value_of x * value_of z \<le> value_of y * value_of z"
    using assms x True by (intro mult_right_mono) (auto simp: d_le_finite d_less_finite)
  moreover have "d_mul v z = round_double (sign_bit v \<noteq> sign_bit z) (value_of v * value_of z)" if "is_finite v" for v
    using that assms(3) by (cases v; cases z) (simp_all add: d_mul_def)
  ultimately show ?thesis using x True by (simp add: round_double_mono)
next
  case False
  with assms have y: "y = Infinite False" by (cases x; cases y) (auto simp: d_le_def)
  have "\<not> is_nan (d_mul x z)" using assms by (cases x; cases z) (auto simp: d_le_def d_mul_def)
  moreover have "d_mul y z = Infinite False" using assms(3,4) y by (cases z) (auto simp: d_mul_def)
  ultimately show ?thesis by (cases "d_mul x z") (auto simp: d_le_def)
qed

lemma d_div_mono:
  assumes "nonneg x" "d_le x y" "is_finite z" "d_less (Number 0) z"
  shows "d_le (d_div x z) (d_div y z)"
proof (cases "is_finite y")
  case True
  then have x: "is_finite x" using assms(1,2) by (cases x; cases y) (simp_all add: d_le_def)
  have "value_of x / value_of z \<le> value_of y / value_of z" and z: "value_of z \<noteq> 0"
    using assms x True by (auto simp: d_le_finite d_less_finite intro: divide_right_mono)
  moreover have "d_div v z = round_double (sign_bit v \<noteq> sign_bit z) (value_of v / value_of z)"
    if "is_finite v" for v
    using that assms(3) z by (cases v; cases z) (simp_all add: d_div_def)
  ultimately show ?thesis using x True by (simp add: round_double_mono)
next
  case False
  with assms have y: "y = Infinite False" by (cases x; cases y) (auto simp: d_le_def)
  have "\<not> is_nan (d_div x z)" using assms by (cases x; cases z) (auto simp: d_le_def d_div_def)
  moreover have "d_div y z = Infinite False" using assms(3,4) y by (cases z) (auto simp: d_div_def)
  ultimately show ?thesis by (cases "d_div x z") (auto simp: d_le_def)
qed

lemma d_mul_nonneg: "nonneg x \<Longrightarrow> is_finite z \<Longrightarrow> d_less (Number 0) z \<Longrightarrow> nonneg (d_mul x z)"
  using d_mul_mono [of "Number 0" x z] by (cases z) (auto simp: d_mul_def round_double_0)

lemma quotient_nonneg: "nonneg x \<Longrightarrow> is_finite z \<Longrightarrow> d_less (Number 0) z \<Longrightarrow> nonneg (d_div x z)"
  using d_div_mono [of "Number 0" x z] by (cases z) (auto simp: d_div_def round_double_0)

lemma d_sub_mono:
  assumes "is_finite a" "is_finite b" "is_finite c" "is_finite d" "d_le a b" "d_le d c"
  shows "d_le (d_sub a c) (d_sub b d)"
proof -
  have "value_of (d_neg z) = - value_of z" if "is_finite z" for z using that by (cases z; simp)
  then show ?thesis using assms unfolding d_sub_def by (intro d_add_finite_mono) (simp_all add: d_le_finite)
qed

lemma d_sub_not_nan: "is_finite a \<Longrightarrow> is_finite b \<Longrightarrow> \<not> is_nan (d_sub a b)"
  by (cases a; cases b) (auto simp: d_sub_def)

lemma positive_finite: "is_finite x \<Longrightarrow> \<not> d_le x (Number 0) \<Longrightarrow> d_less (Number 0) x"
  by (cases x) (auto simp: d_le_def)

lemma finite_between: "nonneg x \<Longrightarrow> d_le x y \<Longrightarrow> is_finite y \<Longrightarrow> is_finite x"
  by (cases x; cases y) (auto simp: d_le_def)

lemma d_min_limit: "\<not> is_nan x \<Longrightarrow> \<not> is_nan r \<Longrightarrow> d_le (d_min r x) x"
  by (auto simp: d_min_def d_not_less)

lemma min_remaining:
  assumes "is_finite r" "nonneg r" "proper r" "nonneg x"
  defines "y \<equiv> d_min r x"
  shows "nonneg y" "is_finite (d_sub r y)" "nonneg (d_sub r y)" "proper (d_sub r y)"
proof -
  show y: "nonneg y" using assms by (simp add: d_min_def)
  have le: "d_le y r" unfolding y_def by (intro d_min_le) (use assms in \<open>auto simp: d_le_not_nan finite_not_nan\<close>)
  then have fin: "is_finite y" using finite_between y assms(1) by blast
  have "value_of (d_neg y) = - value_of y" using fin by (cases y) simp_all
  then have eq: "d_le (d_sub r y) z \<longleftrightarrow> d_le (round_double False (value_of r - value_of y)) z"
    "d_le z (d_sub r y) \<longleftrightarrow> d_le z (round_double False (value_of r - value_of y))" for z
    using assms(1) fin unfolding d_sub_def by (simp_all add: d_le_add_finite)
  have v: "0 \<le> value_of y" "value_of y \<le> value_of r" using y le fin assms(1) by (simp_all add: d_le_finite)
  have "d_le (round_double False 0) (round_double False (value_of r - value_of y))"
    using v(2) by (intro round_double_mono) simp
  then show "nonneg (d_sub r y)" by (simp add: eq round_double_0)
  moreover have "d_le (round_double False (value_of r - value_of y)) (round_double False (value_of r))"
    using v(1) by (intro round_double_mono) simp
  moreover have "is_finite (round_double False (value_of r))"
    using assms(1,3) by (cases r) (simp_all add: round_double_0)
  ultimately show "is_finite (d_sub r y)" using finite_between eq(1) by blast
  show "proper (d_sub r y)" by (simp add: d_sub_def)
qed

section \<open>The sign of a difference\<close>

text \<open>Doubles are multiples of the smallest subnormal, so a difference that is not zero does not
  round to zero.\<close>

lemma proper_multiple:
  assumes "proper (Number q)"
  obtains k :: int where "q = of_int k * 2 powi (- 1074)"
proof -
  have mag: "\<exists>k :: int. round_magnitude p = of_int k * 2 powi (- 1074)" for p
  proof -
    define e where "e = ulp_exponent p"
    have "2 powi (e + 1074) = (of_int (2 ^ nat (e + 1074)) :: rat)"
      by (simp add: e_def ulp_exponent_def power_int_def)
    moreover have "(2 :: rat) powi e = 2 powi (e + 1074) * 2 powi (- 1074)" by (rule powi_join [symmetric]) simp
    ultimately have "round_magnitude p = of_int (round_even (p / 2 powi e) * 2 ^ nat (e + 1074)) * 2 powi (- 1074)"
      by (simp add: round_magnitude_def e_def)
    then show ?thesis by blast
  qed
  define B :: rat where "B = 2 ^ 1024"
  consider "q = 0" | "0 < q" | "q < 0" by linarith
  then show thesis
  proof cases
    case 1
    then show thesis using that [of 0] by simp
  next
    case 2
    then have "q = round_magnitude q"
      using assms by (auto simp: round_double_pos [folded B_def] split: if_splits)
    then show thesis using mag [of q] that by metis
  next
    case 3
    then have "- q = round_magnitude (- q)"
      using assms by (auto simp: round_double_neg [folded B_def] split: if_splits)
    then obtain k :: int where "- q = of_int k * 2 powi (- 1074)" using mag [of "- q"] by metis
    then have "q = of_int (- k) * 2 powi (- 1074)" by simp
    then show thesis by (rule that)
  qed
qed

lemma multiple_less:
  assumes "x < (y :: rat)" and "x = of_int j * 2 powi (- 1074)" and "y = of_int k * 2 powi (- 1074)"
  shows "x - y \<le> - (2 powi (- 1074))"
proof -
  have "(of_int j :: rat) < of_int k"
    using assms by (simp add: mult_less_cancel_right)
  then have "j - k \<le> - 1" by simp
  then have "(of_int (j - k) :: rat) \<le> - 1" by (metis of_int_le_iff of_int_minus of_int_1)
  then have "of_int (j - k) * 2 powi (- 1074) \<le> - 1 * (2 powi (- 1074) :: rat)"
    by (intro mult_right_mono) simp_all
  then show ?thesis by (simp add: assms(2,3) left_diff_distrib)
qed

lemma round_negative:
  assumes "q \<le> - (2 powi (- 1074))"
  shows "d_less (round_double False q) (Number 0)"
proof -
  define B :: rat where "B = 2 ^ 1024"
  have "(2 :: rat) powi (- 1074) \<le> 2 powi 0" by (rule power_int_increasing) simp_all
  also have "\<dots> < B" by (simp add: B_def)
  finally have small: "(2 :: rat) powi (- 1074) < B" .
  have "round_magnitude (2 powi (- 1074)) = (2 powi (- 1074) :: rat)"
    using round_magnitude_exact [of 1 "- 1074"] by simp
  then have "round_double False (- (2 powi (- 1074))) = Number (- (2 powi (- 1074)))"
    using small by (simp add: round_double_neg [folded B_def] del: power_int_minus)
  moreover have "d_le (round_double False q) (round_double False (- (2 powi (- 1074))))"
    by (rule round_double_mono [OF assms])
  ultimately show ?thesis by (auto intro: d_le_less_trans)
qed

lemma d_sub_less_0:
  assumes "is_finite x" "is_finite y" "proper x" "proper y"
  shows "d_less (d_sub x y) (Number 0) \<longleftrightarrow> d_less x y"
proof -
  have multiple: "\<exists>k :: int. value_of z = of_int k * 2 powi (- 1074)" if "proper z" "is_finite z" for z
  proof (cases z)
    case (Number q)
    with that(1) have "proper (Number q)" by simp
    then obtain k :: int where "q = of_int k * 2 powi (- 1074)" by (rule proper_multiple)
    then show ?thesis unfolding Number value_of.simps by (rule exI)
  next
    case MinusZero
    then show ?thesis by (intro exI [of _ 0]) simp
  qed (use that in simp_all)
  have neg: "is_finite (d_neg y)" "value_of (d_neg y) = - value_of y" using assms(2) by (cases y; simp)+
  have order: "d_less (d_sub x y) z \<longleftrightarrow> d_less (round_double False (value_of x - value_of y)) z" for z
    unfolding d_sub_def using neg assms(1) by (cases z) (auto simp: d_add_finite round_double_0)
  show ?thesis
  proof (cases "value_of x < value_of y")
    case True
    then have "value_of x - value_of y \<le> - (2 powi (- 1074))"
      using multiple_less multiple [OF assms(3,1)] multiple [OF assms(4,2)] by blast
    then show ?thesis using True assms round_negative by (simp add: order d_less_finite)
  next
    case False
    then have "d_le (round_double False 0) (round_double False (value_of x - value_of y))"
      by (intro round_double_mono) simp
    then show ?thesis using False assms by (simp add: order d_less_finite d_le_def round_double_0)
  qed
qed

section \<open>Running sums\<close>

definition d_sum :: "double list \<Rightarrow> double" where
  "d_sum xs = foldl d_add (Number 0) xs"

lemma d_sum_simps [simp]: "d_sum [] = Number 0" "d_sum (xs @ [x]) = d_add (d_sum xs) x"
  by (simp_all add: d_sum_def)

lemma d_sum_nonneg: "list_all nonneg xs \<Longrightarrow> nonneg (d_sum xs)"
  by (induction xs rule: rev_induct) (simp_all add: d_add_nonneg)

lemma d_sum_proper [simp]: "proper (d_sum xs)"
  by (cases xs rule: rev_cases) (simp_all add: round_double_0)

lemma d_sum_not_minus_zero: "list_all nonneg xs \<Longrightarrow> d_sum xs \<noteq> MinusZero"
  by (induction xs rule: rev_induct) (simp_all add: d_add_not_minus_zero d_sum_nonneg)

lemma d_sum_add_0: "list_all nonneg xs \<Longrightarrow> d_add (d_sum xs) (Number 0) = d_sum xs"
  by (simp add: d_add_0_right d_sum_not_minus_zero)

lemma d_sum_mono:
  "list_all nonneg xs \<Longrightarrow> list_all2 d_le xs ys \<Longrightarrow> d_le (d_sum xs) (d_sum ys)"
proof (induction xs arbitrary: ys rule: rev_induct)
  case (snoc x xs)
  obtain zs z where ys: "ys = zs @ [z]" "list_all2 d_le xs zs" "d_le x z"
    using snoc.prems(2) by (auto simp: list_all2_append1 list_all2_Cons1)
  with snoc show ?case by (auto intro!: d_add_mono d_sum_nonneg)
qed simp

section \<open>The tolerance 1e-12\<close>

lemma round_half: "round_double s (1 / 2) = Number (1 / 2)"
proof -
  have "round_magnitude (1 / 2) = (1 / 2 :: rat)"
    using round_magnitude_exact [of 1 "- 1"] by (simp add: power_int_minus field_simps)
  moreover define B :: rat where "B = 2 ^ 1024"
  have "1 / 2 < B" using one_le_power [of "2 :: rat" 1024] by (simp add: B_def del: one_le_power)
  ultimately show ?thesis by (simp add: round_double_pos [folded B_def] B_def [symmetric])
qed

lemma tiny_value:
  obtains e where "round_double False (1 / 10 ^ 12) = Number e" and "0 < e" and "e \<le> 1 / 2"
proof -
  have "d_le (round_double False (1 / 10 ^ 12)) (Number (1 / 2))"
    using round_double_mono [of "1 / 10 ^ 12" "1 / 2" False False] by (simp add: round_half)
  moreover have "round_magnitude (2 powi (- 40)) = (2 powi (- 40) :: rat)"
    using round_magnitude_exact [of 1 "- 40"] by simp
  then have "0 < round_magnitude (1 / 10 ^ 12)"
    using round_magnitude_mono [of "2 powi (- 40)" "1 / 10 ^ 12"] by (simp add: power_int_minus)
  ultimately show thesis
    using that by (auto simp: round_double_pos d_le_def split: if_splits)
qed

lemma tiny_decides:
  "nonneg (round_double False (1 / 10 ^ 12))" "d_less (Number 0) (round_double False (1 / 10 ^ 12))"
  "1 \<le> q \<Longrightarrow> \<not> d_less (Number q) (round_double False (1 / 10 ^ 12))"
  "1 \<le> q \<Longrightarrow> \<not> d_le (Number q) (round_double False (1 / 10 ^ 12))"
  "1 \<le> q \<Longrightarrow> d_less (round_double False (1 / 10 ^ 12)) (Number q)"
proof -
  obtain e where e: "round_double False (1 / 10 ^ 12) = Number e" "0 < e" "e \<le> 1 / 2" by (rule tiny_value)
  show "nonneg (round_double False (1 / 10 ^ 12))" "d_less (Number 0) (round_double False (1 / 10 ^ 12))"
    "1 \<le> q \<Longrightarrow> \<not> d_less (Number q) (round_double False (1 / 10 ^ 12))"
    "1 \<le> q \<Longrightarrow> \<not> d_le (Number q) (round_double False (1 / 10 ^ 12))"
    "1 \<le> q \<Longrightarrow> d_less (round_double False (1 / 10 ^ 12)) (Number q)"
    unfolding e(1) using e(2,3) by (simp_all add: d_le_def)
qed

end
