(* ===== verification/Oms_Inv.thy ===== *)
theory Oms_Inv
  imports Oms Double_Arith
begin

text \<open>
  What every reachable state of the order management system satisfies, and how its operations move
  it: ids are given out in order, a child belongs to the parent that lists it, the quantities of an
  order are the sums of its fills, and an order that has ended stays as it ended.
\<close>

section \<open>The children of a parent\<close>

type_synonym child_map = "(u64 \<times> child_order) list"

definition kid_entries :: "u64 \<Rightarrow> child_map \<Rightarrow> child_map" where
  "kid_entries pid m = filter (\<lambda>(k, c). co_parent_id c = pid) m"

definition kids :: "u64 \<Rightarrow> child_map \<Rightarrow> child_order list" where
  "kids pid m = map snd (kid_entries pid m)"

lemma kid_entries_update_other:
  "map_of m k = Some c \<Longrightarrow> co_parent_id c' = co_parent_id c \<Longrightarrow> co_parent_id c \<noteq> q \<Longrightarrow>
   kid_entries q (hm_update k c' m) = kid_entries q m"
  by (induction m) (auto simp: kid_entries_def split: if_splits)

lemma kid_ids_update:
  "map_of m k = Some c \<Longrightarrow> co_parent_id c' = co_parent_id c \<Longrightarrow>
   map fst (kid_entries q (hm_update k c' m)) = map fst (kid_entries q m)"
  by (induction m) (auto simp: kid_entries_def split: if_splits)

lemma kids_update:
  "distinct (map fst m) \<Longrightarrow> map_of m k = Some c \<Longrightarrow> co_parent_id c' = co_parent_id c \<Longrightarrow>
   (\<And>x. R x x) \<Longrightarrow> R c c' \<Longrightarrow> list_all2 R (kids q m) (kids q (hm_update k c' m))"
  by (induction m) (auto simp: kids_def kid_entries_def list_all2_same split: if_splits)

lemma kids_snoc: "kids q (m @ [(k, c)]) = kids q m @ (if co_parent_id c = q then [c] else [])"
  by (simp add: kids_def kid_entries_def)

lemma kid_ids_snoc:
  "map fst (kid_entries q (m @ [(k, c)])) =
   map fst (kid_entries q m) @ (if co_parent_id c = q then [k] else [])"
  by (simp add: kid_entries_def)

lemma in_kids: "distinct (map fst m) \<Longrightarrow>
  c \<in> set (kids q m) \<longleftrightarrow> (\<exists>k. map_of m k = Some c \<and> co_parent_id c = q)"
  by (force simp: kids_def kid_entries_def)

lemma read_kids:
  assumes "distinct (map fst m)"
  shows "List.map_filter (map_of m) (map fst (kid_entries q m)) = kids q m"
proof -
  have "List.map_filter (map_of m) (map fst xs) = map snd xs" if "set xs \<subseteq> set m" for xs
    using that by (induction xs) (auto simp: List.map_filter_simps map_of_is_SomeI [OF assms])
  then show ?thesis by (simp add: kids_def kid_entries_def)
qed

text \<open>The loop of \<open>refresh_parent\<close>, closed.\<close>

abbreviation open_child :: "child_order \<Rightarrow> bool" where
  "open_child c \<equiv> \<not> terminal_status (co_status c)"

lemma scan_children_eq:
  "scan_children m ids (f, w, r, x) =
     (let ks = List.map_filter (map_of m) ids in
      (foldl d_add f (map co_filled_quantity ks), w \<or> (\<exists>c \<in> set ks. open_child c),
       r \<or> (\<exists>c \<in> set ks. co_status c = Rejected), x \<or> (\<exists>c \<in> set ks. co_status c = Cancelled)))"
proof (induction ids arbitrary: f w r x)
  case (Cons id ids)
  have "(co_status c = New \<or> co_status c = Working \<or> co_status c = PartiallyFilled) \<longleftrightarrow> open_child c" for c
    by (cases "co_status c") (simp_all add: terminal_status_def)
  with Cons.IH show ?case
    by (cases "map_of m id") (auto simp: List.map_filter_simps Let_def)
qed (simp add: List.map_filter_simps)

definition kids_filled :: "child_order list \<Rightarrow> double" where
  "kids_filled ks = d_sum (map co_filled_quantity ks)"

definition parent_filled :: "parent_order \<Rightarrow> child_order list \<Rightarrow> double" where
  "parent_filled p ks = d_min (po_quantity p) (kids_filled ks)"

definition parent_remaining :: "parent_order \<Rightarrow> child_order list \<Rightarrow> double" where
  "parent_remaining p ks = d_max (Number 0) (d_sub (po_quantity p) (parent_filled p ks))"

definition parent_status :: "parent_order \<Rightarrow> child_order list \<Rightarrow> order_status" where
  "parent_status p ks =
     (if d_le (parent_remaining p ks) oms_epsilon then Filled
      else if d_less oms_epsilon (parent_filled p ks) then PartiallyFilled
      else if \<exists>c \<in> set ks. open_child c then Working
      else if (\<exists>c \<in> set ks. co_status c = Rejected) \<and> (\<forall>c \<in> set ks. co_status c \<noteq> Cancelled) then Rejected
      else if \<exists>c \<in> set ks. co_status c = Cancelled then Cancelled
      else New)"

definition settled :: "u64 \<Rightarrow> child_order list \<Rightarrow> parent_order \<Rightarrow> parent_order" where
  "settled ts ks p = p\<lparr>po_filled_quantity := parent_filled p ks,
     po_remaining_quantity := parent_remaining p ks, po_status := parent_status p ks,
     po_updated_timestamp_ns := ts\<rparr>"

lemma settled_simps [simp]:
  "po_id (settled ts ks p) = po_id p" "po_symbol (settled ts ks p) = po_symbol p"
  "po_side (settled ts ks p) = po_side p" "po_algorithm (settled ts ks p) = po_algorithm p"
  "po_quantity (settled ts ks p) = po_quantity p" "po_child_ids (settled ts ks p) = po_child_ids p"
  "po_filled_quantity (settled ts ks p) = parent_filled p ks"
  "po_remaining_quantity (settled ts ks p) = parent_remaining p ks"
  "po_status (settled ts ks p) = parent_status p ks"
  "po_created_timestamp_ns (settled ts ks p) = po_created_timestamp_ns p"
  by (simp_all add: settled_def)

lemma refresh_parent_eq:
  "refresh_parent pid ts s =
     (case map_of (oms_parents s) pid of
        None \<Rightarrow> s
      | Some p \<Rightarrow> if po_status p = Cancelled then s
          else s\<lparr>oms_parents := hm_update pid
            (settled ts (List.map_filter (map_of (oms_children s)) (po_child_ids p)) p) (oms_parents s)\<rparr>)"
  by (simp add: refresh_parent_def scan_children_eq Let_def settled_def parent_status_def
      parent_remaining_def parent_filled_def kids_filled_def d_sum_def split: option.split)

section \<open>The invariant\<close>

definition fills_of :: "u64 \<Rightarrow> oms_execution_report list \<Rightarrow> double list" where
  "fills_of k rs = map xr_quantity (filter (\<lambda>r. xr_child_id r = k) rs)"

text \<open>A quantity or price that \<open>validate_positive\<close> lets through.\<close>

definition positive :: "double \<Rightarrow> bool" where
  "positive x \<longleftrightarrow> is_finite x \<and> d_less (Number 0) x"

lemma positive_nonneg: "positive x \<Longrightarrow> nonneg x"
  by (simp add: positive_def d_less_le)

lemma validate_positive_None: "validate_positive v msg = None \<longleftrightarrow> positive v"
  by (cases v) (auto simp: validate_positive_def positive_def d_le_def)

definition child_ok :: "oms \<Rightarrow> u64 \<Rightarrow> child_order \<Rightarrow> bool" where
  "child_ok s k c \<longleftrightarrow>
     co_id c = k \<and> map_of (oms_parents s) (co_parent_id c) \<noteq> None \<and> co_venue c \<noteq> [] \<and>
     positive (co_price c) \<and> positive (co_quantity c) \<and>
     co_filled_quantity c = d_sum (fills_of k (oms_reports s)) \<and>
     co_remaining_quantity c = d_max (Number 0) (d_sub (co_quantity c) (co_filled_quantity c)) \<and>
     (co_status c = Filled \<longrightarrow> d_le (co_remaining_quantity c) oms_epsilon)"

definition parent_ok :: "child_map \<Rightarrow> u64 \<Rightarrow> parent_order \<Rightarrow> bool" where
  "parent_ok m k p \<longleftrightarrow>
     po_id p = k \<and> po_symbol p \<noteq> [] \<and> positive (po_quantity p) \<and>
     po_child_ids p = map fst (kid_entries k m) \<and>
     po_filled_quantity p = parent_filled p (kids k m) \<and>
     po_remaining_quantity p = parent_remaining p (kids k m) \<and>
     (po_status p = Filled \<longrightarrow> d_le (po_remaining_quantity p) oms_epsilon) \<and>
     (po_status p = Cancelled \<or> po_status p = Rejected \<longrightarrow> (\<forall>c \<in> set (kids k m). \<not> open_child c)) \<and>
     (po_status p \<noteq> Cancelled \<and> d_less oms_epsilon (po_quantity p) \<longrightarrow>
        po_status p = parent_status p (kids k m))"

definition report_ok :: "child_map \<Rightarrow> oms_execution_report \<Rightarrow> bool" where
  "report_ok m r \<longleftrightarrow>
     (\<exists>c. map_of m (xr_child_id r) = Some c \<and> co_parent_id c = xr_parent_id r \<and>
       co_venue c = xr_venue r) \<and>
     positive (xr_price r) \<and> positive (xr_quantity r) \<and> nonneg (xr_fee r) \<and> is_finite (xr_fee r) \<and>
     xr_notional r = d_mul (xr_price r) (xr_quantity r)"

definition report_map :: "oms_execution_report list \<Rightarrow> (u64 \<times> oms_execution_report) list" where
  "report_map rs = map (\<lambda>r. (xr_execution_report_id r, r)) rs"

definition oms_inv :: "oms \<Rightarrow> bool" where
  "oms_inv s \<longleftrightarrow>
     numbered (oms_next_parent_id s) (oms_parents s) \<and>
     numbered (oms_next_child_id s) (oms_children s) \<and>
     numbered (oms_next_report_id s) (report_map (oms_reports s)) \<and>
     length (oms_parents s) < 2 ^ 64 \<and> length (oms_children s) < 2 ^ 64 \<and>
     length (oms_reports s) < 2 ^ 64 \<and>
     (\<forall>k p. map_of (oms_parents s) k = Some p \<longrightarrow> parent_ok (oms_children s) k p) \<and>
     (\<forall>k c. map_of (oms_children s) k = Some c \<longrightarrow> child_ok s k c) \<and>
     (\<forall>r \<in> set (oms_reports s). report_ok (oms_children s) r)"

text \<open>Room for \<open>n\<close> more ids of every kind: the counters do not wrap around.\<close>

definition oms_room :: "nat \<Rightarrow> oms \<Rightarrow> bool" where
  "oms_room n s \<longleftrightarrow> length (oms_parents s) + n < 2 ^ 64 \<and> length (oms_children s) + n < 2 ^ 64 \<and>
     length (oms_reports s) + n < 2 ^ 64"

lemma oms_invD:
  assumes "oms_inv s"
  shows "distinct (map fst (oms_parents s))" "distinct (map fst (oms_children s))"
    "\<And>k p. map_of (oms_parents s) k = Some p \<Longrightarrow> parent_ok (oms_children s) k p"
    "\<And>k c. map_of (oms_children s) k = Some c \<Longrightarrow> child_ok s k c"
    "\<And>r. r \<in> set (oms_reports s) \<Longrightarrow> report_ok (oms_children s) r"
  using assms numbered_distinct unfolding oms_inv_def by blast+

lemma new_oms_inv: "oms_inv new_oms"
  by (simp add: oms_inv_def new_oms_def numbered_def report_map_def)

lemma fills_nonneg:
  assumes "oms_inv s"
  shows "list_all nonneg (fills_of k (oms_reports s))"
  using oms_invD(5) [OF assms] by (auto simp: fills_of_def list_all_iff report_ok_def positive_nonneg)

lemma child_filled:
  assumes "oms_inv s" and "map_of (oms_children s) k = Some c"
  shows "nonneg (co_filled_quantity c)" "proper (co_filled_quantity c)"
    "co_filled_quantity c \<noteq> MinusZero"
  using oms_invD(4) [OF assms] fills_nonneg [OF assms(1), of k]
  by (simp_all add: child_ok_def d_sum_nonneg d_sum_not_minus_zero)

lemma kids_nonneg:
  assumes "oms_inv s"
  shows "list_all nonneg (map co_filled_quantity (kids k (oms_children s)))"
  using child_filled(1) [OF assms] by (auto simp: list_all_iff in_kids [OF oms_invD(2) [OF assms]])

lemma kids_filled_mono:
  assumes "list_all nonneg (map co_filled_quantity ks)"
    and "list_all2 (\<lambda>c c'. d_le (co_filled_quantity c) (co_filled_quantity c')) ks ls"
  shows "d_le (kids_filled ks) (kids_filled ls)"
  unfolding kids_filled_def
  using assms by (intro d_sum_mono) (simp_all add: list_all2_conv_all_nth)

lemma parent_filled_mono:
  assumes "positive (po_quantity p)" and "list_all nonneg (map co_filled_quantity ks)"
    and "d_le (kids_filled ks) (kids_filled ls)"
  shows "d_le (parent_filled p ks) (parent_filled p ls)"
    and "d_le (parent_remaining p ls) (parent_remaining p ks)"
proof -
  have q: "\<not> is_nan (po_quantity p)" "is_finite (po_quantity p)" "nonneg (po_quantity p)"
    using assms(1) positive_nonneg by (auto simp: positive_def dest: d_less_le d_le_not_nan)
  show le: "d_le (parent_filled p ks) (parent_filled p ls)"
    unfolding parent_filled_def by (rule d_min_mono [OF q(1) assms(3)])
  have "nonneg (parent_filled p ks)"
    unfolding parent_filled_def kids_filled_def using q(3) d_sum_nonneg [OF assms(2)] by (rule d_min_nonneg)
  then show "d_le (parent_remaining p ls) (parent_remaining p ks)"
    unfolding parent_remaining_def using d_sub_antimono [OF q(2) _ le] by (intro d_max_mono) simp_all
qed

lemma parent_status_settled [simp]: "parent_status (settled ts ks p) = parent_status p"
  "parent_filled (settled ts ks p) = parent_filled p"
  "parent_remaining (settled ts ks p) = parent_remaining p"
  by (simp_all add: fun_eq_iff parent_status_def parent_filled_def parent_remaining_def)

lemma parent_status_ended:
  "parent_status p ks = Cancelled \<or> parent_status p ks = Rejected \<Longrightarrow> c \<in> set ks \<Longrightarrow> \<not> open_child c"
  by (auto simp: parent_status_def split: if_splits)

lemma parent_status_filled: "parent_status p ks = Filled \<longleftrightarrow> d_le (parent_remaining p ks) oms_epsilon"
  by (simp add: parent_status_def)

lemma settled_ok:
  "po_id p = k \<Longrightarrow> po_symbol p \<noteq> [] \<Longrightarrow> positive (po_quantity p) \<Longrightarrow>
   po_child_ids p = map fst (kid_entries k m) \<Longrightarrow> parent_ok m k (settled ts (kids k m) p)"
  using parent_status_ended [of p "kids k m"] by (auto simp: parent_ok_def parent_status_filled)

section \<open>What no operation undoes\<close>

definition same_child :: "child_order \<Rightarrow> child_order \<Rightarrow> bool" where
  "same_child c c' \<longleftrightarrow> co_id c' = co_id c \<and> co_parent_id c' = co_parent_id c \<and>
     co_venue c' = co_venue c \<and> co_price c' = co_price c \<and> co_quantity c' = co_quantity c \<and>
     co_created_timestamp_ns c' = co_created_timestamp_ns c"

definition child_follows :: "child_order \<Rightarrow> child_order \<Rightarrow> bool" where
  "child_follows c c' \<longleftrightarrow> same_child c c' \<and> d_le (co_filled_quantity c) (co_filled_quantity c') \<and>
     (\<not> open_child c \<longrightarrow> c' = c)"

definition parent_follows :: "parent_order \<Rightarrow> parent_order \<Rightarrow> bool" where
  "parent_follows p p' \<longleftrightarrow> po_id p' = po_id p \<and> po_symbol p' = po_symbol p \<and> po_side p' = po_side p \<and>
     po_algorithm p' = po_algorithm p \<and> po_quantity p' = po_quantity p \<and>
     po_created_timestamp_ns p' = po_created_timestamp_ns p \<and>
     (\<exists>ids. po_child_ids p' = po_child_ids p @ ids) \<and>
     d_le (po_filled_quantity p) (po_filled_quantity p') \<and>
     (terminal_status (po_status p) \<longrightarrow>
        po_status p' = po_status p \<and> po_child_ids p' = po_child_ids p) \<and>
     (po_status p = Cancelled \<or> po_status p = Rejected \<longrightarrow> p' = p)"

definition map_follows :: "('r \<Rightarrow> 'r \<Rightarrow> bool) \<Rightarrow> (u64 \<times> 'r) list \<Rightarrow> (u64 \<times> 'r) list \<Rightarrow> bool" where
  "map_follows R m m' \<longleftrightarrow> (\<forall>k r. map_of m k = Some r \<longrightarrow> (\<exists>r'. map_of m' k = Some r' \<and> R r r'))"

definition oms_follows :: "oms \<Rightarrow> oms \<Rightarrow> bool" where
  "oms_follows s s' \<longleftrightarrow> map_follows child_follows (oms_children s) (oms_children s') \<and>
     map_follows parent_follows (oms_parents s) (oms_parents s') \<and>
     (\<exists>rs. oms_reports s' = oms_reports s @ rs)"

lemma child_follows_trans: "child_follows a b \<Longrightarrow> child_follows b c \<Longrightarrow> child_follows a c"
  unfolding child_follows_def same_child_def by (auto intro: d_le_trans)

lemma parent_follows_trans: "parent_follows a b \<Longrightarrow> parent_follows b c \<Longrightarrow> parent_follows a c"
  unfolding parent_follows_def by (elim conjE exE) (auto intro: d_le_trans)

lemma map_follows_trans:
  "(\<And>a b c. R a b \<Longrightarrow> R b c \<Longrightarrow> R a c) \<Longrightarrow> map_follows R m n \<Longrightarrow> map_follows R n l \<Longrightarrow> map_follows R m l"
  unfolding map_follows_def by meson

lemma oms_follows_trans:
  assumes "oms_follows a b" and "oms_follows b c"
  shows "oms_follows a c"
proof -
  obtain rs qs where "oms_reports b = oms_reports a @ rs" "oms_reports c = oms_reports b @ qs"
    using assms unfolding oms_follows_def by blast
  then have "oms_reports c = oms_reports a @ rs @ qs" by simp
  moreover have "map_follows child_follows (oms_children a) (oms_children c)"
    by (rule map_follows_trans [OF child_follows_trans, of _ _ _ _ "oms_children b"])
      (use assms in \<open>auto simp: oms_follows_def\<close>)
  moreover have "map_follows parent_follows (oms_parents a) (oms_parents c)"
    by (rule map_follows_trans [OF parent_follows_trans, of _ _ _ _ "oms_parents b"])
      (use assms in \<open>auto simp: oms_follows_def\<close>)
  ultimately show ?thesis unfolding oms_follows_def by blast
qed

lemma parent_filled_not_nan:
  assumes "oms_inv s" and "map_of (oms_parents s) k = Some p"
  shows "\<not> is_nan (po_filled_quantity p)"
proof -
  have ok: "parent_ok (oms_children s) k p" by (rule oms_invD(3) [OF assms])
  then have "nonneg (po_quantity p)" by (simp add: parent_ok_def positive_nonneg)
  moreover have "nonneg (kids_filled (kids k (oms_children s)))"
    unfolding kids_filled_def by (rule d_sum_nonneg [OF kids_nonneg [OF assms(1)]])
  ultimately have "nonneg (po_filled_quantity p)"
    using ok by (simp add: parent_ok_def parent_filled_def d_min_nonneg)
  then show ?thesis by (rule d_le_not_nan [THEN conjunct2])
qed

lemma child_follows_refl:
  "oms_inv s \<Longrightarrow> map_of (oms_children s) k = Some c \<Longrightarrow> child_follows c c"
  using child_filled(1) [of s k c] by (auto simp: child_follows_def same_child_def dest: d_le_not_nan)

lemma parent_follows_refl:
  "oms_inv s \<Longrightarrow> map_of (oms_parents s) k = Some p \<Longrightarrow> parent_follows p p"
  using parent_filled_not_nan [of s k p] by (simp add: parent_follows_def)

lemma oms_follows_refl: "oms_inv s \<Longrightarrow> oms_follows s s"
  unfolding oms_follows_def map_follows_def
  using child_follows_refl parent_follows_refl by fastforce

section \<open>A change of one open child\<close>

text \<open>The state after a child has been replaced by \<open>c'\<close>, the reports \<open>rs\<close> added and the parent
  refreshed: what the four operations on a child have in common.\<close>

definition child_update :: "child_order \<Rightarrow> child_order \<Rightarrow> oms_execution_report list \<Rightarrow> oms \<Rightarrow> bool" where
  "child_update c c' rs s \<longleftrightarrow>
     map_of (oms_children s) (co_id c) = Some c \<and> open_child c \<and> same_child c c' \<and>
     d_le (co_filled_quantity c) (co_filled_quantity c') \<and>
     co_filled_quantity c' = d_sum (fills_of (co_id c) (oms_reports s @ rs)) \<and>
     co_remaining_quantity c' = d_max (Number 0) (d_sub (co_quantity c') (co_filled_quantity c')) \<and>
     (co_status c' = Filled \<longrightarrow> d_le (co_remaining_quantity c') oms_epsilon) \<and>
     (\<forall>r \<in> set rs. xr_child_id r = co_id c \<and> report_ok (oms_children s) r) \<and>
     length (oms_reports s @ rs) < 2 ^ 64"

definition advanced :: "child_order \<Rightarrow> oms_execution_report list \<Rightarrow> u64 \<Rightarrow> oms \<Rightarrow> oms" where
  "advanced c rs n s = s\<lparr>oms_children := hm_update (co_id c) c (oms_children s),
     oms_reports := oms_reports s @ rs, oms_next_report_id := n\<rparr>"

lemma open_parent:
  assumes "oms_inv s" and "map_of (oms_children s) k = Some c" and "open_child c"
  obtains p where "map_of (oms_parents s) (co_parent_id c) = Some p"
    "po_status p \<noteq> Cancelled" "po_status p \<noteq> Rejected" "parent_ok (oms_children s) (co_parent_id c) p"
proof -
  have "map_of (oms_parents s) (co_parent_id c) \<noteq> None"
    using oms_invD(4) [OF assms(1,2)] unfolding child_ok_def by blast
  then obtain p where p: "map_of (oms_parents s) (co_parent_id c) = Some p" by blast
  have ok: "parent_ok (oms_children s) (co_parent_id c) p" by (rule oms_invD(3) [OF assms(1) p])
  moreover have "c \<in> set (kids (co_parent_id c) (oms_children s))"
    using assms(2) in_kids [OF oms_invD(2) [OF assms(1)]] by blast
  ultimately show thesis using that [OF p] assms(3) unfolding parent_ok_def by blast
qed

lemma refresh_advanced:
  assumes "oms_inv s" and "child_update c c' rs s"
  obtains p where "map_of (oms_parents s) (co_parent_id c) = Some p"
    and "po_status p \<noteq> Cancelled" "po_status p \<noteq> Rejected"
    and "parent_ok (oms_children s) (co_parent_id c) p"
    and "refresh_parent (co_parent_id c) ts (advanced c' rs n s) =
      (advanced c' rs n s)\<lparr>oms_parents := hm_update (co_parent_id c)
        (settled ts (kids (co_parent_id c) (hm_update (co_id c) c' (oms_children s))) p) (oms_parents s)\<rparr>"
proof -
  let ?m = "hm_update (co_id c) c' (oms_children s)"
  have u: "map_of (oms_children s) (co_id c) = Some c" "open_child c" "same_child c c'"
    using assms(2) unfolding child_update_def by blast+
  obtain p where p: "map_of (oms_parents s) (co_parent_id c) = Some p"
    "po_status p \<noteq> Cancelled" "po_status p \<noteq> Rejected" "parent_ok (oms_children s) (co_parent_id c) p"
    using open_parent [OF assms(1) u(1,2)] by blast
  have "po_child_ids p = map fst (kid_entries (co_parent_id c) ?m)"
    using p(4) kid_ids_update [OF u(1), of c'] u(3) by (simp add: parent_ok_def same_child_def)
  then have "List.map_filter (map_of ?m) (po_child_ids p) = kids (co_parent_id c) ?m"
    using read_kids [of ?m] distinct_hm_update [OF oms_invD(2) [OF assms(1)]] by (simp only:)
  then have "refresh_parent (co_parent_id c) ts (advanced c' rs n s) =
      (advanced c' rs n s)\<lparr>oms_parents := hm_update (co_parent_id c)
        (settled ts (kids (co_parent_id c) ?m) p) (oms_parents s)\<rparr>"
    using p(1,2) u(3) by (simp add: refresh_parent_eq advanced_def same_child_def)
  then show thesis by (rule that [OF p])
qed

lemma parent_ok_cong: "kid_entries k m' = kid_entries k m \<Longrightarrow> parent_ok m' k p = parent_ok m k p"
  unfolding parent_ok_def kids_def by (simp only:)

lemma child_update_inv:
  assumes inv: "oms_inv s" and u: "child_update c c' rs s"
    and num: "numbered n (report_map (oms_reports s @ rs))"
  shows "oms_inv (refresh_parent (co_parent_id c) ts (advanced c' rs n s))"
proof -
  let ?m = "hm_update (co_id c) c' (oms_children s)" and ?pid = "co_parent_id c"
  have uu: "map_of (oms_children s) (co_id c) = Some c" "open_child c" "same_child c c'"
    "length (oms_reports s @ rs) < 2 ^ 64"
    "\<forall>r \<in> set rs. xr_child_id r = co_id c \<and> report_ok (oms_children s) r"
    using u unfolding child_update_def by blast+
  note cd = oms_invD(2) [OF inv]
  obtain p where p: "map_of (oms_parents s) ?pid = Some p" "parent_ok (oms_children s) ?pid p"
    and T: "refresh_parent ?pid ts (advanced c' rs n s) =
      (advanced c' rs n s)\<lparr>oms_parents := hm_update ?pid (settled ts (kids ?pid ?m) p) (oms_parents s)\<rparr>"
    using refresh_advanced [OF inv u, of ts n] by blast
  define ps where "ps = hm_update ?pid (settled ts (kids ?pid ?m) p) (oms_parents s)"
  let ?t = "(advanced c' rs n s)\<lparr>oms_parents := ps\<rparr>"
  have old: "numbered (oms_next_parent_id s) (oms_parents s)" "numbered (oms_next_child_id s) (oms_children s)"
    "length (oms_parents s) < 2 ^ 64" "length (oms_children s) < 2 ^ 64"
    using inv unfolding oms_inv_def by blast+
  have nums: "numbered (oms_next_parent_id s) ps" "numbered (oms_next_child_id s) ?m"
    using old(1,2) numbered_keys [OF keys_hm_update [OF p(1)]] numbered_keys [OF keys_hm_update [OF uu(1)]]
    unfolding ps_def by blast+
  have lens: "length ps < 2 ^ 64" "length ?m < 2 ^ 64"
    using old(3,4) unfolding ps_def by (simp_all only: length_hm_update [OF p(1)] length_hm_update [OF uu(1)])
  have pa: "parent_ok ?m k q" if "map_of ps k = Some q" for k q
  proof (cases "k = ?pid")
    case True
    with that have "q = settled ts (kids ?pid ?m) p" by (simp add: ps_def)
    moreover have "po_child_ids p = map fst (kid_entries ?pid ?m)"
      using p(2) kid_ids_update [OF uu(1), of c'] uu(3) by (simp add: parent_ok_def same_child_def)
    moreover have "po_id p = ?pid" "po_symbol p \<noteq> []" "positive (po_quantity p)"
      using p(2) unfolding parent_ok_def by blast+
    ultimately show ?thesis using settled_ok True by blast
  next
    case False
    with that have "parent_ok (oms_children s) k q" by (auto simp: ps_def intro: oms_invD(3) [OF inv])
    moreover have "kid_entries k ?m = kid_entries k (oms_children s)"
      using kid_entries_update_other [OF uu(1), of c' k] uu(3) False by (simp add: same_child_def)
    ultimately show ?thesis using parent_ok_cong by blast
  qed
  have dom: "map_of ps k \<noteq> None" if "map_of (oms_parents s) k \<noteq> None" for k
    using that by (simp add: ps_def)
  have ch: "child_ok ?t k d" if "map_of ?m k = Some d" for k d
  proof (cases "k = co_id c")
    case True
    with that have "d = c'" by simp
    then show ?thesis
      using oms_invD(4) [OF inv uu(1)] u True dom [of ?pid]
      by (auto simp: child_ok_def child_update_def same_child_def advanced_def)
  next
    case False
    with that have "child_ok s k d" by (auto intro: oms_invD(4) [OF inv])
    moreover have "fills_of k (oms_reports s @ rs) = fills_of k (oms_reports s)"
      using uu(5) False by (auto simp: fills_of_def filter_empty_conv)
    ultimately show ?thesis using dom [of "co_parent_id d"] by (auto simp: child_ok_def advanced_def)
  qed
  have re: "report_ok ?m r" if "r \<in> set (oms_reports s @ rs)" for r
  proof -
    have r: "report_ok (oms_children s) r" using that uu(5) oms_invD(5) [OF inv] by auto
    then show ?thesis using uu(1,3) by (auto simp: report_ok_def same_child_def)
  qed
  have fields: "oms_next_parent_id ?t = oms_next_parent_id s" "oms_next_child_id ?t = oms_next_child_id s"
    "oms_next_report_id ?t = n" "oms_parents ?t = ps" "oms_children ?t = ?m"
    "oms_reports ?t = oms_reports s @ rs"
    using uu(3) by (simp_all add: advanced_def same_child_def)
  show ?thesis
    unfolding T ps_def [symmetric] oms_inv_def fields
    using nums lens uu(4) num pa ch re by blast
qed

lemma map_follows_update:
  "(\<And>k r. map_of m k = Some r \<Longrightarrow> R r r) \<Longrightarrow> map_of m k = Some r \<Longrightarrow> R r r' \<Longrightarrow>
   map_follows R m (hm_update k r' m)"
  by (simp add: map_follows_def)

lemma child_update_follows:
  assumes inv: "oms_inv s" and u: "child_update c c' rs s"
  shows "oms_follows s (refresh_parent (co_parent_id c) ts (advanced c' rs n s))"
proof -
  let ?m = "hm_update (co_id c) c' (oms_children s)" and ?pid = "co_parent_id c"
  have uu: "map_of (oms_children s) (co_id c) = Some c" "open_child c" "same_child c c'"
    "d_le (co_filled_quantity c) (co_filled_quantity c')"
    using u unfolding child_update_def by blast+
  obtain p where p: "map_of (oms_parents s) ?pid = Some p" "po_status p \<noteq> Cancelled"
      "po_status p \<noteq> Rejected" "parent_ok (oms_children s) ?pid p"
    and T: "refresh_parent ?pid ts (advanced c' rs n s) =
      (advanced c' rs n s)\<lparr>oms_parents := hm_update ?pid (settled ts (kids ?pid ?m) p) (oms_parents s)\<rparr>"
    using refresh_advanced [OF inv u, of ts n] by blast
  have "list_all2 (\<lambda>d d'. d_le (co_filled_quantity d) (co_filled_quantity d') \<or> d = d')
      (kids ?pid (oms_children s)) (kids ?pid ?m)"
    using uu(3,4) by (intro kids_update [OF oms_invD(2) [OF inv] uu(1)]) (simp_all add: same_child_def)
  then have "list_all2 (\<lambda>d d'. d_le (co_filled_quantity d) (co_filled_quantity d'))
      (kids ?pid (oms_children s)) (kids ?pid ?m)"
    using kids_nonneg [OF inv, of ?pid] unfolding list_all2_conv_all_nth list_all_length
    by (metis d_le_refl d_le_not_nan length_map nth_map)
  then have le: "d_le (kids_filled (kids ?pid (oms_children s))) (kids_filled (kids ?pid ?m))"
    by (rule kids_filled_mono [OF kids_nonneg [OF inv]])
  have pos: "positive (po_quantity p)" using p(4) by (simp add: parent_ok_def)
  note mono = parent_filled_mono [OF pos kids_nonneg [OF inv] le]
  have "parent_status p (kids ?pid ?m) = Filled" if "po_status p = Filled"
    using that p(4) mono(2) by (auto simp: parent_ok_def parent_status_filled intro: d_le_trans)
  then have "parent_follows p (settled ts (kids ?pid ?m) p)"
    using p(2-4) mono(1) by (auto simp: parent_follows_def parent_ok_def terminal_status_def)
  then have "map_follows parent_follows (oms_parents s)
      (hm_update ?pid (settled ts (kids ?pid ?m) p) (oms_parents s))"
    by (intro map_follows_update [OF _ p(1)] parent_follows_refl [OF inv])
  moreover have "map_follows child_follows (oms_children s) ?m"
    using uu by (intro map_follows_update [OF _ uu(1)] child_follows_refl [OF inv])
      (simp_all add: child_follows_def)
  ultimately show ?thesis
    unfolding T using uu(3) by (simp add: oms_follows_def advanced_def same_child_def)
qed

text \<open>The callback changes nothing but the events.\<close>

lemma notify_frame [simp]:
  "oms_parents (notify_mutation e s) = oms_parents s"
  "oms_children (notify_mutation e s) = oms_children s"
  "oms_reports (notify_mutation e s) = oms_reports s"
  "oms_next_parent_id (notify_mutation e s) = oms_next_parent_id s"
  "oms_next_child_id (notify_mutation e s) = oms_next_child_id s"
  "oms_next_report_id (notify_mutation e s) = oms_next_report_id s"
  by (simp_all add: notify_mutation_def)

lemma notify_inv [simp]: "oms_inv (notify_mutation e s) = oms_inv s"
  by (simp add: oms_inv_def child_ok_def)

lemma notify_follows [simp]: "oms_follows s (notify_mutation e t) = oms_follows s t"
  by (simp add: oms_follows_def)

text \<open>What an operation may do: keep the invariant, follow the state before, use one id of a kind.\<close>

definition good_step :: "oms \<Rightarrow> oms \<Rightarrow> bool" where
  "good_step s t \<longleftrightarrow> oms_inv t \<and> oms_follows s t \<and> (\<forall>n. oms_room (Suc n) s \<longrightarrow> oms_room n t)"

lemma good_step_refl: "oms_inv s \<Longrightarrow> good_step s s"
  by (auto simp: good_step_def oms_follows_refl oms_room_def)

lemma publish_good:
  assumes inv: "oms_inv s" and u: "child_update c c' rs s" and "length rs \<le> 1"
    and num: "numbered n (report_map (oms_reports s @ rs))"
  shows "\<exists>t. publish_child ty c' fill ts res (advanced c' rs n s) = (Inr res, t) \<and> good_step s t"
proof -
  let ?pid = "co_parent_id c"
  define t where "t = refresh_parent ?pid ts (advanced c' rs n s)"
  have same: "co_parent_id c' = ?pid" "map_of (oms_children s) (co_id c) = Some c" "co_id c' = co_id c"
    using u by (simp_all add: child_update_def same_child_def)
  obtain p p' where p: "map_of (oms_parents s) ?pid = Some p"
    and T: "t = (advanced c' rs n s)\<lparr>oms_parents := hm_update ?pid p' (oms_parents s)\<rparr>"
    unfolding t_def using refresh_advanced [OF inv u, of ts n] by blast
  have "oms_room m t" if "oms_room (Suc m) s" for m
    using that assms(3) by (simp add: T oms_room_def advanced_def same
        length_hm_update [OF p] length_hm_update [OF same(2)])
  moreover have "oms_inv t" "oms_follows s t"
    unfolding t_def by (rule child_update_inv [OF inv u num] child_update_follows [OF inv u])+
  moreover have "map_of (oms_parents t) ?pid = Some p'" by (simp add: T)
  ultimately show ?thesis
    by (simp add: publish_child_def same Let_def t_def [symmetric] good_step_def)
      (simp add: oms_room_def)
qed

section \<open>The operations on a child\<close>

lemma store_child_advanced:
  "co_id c' = k \<Longrightarrow> store_child c' k s = advanced c' [] (oms_next_report_id s) s"
  by (simp add: store_child_def advanced_def)

lemma child_status_update:
  assumes "oms_inv s" and "map_of (oms_children s) k = Some c" and "open_child c" and "st \<noteq> Filled"
  shows "child_update c (c\<lparr>co_status := st, co_updated_timestamp_ns := ts\<rparr>) [] s"
proof -
  have "child_ok s k c" by (rule oms_invD(4) [OF assms(1,2)])
  moreover have "\<not> is_nan (co_filled_quantity c)"
    using child_filled(1) [OF assms(1,2)] by (simp add: d_le_not_nan)
  moreover have "length (oms_reports s) < 2 ^ 64" using assms(1) unfolding oms_inv_def by blast
  ultimately show ?thesis using assms(2-4) by (simp add: child_update_def child_ok_def same_child_def)
qed

lemma status_change_good:
  fixes ts :: u64
  assumes inv: "oms_inv s" and c: "map_of (oms_children s) k = Some c" "open_child c" and "st \<noteq> Filled"
  defines "c' \<equiv> c\<lparr>co_status := st, co_updated_timestamp_ns := ts\<rparr>"
  shows "\<exists>t. publish_child ty c' None ts True (store_child c' k s) = (Inr True, t) \<and> good_step s t"
proof -
  have k: "co_id c = k" using oms_invD(4) [OF inv c(1)] by (simp add: child_ok_def)
  have num: "numbered (oms_next_report_id s) (report_map (oms_reports s @ []))"
    using inv by (simp add: oms_inv_def)
  have "store_child c' k s = advanced c' [] (oms_next_report_id s) s"
    using k by (intro store_child_advanced) (simp add: c'_def)
  then show ?thesis
    using publish_good [OF inv child_status_update [OF inv c assms(4), of ts, folded c'_def] _ num] by simp
qed

lemma end_child_good:
  assumes "oms_inv s" and "st \<noteq> Filled"
  shows "\<exists>b t. end_child st k ts s = (Inr b, t) \<and> good_step s t \<and>
    (b \<longleftrightarrow> (\<exists>c. map_of (oms_children s) k = Some c \<and> open_child c))"
proof (cases "map_of (oms_children s) k")
  case (Some c)
  then show ?thesis
    using status_change_good [OF assms(1) Some _ assms(2), of ChildUpdated ts] good_step_refl [OF assms(1)]
    by (auto simp: end_child_def Let_def)
qed (auto simp: end_child_def good_step_refl assms)

lemma mark_child_working_good:
  assumes "oms_inv s"
  shows "\<exists>b t. mark_child_working k ts s = (Inr b, t) \<and> good_step s t \<and>
    (b \<longleftrightarrow> (\<exists>c. map_of (oms_children s) k = Some c \<and> open_child c))"
proof (cases "map_of (oms_children s) k")
  case (Some c)
  have "(if d_less oms_epsilon (co_filled_quantity c) then PartiallyFilled else Working) \<noteq> Filled" by simp
  with Some show ?thesis
    using status_change_good [OF assms Some, of _ ChildUpdated ts] good_step_refl [OF assms]
    by (auto simp: mark_child_working_def Let_def simp del: if_split)
qed (auto simp: mark_child_working_def good_step_refl assms)

lemma report_map_snoc: "report_map (rs @ [r]) = report_map rs @ [(xr_execution_report_id r, r)]"
  by (simp add: report_map_def)

text \<open>What a fill is accepted with, and what it does to the child.\<close>

definition fill_accepted :: "child_order \<Rightarrow> double \<Rightarrow> double \<Rightarrow> double \<Rightarrow> bool" where
  "fill_accepted c price quantity fee \<longleftrightarrow>
     open_child c \<and> positive price \<and> positive quantity \<and> is_finite fee \<and> nonneg fee \<and>
     \<not> d_less (d_add (co_remaining_quantity c) oms_epsilon) quantity"

definition filled_child :: "child_order \<Rightarrow> double \<Rightarrow> u64 \<Rightarrow> child_order" where
  "filled_child c quantity ts =
     (let filled = d_add (co_filled_quantity c) quantity;
          remaining = d_max (Number 0) (d_sub (co_quantity c) filled) in
      c\<lparr>co_filled_quantity := filled, co_remaining_quantity := remaining,
        co_status := (if d_le remaining oms_epsilon then Filled else PartiallyFilled),
        co_updated_timestamp_ns := ts\<rparr>)"

definition fill_report ::
  "u64 \<Rightarrow> child_order \<Rightarrow> double \<Rightarrow> double \<Rightarrow> double \<Rightarrow> u64 \<Rightarrow> oms_execution_report"
where
  "fill_report n c price quantity fee ts =
     \<lparr>xr_execution_report_id = n, xr_parent_id = co_parent_id c, xr_child_id = co_id c,
      xr_venue = co_venue c, xr_price = price, xr_quantity = quantity,
      xr_notional = d_mul price quantity, xr_fee = fee, xr_timestamp_ns = ts\<rparr>"

lemma filled_child_simps [simp]:
  "same_child c (filled_child c q ts)"
  "co_filled_quantity (filled_child c q ts) = d_add (co_filled_quantity c) q"
  "co_remaining_quantity (filled_child c q ts) =
     d_max (Number 0) (d_sub (co_quantity c) (d_add (co_filled_quantity c) q))"
  by (simp_all add: filled_child_def same_child_def Let_def)

lemma record_fill_eq:
  assumes "map_of (oms_children s) k = Some c" and "fill_accepted c price q fee"
  shows "record_fill k price q fee ts s =
    (let r = fill_report (oms_next_report_id s) c price q fee ts in
     publish_child FillRecorded (filled_child c q ts) (Some r) ts r
       ((store_child (filled_child c q ts) k s)\<lparr>oms_next_report_id := oms_next_report_id s + 1,
          oms_reports := oms_reports s @ [r]\<rparr>))"
proof -
  have "\<not> is_nan fee" "\<not> d_less fee (Number 0)"
    using assms(2) by (auto simp: fill_accepted_def d_le_def)
  with assms show ?thesis
    by (simp add: record_fill_def fill_accepted_def validate_positive_None [THEN iffD2] Let_def
        filled_child_def fill_report_def)
qed

lemma record_fill_refused:
  assumes "record_fill k price q fee ts s = (Inr r, t)" and "map_of (oms_children s) k = Some c"
  shows "fill_accepted c price q fee"
  using assms validate_positive_None [of price] validate_positive_None [of q]
  by (cases fee) (auto simp: record_fill_def fill_accepted_def d_le_def split: option.splits if_splits)

lemma fill_update:
  assumes inv: "oms_inv s" and c: "map_of (oms_children s) k = Some c" "fill_accepted c price q fee"
    and room: "oms_room 1 s"
  shows "child_update c (filled_child c q ts) [fill_report n c price q fee ts] s"
proof -
  have ok: "child_ok s k c" by (rule oms_invD(4) [OF inv c(1)])
  have q: "nonneg q" using c(2) by (simp add: fill_accepted_def positive_nonneg)
  have "co_status (filled_child c q ts) = Filled \<longrightarrow>
      d_le (d_max (Number 0) (d_sub (co_quantity c) (d_add (co_filled_quantity c) q))) oms_epsilon"
    by (simp add: filled_child_def Let_def)
  moreover have "d_le (co_filled_quantity c) (d_add (co_filled_quantity c) q)"
    using child_filled [OF inv c(1)] q by (intro d_add_grows)
  moreover have "fills_of k (oms_reports s @ [fill_report n c price q fee ts]) =
      fills_of k (oms_reports s) @ [q]"
    using ok by (simp add: fills_of_def fill_report_def child_ok_def)
  moreover have "report_ok (oms_children s) (fill_report n c price q fee ts)"
    using c ok by (simp add: report_ok_def fill_report_def fill_accepted_def child_ok_def)
  moreover have "co_quantity (filled_child c q ts) = co_quantity c"
    by (simp add: filled_child_def Let_def)
  ultimately show ?thesis
    using c ok room
    by (simp add: child_update_def child_ok_def fill_accepted_def oms_room_def)
      (simp add: fill_report_def)
qed

lemma record_fill_good:
  fixes ts :: u64
  assumes inv: "oms_inv s" and c: "map_of (oms_children s) k = Some c" "fill_accepted c price q fee"
    and room: "oms_room 1 s"
  defines "r \<equiv> fill_report (oms_next_report_id s) c price q fee ts"
  shows "\<exists>t. record_fill k price q fee ts s = (Inr r, t) \<and> good_step s t"
proof -
  have k: "co_id c = k" using oms_invD(4) [OF inv c(1)] by (simp add: child_ok_def)
  have old: "numbered (oms_next_report_id s) (report_map (oms_reports s))"
    using inv unfolding oms_inv_def by blast
  have "numbered (oms_next_report_id s + 1) (report_map (oms_reports s @ [r]))"
    using numbered_next(3) [OF old, of r] room
    by (simp add: report_map_snoc r_def fill_report_def oms_room_def) (simp add: report_map_def)
  note good = publish_good [OF inv fill_update [OF inv c room, of ts "oms_next_report_id s", folded r_def] _ this,
      of FillRecorded "Some r" ts r]
  have "(store_child (filled_child c q ts) k s)\<lparr>oms_next_report_id := oms_next_report_id s + 1,
          oms_reports := oms_reports s @ [r]\<rparr> =
      advanced (filled_child c q ts) [r] (oms_next_report_id s + 1) s"
    using k filled_child_simps(1) [of c q ts] by (simp add: store_child_def advanced_def same_child_def)
  with good show ?thesis unfolding record_fill_eq [OF c] Let_def r_def [symmetric] by simp
qed

section \<open>New orders\<close>

lemma epsilon_nonneg: "nonneg oms_epsilon"
  using round_double_mono [of 0 "1 / 10 ^ 12" False False] by (simp add: oms_epsilon_def round_double_0)

lemma new_quantities:
  assumes "positive q" and "proper q"
  shows "d_min q (Number 0) = Number 0" and "d_max (Number 0) (d_sub q (Number 0)) = q"
  using assms by (auto simp: positive_def d_min_def d_max_def d_sub_0)

lemma map_follows_snoc:
  assumes "map_of m n = None" and "\<And>k r. map_of m k = Some r \<Longrightarrow> R r r"
  shows "map_follows R m (m @ [(n, v)])"
  using assms(2) map_of_snoc [OF assms(1), of v] assms(1) by (auto simp: map_follows_def)

definition new_parent :: "u64 \<Rightarrow> parent_order_request \<Rightarrow> u64 \<Rightarrow> parent_order" where
  "new_parent pid request ts =
     \<lparr>po_id = pid, po_symbol = pr_symbol request, po_side = pr_side request,
      po_algorithm = pr_algorithm request, po_quantity = pr_quantity request,
      po_filled_quantity = Number 0, po_remaining_quantity = pr_quantity request, po_status = New,
      po_created_timestamp_ns = ts, po_updated_timestamp_ns = ts, po_child_ids = []\<rparr>"

lemma kids_fresh:
  assumes inv: "oms_inv s" and "map_of (oms_parents s) k = None"
  shows "kid_entries k (oms_children s) = []"
proof -
  have "co_parent_id c \<noteq> k" if "(i, c) \<in> set (oms_children s)" for i c
  proof
    assume "co_parent_id c = k"
    moreover have "map_of (oms_children s) i = Some c"
      using that by (rule map_of_is_SomeI [OF oms_invD(2) [OF inv]])
    ultimately show False using oms_invD(4) [OF inv, of i c] assms(2) by (simp add: child_ok_def)
  qed
  then show ?thesis by (auto simp: kid_entries_def filter_empty_conv)
qed

lemma new_parent_ok:
  assumes "oms_inv s" "map_of (oms_parents s) k = None" "pr_symbol rq \<noteq> []"
    and q: "positive (pr_quantity rq)" "proper (pr_quantity rq)"
  shows "parent_ok (oms_children s) k (new_parent k rq ts)"
proof -
  have "parent_filled (new_parent k rq ts) [] = Number 0"
    using new_quantities [OF q] by (simp add: parent_filled_def kids_filled_def new_parent_def)
  moreover from this have "parent_remaining (new_parent k rq ts) [] = pr_quantity rq"
    using new_quantities [OF q] by (simp add: parent_remaining_def new_parent_def)
  moreover have "parent_status (new_parent k rq ts) [] = New"
    if "d_less oms_epsilon (pr_quantity rq)"
    using calculation that epsilon_nonneg by (simp add: parent_status_def d_le_def)
  ultimately show ?thesis
    using assms by (simp add: parent_ok_def kids_def kids_fresh [OF assms(1,2)])
      (simp add: new_parent_def)
qed

lemma create_parent_good:
  assumes inv: "oms_inv s" and "pr_symbol rq \<noteq> []" and q: "positive (pr_quantity rq)" "proper (pr_quantity rq)"
    and room: "oms_room 1 s"
  shows "\<exists>t. create_parent rq ts s = (Inr (oms_next_parent_id s), t) \<and> good_step s t \<and>
    find_parent (oms_next_parent_id s) t = Some (new_parent (oms_next_parent_id s) rq ts)"
proof -
  let ?n = "oms_next_parent_id s"
  let ?p = "new_parent ?n rq ts"
  let ?ps = "oms_parents s @ [(?n, ?p)]"
  define t where "t = s\<lparr>oms_next_parent_id := ?n + 1, oms_parents := ?ps\<rparr>"
  have old: "numbered ?n (oms_parents s)" "Suc (length (oms_parents s)) < 2 ^ 64"
    using inv room unfolding oms_inv_def oms_room_def by (blast, simp)
  note nx = numbered_next [OF old]
  have lookup: "map_of ?ps = (map_of (oms_parents s))(?n \<mapsto> ?p)" by (rule map_of_snoc [OF nx(1)])
  have "create_parent rq ts s =
      (Inr ?n, notify_mutation \<lparr>me_type = ParentCreated, me_parent = Some ?p, me_child = None, me_fill = None\<rparr> t)"
    using assms(2) q(1) lookup
    by (simp add: create_parent_def validate_positive_None [THEN iffD2] Let_def new_parent_def [symmetric]
        nx(2) t_def)
  moreover have "oms_inv t"
  proof -
    have fields: "oms_next_parent_id t = ?n + 1" "oms_next_child_id t = oms_next_child_id s"
      "oms_next_report_id t = oms_next_report_id s" "oms_parents t = ?ps"
      "oms_children t = oms_children s" "oms_reports t = oms_reports s"
      by (simp_all add: t_def)
    have pa: "parent_ok (oms_children s) k p" if "map_of ?ps k = Some p" for k p
      using that oms_invD(3) [OF inv, of k p] new_parent_ok [OF inv nx(1) assms(2) q, of ts]
      unfolding lookup by (auto split: if_splits)
    have ch: "child_ok t k c" if "map_of (oms_children s) k = Some c" for k c
      using oms_invD(4) [OF inv that] unfolding child_ok_def fields lookup by auto
    have "length ?ps < 2 ^ 64" using old(2) by simp
    then show ?thesis
      using inv nx(3) pa ch unfolding oms_inv_def fields by blast
  qed
  moreover have "oms_follows s t"
    using child_follows_refl [OF inv] parent_follows_refl [OF inv]
    by (simp add: oms_follows_def t_def map_follows_snoc [OF nx(1)]) (simp add: map_follows_def)
  moreover have "oms_room n t" if "oms_room (Suc n) s" for n
    using that by (simp add: oms_room_def t_def)
  moreover have "map_of (oms_parents t) ?n = Some ?p" by (simp add: t_def lookup del: map_of_append)
  ultimately show ?thesis by (simp add: good_step_def find_parent_def) (simp add: oms_room_def)
qed

definition new_child :: "u64 \<Rightarrow> child_order_request \<Rightarrow> child_order" where
  "new_child cid request =
     \<lparr>co_id = cid, co_parent_id = cr_parent_id request, co_venue = cr_venue request,
      co_price = cr_price request, co_quantity = cr_quantity request,
      co_filled_quantity = Number 0, co_remaining_quantity = cr_quantity request,
      co_status = New, co_created_timestamp_ns = cr_created_timestamp_ns request,
      co_updated_timestamp_ns = cr_created_timestamp_ns request\<rparr>"

definition adopted :: "u64 \<Rightarrow> u64 \<Rightarrow> parent_order \<Rightarrow> parent_order" where
  "adopted cid ts p = p\<lparr>po_child_ids := po_child_ids p @ [cid],
     po_status := (if po_status p = New then Working else po_status p), po_updated_timestamp_ns := ts\<rparr>"

definition child_accepted :: "parent_order \<Rightarrow> child_order_request \<Rightarrow> bool" where
  "child_accepted p rq \<longleftrightarrow> \<not> terminal_status (po_status p) \<and> cr_venue rq \<noteq> [] \<and>
     positive (cr_price rq) \<and> positive (cr_quantity rq) \<and>
     \<not> d_less (d_add (po_remaining_quantity p) oms_epsilon) (cr_quantity rq)"

lemma new_child_simps [simp]:
  "co_id (new_child k rq) = k" "co_parent_id (new_child k rq) = cr_parent_id rq"
  "co_filled_quantity (new_child k rq) = Number 0" "co_status (new_child k rq) = New"
  "co_quantity (new_child k rq) = cr_quantity rq" "co_venue (new_child k rq) = cr_venue rq"
  by (simp_all add: new_child_def)

lemma create_child_eq:
  assumes "map_of (oms_parents s) (cr_parent_id rq) = Some p" and "child_accepted p rq"
    and "map_of (oms_children s) (oms_next_child_id s) = None"
  shows "create_child rq s =
    (let n = oms_next_child_id s; c = new_child n rq; p' = adopted n (cr_created_timestamp_ns rq) p in
     (Inr n, notify_mutation \<lparr>me_type = ChildCreated, me_parent = Some p', me_child = Some c, me_fill = None\<rparr>
       (s\<lparr>oms_next_child_id := n + 1, oms_children := oms_children s @ [(n, c)],
          oms_parents := hm_update (cr_parent_id rq) p' (oms_parents s)\<rparr>)))"
  using assms map_of_snoc [OF assms(3), of "new_child (oms_next_child_id s) rq"]
  by (simp add: create_child_def child_accepted_def validate_positive_None [THEN iffD2] Let_def
      new_child_def [symmetric] adopted_def [symmetric] hm_emplace_def)

lemma adopted_simps [simp]:
  "po_id (adopted k ts p) = po_id p" "po_symbol (adopted k ts p) = po_symbol p"
  "po_side (adopted k ts p) = po_side p" "po_algorithm (adopted k ts p) = po_algorithm p"
  "po_quantity (adopted k ts p) = po_quantity p"
  "po_created_timestamp_ns (adopted k ts p) = po_created_timestamp_ns p"
  "po_filled_quantity (adopted k ts p) = po_filled_quantity p"
  "po_remaining_quantity (adopted k ts p) = po_remaining_quantity p"
  "po_child_ids (adopted k ts p) = po_child_ids p @ [k]"
  "po_status (adopted k ts p) = (if po_status p = New then Working else po_status p)"
  by (simp_all add: adopted_def)

lemma parent_measures_cong:
  "po_quantity p = po_quantity p' \<Longrightarrow> parent_filled p = parent_filled p' \<and>
   parent_remaining p = parent_remaining p' \<and> parent_status p = parent_status p'"
  by (simp add: fun_eq_iff parent_filled_def parent_remaining_def parent_status_def)

lemma adopted_ok:
  assumes ok: "parent_ok m k p" and "\<not> terminal_status (po_status p)"
    and nonneg: "list_all nonneg (map co_filled_quantity (kids k m))"
    and c: "co_parent_id c = k" "co_status c = New" "co_filled_quantity c = Number 0"
  shows "parent_ok (m @ [(n, c)]) k (adopted n ts p)"
proof -
  let ?ks = "kids k m" and ?p = "adopted n ts p"
  have same: "parent_filled ?p = parent_filled p" "parent_remaining ?p = parent_remaining p"
    "parent_status ?p = parent_status p"
    using parent_measures_cong [of ?p p] by simp_all
  have filled: "kids_filled (?ks @ [c]) = kids_filled ?ks"
    using d_sum_add_0 [OF nonneg] c(3) by (simp add: kids_filled_def)
  then have sums: "parent_filled p (?ks @ [c]) = parent_filled p ?ks"
    "parent_remaining p (?ks @ [c]) = parent_remaining p ?ks"
    by (simp_all add: parent_remaining_def parent_filled_def)
  have "parent_status p (?ks @ [c]) = (if po_status p = New then Working else po_status p)"
    if "po_status p = parent_status p ?ks"
    using that assms(2) c(2) unfolding parent_status_def sums
    by (auto simp: terminal_status_def split: if_splits)
  then show ?thesis
    using assms(1,2) c(1) unfolding parent_ok_def kids_snoc kid_ids_snoc same
    by (auto simp: sums terminal_status_def)
qed

lemma create_child_good:
  assumes inv: "oms_inv s" and p: "map_of (oms_parents s) (cr_parent_id rq) = Some p"
    and acc: "child_accepted p rq" and proper: "proper (cr_quantity rq)" and room: "oms_room 1 s"
  shows "\<exists>t. create_child rq s = (Inr (oms_next_child_id s), t) \<and> good_step s t \<and>
    find_child (oms_next_child_id s) t = Some (new_child (oms_next_child_id s) rq)"
proof -
  let ?n = "oms_next_child_id s" and ?pid = "cr_parent_id rq"
  let ?c = "new_child ?n rq" and ?p = "adopted ?n (cr_created_timestamp_ns rq) p"
  let ?m = "oms_children s @ [(?n, ?c)]" and ?ps = "hm_update ?pid ?p (oms_parents s)"
  define t where "t = s\<lparr>oms_next_child_id := ?n + 1, oms_children := ?m, oms_parents := ?ps\<rparr>"
  have old: "numbered ?n (oms_children s)" "Suc (length (oms_children s)) < 2 ^ 64"
    using inv room unfolding oms_inv_def oms_room_def by (blast, simp)
  note nx = numbered_next [OF old]
  have lookup: "map_of ?m = (map_of (oms_children s))(?n \<mapsto> ?c)" by (rule map_of_snoc [OF nx(1)])
  have open_p: "\<not> terminal_status (po_status p)" using acc by (simp add: child_accepted_def)
  have ok: "parent_ok (oms_children s) ?pid p" by (rule oms_invD(3) [OF inv p])
  have "oms_inv t"
  proof -
    have fields: "oms_next_parent_id t = oms_next_parent_id s" "oms_next_child_id t = ?n + 1"
      "oms_next_report_id t = oms_next_report_id s" "oms_parents t = ?ps"
      "oms_children t = ?m" "oms_reports t = oms_reports s"
      by (simp_all add: t_def)
    have pa: "parent_ok ?m k q" if "map_of ?ps k = Some q" for k q
    proof (cases "k = ?pid")
      case True
      with that have "q = ?p" by simp
      then show ?thesis using adopted_ok [OF ok open_p kids_nonneg [OF inv], of ?c] True by simp
    next
      case False
      with that have "parent_ok (oms_children s) k q" by (auto intro: oms_invD(3) [OF inv])
      moreover have "kid_entries k ?m = kid_entries k (oms_children s)"
        using False by (simp add: kid_entries_def)
      ultimately show ?thesis using parent_ok_cong by blast
    qed
    have fills: "fills_of ?n (oms_reports s) = []"
    proof -
      have "xr_child_id r \<noteq> ?n" if "r \<in> set (oms_reports s)" for r
        using oms_invD(5) [OF inv that] nx(1) unfolding report_ok_def by force
      then show ?thesis by (simp add: fills_of_def filter_empty_conv)
    qed
    have ch: "child_ok t k c" if "map_of ?m k = Some c" for k c
    proof (cases "k = ?n")
      case True
      with that lookup have "c = ?c" by simp
      then show ?thesis
        using True acc proper fills new_quantities(2) p
        unfolding child_ok_def fields child_accepted_def by (simp add: new_child_def)
    next
      case False
      with that lookup have "child_ok s k c" by (auto intro: oms_invD(4) [OF inv])
      then show ?thesis unfolding child_ok_def fields by auto
    qed
    have re: "report_ok ?m r" if "r \<in> set (oms_reports s)" for r
      using oms_invD(5) [OF inv that] nx(1) unfolding report_ok_def lookup by auto
    have len: "length ?m < 2 ^ 64" "length ?ps < 2 ^ 64"
      using old(2) inv length_hm_update [OF p] by (simp_all add: oms_inv_def)
    have "numbered (oms_next_parent_id s) ?ps"
      using inv numbered_keys [OF keys_hm_update [OF p]] unfolding oms_inv_def by blast
    then show ?thesis
      using inv nx(3) pa ch re len unfolding oms_inv_def fields by blast
  qed
  moreover have "oms_follows s t"
  proof -
    have "parent_follows p ?p"
      using open_p parent_filled_not_nan [OF inv p]
      by (auto simp: parent_follows_def terminal_status_def)
    then have "map_follows parent_follows (oms_parents s) ?ps"
      by (intro map_follows_update [OF _ p] parent_follows_refl [OF inv])
    moreover have "map_follows child_follows (oms_children s) ?m"
      by (rule map_follows_snoc [OF nx(1)]) (rule child_follows_refl [OF inv])
    ultimately show ?thesis by (simp add: oms_follows_def t_def)
  qed
  moreover have "oms_room n t" if "oms_room (Suc n) s" for n
    using that by (simp add: oms_room_def t_def length_hm_update [OF p])
  moreover have "map_of (oms_children t) ?n = Some ?c" by (simp add: t_def lookup del: map_of_append)
  ultimately show ?thesis
    unfolding create_child_eq [OF p acc nx(1)] Let_def t_def [symmetric]
    by (simp add: good_step_def find_child_def) (simp add: oms_room_def)
qed

section \<open>Cancelling a parent\<close>

definition ended :: "u64 \<Rightarrow> child_order \<Rightarrow> child_order" where
  "ended ts c =
     (if open_child c then c\<lparr>co_status := Cancelled, co_updated_timestamp_ns := ts\<rparr> else c)"

lemma ended_simps [simp]:
  "same_child c (ended ts c)" "co_id (ended ts c) = co_id c"
  "co_parent_id (ended ts c) = co_parent_id c" "co_venue (ended ts c) = co_venue c"
  "co_filled_quantity (ended ts c) = co_filled_quantity c" "terminal_status (co_status (ended ts c))"
  "ended ts (ended ts c) = ended ts c"
  by (simp_all add: ended_def same_child_def terminal_status_def)

lemma hm_update_map:
  "distinct (map fst m) \<Longrightarrow> map_of m k = Some c \<Longrightarrow>
   hm_update k c' m = map (\<lambda>(i, d). (i, if i = k then c' else d)) m"
proof (induction m)
  case (Cons x m)
  obtain i d where x: "x = (i, d)" by (cases x)
  show ?case
  proof (cases "i = k")
    case True
    then have "k \<notin> fst ` set m" using Cons.prems(1) x by auto
    then have "map (\<lambda>(i, d). (i, if i = k then c' else d)) m = m" by (intro map_idI) force
    with True x show ?thesis by simp
  qed (use Cons x in auto)
qed simp

lemma map_of_map_values:
  "map_of (map (\<lambda>(k, c). (k, h k c)) m) k = map_option (h k) (map_of m k)"
  by (induction m) auto

lemma cancel_children_map:
  "distinct (map fst m) \<Longrightarrow>
   cancel_children ids ts m = map (\<lambda>(k, c). (k, if k \<in> set ids then ended ts c else c)) m"
proof (induction ids arbitrary: m)
  case (Cons i ids)
  show ?case
  proof (cases "map_of m i")
    case None
    then have "i \<notin> fst ` set m" by (simp add: map_of_eq_None_iff)
    then have "map (\<lambda>(k, c). (k, if k = i \<or> k \<in> set ids then ended ts c else c)) m =
        map (\<lambda>(k, c). (k, if k \<in> set ids then ended ts c else c)) m"
      by (intro map_cong refl) force
    with None Cons show ?thesis by simp
  next
    case (Some d)
    have m: "(if terminal_status (co_status d) then m else hm_update i
        (d\<lparr>co_status := Cancelled, co_updated_timestamp_ns := ts\<rparr>) m) = hm_update i (ended ts d) m"
      using hm_update_same [OF Some] by (simp add: ended_def)
    let ?m = "map (\<lambda>(k, c). (k, if k = i then ended ts d else c)) m"
    have "cancel_children (i # ids) ts m = cancel_children ids ts ?m"
      using Some m by (simp add: hm_update_map [OF Cons.prems Some])
    also have "\<dots> = map (\<lambda>(k, c). (k, if k \<in> set ids then ended ts c else c)) ?m"
    proof (rule Cons.IH)
      have "map fst ?m = map fst m" by auto
      then show "distinct (map fst ?m)" using Cons.prems by (simp only:)
    qed
    also have "\<dots> = map (\<lambda>(k, c). (k, if k \<in> set (i # ids) then ended ts c else c)) m"
      using map_of_is_SomeI [OF Cons.prems, of i] Some by (auto split: if_splits)
    finally show ?thesis .
  qed
qed (simp add: case_prod_unfold)

definition cancelled_kids :: "u64 \<Rightarrow> u64 \<Rightarrow> child_map \<Rightarrow> child_map" where
  "cancelled_kids pid ts m = map (\<lambda>(k, c). (k, if co_parent_id c = pid then ended ts c else c)) m"

lemma kid_entries_map:
  "(\<And>c. co_parent_id (h c) = co_parent_id c) \<Longrightarrow>
   kid_entries q (map (\<lambda>(k, c). (k, h c)) m) = map (\<lambda>(k, c). (k, h c)) (kid_entries q m)"
  by (induction m) (auto simp: kid_entries_def)

lemma cancelled_kids_entries:
  "kid_entries q (cancelled_kids pid ts m) =
   map (\<lambda>(k, c). (k, if co_parent_id c = pid then ended ts c else c)) (kid_entries q m)"
  unfolding cancelled_kids_def by (rule kid_entries_map) simp

lemma cancelled_kids_ids: "map fst (kid_entries q (cancelled_kids pid ts m)) = map fst (kid_entries q m)"
  by (auto simp: cancelled_kids_entries)

lemma cancelled_kids_other:
  "q \<noteq> pid \<Longrightarrow> kid_entries q (cancelled_kids pid ts m) = kid_entries q m"
  unfolding cancelled_kids_entries by (rule map_idI) (auto simp: kid_entries_def)

lemma cancelled_kids_kids: "kids pid (cancelled_kids pid ts m) = map (ended ts) (kids pid m)"
  unfolding kids_def cancelled_kids_entries by (auto simp: kid_entries_def)

lemma cancelled_kids_map_of:
  "map_of (cancelled_kids pid ts m) k =
   map_option (\<lambda>c. if co_parent_id c = pid then ended ts c else c) (map_of m k)"
  unfolding cancelled_kids_def by (rule map_of_map_values)

lemma cancel_children_kids:
  assumes inv: "oms_inv s" and p: "map_of (oms_parents s) pid = Some p"
  shows "cancel_children (po_child_ids p) ts (oms_children s) = cancelled_kids pid ts (oms_children s)"
proof -
  note d = oms_invD(2) [OF inv]
  have ids: "po_child_ids p = map fst (kid_entries pid (oms_children s))"
    using oms_invD(3) [OF inv p] by (simp add: parent_ok_def)
  have "k \<in> set (po_child_ids p) \<longleftrightarrow> co_parent_id c = pid" if kc: "(k, c) \<in> set (oms_children s)" for k c
  proof
    assume "k \<in> set (po_child_ids p)"
    then obtain c' where "(k, c') \<in> set (oms_children s)" "co_parent_id c' = pid"
      by (auto simp: ids kid_entries_def)
    with eq_key_imp_eq_value [OF d kc] show "co_parent_id c = pid" by blast
  next
    assume "co_parent_id c = pid"
    with kc have "(k, c) \<in> set (kid_entries pid (oms_children s))" by (simp add: kid_entries_def)
    then show "k \<in> set (po_child_ids p)" unfolding ids by force
  qed
  then show ?thesis
    unfolding cancel_children_map [OF d] cancelled_kids_def by (intro map_cong refl) auto
qed

lemma cancel_parent_good:
  assumes inv: "oms_inv s"
  shows "\<exists>b t. cancel_parent pid ts s = (b, t) \<and> good_step s t \<and>
    (b \<longleftrightarrow> (\<exists>p. map_of (oms_parents s) pid = Some p \<and> \<not> terminal_status (po_status p)))"
proof (cases "\<exists>p. map_of (oms_parents s) pid = Some p \<and> \<not> terminal_status (po_status p)")
  case True
  then obtain p where p: "map_of (oms_parents s) pid = Some p" and live: "\<not> terminal_status (po_status p)"
    by blast
  let ?p = "p\<lparr>po_status := Cancelled, po_updated_timestamp_ns := ts\<rparr>"
  let ?m = "cancelled_kids pid ts (oms_children s)" and ?ps = "hm_update pid ?p (oms_parents s)"
  define t where "t = s\<lparr>oms_children := ?m, oms_parents := ?ps\<rparr>"
  have eq: "cancel_parent pid ts s = (True, notify_mutation \<lparr>me_type = ParentUpdated, me_parent = Some ?p,
      me_child = None, me_fill = None\<rparr> t)"
    using p live cancel_children_kids [OF inv p] by (simp add: cancel_parent_def Let_def t_def)
  have fields: "oms_next_parent_id t = oms_next_parent_id s" "oms_next_child_id t = oms_next_child_id s"
    "oms_next_report_id t = oms_next_report_id s" "oms_parents t = ?ps" "oms_children t = ?m"
    "oms_reports t = oms_reports s"
    by (simp_all add: t_def)
  have pa: "parent_ok ?m k q" if "map_of ?ps k = Some q" for k q
  proof (cases "k = pid")
    case True
    have ok: "parent_ok (oms_children s) pid p" by (rule oms_invD(3) [OF inv p])
    have "kids_filled (map (ended ts) ks) = kids_filled ks" for ks
      by (simp add: kids_filled_def comp_def)
    then have "parent_filled ?p (map (ended ts) ks) = parent_filled p ks"
      "parent_remaining ?p (map (ended ts) ks) = parent_remaining p ks" for ks
      by (simp_all add: parent_filled_def parent_remaining_def)
    with ok have "parent_ok ?m pid ?p"
      unfolding parent_ok_def cancelled_kids_kids cancelled_kids_ids by simp
    with True that show ?thesis by simp
  next
    case False
    with that have "parent_ok (oms_children s) k q" by (auto intro: oms_invD(3) [OF inv])
    moreover have "kid_entries k ?m = kid_entries k (oms_children s)"
      by (rule cancelled_kids_other [OF False])
    ultimately show ?thesis using parent_ok_cong by blast
  qed
  have ch: "child_ok t k c" if "map_of ?m k = Some c" for k c
  proof -
    obtain d where d: "map_of (oms_children s) k = Some d"
        "c = d \<or> c = d\<lparr>co_status := Cancelled, co_updated_timestamp_ns := ts\<rparr>"
      using \<open>map_of ?m k = Some c\<close> by (auto simp: cancelled_kids_map_of ended_def)
    have "child_ok s k d" by (rule oms_invD(4) [OF inv d(1)])
    with d(2) show ?thesis unfolding child_ok_def fields by auto
  qed
  have re: "report_ok ?m r" if "r \<in> set (oms_reports s)" for r
  proof -
    have r: "report_ok (oms_children s) r" by (rule oms_invD(5) [OF inv that])
    then obtain c where "map_of (oms_children s) (xr_child_id r) = Some c"
        "co_parent_id c = xr_parent_id r" "co_venue c = xr_venue r"
      unfolding report_ok_def by blast
    with r show ?thesis by (simp add: report_ok_def cancelled_kids_map_of)
  qed
  have old: "numbered (oms_next_parent_id s) (oms_parents s)" "numbered (oms_next_child_id s) (oms_children s)"
    "length (oms_parents s) < 2 ^ 64" "length (oms_children s) < 2 ^ 64"
    using inv unfolding oms_inv_def by blast+
  have "map fst ?m = map fst (oms_children s)" "length ?m = length (oms_children s)"
    by (auto simp: cancelled_kids_def)
  then have "numbered (oms_next_child_id s) ?m" "length ?m < 2 ^ 64"
    using old(2,4) numbered_keys by (blast, simp)
  moreover have "numbered (oms_next_parent_id s) ?ps" "length ?ps < 2 ^ 64"
    using old(1,3) numbered_keys [OF keys_hm_update [OF p]] length_hm_update [OF p] by (blast, simp)
  ultimately have "oms_inv t"
    using inv pa ch re unfolding oms_inv_def fields by blast
  moreover have "oms_follows s t"
  proof -
    have "parent_follows p ?p"
      using live parent_filled_not_nan [OF inv p]
      by (auto simp: parent_follows_def terminal_status_def)
    then have "map_follows parent_follows (oms_parents s) ?ps"
      by (intro map_follows_update [OF _ p] parent_follows_refl [OF inv])
    moreover have "child_follows c (ended ts c)" if "map_of (oms_children s) k = Some c" for k c
      using child_follows_refl [OF inv that] by (simp add: child_follows_def) (simp add: ended_def)
    then have "map_follows child_follows (oms_children s) ?m"
      using child_follows_refl [OF inv] by (auto simp: map_follows_def cancelled_kids_map_of)
    ultimately show ?thesis by (simp add: oms_follows_def t_def)
  qed
  moreover have "oms_room n t" if "oms_room (Suc n) s" for n
    using that by (simp add: oms_room_def t_def length_hm_update [OF p] cancelled_kids_def)
  ultimately have "good_step s (notify_mutation e t)" for e
    by (simp add: good_step_def) (simp add: oms_room_def)
  with eq True show ?thesis by blast
next
  case False
  then have "cancel_parent pid ts s = (False, s)"
    by (auto simp: cancel_parent_def split: option.split)
  with False good_step_refl [OF inv] show ?thesis by blast
qed

end
