(* ===== verification/Oms_Calls.thy ===== *)
theory Oms_Calls
  imports Oms_Inv
begin

text \<open>
  Sequences of calls on the order management system: every call keeps the invariant and the state
  after it follows the state before.
\<close>

datatype oms_call =
    CallCreateParent parent_order_request u64
  | CallCreateChild child_order_request
  | CallMarkWorking u64 u64
  | CallFill u64 double double double u64
  | CallCancelChild u64 u64
  | CallRejectChild u64 u64
  | CallCancelParent u64 u64

fun call_oms :: "oms_call \<Rightarrow> oms \<Rightarrow> oms" where
  "call_oms (CallCreateParent request ts) s = snd (create_parent request ts s)"
| "call_oms (CallCreateChild request) s = snd (create_child request s)"
| "call_oms (CallMarkWorking k ts) s = snd (mark_child_working k ts s)"
| "call_oms (CallFill k price quantity fee ts) s = snd (record_fill k price quantity fee ts s)"
| "call_oms (CallCancelChild k ts) s = snd (cancel_child k ts s)"
| "call_oms (CallRejectChild k ts) s = snd (reject_child k ts s)"
| "call_oms (CallCancelParent k ts) s = snd (cancel_parent k ts s)"

definition oms_calls :: "oms_call list \<Rightarrow> oms \<Rightarrow> oms" where
  "oms_calls cs s = fold call_oms cs s"

text \<open>The quantities of a request are values a \<open>double\<close> can hold.\<close>

fun proper_call :: "oms_call \<Rightarrow> bool" where
  "proper_call (CallCreateParent request ts) \<longleftrightarrow> proper (pr_quantity request)"
| "proper_call (CallCreateChild request) \<longleftrightarrow> proper (cr_quantity request)"
| "proper_call _ \<longleftrightarrow> True"

lemma create_parent_refused:
  "pr_symbol rq = [] \<or> \<not> positive (pr_quantity rq) \<Longrightarrow> snd (create_parent rq ts s) = s"
  using validate_positive_None [of "pr_quantity rq"]
  by (auto simp: create_parent_def split: option.split)

lemma create_child_refused:
  assumes "map_of (oms_parents s) (cr_parent_id rq) = None \<or>
    (\<exists>p. map_of (oms_parents s) (cr_parent_id rq) = Some p \<and> \<not> child_accepted p rq)"
  shows "snd (create_child rq s) = s"
  using assms validate_positive_None [of "cr_price rq"] validate_positive_None [of "cr_quantity rq"]
  by (auto simp: create_child_def child_accepted_def split: option.split)

lemma record_fill_refused_state:
  assumes "map_of (oms_children s) k = None \<or>
    (\<exists>c. map_of (oms_children s) k = Some c \<and> \<not> fill_accepted c price q fee)"
  shows "snd (record_fill k price q fee ts s) = s"
proof -
  have "is_finite fee \<Longrightarrow> nonneg fee \<longleftrightarrow> \<not> d_less fee (Number 0)"
    by (cases fee) (auto simp: d_le_def)
  with assms validate_positive_None [of price] validate_positive_None [of q] show ?thesis
    by (auto simp: record_fill_def fill_accepted_def split: option.split)
qed

lemma call_good:
  assumes "oms_inv s" and "oms_room 1 s" and "proper_call x"
  shows "good_step s (call_oms x s)"
proof (cases x)
  case (CallCreateParent rq ts)
  then show ?thesis
    using create_parent_good [OF assms(1) _ _ _ assms(2), of rq ts] create_parent_refused [of rq ts s]
      good_step_refl [OF assms(1)] assms(3) by fastforce
next
  case (CallCreateChild rq)
  show ?thesis
  proof (cases "\<exists>p. map_of (oms_parents s) (cr_parent_id rq) = Some p \<and> child_accepted p rq")
    case True
    then obtain p where "map_of (oms_parents s) (cr_parent_id rq) = Some p" "child_accepted p rq" by blast
    from create_child_good [OF assms(1) this _ assms(2)] CallCreateChild assms(3) show ?thesis by force
  next
    case False
    then have "snd (create_child rq s) = s" by (intro create_child_refused) (metis not_Some_eq)
    with CallCreateChild good_step_refl [OF assms(1)] show ?thesis by simp
  qed
next
  case (CallMarkWorking k ts)
  with mark_child_working_good [OF assms(1), of k ts] show ?thesis by force
next
  case (CallFill k price q fee ts)
  show ?thesis
  proof (cases "\<exists>c. map_of (oms_children s) k = Some c \<and> fill_accepted c price q fee")
    case True
    then obtain c where "map_of (oms_children s) k = Some c" "fill_accepted c price q fee" by blast
    from record_fill_good [OF assms(1) this assms(2), of ts] CallFill show ?thesis by force
  next
    case False
    then have "snd (record_fill k price q fee ts s) = s"
      by (intro record_fill_refused_state) (metis not_Some_eq)
    with CallFill good_step_refl [OF assms(1)] show ?thesis by simp
  qed
next
  case (CallCancelChild k ts)
  with end_child_good [OF assms(1), of Cancelled k ts] show ?thesis by (force simp: cancel_child_def)
next
  case (CallRejectChild k ts)
  with end_child_good [OF assms(1), of Rejected k ts] show ?thesis by (force simp: reject_child_def)
next
  case (CallCancelParent k ts)
  with cancel_parent_good [OF assms(1), of k ts] show ?thesis by force
qed

lemma calls_good:
  "oms_inv s \<Longrightarrow> oms_room (length xs) s \<Longrightarrow> list_all proper_call xs \<Longrightarrow>
   oms_inv (oms_calls xs s) \<and> oms_follows s (oms_calls xs s)"
proof (induction xs arbitrary: s)
  case (Cons x xs)
  have "oms_room 1 s" using Cons.prems(2) by (auto simp: oms_room_def)
  then have step: "good_step s (call_oms x s)" using Cons.prems by (intro call_good) simp_all
  then have "oms_inv (call_oms x s)" "oms_room (length xs) (call_oms x s)" "oms_follows s (call_oms x s)"
    using Cons.prems(2) by (simp_all add: good_step_def)
  with Cons.IH [of "call_oms x s"] Cons.prems(3) show ?case
    by (auto simp: oms_calls_def intro: oms_follows_trans)
qed (simp add: oms_calls_def oms_follows_refl)

lemma calls_room:
  "oms_inv s \<Longrightarrow> oms_room (length xs + n) s \<Longrightarrow> list_all proper_call xs \<Longrightarrow> oms_room n (oms_calls xs s)"
proof (induction xs arbitrary: s)
  case (Cons x xs)
  have "oms_room 1 s" using Cons.prems(2) by (auto simp: oms_room_def)
  then have step: "good_step s (call_oms x s)" using Cons.prems by (intro call_good) simp_all
  then have "oms_inv (call_oms x s)" "oms_room (length xs + n) (call_oms x s)"
    using Cons.prems(2) by (simp_all add: good_step_def)
  with Cons.IH [of "call_oms x s"] Cons.prems(3) show ?case by (simp add: oms_calls_def)
qed (simp add: oms_calls_def)

lemma new_oms_room: "n < 2 ^ 64 \<Longrightarrow> oms_room n new_oms"
  by (simp add: oms_room_def new_oms_def)

lemma oms_reachable_inv:
  "length xs < 2 ^ 64 \<Longrightarrow> list_all proper_call xs \<Longrightarrow> oms_inv (oms_calls xs new_oms)"
  using calls_good [OF new_oms_inv new_oms_room] by blast

section \<open>Doubles for the examples\<close>

lemma epsilon_value:
  obtains e where "oms_epsilon = Number e" and "0 < e" and "e \<le> 1 / 2"
  using tiny_value unfolding oms_epsilon_def by blast

lemma evaluate:
  "positive (Number 10)" "positive (Number 5)"
  "\<not> d_less (d_add (Number 10) oms_epsilon) (Number 10)" "\<not> d_le (Number 10) oms_epsilon"
  "d_less oms_epsilon (Number 10)" "\<not> d_less oms_epsilon (Number 0)"
  "d_add (Number 10) (Number 10) = Number 20" "d_mul (Number 5) (Number 10) = Number 50"
  "d_sub (Number 10) (Number 10) = Number 0" "d_sub (Number 10) (Number 0) = Number 10"
  "d_add (Number 0) (Number 10) = Number 10" "d_add (Number 0) (Number 0) = Number 0"
  "d_add (Number 10) (Number 0) = Number 10"
proof -
  obtain e where e: "oms_epsilon = Number e" "0 < e" "e \<le> 1 / 2" by (rule epsilon_value)
  have "d_le (round_double False 10) (round_double False (10 + e))"
    using e(2) by (intro round_double_mono) simp
  then show "\<not> d_less (d_add (Number 10) oms_epsilon) (Number 10)"
    by (simp add: e(1) d_le_def)
  show "\<not> d_le (Number 10) oms_epsilon" "d_less oms_epsilon (Number 10)" "\<not> d_less oms_epsilon (Number 0)"
    unfolding e(1) using e(2,3) by (simp_all add: d_le_def)
qed (simp_all add: positive_def d_sub_def d_mul_def round_double_0)

end
