(* ===== verification/Oms_Correct.thy ===== *)
theory Oms_Correct
  imports Oms_Calls
begin

text \<open>
  The properties of the order management system, over every sequence of calls.
\<close>

definition overfill_calls :: "oms_call list" where
  "overfill_calls =
     [CallCreateParent \<lparr>pr_symbol = ''BTC'', pr_side = Buy, pr_quantity = Number 10, pr_algorithm = TWAP\<rparr> 1,
      CallCreateChild \<lparr>cr_parent_id = 1, cr_venue = ''A'', cr_price = Number 5, cr_quantity = Number 10,
        cr_created_timestamp_ns = 2\<rparr>,
      CallCreateChild \<lparr>cr_parent_id = 1, cr_venue = ''B'', cr_price = Number 5, cr_quantity = Number 10,
        cr_created_timestamp_ns = 3\<rparr>,
      CallFill 1 (Number 5) (Number 10) (Number 0) 4,
      CallFill 2 (Number 5) (Number 10) (Number 0) 5]"

section \<open>The properties\<close>

lemmas run_scenario =
  oms_calls_def overfill_calls_def new_oms_def create_parent_def create_child_def record_fill_def
  evaluate evaluate(1,2) [THEN validate_positive_None [THEN iffD2]] hm_emplace_def notify_mutation_def
  terminal_status_def publish_child_def store_child_def refresh_parent_def fills_for_parent_def
  find_parent_def d_min_def d_max_def Let_def epsilon_nonneg

text \<open>C25: In every state the system reaches, an order's quantities are the sums of its fills, in the
  order they came: a child has filled what its reports say, the children of a parent are the child
  orders that name it, in the order they were created, and the parent has filled what they have
  filled together, at most its own quantity; its status is the one these sums give, unless it has
  been cancelled (or is smaller than the tolerance of 1e-12).\<close>

theorem oms_totals:
  assumes "list_all proper_call xs" and "length xs < 2 ^ 64"
  defines "s \<equiv> oms_calls xs new_oms"
  shows "(\<forall>k c. find_child k s = Some c \<longrightarrow>
      co_filled_quantity c =
        d_sum (map xr_quantity (filter (\<lambda>r. xr_child_id r = k) (oms_reports s))) \<and>
      co_remaining_quantity c = d_max (Number 0) (d_sub (co_quantity c) (co_filled_quantity c)) \<and>
      find_parent (co_parent_id c) s \<noteq> None) \<and>
    (\<forall>k p. find_parent k s = Some p \<longrightarrow>
      children_for_parent k s = filter (\<lambda>c. co_parent_id c = k) (map snd (oms_children s)) \<and>
      po_filled_quantity p =
        d_min (po_quantity p) (d_sum (map co_filled_quantity (children_for_parent k s))) \<and>
      po_remaining_quantity p = d_max (Number 0) (d_sub (po_quantity p) (po_filled_quantity p)) \<and>
      (po_status p \<noteq> Cancelled \<and> d_less oms_epsilon (po_quantity p) \<longrightarrow>
        po_status p = parent_status p (children_for_parent k s)))"
proof -
  have inv: "oms_inv s" unfolding s_def by (rule oms_reachable_inv [OF assms(2,1)])
  have "children_for_parent k s = kids k (oms_children s)" if "find_parent k s = Some p" for k p
    using that oms_invD(3) [OF inv, of k p] read_kids [OF oms_invD(2) [OF inv], of k]
    by (simp add: children_for_parent_def find_parent_def parent_ok_def)
  moreover have "kids k m = filter (\<lambda>c. co_parent_id c = k) (map snd m)" for k m
    by (simp add: kids_def kid_entries_def filter_map comp_def case_prod_unfold)
  ultimately show ?thesis
    using oms_invD(3,4) [OF inv]
    by (simp add: find_child_def find_parent_def child_ok_def parent_ok_def fills_of_def
        parent_filled_def parent_remaining_def kids_filled_def)
qed

lemma scenario_proper: "list_all proper_call overfill_calls" "length overfill_calls < 2 ^ 64"
  by (simp_all add: overfill_calls_def)

lemma oms_totals_witness:
  "\<exists>c. find_child 1 (oms_calls overfill_calls new_oms) = Some c \<and>
     co_filled_quantity c = d_sum (map xr_quantity
       (filter (\<lambda>r. xr_child_id r = 1) (oms_reports (oms_calls overfill_calls new_oms))))"
proof -
  have "find_child 1 (oms_calls overfill_calls new_oms) \<noteq> None"
    by (simp add: run_scenario find_child_def)
  then show ?thesis using oms_totals [OF scenario_proper] by blast
qed

text \<open>C26: Orders that have ended stay as they ended, whatever is called afterwards: a filled,
  cancelled or rejected child keeps its whole record; a cancelled or rejected parent too; a filled
  parent stays filled and gets no more children; and the reports are only added to.\<close>

theorem ended_orders_final:
  assumes "list_all proper_call (xs @ ys)" and "length (xs @ ys) < 2 ^ 64"
  defines "s \<equiv> oms_calls xs new_oms" and "t \<equiv> oms_calls ys (oms_calls xs new_oms)"
  shows "(\<forall>k c. find_child k s = Some c \<and> terminal_status (co_status c) \<longrightarrow> find_child k t = Some c) \<and>
    (\<forall>k p. find_parent k s = Some p \<and> (po_status p = Cancelled \<or> po_status p = Rejected) \<longrightarrow>
      find_parent k t = Some p) \<and>
    (\<forall>k p. find_parent k s = Some p \<and> po_status p = Filled \<longrightarrow>
      (\<exists>p'. find_parent k t = Some p' \<and> po_status p' = Filled \<and> po_child_ids p' = po_child_ids p)) \<and>
    (\<exists>rs. oms_reports t = oms_reports s @ rs)"
proof -
  have inv: "oms_inv s" unfolding s_def by (rule oms_reachable_inv) (use assms(1,2) in simp_all)
  have "oms_room (length ys) s"
    unfolding s_def using assms(1,2) by (intro calls_room new_oms_room new_oms_inv) simp_all
  then have "oms_follows s t"
    unfolding t_def s_def [symmetric] using calls_good [OF inv, of ys] assms(1) by simp
  then show ?thesis
    unfolding oms_follows_def map_follows_def find_child_def find_parent_def
      child_follows_def parent_follows_def
    by (force simp: terminal_status_def)
qed


lemma ended_orders_final_witness:
  "\<exists>p. find_parent 1 (oms_calls (drop 4 overfill_calls) (oms_calls (take 4 overfill_calls) new_oms)) = Some p \<and>
     po_status p = Filled"
proof -
  have "\<exists>p. find_parent 1 (oms_calls (take 4 overfill_calls) new_oms) = Some p \<and> po_status p = Filled"
    by (simp add: run_scenario)
  then show ?thesis
    using ended_orders_final [of "take 4 overfill_calls" "drop 4 overfill_calls"] scenario_proper
    unfolding append_take_drop_id by meson
qed

text \<open>The check of a new child looks at what the parent has left to fill, not at what its open
  children already ask for. A parent of 10 gets two children of 10, both are filled, and the
  parent, whose own quantity was exceeded by as much, shows 10 filled of 10.\<close>

theorem parent_overfilled:
  "let s = oms_calls overfill_calls new_oms in
   map xr_quantity (fills_for_parent 1 s) = [Number 10, Number 10] \<and>
   map_option po_quantity (find_parent 1 s) = Some (Number 10) \<and>
   map_option po_filled_quantity (find_parent 1 s) = Some (Number 10)"
  by (simp add: run_scenario)

text \<open>A parent of at most 1e-12 passes the check for positive quantities, but counts as filled as
  soon as it is refreshed: a call that marks its child working ends it, without a fill.\<close>

lemma tiny_parent_filled:
  assumes "positive (po_quantity p)" and "proper (po_quantity p)" and "d_le (po_quantity p) oms_epsilon"
    and "nonneg (kids_filled ks)"
  shows "parent_status p ks = Filled"
proof -
  have q: "is_finite (po_quantity p)" "\<not> is_nan (po_quantity p)" "d_less (Number 0) (po_quantity p)"
    using assms(1,3) by (auto simp: positive_def dest: d_le_not_nan)
  have "nonneg (parent_filled p ks)"
    unfolding parent_filled_def using positive_nonneg [OF assms(1)] assms(4) by (rule d_min_nonneg)
  then have "d_le (d_sub (po_quantity p) (parent_filled p ks)) (po_quantity p)"
    using d_sub_antimono [OF q(1), of "Number 0" "parent_filled p ks"] d_sub_0 [OF assms(2) q(3)] by simp
  then have "d_le (parent_remaining p ks) oms_epsilon"
    using assms(3) epsilon_nonneg d_le_trans unfolding parent_remaining_def d_max_def by (simp split: if_split)
  then show ?thesis by (simp add: parent_status_def)
qed

end
