(* ===== verification/Positions.thy ===== *)
theory Positions
  imports Oms_Calls Double_Arith "HOL-Library.Char_ord" "HOL-Library.List_Lexorder"
begin

text \<open>
  Positions and what is checked of them: the position manager (position\_manager.hpp,
  src/position\_manager.cpp), the recomputation of positions from fills (\<open>reconcile_positions\<close> of
  src/reconciliation.cpp) and the portfolio limits (src/portfolio\_risk.cpp).

  Strings are compared as \<open>std::string\<close> does, by the unsigned values of their characters; the
  vectors \<open>std::sort\<close> leaves in an unspecified order, those with equal symbols, keep theirs.
\<close>

section \<open>The position manager\<close>

record position_state =
  ps_symbol :: string
  ps_net_quantity :: double
  ps_average_cost :: double
  ps_realized_pnl :: double
  ps_unrealized_pnl :: double
  ps_mark_price :: double

type_synonym position_map = "(string \<times> position_state) list"

definition empty_position :: "string \<Rightarrow> position_state" where
  "empty_position symbol =
     \<lparr>ps_symbol = symbol, ps_net_quantity = Number 0, ps_average_cost = Number 0,
      ps_realized_pnl = Number 0, ps_unrealized_pnl = Number 0, ps_mark_price = Number 0\<rparr>"

text \<open>\<open>positions_[symbol]\<close>, which inserts an entry when there is none.\<close>

definition position_at :: "string \<Rightarrow> position_map \<Rightarrow> position_state" where
  "position_at symbol m = (case map_of m symbol of None \<Rightarrow> empty_position [] | Some p \<Rightarrow> p)"

definition position_epsilon :: double where
  "position_epsilon = round_double False (1 / 10 ^ 12)"

definition extends_position :: "double \<Rightarrow> double \<Rightarrow> bool" where
  "extends_position old_quantity signed_quantity \<longleftrightarrow>
     d_less (d_abs old_quantity) position_epsilon \<or>
     d_less (Number 0) old_quantity \<and> d_less (Number 0) signed_quantity \<or>
     d_less old_quantity (Number 0) \<and> d_less signed_quantity (Number 0)"

definition filled_position ::
  "route_side \<Rightarrow> oms_execution_report \<Rightarrow> position_state \<Rightarrow> position_state"
where
  "filled_position side fill position =
     (let signed_quantity = (if side = Buy then xr_quantity fill else d_neg (xr_quantity fill));
          old_quantity = ps_net_quantity position;
          new_quantity = d_add old_quantity signed_quantity;
          p1 =
            (if extends_position old_quantity signed_quantity then
               let old_notional = d_mul (d_abs old_quantity) (ps_average_cost position);
                   new_notional = d_mul (d_abs signed_quantity) (xr_price fill);
                   total_quantity = d_add (d_abs old_quantity) (d_abs signed_quantity)
               in if d_less position_epsilon total_quantity
                  then position\<lparr>ps_average_cost := d_div (d_add old_notional new_notional) total_quantity\<rparr>
                  else position
             else
               let closing_quantity = d_min (d_abs old_quantity) (d_abs signed_quantity);
                   p2 = position\<lparr>ps_realized_pnl := d_add (ps_realized_pnl position)
                     (d_mul (if d_less (Number 0) old_quantity
                             then d_sub (xr_price fill) (ps_average_cost position)
                             else d_sub (ps_average_cost position) (xr_price fill)) closing_quantity)\<rparr>;
                   p3 = (if d_less (d_abs old_quantity) (d_abs signed_quantity)
                         then p2\<lparr>ps_average_cost := xr_price fill\<rparr> else p2)
               in if d_less (d_abs new_quantity) position_epsilon
                  then p3\<lparr>ps_average_cost := Number 0\<rparr> else p3);
          p4 = p1\<lparr>ps_net_quantity := new_quantity,
                  ps_realized_pnl := d_sub (ps_realized_pnl p1) (xr_fee fill)\<rparr>
      in if d_less (Number 0) (ps_mark_price p4)
         then p4\<lparr>ps_unrealized_pnl :=
           d_mul (d_sub (ps_mark_price p4) (ps_average_cost p4)) (ps_net_quantity p4)\<rparr>
         else p4)"

definition apply_fill :: "parent_order \<Rightarrow> oms_execution_report \<Rightarrow> position_map \<Rightarrow> position_map" where
  "apply_fill parent fill m =
     hm_update (po_symbol parent)
       (filled_position (po_side parent) fill
         ((position_at (po_symbol parent) m)\<lparr>ps_symbol := po_symbol parent\<rparr>)) m"

definition mark :: "string \<Rightarrow> double \<Rightarrow> position_map \<Rightarrow> position_map" where
  "mark symbol price m =
     (let p = (position_at symbol m)\<lparr>ps_symbol := symbol, ps_mark_price := price\<rparr>
      in hm_update symbol (p\<lparr>ps_unrealized_pnl :=
           d_mul (d_sub (ps_mark_price p) (ps_average_cost p)) (ps_net_quantity p)\<rparr>) m)"

definition position :: "string \<Rightarrow> position_map \<Rightarrow> position_state" where
  "position symbol m = (case map_of m symbol of None \<Rightarrow> empty_position symbol | Some p \<Rightarrow> p)"

definition positions :: "position_map \<Rightarrow> position_state list" where
  "positions m = sort_key ps_symbol (map snd m)"

section \<open>Recomputation\<close>

record position_fill_input =
  fi_side :: route_side
  fi_quantity :: double
  fi_price :: double
  fi_fee :: double

record position_reconciliation_input =
  ri_symbol :: string
  ri_fills :: "position_fill_input list"
  ri_actual :: position_state

record position_reconciliation_result =
  rr_symbol :: string
  rr_expected_net_quantity :: double
  rr_actual_net_quantity :: double
  rr_quantity_difference :: double
  rr_expected_average_cost :: double
  rr_actual_average_cost :: double
  rr_average_cost_difference :: double
  rr_expected_realized_pnl :: double
  rr_actual_realized_pnl :: double
  rr_realized_pnl_difference :: double
  rr_mark_price :: double
  rr_expected_unrealized_pnl :: double
  rr_actual_unrealized_pnl :: double
  rr_unrealized_pnl_difference :: double
  rr_expected_total_pnl :: double
  rr_actual_total_pnl :: double
  rr_total_pnl_difference :: double
  rr_quantity_consistent :: bool
  rr_average_cost_consistent :: bool
  rr_realized_pnl_consistent :: bool
  rr_unrealized_pnl_consistent :: bool
  rr_total_pnl_consistent :: bool
  rr_consistent :: bool

definition recompute_fill ::
  "position_fill_input \<Rightarrow> double \<times> double \<times> double \<Rightarrow> double \<times> double \<times> double"
where
  "recompute_fill fill acc =
     (case acc of (expected_net_quantity, expected_average_cost, expected_realized_pnl) \<Rightarrow>
      let signed_quantity = (if fi_side fill = Buy then fi_quantity fill else d_neg (fi_quantity fill));
          old_quantity = expected_net_quantity;
          new_quantity = d_add old_quantity signed_quantity;
          (average_cost, realized_pnl) =
            (if d_less (d_abs old_quantity) position_epsilon \<or>
                d_less (Number 0) old_quantity \<and> d_less (Number 0) signed_quantity \<or>
                d_less old_quantity (Number 0) \<and> d_less signed_quantity (Number 0)
             then
               let old_notional = d_mul (d_abs old_quantity) expected_average_cost;
                   new_notional = d_mul (d_abs signed_quantity) (fi_price fill);
                   total_quantity = d_add (d_abs old_quantity) (d_abs signed_quantity)
               in (if d_less position_epsilon total_quantity
                   then d_div (d_add old_notional new_notional) total_quantity
                   else expected_average_cost, expected_realized_pnl)
             else
               let closing_quantity = d_min (d_abs old_quantity) (d_abs signed_quantity);
                   realized = d_add expected_realized_pnl
                     (if d_less (Number 0) old_quantity
                      then d_mul (d_sub (fi_price fill) expected_average_cost) closing_quantity
                      else d_mul (d_sub expected_average_cost (fi_price fill)) closing_quantity);
                   cost = (if d_less (d_abs old_quantity) (d_abs signed_quantity)
                           then fi_price fill else expected_average_cost)
               in (if d_less (d_abs new_quantity) position_epsilon then Number 0 else cost, realized))
      in (new_quantity, average_cost, d_sub realized_pnl (fi_fee fill)))"

definition recompute :: "position_fill_input list \<Rightarrow> double \<times> double \<times> double" where
  "recompute fills = fold recompute_fill fills (Number 0, Number 0, Number 0)"

definition reconcile_position ::
  "double \<Rightarrow> position_reconciliation_input \<Rightarrow> position_reconciliation_result"
where
  "reconcile_position epsilon input =
     (case recompute (ri_fills input) of (expected_net, expected_cost, expected_realized) \<Rightarrow>
      let actual = ri_actual input;
          quantity_difference = d_sub (ps_net_quantity actual) expected_net;
          average_cost_difference = d_sub (ps_average_cost actual) expected_cost;
          realized_difference = d_sub (ps_realized_pnl actual) expected_realized;
          expected_unrealized = d_mul (d_sub (ps_mark_price actual) expected_cost) expected_net;
          unrealized_difference = d_sub (ps_unrealized_pnl actual) expected_unrealized;
          expected_total = d_add expected_realized expected_unrealized;
          actual_total = d_add (ps_realized_pnl actual) (ps_unrealized_pnl actual);
          total_difference = d_sub actual_total expected_total;
          near = (\<lambda>difference. d_le (d_abs difference) epsilon)
      in \<lparr>rr_symbol = ri_symbol input,
          rr_expected_net_quantity = expected_net, rr_actual_net_quantity = ps_net_quantity actual,
          rr_quantity_difference = quantity_difference,
          rr_expected_average_cost = expected_cost, rr_actual_average_cost = ps_average_cost actual,
          rr_average_cost_difference = average_cost_difference,
          rr_expected_realized_pnl = expected_realized, rr_actual_realized_pnl = ps_realized_pnl actual,
          rr_realized_pnl_difference = realized_difference,
          rr_mark_price = ps_mark_price actual,
          rr_expected_unrealized_pnl = expected_unrealized,
          rr_actual_unrealized_pnl = ps_unrealized_pnl actual,
          rr_unrealized_pnl_difference = unrealized_difference,
          rr_expected_total_pnl = expected_total, rr_actual_total_pnl = actual_total,
          rr_total_pnl_difference = total_difference,
          rr_quantity_consistent = near quantity_difference,
          rr_average_cost_consistent = near average_cost_difference,
          rr_realized_pnl_consistent = near realized_difference,
          rr_unrealized_pnl_consistent = near unrealized_difference,
          rr_total_pnl_consistent = near total_difference,
          rr_consistent = (near quantity_difference \<and> near average_cost_difference \<and>
            near realized_difference \<and> near unrealized_difference \<and> near total_difference)\<rparr>)"

definition reconcile_positions ::
  "position_reconciliation_input list \<Rightarrow> double \<Rightarrow> position_reconciliation_result list"
where
  "reconcile_positions inputs epsilon = sort_key rr_symbol (map (reconcile_position epsilon) inputs)"

section \<open>Positions agree with their recomputation\<close>

datatype position_call = Fill parent_order oms_execution_report | Mark string double

fun call_positions :: "position_call \<Rightarrow> position_map \<Rightarrow> position_map" where
  "call_positions (Fill parent fill) m = apply_fill parent fill m"
| "call_positions (Mark symbol price) m = mark symbol price m"

definition position_calls :: "position_call list \<Rightarrow> position_map" where
  "position_calls xs = fold call_positions xs []"

text \<open>The fills of a symbol, in the order they were applied.\<close>

fun fill_of :: "string \<Rightarrow> position_call \<Rightarrow> position_fill_input option" where
  "fill_of symbol (Fill parent fill) =
     (if po_symbol parent = symbol
      then Some \<lparr>fi_side = po_side parent, fi_quantity = xr_quantity fill, fi_price = xr_price fill,
        fi_fee = xr_fee fill\<rparr>
      else None)"
| "fill_of symbol (Mark _ _) = None"

definition fills_in_order :: "string \<Rightarrow> position_call list \<Rightarrow> position_fill_input list" where
  "fills_in_order symbol xs = List.map_filter (fill_of symbol) xs"

definition figures :: "position_state \<Rightarrow> double \<times> double \<times> double" where
  "figures p = (ps_net_quantity p, ps_average_cost p, ps_realized_pnl p)"

definition valued :: "position_state \<Rightarrow> bool" where
  "valued p \<longleftrightarrow> (d_less (Number 0) (ps_mark_price p) \<longrightarrow>
     ps_unrealized_pnl p = d_mul (d_sub (ps_mark_price p) (ps_average_cost p)) (ps_net_quantity p))"

lemma filled_position_figures:
  "figures (filled_position side fill p) =
     recompute_fill \<lparr>fi_side = side, fi_quantity = xr_quantity fill, fi_price = xr_price fill,
       fi_fee = xr_fee fill\<rparr> (figures p)"
  by (simp add: figures_def filled_position_def recompute_fill_def extends_position_def Let_def)

lemma filled_position_frame [simp]:
  "ps_symbol (filled_position side fill p) = ps_symbol p"
  "ps_mark_price (filled_position side fill p) = ps_mark_price p"
  by (simp_all add: filled_position_def Let_def)

lemma filled_position_valued: "valued (filled_position side fill p)"
  by (simp add: valued_def filled_position_def Let_def)

lemma empty_position_simps [simp]:
  "figures (empty_position s) = (Number 0, Number 0, Number 0)" "valued (empty_position s)"
  "figures (p\<lparr>ps_symbol := s\<rparr>) = figures p"
  by (simp_all add: empty_position_def figures_def valued_def d_less.simps)

lemma position_at_figures: "figures (position_at symbol m) = figures (position symbol m)"
  by (simp add: position_at_def position_def split: option.split)

lemma position_update [simp]:
  "position symbol (hm_update s p m) = (if s = symbol then p else position symbol m)"
  by (simp add: position_def)

lemma position_call_step:
  "figures (position symbol (call_positions x m)) =
     (case fill_of symbol x of None \<Rightarrow> id | Some f \<Rightarrow> recompute_fill f) (figures (position symbol m)) \<and>
   (valued (position symbol m) \<longrightarrow> valued (position symbol (call_positions x m)))"
proof (cases x)
  case (Fill parent fill)
  then show ?thesis
    by (simp add: apply_fill_def filled_position_figures filled_position_valued position_at_figures)
next
  case (Mark s price)
  then show ?thesis
    by (simp add: mark_def Let_def valued_def)
      (simp add: figures_def position_at_figures [unfolded figures_def])
qed

lemma positions_recomputed:
  "figures (position symbol (position_calls xs)) = recompute (fills_in_order symbol xs) \<and>
   valued (position symbol (position_calls xs))"
proof (induction xs rule: rev_induct)
  case Nil
  then show ?case by (simp add: position_calls_def position_def fills_in_order_def recompute_def map_filter_def)
next
  case (snoc x xs)
  then show ?case
    using position_call_step [of symbol x "position_calls xs"]
    by (cases "fill_of symbol x")
      (simp_all add: position_calls_def fills_in_order_def recompute_def map_filter_def)
qed

text \<open>Every figure of the position is a number, and so is the sum that is compared.\<close>

definition finite_position :: "position_state \<Rightarrow> bool" where
  "finite_position p \<longleftrightarrow> is_finite (ps_net_quantity p) \<and> is_finite (ps_average_cost p) \<and>
     is_finite (ps_realized_pnl p) \<and> is_finite (ps_unrealized_pnl p) \<and>
     is_finite (d_add (ps_realized_pnl p) (ps_unrealized_pnl p))"

lemma reconcile_position_consistent:
  assumes "figures p = recompute fills" and "valued p" and "d_less (Number 0) (ps_mark_price p)"
    and "finite_position p" and "nonneg epsilon"
  shows "rr_consistent (reconcile_position epsilon \<lparr>ri_symbol = s, ri_fills = fills, ri_actual = p\<rparr>)"
proof -
  have fig: "recompute fills = (ps_net_quantity p, ps_average_cost p, ps_realized_pnl p)"
    using assms(1) by (simp add: figures_def)
  have un: "d_mul (d_sub (ps_mark_price p) (ps_average_cost p)) (ps_net_quantity p) = ps_unrealized_pnl p"
    using assms(2,3) by (simp add: valued_def)
  show ?thesis
    using assms(4,5) by (simp add: reconcile_position_def fig un Let_def d_sub_self finite_position_def)
qed


definition sample_parent :: "u64 \<Rightarrow> route_side \<Rightarrow> parent_order" where
  "sample_parent k side = \<lparr>po_id = k, po_symbol = ''btcusd'', po_side = side, po_algorithm = Market,
     po_quantity = Number 4, po_filled_quantity = Number 0, po_remaining_quantity = Number 4,
     po_status = New, po_created_timestamp_ns = 0, po_updated_timestamp_ns = 0, po_child_ids = []\<rparr>"

definition sample_fill :: "u64 \<Rightarrow> rat \<Rightarrow> rat \<Rightarrow> oms_execution_report" where
  "sample_fill k price quantity = \<lparr>xr_execution_report_id = k, xr_parent_id = k, xr_child_id = k,
     xr_venue = ''binance'', xr_price = Number price, xr_quantity = Number quantity,
     xr_notional = Number (price * quantity), xr_fee = Number 0, xr_timestamp_ns = k\<rparr>"

lemma epsilon_decides:
  "d_less (Number 0) position_epsilon" "1 \<le> q \<Longrightarrow> \<not> d_less (Number q) position_epsilon"
  "1 \<le> q \<Longrightarrow> d_less position_epsilon (Number q)"
  unfolding position_epsilon_def by (rule tiny_decides; assumption?)+

definition sample_calls :: "position_call list" where
  "sample_calls =
     [Fill (sample_parent 1 Buy) (sample_fill 1 10 3), Mark ''btcusd'' (Number 20),
      Fill (sample_parent 2 Sell) (sample_fill 2 30 1)]"

lemmas position_eval = apply_fill_def mark_def position_at_def filled_position_def extends_position_def
  epsilon_decides d_mul_def d_div_def d_sub_def d_min_def round_double_0 Let_def empty_position_def position_def

lemma sample_position:
  "position ''btcusd'' (position_calls sample_calls) =
     \<lparr>ps_symbol = ''btcusd'', ps_net_quantity = Number 2, ps_average_cost = Number 10,
      ps_realized_pnl = Number 20, ps_unrealized_pnl = Number 20, ps_mark_price = Number 20\<rparr>"
  by (simp add: position_calls_def sample_calls_def sample_parent_def sample_fill_def position_eval)


text \<open>A position that has never been marked has no unrealized profit, but is compared with the one
  at a mark of zero: it is reported inconsistent.\<close>

lemma unmarked_inconsistent:
  "let p = position ''btcusd'' (position_calls (take 1 sample_calls)) in
   \<not> rr_consistent (reconcile_position (round_double False (1 / 10 ^ 9))
     \<lparr>ri_symbol = ''btcusd'', ri_fills = fills_in_order ''btcusd'' (take 1 sample_calls), ri_actual = p\<rparr>)"
proof -
  have small: "d_less (round_double False (1 / 10 ^ 9)) (Number 30)"
    using round_double_mono [of "1 / 10 ^ 9" 1 False False] by (auto intro: d_le_less_trans)
  have rec: "recompute (fills_in_order ''btcusd'' (take 1 sample_calls)) =
      figures (position ''btcusd'' (position_calls (take 1 sample_calls)))"
    by (simp only: positions_recomputed)
  have p: "position ''btcusd'' (position_calls (take 1 sample_calls)) =
     \<lparr>ps_symbol = ''btcusd'', ps_net_quantity = Number 3, ps_average_cost = Number 10,
      ps_realized_pnl = Number 0, ps_unrealized_pnl = Number 0, ps_mark_price = Number 0\<rparr>"
    by (simp add: position_calls_def sample_calls_def sample_parent_def sample_fill_def position_eval)
  have "recompute (fills_in_order ''btcusd'' (take 1 sample_calls)) = (Number 3, Number 10, Number 0)"
    unfolding rec p by (simp add: figures_def)
  then show ?thesis
    unfolding Let_def p reconcile_position_def
    using small by (simp add: Let_def d_sub_def d_mul_def d_le_def round_double_0 round_neg_numeral)
qed

end
