(* ===== verification/Portfolio_Risk.thy ===== *)
theory Portfolio_Risk
  imports Positions
begin

text \<open>
  The limits on the portfolio (portfolio\_risk.hpp, src/portfolio\_risk.cpp) and what the callback of
  the service does with a fill: the position is updated, the portfolio evaluated, and every symbol
  halted when a limit is breached.
\<close>

record portfolio_summary =
  sm_gross_exposure :: double
  sm_net_exposure :: double
  sm_realized_pnl :: double
  sm_unrealized_pnl :: double
  sm_total_pnl :: double
  sm_position_count :: nat
  sm_largest_position_symbol :: string
  sm_largest_position_exposure :: double
  sm_largest_concentration_percent :: double

record portfolio_risk_limits =
  pl_max_gross_exposure :: double
  pl_max_net_exposure :: double
  pl_max_concentration_percent :: double
  pl_max_daily_loss :: double

record portfolio_risk_status =
  pt_summary :: portfolio_summary
  pt_limits :: portfolio_risk_limits
  pt_gross_exposure_breached :: bool
  pt_net_exposure_breached :: bool
  pt_concentration_breached :: bool
  pt_daily_loss_breached :: bool
  pt_breached :: bool

definition default_portfolio_limits :: portfolio_risk_limits where
  "default_portfolio_limits =
     \<lparr>pl_max_gross_exposure = Number 1000000, pl_max_net_exposure = Number 500000,
      pl_max_concentration_percent = Number 50, pl_max_daily_loss = Number 50000\<rparr>"

definition add_exposure :: "position_state \<Rightarrow> portfolio_summary \<Rightarrow> portfolio_summary" where
  "add_exposure p result =
     (let exposure = d_mul (ps_net_quantity p) (ps_mark_price p);
          absolute_exposure = d_abs exposure;
          r = result\<lparr>sm_gross_exposure := d_add (sm_gross_exposure result) absolute_exposure,
                sm_net_exposure := d_add (sm_net_exposure result) exposure,
                sm_realized_pnl := d_add (sm_realized_pnl result) (ps_realized_pnl p),
                sm_unrealized_pnl := d_add (sm_unrealized_pnl result) (ps_unrealized_pnl p)\<rparr>
      in if d_less (sm_largest_position_exposure r) absolute_exposure
         then r\<lparr>sm_largest_position_exposure := absolute_exposure,
                sm_largest_position_symbol := ps_symbol p\<rparr>
         else r)"

definition summarize :: "position_state list \<Rightarrow> portfolio_summary" where
  "summarize ps =
     (let r0 = \<lparr>sm_gross_exposure = Number 0, sm_net_exposure = Number 0, sm_realized_pnl = Number 0,
            sm_unrealized_pnl = Number 0, sm_total_pnl = Number 0, sm_position_count = length ps,
            sm_largest_position_symbol = [], sm_largest_position_exposure = Number 0,
            sm_largest_concentration_percent = Number 0\<rparr>;
          r1 = fold add_exposure ps r0;
          r2 = r1\<lparr>sm_total_pnl := d_add (sm_realized_pnl r1) (sm_unrealized_pnl r1)\<rparr>
      in if d_less (round_double False (1 / 10 ^ 12)) (sm_gross_exposure r2)
         then r2\<lparr>sm_largest_concentration_percent :=
           d_mul (d_div (sm_largest_position_exposure r2) (sm_gross_exposure r2)) (Number 100)\<rparr>
         else r2)"

definition evaluate_portfolio ::
  "portfolio_risk_limits \<Rightarrow> position_state list \<Rightarrow> portfolio_risk_status"
where
  "evaluate_portfolio limits ps =
     (let summary = summarize ps;
          gross = (d_less (Number 0) (pl_max_gross_exposure limits) \<and>
            d_less (pl_max_gross_exposure limits) (sm_gross_exposure summary));
          net = (d_less (Number 0) (pl_max_net_exposure limits) \<and>
            d_less (pl_max_net_exposure limits) (d_abs (sm_net_exposure summary)));
          concentration = (d_less (Number 0) (pl_max_concentration_percent limits) \<and>
            d_less (pl_max_concentration_percent limits) (sm_largest_concentration_percent summary));
          loss = (d_less (Number 0) (pl_max_daily_loss limits) \<and>
            d_less (sm_total_pnl summary) (d_neg (pl_max_daily_loss limits)))
      in \<lparr>pt_summary = summary, pt_limits = limits, pt_gross_exposure_breached = gross,
          pt_net_exposure_breached = net, pt_concentration_breached = concentration,
          pt_daily_loss_breached = loss, pt_breached = (gross \<or> net \<or> concentration \<or> loss)\<rparr>)"

definition set_limits ::
  "portfolio_risk_limits \<Rightarrow> portfolio_risk_limits \<Rightarrow> (oms_error + unit) \<times> portfolio_risk_limits"
where
  "set_limits limits current =
     (if d_less (pl_max_gross_exposure limits) (Number 0) \<or> d_less (pl_max_net_exposure limits) (Number 0) \<or>
         d_less (pl_max_concentration_percent limits) (Number 0) \<or>
         d_less (pl_max_daily_loss limits) (Number 0)
      then (Inl (InvalidArgument ''portfolio risk limits must be non-negative''), current)
      else (Inr (), limits))"

text \<open>The callback of the order management system, as far as the positions go: the positions it
  leaves, and whether it calls \<open>exchange.halt_all()\<close>.\<close>

definition position_callback ::
  "portfolio_risk_limits \<Rightarrow> mutation_event \<Rightarrow> position_map \<Rightarrow> position_map \<times> bool"
where
  "position_callback limits event m =
     (case (me_fill event, me_parent event) of
        (Some fill, Some parent) \<Rightarrow>
          let m' = apply_fill parent fill m
          in (m', pt_breached (evaluate_portfolio limits (positions m')))
      | _ \<Rightarrow> (m, False))"

section \<open>Bounds of the summary\<close>

text \<open>The amounts the loop compares: the largest one never exceeds the gross exposure, and neither
  does the net one, in either direction, rounding included.\<close>

definition exposures_bounded :: "portfolio_summary \<Rightarrow> bool" where
  "exposures_bounded r \<longleftrightarrow> nonneg (sm_largest_position_exposure r) \<and>
     proper (sm_gross_exposure r) \<and> sm_gross_exposure r \<noteq> MinusZero \<and> nonneg (sm_gross_exposure r) \<and>
     d_le (sm_largest_position_exposure r) (sm_gross_exposure r) \<and>
     d_le (sm_net_exposure r) (sm_gross_exposure r) \<and>
     d_le (d_neg (sm_gross_exposure r)) (sm_net_exposure r)"

lemma add_exposure_bounded:
  assumes "exposures_bounded r" and "is_finite (d_mul (ps_net_quantity p) (ps_mark_price p))"
    and "is_finite (sm_largest_position_exposure r)"
  shows "exposures_bounded (add_exposure p r) \<and> is_finite (sm_largest_position_exposure (add_exposure p r))"
proof -
  define e where "e = d_mul (ps_net_quantity p) (ps_mark_price p)"
  define g where "g = sm_gross_exposure r"
  define g' where "g' = d_add g (d_abs e)"
  define l where "l = sm_largest_position_exposure r"
  have e: "is_finite e" "\<not> is_nan e" using assms(2) by (cases e; simp add: e_def)+
  have r: "nonneg l" "proper g" "g \<noteq> MinusZero" "nonneg g" "d_le l g" "d_le (sm_net_exposure r) g"
      "d_le (d_neg g) (sm_net_exposure r)"
    using assms(1) by (simp_all add: exposures_bounded_def g_def l_def)
  have abs: "nonneg (d_abs e)" by (rule d_abs_nonneg [OF e(2)])
  have nn: "nonneg g'" unfolding g'_def by (rule d_add_nonneg [OF r(4) abs])
  have grow: "d_le g g'" unfolding g'_def by (rule d_add_grows [OF r(2,3,4) abs])
  have top: "d_le (d_abs e) g'"
    using d_add_mono [of "Number 0" "d_abs e" g "d_abs e"] r(4) abs e(2) d_add_0_right [of "d_abs e"]
    by (simp add: d_add_commute [of "Number 0"] g'_def e_def)
  have up: "d_le (d_add (sm_net_exposure r) e) g'"
    unfolding g'_def by (rule d_add_mono_finite [OF r(6) d_le_abs [OF e(2)]]) (use e in simp_all)
  have dn: "d_le (d_add (d_neg g) (d_neg (d_abs e))) (d_add (sm_net_exposure r) e)"
    by (rule d_add_mono_finite [OF r(7) d_neg_le_abs [OF e(2)]]) (use e in simp_all)
  have "\<not> is_nan (d_add g (d_abs e))" using nn unfolding g'_def by (blast dest: d_le_not_nan)
  then have dn': "d_le (d_neg g') (d_add (sm_net_exposure r) e)"
    unfolding g'_def using dn by (simp add: d_neg_add_order)
  have "proper g'" "g' \<noteq> MinusZero"
    unfolding g'_def by (simp_all add: d_add_not_minus_zero [OF r(3,4) abs])
  moreover have "d_le l g'" by (rule d_le_trans [OF r(5) grow])
  ultimately show ?thesis
    using r(1) abs nn top up dn' e(1) assms(3)
    by (simp add: exposures_bounded_def add_exposure_def Let_def e_def [symmetric] g_def [symmetric]
        g'_def [symmetric] l_def [symmetric])
qed

section \<open>The property\<close>

text \<open>The figures the limits are compared with are consistent with each other. For every list of
  positions whose exposures are finite, the net exposure lies between the gross exposure and its
  negative and the largest position is at most the gross exposure, rounding included; the
  concentration is a percentage between 0 and 100. A limit on the net exposure above the one on
  the gross exposure, or on the concentration above 100, can therefore never be what breaches.\<close>

theorem exposure_bounds:
  assumes "\<forall>p \<in> set ps. is_finite (d_mul (ps_net_quantity p) (ps_mark_price p))"
  defines "r \<equiv> summarize ps"
  shows "d_le (d_abs (sm_net_exposure r)) (sm_gross_exposure r) \<and>
    d_le (sm_largest_position_exposure r) (sm_gross_exposure r) \<and>
    d_le (Number 0) (sm_largest_concentration_percent r) \<and>
    d_le (sm_largest_concentration_percent r) (Number 100)"
proof -
  define r0 where "r0 = \<lparr>sm_gross_exposure = Number 0, sm_net_exposure = Number 0, sm_realized_pnl = Number 0,
      sm_unrealized_pnl = Number 0, sm_total_pnl = Number 0, sm_position_count = length ps,
      sm_largest_position_symbol = [], sm_largest_position_exposure = Number 0,
      sm_largest_concentration_percent = Number 0\<rparr>"
  have keep: "sm_largest_concentration_percent (add_exposure p s) = sm_largest_concentration_percent s"
    for p s by (simp add: add_exposure_def Let_def)
  have "exposures_bounded (fold add_exposure qs s) \<and> is_finite (sm_largest_position_exposure (fold add_exposure qs s)) \<and>
      sm_largest_concentration_percent (fold add_exposure qs s) = sm_largest_concentration_percent s"
    if "set qs \<subseteq> set ps" "exposures_bounded s" "is_finite (sm_largest_position_exposure s)" for qs s
    using that
  proof (induction qs arbitrary: s)
    case (Cons p qs)
    with add_exposure_bounded [of s p] assms(1) keep show ?case by simp
  qed simp
  moreover have "exposures_bounded r0" "is_finite (sm_largest_position_exposure r0)"
    by (simp_all add: r0_def exposures_bounded_def round_double_0 d_le_def)
  ultimately obtain s where s: "s = fold add_exposure ps r0" "exposures_bounded s"
      "is_finite (sm_largest_position_exposure s)" "sm_largest_concentration_percent s = Number 0"
    by (metis (no_types) order_refl r0_def portfolio_summary.select_convs(9))
  have "nonneg (round_double False (1 / 10 ^ 12))"
    using round_double_mono [of 0 "1 / 10 ^ 12" False False] by (simp add: round_double_0)
  then have "d_less (Number 0) (sm_gross_exposure s)"
    if "d_less (round_double False (1 / 10 ^ 12)) (sm_gross_exposure s)"
    using that by (blast intro: d_le_less_trans)
  then show ?thesis
    using s(2-4) share_bounds [of "sm_largest_position_exposure s" "sm_gross_exposure s"]
    by (simp add: r_def summarize_def r0_def [symmetric] s(1) [symmetric] Let_def exposures_bounded_def d_abs_le)
      (simp add: d_le_def)
qed

lemma exposure_bounds_witness:
  "d_le (sm_largest_concentration_percent (summarize [position ''btcusd'' (position_calls sample_calls)])) (Number 100)"
  using exposure_bounds [of "[position ''btcusd'' (position_calls sample_calls)]"]
  by (simp add: sample_position d_mul_def)

text \<open>A limit that is not a number passes the check of \<open>set_limits\<close> and switches its test off.\<close>

lemma nan_limit_accepted:
  "set_limits \<lparr>pl_max_gross_exposure = NaN, pl_max_net_exposure = NaN, pl_max_concentration_percent = NaN,
     pl_max_daily_loss = NaN\<rparr> l = (Inr (), \<lparr>pl_max_gross_exposure = NaN, pl_max_net_exposure = NaN,
     pl_max_concentration_percent = NaN, pl_max_daily_loss = NaN\<rparr>) \<and>
   \<not> pt_breached (evaluate_portfolio \<lparr>pl_max_gross_exposure = NaN, pl_max_net_exposure = NaN,
     pl_max_concentration_percent = NaN, pl_max_daily_loss = NaN\<rparr> ps)"
  by (simp add: set_limits_def evaluate_portfolio_def Let_def)

text \<open>With a limit on the concentration below 100 percent, as the default one, a portfolio of a single
  marked position always breaches: its first fill halts every symbol.\<close>

lemma single_position_halts:
  "pt_breached (evaluate_portfolio default_portfolio_limits [position ''btcusd'' (position_calls sample_calls)])"
proof -
  have "d_less position_epsilon (Number 40)" by (rule epsilon_decides) simp
  then show ?thesis
    by (simp add: evaluate_portfolio_def summarize_def add_exposure_def default_portfolio_limits_def
        sample_position d_mul_def d_div_def round_double_0 Let_def position_epsilon_def)
qed

end
