(* ===== verification/Sqlite.thy ===== *)
theory Sqlite
  imports Main
begin

text \<open>
  What the stores have in common in their use of SQLite, a library the program only calls: a
  statement that fails throws, and text is bound as a C string.
\<close>

datatype store_error = SqliteFailure string

definition check_sqlite :: "string \<Rightarrow> bool \<times> 'db \<Rightarrow> (store_error + unit) \<times> 'db" where
  "check_sqlite operation r =
     (if fst r then (Inr (), snd r) else (Inl (SqliteFailure operation), snd r))"

text \<open>Text is bound with \<open>c_str()\<close> and no length: up to the first NUL.\<close>

definition c_string :: "string \<Rightarrow> string" where
  "c_string s = takeWhile (\<lambda>c. c \<noteq> CHR 0x00) s"

definition no_nul :: "string \<Rightarrow> bool" where
  "no_nul s \<longleftrightarrow> CHR 0x00 \<notin> set s"

lemma c_string_id: "no_nul s \<Longrightarrow> c_string s = s"
  by (auto simp: c_string_def no_nul_def takeWhile_eq_all_conv)

end
