(* ===== verification/Oms_Store.thy ===== *)
theory Oms_Store
  imports Oms_Calls Sqlite
begin

text \<open>
  The store of the order management system (include/minimatch/oms\_store.hpp, src/oms\_store.cpp) and
  the callback through which the HTTP service keeps it up to date (apps/api.cpp).

  SQLite is not part of the program: the statements the store sends are the parameter
  \<open>'db oms_database\<close>, one function for each SQL statement with the values bound to it, and a flag
  that is False where the library reports an error (the code throws). \<open>behaves\<close> says what the
  documentation of SQLite promises of the upserts, the inserts and the ordered selects, through a
  view of the database as three tables. The columns of a row are those of the schema; a double that
  is NaN (which SQLite stores as NULL) or a negative zero is left open.
\<close>

section \<open>Rows\<close>

record parent_row =
  pw_parent_id :: u64
  pw_symbol :: string
  pw_side :: string
  pw_algorithm :: string
  pw_quantity :: double
  pw_filled_quantity :: double
  pw_remaining_quantity :: double
  pw_status :: string
  pw_created_timestamp_ns :: u64
  pw_updated_timestamp_ns :: u64

record child_row =
  cw_child_id :: u64
  cw_parent_id :: u64
  cw_venue :: string
  cw_price :: double
  cw_quantity :: double
  cw_filled_quantity :: double
  cw_remaining_quantity :: double
  cw_status :: string
  cw_created_timestamp_ns :: u64
  cw_updated_timestamp_ns :: u64

record fill_row =
  fw_execution_report_id :: u64
  fw_parent_id :: u64
  fw_child_id :: u64
  fw_venue :: string
  fw_price :: double
  fw_quantity :: double
  fw_notional :: double
  fw_fee :: double
  fw_timestamp_ns :: u64

datatype transaction_statement = BeginImmediate | CommitTransaction | RollbackTransaction

record 'db oms_database =
  exec_parent :: "parent_row \<Rightarrow> 'db \<Rightarrow> bool \<times> 'db"
  exec_child :: "child_row \<Rightarrow> 'db \<Rightarrow> bool \<times> 'db"
  exec_fill :: "fill_row \<Rightarrow> 'db \<Rightarrow> bool \<times> 'db"
  exec_transaction :: "transaction_statement \<Rightarrow> 'db \<Rightarrow> bool \<times> 'db"
  select_parents :: "'db \<Rightarrow> parent_row list"
  select_children :: "'db \<Rightarrow> child_row list"
  select_fills :: "'db \<Rightarrow> fill_row list"

definition parse_side :: "string \<Rightarrow> route_side" where
  "parse_side v = (if v = ''SELL'' then Sell else Buy)"

definition parse_algorithm :: "string \<Rightarrow> execution_algorithm" where
  "parse_algorithm v =
     (if v = ''TWAP'' then TWAP else if v = ''VWAP'' then VWAP else if v = ''POV'' then POV
      else if v = ''ICEBERG'' then Iceberg else Market)"

definition parse_status :: "string \<Rightarrow> order_status" where
  "parse_status v =
     (if v = ''WORKING'' then Working else if v = ''PARTIALLY_FILLED'' then PartiallyFilled
      else if v = ''FILLED'' then Filled else if v = ''CANCELLED'' then Cancelled
      else if v = ''REJECTED'' then Rejected else New)"

definition algorithm_string :: "execution_algorithm \<Rightarrow> string" where
  "algorithm_string a =
     (case a of TWAP \<Rightarrow> ''TWAP'' | VWAP \<Rightarrow> ''VWAP'' | POV \<Rightarrow> ''POV'' | Iceberg \<Rightarrow> ''ICEBERG''
      | Market \<Rightarrow> ''MARKET'')"

definition parent_row_of :: "parent_order \<Rightarrow> parent_row" where
  "parent_row_of p =
     \<lparr>pw_parent_id = po_id p, pw_symbol = c_string (po_symbol p),
      pw_side = (if po_side p = Buy then ''BUY'' else ''SELL''),
      pw_algorithm = algorithm_string (po_algorithm p), pw_quantity = po_quantity p,
      pw_filled_quantity = po_filled_quantity p, pw_remaining_quantity = po_remaining_quantity p,
      pw_status = order_status_string (po_status p),
      pw_created_timestamp_ns = po_created_timestamp_ns p,
      pw_updated_timestamp_ns = po_updated_timestamp_ns p\<rparr>"

definition child_row_of :: "child_order \<Rightarrow> child_row" where
  "child_row_of c =
     \<lparr>cw_child_id = co_id c, cw_parent_id = co_parent_id c, cw_venue = c_string (co_venue c),
      cw_price = co_price c, cw_quantity = co_quantity c, cw_filled_quantity = co_filled_quantity c,
      cw_remaining_quantity = co_remaining_quantity c, cw_status = order_status_string (co_status c),
      cw_created_timestamp_ns = co_created_timestamp_ns c,
      cw_updated_timestamp_ns = co_updated_timestamp_ns c\<rparr>"

definition fill_row_of :: "oms_execution_report \<Rightarrow> fill_row" where
  "fill_row_of r =
     \<lparr>fw_execution_report_id = xr_execution_report_id r, fw_parent_id = xr_parent_id r,
      fw_child_id = xr_child_id r, fw_venue = c_string (xr_venue r), fw_price = xr_price r,
      fw_quantity = xr_quantity r, fw_notional = xr_notional r, fw_fee = xr_fee r,
      fw_timestamp_ns = xr_timestamp_ns r\<rparr>"

definition parent_of_row :: "parent_row \<Rightarrow> parent_order" where
  "parent_of_row w =
     \<lparr>po_id = pw_parent_id w, po_symbol = pw_symbol w, po_side = parse_side (pw_side w),
      po_algorithm = parse_algorithm (pw_algorithm w), po_quantity = pw_quantity w,
      po_filled_quantity = pw_filled_quantity w, po_remaining_quantity = pw_remaining_quantity w,
      po_status = parse_status (pw_status w), po_created_timestamp_ns = pw_created_timestamp_ns w,
      po_updated_timestamp_ns = pw_updated_timestamp_ns w, po_child_ids = []\<rparr>"

definition child_of_row :: "child_row \<Rightarrow> child_order" where
  "child_of_row w =
     \<lparr>co_id = cw_child_id w, co_parent_id = cw_parent_id w, co_venue = cw_venue w,
      co_price = cw_price w, co_quantity = cw_quantity w, co_filled_quantity = cw_filled_quantity w,
      co_remaining_quantity = cw_remaining_quantity w, co_status = parse_status (cw_status w),
      co_created_timestamp_ns = cw_created_timestamp_ns w,
      co_updated_timestamp_ns = cw_updated_timestamp_ns w\<rparr>"

definition fill_of_row :: "fill_row \<Rightarrow> oms_execution_report" where
  "fill_of_row w =
     \<lparr>xr_execution_report_id = fw_execution_report_id w, xr_parent_id = fw_parent_id w,
      xr_child_id = fw_child_id w, xr_venue = fw_venue w, xr_price = fw_price w,
      xr_quantity = fw_quantity w, xr_notional = fw_notional w, xr_fee = fw_fee w,
      xr_timestamp_ns = fw_timestamp_ns w\<rparr>"

section \<open>Saving\<close>

definition save_parent :: "'db oms_database \<Rightarrow> parent_order \<Rightarrow> 'db \<Rightarrow> (store_error + unit) \<times> 'db" where
  "save_parent ops p d = check_sqlite ''save OMS parent'' (exec_parent ops (parent_row_of p) d)"

definition save_child :: "'db oms_database \<Rightarrow> child_order \<Rightarrow> 'db \<Rightarrow> (store_error + unit) \<times> 'db" where
  "save_child ops c d = check_sqlite ''save OMS child'' (exec_child ops (child_row_of c) d)"

definition save_fill ::
  "'db oms_database \<Rightarrow> oms_execution_report \<Rightarrow> 'db \<Rightarrow> (store_error + unit) \<times> 'db"
where
  "save_fill ops r d = check_sqlite ''save OMS fill'' (exec_fill ops (fill_row_of r) d)"

text \<open>Statements one after the other; an exception ends them.\<close>

fun save_each ::
  "('a \<Rightarrow> 'db \<Rightarrow> (store_error + unit) \<times> 'db) \<Rightarrow> 'a list \<Rightarrow> 'db \<Rightarrow> (store_error + unit) \<times> 'db"
where
  "save_each save [] d = (Inr (), d)"
| "save_each save (x # xs) d =
     (case save x d of (Inl e, d') \<Rightarrow> (Inl e, d') | (Inr u, d') \<Rightarrow> save_each save xs d')"

definition and_then ::
  "('db \<Rightarrow> (store_error + unit) \<times> 'db) \<Rightarrow> ('db \<Rightarrow> (store_error + unit) \<times> 'db) \<Rightarrow> 'db
    \<Rightarrow> (store_error + unit) \<times> 'db"
where
  "and_then f g d = (case f d of (Inl e, d') \<Rightarrow> (Inl e, d') | (Inr u, d') \<Rightarrow> g d')"

definition execute ::
  "'db oms_database \<Rightarrow> transaction_statement \<Rightarrow> 'db \<Rightarrow> (store_error + unit) \<times> 'db"
where
  "execute ops statement d =
     check_sqlite ''execute OMS SQLite statement'' (exec_transaction ops statement d)"

text \<open>A transaction is rolled back and the exception rethrown when anything after its start throws;
  a failure of the rollback itself is swallowed.\<close>

definition in_transaction ::
  "'db oms_database \<Rightarrow> ('db \<Rightarrow> (store_error + unit) \<times> 'db) \<Rightarrow> 'db \<Rightarrow> (store_error + unit) \<times> 'db"
where
  "in_transaction ops body d =
     (case execute ops BeginImmediate d of
        (Inl e, d1) \<Rightarrow> (Inl e, d1)
      | (Inr u, d1) \<Rightarrow>
          (case and_then body (execute ops CommitTransaction) d1 of
             (Inl e, d2) \<Rightarrow> (Inl e, snd (execute ops RollbackTransaction d2))
           | (Inr v, d2) \<Rightarrow> (Inr (), d2)))"

definition save_parent_and_children ::
  "'db oms_database \<Rightarrow> parent_order \<Rightarrow> child_order list \<Rightarrow> 'db \<Rightarrow> (store_error + unit) \<times> 'db"
where
  "save_parent_and_children ops p cs =
     in_transaction ops (and_then (save_parent ops p) (save_each (save_child ops) cs))"

definition save_snapshot :: "'db oms_database \<Rightarrow> oms \<Rightarrow> 'db \<Rightarrow> (store_error + unit) \<times> 'db" where
  "save_snapshot ops s =
     in_transaction ops (save_each (\<lambda>p.
       and_then (save_parent ops p)
         (and_then (save_each (save_child ops) (children_for_parent (po_id p) s))
           (save_each (save_fill ops) (fills_for_parent (po_id p) s)))) (parents s))"

section \<open>Loading\<close>

record oms_recovery_state =
  rv_parents :: "parent_order list"
  rv_children :: "child_order list"
  rv_fills :: "oms_execution_report list"
  rv_next_parent_id :: u64
  rv_next_child_id :: u64
  rv_next_execution_report_id :: u64

fun attach_child :: "child_order \<Rightarrow> parent_order list \<Rightarrow> parent_order list" where
  "attach_child c [] = []"
| "attach_child c (p # ps) =
     (if po_id p = co_parent_id c then p\<lparr>po_child_ids := po_child_ids p @ [co_id c]\<rparr> # ps
      else p # attach_child c ps)"

definition load_state :: "'db oms_database \<Rightarrow> 'db \<Rightarrow> oms_recovery_state" where
  "load_state ops d =
     (let ps = map parent_of_row (select_parents ops d);
          cs = map child_of_row (select_children ops d);
          fs = map fill_of_row (select_fills ops d)
      in \<lparr>rv_parents = fold attach_child cs ps, rv_children = cs, rv_fills = fs,
          rv_next_parent_id = foldl (\<lambda>n p. max n (po_id p + 1)) 1 ps,
          rv_next_child_id = foldl (\<lambda>n c. max n (co_id c + 1)) 1 cs,
          rv_next_execution_report_id = foldl (\<lambda>n r. max n (xr_execution_report_id r + 1)) 1 fs\<rparr>)"

section \<open>The callback of the service\<close>

text \<open>The parts of the mutation callback that write the store; they run when the operation has made
  all its changes, so the system they read is the one it leaves.\<close>

definition persist_event ::
  "'db oms_database \<Rightarrow> oms \<Rightarrow> mutation_event \<Rightarrow> 'db \<Rightarrow> (store_error + unit) \<times> 'db"
where
  "persist_event ops s event =
     and_then (save_each (save_parent ops) (case me_parent event of None \<Rightarrow> [] | Some p \<Rightarrow> [p]))
       (and_then (save_each (save_child ops) (case me_child event of None \<Rightarrow> [] | Some c \<Rightarrow> [c]))
         (and_then (save_each (save_fill ops) (case me_fill event of None \<Rightarrow> [] | Some r \<Rightarrow> [r]))
           (save_each (save_child ops)
             (case me_parent event of
                Some p \<Rightarrow> if me_type event = ParentUpdated then children_for_parent (po_id p) s else []
              | None \<Rightarrow> []))))"

text \<open>A call on the system with the callback set: what it has notified is written.\<close>

definition persisted_call ::
  "'db oms_database \<Rightarrow> oms_call \<Rightarrow> oms \<times> 'db \<Rightarrow> (store_error + unit) \<times> oms \<times> 'db"
where
  "persisted_call ops x sd =
     (let s = fst sd; t = call_oms x s;
          (res, d) = save_each (persist_event ops t) (drop (length (oms_events s)) (oms_events t)) (snd sd)
      in (res, t, d))"

fun persisted_calls ::
  "'db oms_database \<Rightarrow> oms_call list \<Rightarrow> oms \<times> 'db \<Rightarrow> (oms \<times> 'db) option"
where
  "persisted_calls ops [] sd = Some sd"
| "persisted_calls ops (x # xs) sd =
     (case persisted_call ops x sd of
        (Inl e, sd') \<Rightarrow> None
      | (Inr u, sd') \<Rightarrow> persisted_calls ops xs sd')"

end
