(* ===== verification/Oms_Recovery.thy ===== *)
theory Oms_Recovery
  imports Oms_Store
begin

text \<open>
  Recovery: what the callback has written is the whole state of the system. The proof follows the
  events, one for each call that changes anything, and reads the tables back.
\<close>

section \<open>What an event says of a call\<close>

definition event_step :: "oms \<Rightarrow> mutation_event \<Rightarrow> oms \<Rightarrow> bool" where
  "event_step s e t \<longleftrightarrow>
     (\<exists>p. me_parent e = Some p \<and> oms_parents t = hm_update (po_id p) p (oms_parents s) \<and>
       (case me_child e of
          Some c \<Rightarrow> me_type e \<noteq> ParentUpdated \<and> oms_children t = hm_update (co_id c) c (oms_children s)
        | None \<Rightarrow> if me_type e = ParentUpdated
            then \<exists>ts. oms_children t = cancelled_kids (po_id p) ts (oms_children s)
            else oms_children t = oms_children s)) \<and>
     oms_reports t = oms_reports s @ (case me_fill e of Some r \<Rightarrow> [r] | None \<Rightarrow> []) \<and>
     (\<forall>r. me_fill e = Some r \<longrightarrow> map_option po_id (me_parent e) = Some (xr_parent_id r)) \<and>
     oms_callback_set t = oms_callback_set s \<and> oms_events t = oms_events s"

definition reported :: "oms \<Rightarrow> oms \<Rightarrow> bool" where
  "reported s t \<longleftrightarrow> t = s \<or> (\<exists>e t0. event_step s e t0 \<and> t = notify_mutation e t0)"

lemma hm_update_new: "map_of m k = None \<Longrightarrow> hm_update k v m = m @ [(k, v)]"
  by (induction m) (auto split: if_splits)

lemma publish_reported:
  assumes inv: "oms_inv s" and u: "child_update c c' rs s"
    and fill: "rs = (case fill of Some r \<Rightarrow> [r] | None \<Rightarrow> [])" and "ty \<noteq> ParentUpdated"
  shows "reported s (snd (publish_child ty c' fill ts res (advanced c' rs n s)))"
proof -
  let ?pid = "co_parent_id c"
  have same: "co_parent_id c' = ?pid" "co_id c' = co_id c"
    using u by (simp_all add: child_update_def same_child_def)
  obtain p where p: "map_of (oms_parents s) ?pid = Some p" "parent_ok (oms_children s) ?pid p"
    and T: "refresh_parent ?pid ts (advanced c' rs n s) =
      (advanced c' rs n s)\<lparr>oms_parents := hm_update ?pid
        (settled ts (kids ?pid (hm_update (co_id c) c' (oms_children s))) p) (oms_parents s)\<rparr>"
    using refresh_advanced [OF inv u, of ts n] by blast
  define p' where "p' = settled ts (kids ?pid (hm_update (co_id c) c' (oms_children s))) p"
  have id: "po_id p' = ?pid" using p(2) by (simp add: p'_def parent_ok_def)
  define t where "t = (advanced c' rs n s)\<lparr>oms_parents := hm_update ?pid p' (oms_parents s)\<rparr>"
  have "snd (publish_child ty c' fill ts res (advanced c' rs n s)) =
      notify_mutation \<lparr>me_type = ty, me_parent = Some p', me_child = Some c', me_fill = fill\<rparr> t"
    unfolding publish_child_def Let_def same T p'_def [symmetric] t_def [symmetric]
    by (simp add: t_def)
  moreover have "event_step s \<lparr>me_type = ty, me_parent = Some p', me_child = Some c', me_fill = fill\<rparr> t"
    using assms(4) fill u
    by (auto simp: event_step_def id t_def advanced_def child_update_def report_ok_def)
  ultimately show ?thesis unfolding reported_def by blast
qed

lemma status_change_reported:
  assumes inv: "oms_inv s" and c: "map_of (oms_children s) k = Some c" "open_child c" and st: "st \<noteq> Filled"
  shows "reported s (snd (publish_child ChildUpdated (c\<lparr>co_status := st, co_updated_timestamp_ns := ts\<rparr>)
    None ts True (store_child (c\<lparr>co_status := st, co_updated_timestamp_ns := ts\<rparr>) k s)))"
proof -
  have k: "co_id c = k" using oms_invD(4) [OF inv c(1)] by (simp add: child_ok_def)
  show ?thesis
    unfolding store_child_advanced [of "c\<lparr>co_status := st, co_updated_timestamp_ns := ts\<rparr>" k s, simplified, OF k]
    by (rule publish_reported [OF inv child_status_update [OF inv c st, of ts]]) simp_all
qed

lemma end_child_reported: "oms_inv s \<Longrightarrow> st \<noteq> Filled \<Longrightarrow> reported s (snd (end_child st k ts s))"
  using status_change_reported [of s k _ st ts]
  by (cases "map_of (oms_children s) k") (auto simp: end_child_def Let_def reported_def)

lemma mark_child_working_reported:
  assumes "oms_inv s"
  shows "reported s (snd (mark_child_working k ts s))"
proof (cases "\<exists>c. map_of (oms_children s) k = Some c \<and> open_child c")
  case True
  then obtain c where c: "map_of (oms_children s) k = Some c" "open_child c" by blast
  let ?st = "if d_less oms_epsilon (co_filled_quantity c) then PartiallyFilled else Working"
  have "?st \<noteq> Filled" by simp
  from status_change_reported [OF assms c this, of ts] c show ?thesis
    by (simp add: mark_child_working_def Let_def del: if_split)
qed (auto simp: mark_child_working_def reported_def split: option.split)

lemma record_fill_reported:
  assumes inv: "oms_inv s" and room: "oms_room 1 s"
  shows "reported s (snd (record_fill k price q fee ts s))"
proof (cases "\<exists>c. map_of (oms_children s) k = Some c \<and> fill_accepted c price q fee")
  case True
  then obtain c where c: "map_of (oms_children s) k = Some c" "fill_accepted c price q fee" by blast
  have k: "co_id c = k" using oms_invD(4) [OF inv c(1)] by (simp add: child_ok_def)
  define r where "r = fill_report (oms_next_report_id s) c price q fee ts"
  have "(store_child (filled_child c q ts) k s)\<lparr>oms_next_report_id := oms_next_report_id s + 1,
          oms_reports := oms_reports s @ [r]\<rparr> =
      advanced (filled_child c q ts) [r] (oms_next_report_id s + 1) s"
    using k filled_child_simps(1) [of c q ts] by (simp add: store_child_def advanced_def same_child_def)
  then show ?thesis
    unfolding record_fill_eq [OF c] Let_def r_def [symmetric]
    using publish_reported [OF inv fill_update [OF inv c room, of ts "oms_next_report_id s", folded r_def],
        of "Some r" FillRecorded] by simp
next
  case False
  then have "snd (record_fill k price q fee ts s) = s"
    by (intro record_fill_refused_state) (metis not_Some_eq)
  then show ?thesis by (simp add: reported_def)
qed

lemma create_parent_reported:
  assumes inv: "oms_inv s" and room: "oms_room 1 s"
  shows "reported s (snd (create_parent rq ts s))"
proof (cases "pr_symbol rq \<noteq> [] \<and> positive (pr_quantity rq)")
  case True
  let ?n = "oms_next_parent_id s"
  let ?p = "new_parent ?n rq ts"
  let ?e = "\<lparr>me_type = ParentCreated, me_parent = Some ?p, me_child = None, me_fill = None\<rparr>"
  define t where "t = s\<lparr>oms_next_parent_id := ?n + 1, oms_parents := oms_parents s @ [(?n, ?p)]\<rparr>"
  have old: "numbered ?n (oms_parents s)" "Suc (length (oms_parents s)) < 2 ^ 64"
    using inv room unfolding oms_inv_def oms_room_def by (blast, simp)
  note nx = numbered_next [OF old]
  have "create_parent rq ts s = (Inr ?n, notify_mutation ?e t)"
    using True map_of_snoc [OF nx(1), of ?p]
    by (simp add: create_parent_def validate_positive_None [THEN iffD2] Let_def new_parent_def [symmetric]
        nx(2) t_def)
  moreover have "event_step s ?e t"
    by (simp add: event_step_def t_def hm_update_new [OF nx(1)]) (simp add: new_parent_def hm_update_new [OF nx(1)])
  ultimately show ?thesis unfolding reported_def by auto
next
  case False
  then show ?thesis using create_parent_refused [of rq ts s] by (simp add: reported_def)
qed

lemma create_child_reported:
  assumes inv: "oms_inv s" and room: "oms_room 1 s"
  shows "reported s (snd (create_child rq s))"
proof (cases "\<exists>p. map_of (oms_parents s) (cr_parent_id rq) = Some p \<and> child_accepted p rq")
  case True
  then obtain p where p: "map_of (oms_parents s) (cr_parent_id rq) = Some p" "child_accepted p rq" by blast
  have old: "numbered (oms_next_child_id s) (oms_children s)" "Suc (length (oms_children s)) < 2 ^ 64"
    using inv room unfolding oms_inv_def oms_room_def by (blast, simp)
  note nx = numbered_next [OF old]
  have id: "po_id p = cr_parent_id rq" using oms_invD(3) [OF inv p(1)] by (simp add: parent_ok_def)
  let ?n = "oms_next_child_id s"
  let ?p = "adopted ?n (cr_created_timestamp_ns rq) p" and ?c = "new_child ?n rq"
  have "event_step s \<lparr>me_type = ChildCreated, me_parent = Some ?p, me_child = Some ?c, me_fill = None\<rparr>
      (s\<lparr>oms_next_child_id := ?n + 1, oms_children := oms_children s @ [(?n, ?c)],
         oms_parents := hm_update (cr_parent_id rq) ?p (oms_parents s)\<rparr>)"
    by (simp add: event_step_def hm_update_new [OF nx(1)] id)
  then show ?thesis
    unfolding create_child_eq [OF p nx(1)] Let_def snd_conv reported_def by blast
next
  case False
  then have "snd (create_child rq s) = s" by (intro create_child_refused) (metis not_Some_eq)
  then show ?thesis by (simp add: reported_def)
qed

lemma cancel_parent_reported:
  assumes inv: "oms_inv s"
  shows "reported s (snd (cancel_parent pid ts s))"
proof (cases "\<exists>p. map_of (oms_parents s) pid = Some p \<and> \<not> terminal_status (po_status p)")
  case True
  then obtain p where p: "map_of (oms_parents s) pid = Some p" "\<not> terminal_status (po_status p)" by blast
  have id: "po_id p = pid" using oms_invD(3) [OF inv p(1)] by (simp add: parent_ok_def)
  let ?p = "p\<lparr>po_status := Cancelled, po_updated_timestamp_ns := ts\<rparr>"
  let ?e = "\<lparr>me_type = ParentUpdated, me_parent = Some ?p, me_child = None, me_fill = None\<rparr>"
  let ?t = "s\<lparr>oms_children := cancelled_kids pid ts (oms_children s),
    oms_parents := hm_update pid ?p (oms_parents s)\<rparr>"
  have "event_step s ?e ?t" by (simp add: event_step_def id) blast
  moreover have "snd (cancel_parent pid ts s) = notify_mutation ?e ?t"
    using p by (simp add: cancel_parent_def cancel_children_kids [OF inv p(1)] Let_def)
  ultimately show ?thesis unfolding reported_def by blast
next
  case False
  then have "cancel_parent pid ts s = (False, s)"
    by (auto simp: cancel_parent_def split: option.split)
  then show ?thesis by (simp add: reported_def)
qed

lemma call_reported: "oms_inv s \<Longrightarrow> oms_room 1 s \<Longrightarrow> reported s (call_oms x s)"
  by (cases x) (simp_all add: create_parent_reported create_child_reported mark_child_working_reported
      record_fill_reported cancel_child_def reject_child_def end_child_reported cancel_parent_reported)

section \<open>What is relied on of the database\<close>

record tables =
  tb_parents :: "(u64 \<times> parent_row) list"
  tb_children :: "(u64 \<times> child_row) list"
  tb_fills :: "(u64 \<times> fill_row) list"

definition plain :: "double \<Rightarrow> bool" where
  "plain x \<longleftrightarrow> \<not> is_nan x \<and> x \<noteq> MinusZero"

definition plain_parent :: "parent_row \<Rightarrow> bool" where
  "plain_parent w \<longleftrightarrow> plain (pw_quantity w) \<and> plain (pw_filled_quantity w) \<and> plain (pw_remaining_quantity w)"

definition plain_child :: "child_row \<Rightarrow> bool" where
  "plain_child w \<longleftrightarrow> plain (cw_price w) \<and> plain (cw_quantity w) \<and> plain (cw_filled_quantity w) \<and>
     plain (cw_remaining_quantity w)"

definition plain_fill :: "fill_row \<Rightarrow> bool" where
  "plain_fill w \<longleftrightarrow> plain (fw_price w) \<and> plain (fw_quantity w) \<and> plain (fw_notional w) \<and> plain (fw_fee w)"

text \<open>\<open>INSERT ... ON CONFLICT DO UPDATE\<close>: the update leaves the time of creation alone.\<close>

definition upsert_parent :: "parent_row \<Rightarrow> (u64 \<times> parent_row) list \<Rightarrow> (u64 \<times> parent_row) list" where
  "upsert_parent w m = hm_update (pw_parent_id w)
     (case map_of m (pw_parent_id w) of None \<Rightarrow> w
      | Some v \<Rightarrow> w\<lparr>pw_created_timestamp_ns := pw_created_timestamp_ns v\<rparr>) m"

definition upsert_child :: "child_row \<Rightarrow> (u64 \<times> child_row) list \<Rightarrow> (u64 \<times> child_row) list" where
  "upsert_child w m = hm_update (cw_child_id w)
     (case map_of m (cw_child_id w) of None \<Rightarrow> w
      | Some v \<Rightarrow> w\<lparr>cw_created_timestamp_ns := cw_created_timestamp_ns v\<rparr>) m"

text \<open>The ids are bound as signed integers, by which the selects order the rows.\<close>

definition behaves :: "'db oms_database \<Rightarrow> ('db \<Rightarrow> tables) \<Rightarrow> bool" where
  "behaves ops view \<longleftrightarrow>
     (\<forall>w d d'. plain_parent w \<and> exec_parent ops w d = (True, d') \<longrightarrow>
        view d' = (view d)\<lparr>tb_parents := upsert_parent w (tb_parents (view d))\<rparr>) \<and>
     (\<forall>w d d'. plain_child w \<and> exec_child ops w d = (True, d') \<longrightarrow>
        view d' = (view d)\<lparr>tb_children := upsert_child w (tb_children (view d))\<rparr>) \<and>
     (\<forall>w d d'. plain_fill w \<and> exec_fill ops w d = (True, d') \<longrightarrow>
        view d' = (view d)\<lparr>tb_fills := hm_emplace (fw_execution_report_id w) w (tb_fills (view d))\<rparr>) \<and>
     (\<forall>d. select_parents ops d = sort_key (\<lambda>w. sint (pw_parent_id w)) (map snd (tb_parents (view d)))) \<and>
     (\<forall>d. select_children ops d = sort_key (\<lambda>w. sint (cw_child_id w)) (map snd (tb_children (view d)))) \<and>
     (\<forall>d. select_fills ops d =
        sort_key (\<lambda>w. sint (fw_execution_report_id w)) (map snd (tb_fills (view d))))"

text \<open>The tables hold the rows of the system.\<close>

definition rows_of :: "('r \<Rightarrow> 'w) \<Rightarrow> (u64 \<times> 'r) list \<Rightarrow> (u64 \<times> 'w) list" where
  "rows_of f m = map (\<lambda>(k, r). (k, f r)) m"

definition mirrors :: "oms \<Rightarrow> tables \<Rightarrow> bool" where
  "mirrors s v \<longleftrightarrow> tb_parents v = rows_of parent_row_of (oms_parents s) \<and>
     tb_children v = rows_of child_row_of (oms_children s) \<and>
     tb_fills v = rows_of fill_row_of (report_map (oms_reports s))"

lemma map_of_rows: "map_of (rows_of f m) k = map_option f (map_of m k)"
  by (induction m) (auto simp: rows_of_def)

lemma hm_update_rows: "hm_update k (f r) (rows_of f m) = rows_of f (hm_update k r m)"
  by (induction m) (auto simp: rows_of_def)

lemma upsert_parent_rows:
  assumes "\<And>q. map_of m (po_id p) = Some q \<Longrightarrow> po_created_timestamp_ns q = po_created_timestamp_ns p"
  shows "upsert_parent (parent_row_of p) (rows_of parent_row_of m) = rows_of parent_row_of (hm_update (po_id p) p m)"
proof -
  have id: "pw_parent_id (parent_row_of p) = po_id p" by (simp add: parent_row_of_def)
  have "(parent_row_of p)\<lparr>pw_created_timestamp_ns := pw_created_timestamp_ns (parent_row_of q)\<rparr> = parent_row_of p"
    if "map_of m (po_id p) = Some q" for q
    using assms [OF that] by (simp add: parent_row_of_def)
  then show ?thesis
    unfolding upsert_parent_def id map_of_rows hm_update_rows [symmetric]
    by (cases "map_of m (po_id p)") simp_all
qed

lemma upsert_child_rows:
  assumes "\<And>d. map_of m (co_id c) = Some d \<Longrightarrow> co_created_timestamp_ns d = co_created_timestamp_ns c"
  shows "upsert_child (child_row_of c) (rows_of child_row_of m) = rows_of child_row_of (hm_update (co_id c) c m)"
proof -
  have id: "cw_child_id (child_row_of c) = co_id c" by (simp add: child_row_of_def)
  have "(child_row_of c)\<lparr>cw_created_timestamp_ns := cw_created_timestamp_ns (child_row_of d)\<rparr> = child_row_of c"
    if "map_of m (co_id c) = Some d" for d
    using assms [OF that] by (simp add: child_row_of_def)
  then show ?thesis
    unfolding upsert_child_def id map_of_rows hm_update_rows [symmetric]
    by (cases "map_of m (co_id c)") simp_all
qed

section \<open>The rows of a system that satisfies the invariant\<close>

lemma plain_max: "plain (d_max (Number 0) x)"
  by (cases x) (auto simp: plain_def d_max_def)

lemma plain_positive: "positive x \<Longrightarrow> plain x"
  by (cases x) (auto simp: plain_def positive_def)

lemma plain_sum: "list_all nonneg xs \<Longrightarrow> plain (d_sum xs)"
  using d_sum_nonneg [of xs] d_sum_not_minus_zero [of xs] by (auto simp: plain_def dest: d_le_not_nan)

lemma plain_min: "plain x \<Longrightarrow> plain y \<Longrightarrow> plain (d_min x y)"
  by (simp add: d_min_def)

lemma plain_mul: "positive x \<Longrightarrow> positive y \<Longrightarrow> plain (d_mul x y)"
proof -
  assume "positive x" "positive y"
  then obtain a b where ab: "x = Number a" "y = Number b" "0 < a" "0 < b"
    by (cases x; cases y) (auto simp: positive_def)
  have "round_double s q \<noteq> MinusZero" if "0 < q" for s q
    using that by (simp add: round_double_pos)
  then have "round_double False (a * b) \<noteq> MinusZero" using ab by simp
  then show ?thesis using ab by (simp add: d_mul_def plain_def)
qed

lemma parent_plain:
  assumes "oms_inv s" and "map_of (oms_parents s) k = Some p"
  shows "plain_parent (parent_row_of p)"
  using oms_invD(3) [OF assms] plain_sum [OF kids_nonneg [OF assms(1), of k]]
  by (auto simp: plain_parent_def parent_row_of_def parent_ok_def parent_remaining_def parent_filled_def
      kids_filled_def intro: plain_max plain_min plain_positive)

lemma child_plain:
  assumes "oms_inv s" and "map_of (oms_children s) k = Some c"
  shows "plain_child (child_row_of c)"
  using oms_invD(4) [OF assms] plain_sum [OF fills_nonneg [OF assms(1), of k]]
  by (auto simp: plain_child_def child_row_of_def child_ok_def intro: plain_max plain_positive)

lemma fill_plain:
  assumes "oms_inv s" and "r \<in> set (oms_reports s)" and "xr_fee r \<noteq> MinusZero"
  shows "plain_fill (fill_row_of r)"
  using oms_invD(5) [OF assms(1,2)] assms(3)
  by (auto simp: plain_fill_def fill_row_of_def report_ok_def plain_positive plain_mul)
    (auto simp: plain_def dest: d_le_not_nan)

section \<open>Saving keeps the tables in step\<close>

lemma behavesD:
  assumes "behaves ops view"
  shows "plain_parent w \<Longrightarrow> exec_parent ops w d = (True, d') \<Longrightarrow>
      view d' = (view d)\<lparr>tb_parents := upsert_parent w (tb_parents (view d))\<rparr>"
    and "plain_child v \<Longrightarrow> exec_child ops v d = (True, d') \<Longrightarrow>
      view d' = (view d)\<lparr>tb_children := upsert_child v (tb_children (view d))\<rparr>"
    and "plain_fill x \<Longrightarrow> exec_fill ops x d = (True, d') \<Longrightarrow>
      view d' = (view d)\<lparr>tb_fills := hm_emplace (fw_execution_report_id x) x (tb_fills (view d))\<rparr>"
  using assms unfolding behaves_def by blast+

lemma save_ok:
  assumes "behaves ops view"
  shows "save_parent ops p d = (Inr u, d') \<Longrightarrow> plain_parent (parent_row_of p) \<Longrightarrow>
      view d' = (view d)\<lparr>tb_parents := upsert_parent (parent_row_of p) (tb_parents (view d))\<rparr>"
    and "save_child ops c d = (Inr u, d') \<Longrightarrow> plain_child (child_row_of c) \<Longrightarrow>
      view d' = (view d)\<lparr>tb_children := upsert_child (child_row_of c) (tb_children (view d))\<rparr>"
    and "save_fill ops r d = (Inr u, d') \<Longrightarrow> plain_fill (fill_row_of r) \<Longrightarrow>
      view d' = (view d)\<lparr>tb_fills := hm_emplace (xr_execution_report_id r) (fill_row_of r) (tb_fills (view d))\<rparr>"
  using behavesD [OF assms]
  by (auto simp: save_parent_def save_child_def save_fill_def check_sqlite_def prod_eq_iff fill_row_of_def
      split: if_splits)

lemma save_children_ok:
  assumes "behaves ops view" and "\<forall>c \<in> set cs. plain_child (child_row_of c)"
    and "save_each (save_child ops) cs d = (Inr u, d')"
  shows "view d' = (view d)\<lparr>tb_children := fold (\<lambda>c. upsert_child (child_row_of c)) cs (tb_children (view d))\<rparr>"
  using assms(2,3)
proof (induction cs arbitrary: d)
  case (Cons c cs)
  obtain d1 where d1: "save_child ops c d = (Inr (), d1)" "save_each (save_child ops) cs d1 = (Inr u, d')"
    using Cons.prems(2) by (auto split: prod.splits sum.splits)
  from save_ok(2) [OF assms(1) d1(1)] Cons.IH [OF _ d1(2)] Cons.prems(1) show ?case by simp
qed simp

lemma save_each_single: "save_each f [x] d = f x d"
  by (auto split: prod.split sum.split)

lemma and_then_ok:
  "and_then f g d = (Inr u, d') \<longleftrightarrow> (\<exists>d1. f d = (Inr (), d1) \<and> g d1 = (Inr u, d'))"
  by (auto simp: and_then_def split: prod.splits sum.splits)

lemma fold_upsert_rows:
  "distinct (map co_id cs) \<Longrightarrow>
   (\<And>c d. c \<in> set cs \<Longrightarrow> map_of m (co_id c) = Some d \<Longrightarrow> co_created_timestamp_ns d = co_created_timestamp_ns c) \<Longrightarrow>
   fold (\<lambda>c. upsert_child (child_row_of c)) cs (rows_of child_row_of m) =
     rows_of child_row_of (fold (\<lambda>c. hm_update (co_id c) c) cs m)"
proof (induction cs arbitrary: m)
  case (Cons c cs)
  have "upsert_child (child_row_of c) (rows_of child_row_of m) = rows_of child_row_of (hm_update (co_id c) c m)"
    by (rule upsert_child_rows) (rule Cons.prems(2) [OF list.set_intros(1)])
  moreover have "co_created_timestamp_ns d = co_created_timestamp_ns b"
    if b: "b \<in> set cs" and d: "map_of (hm_update (co_id c) c m) (co_id b) = Some d" for b d
  proof -
    have "co_id b \<noteq> co_id c" using b Cons.prems(1) by (auto simp: image_iff)
    with b d show ?thesis using Cons.prems(2) [of b d] by simp
  qed
  moreover have "distinct (map co_id cs)" using Cons.prems(1) by simp
  ultimately show ?case using Cons.IH [of "hm_update (co_id c) c m"] by (simp only: fold.simps comp_apply)
qed simp

lemma fold_update_map:
  "distinct (map fst m) \<Longrightarrow> distinct (map fst xs) \<Longrightarrow> fst ` set xs \<subseteq> fst ` set m \<Longrightarrow>
   fold (\<lambda>(k, v). hm_update k v) xs m =
     map (\<lambda>(k, v). (k, case map_of xs k of Some w \<Rightarrow> w | None \<Rightarrow> v)) m"
proof (induction xs arbitrary: m)
  case (Cons x xs)
  obtain k w where x: "x = (k, w)" by (cases x)
  obtain v where v: "map_of m k = Some v" using Cons.prems(3) x by (cases "map_of m k") (auto simp: map_of_eq_None_iff)
  let ?m = "map (\<lambda>(i, d). (i, if i = k then w else d)) m"
  have keys: "map fst ?m = map fst m" by auto
  have "k \<notin> fst ` set xs" using Cons.prems(2) x by auto
  then have k: "map_of xs k = None" by (simp add: map_of_eq_None_iff)
  have "fold (\<lambda>(k, v). hm_update k v) (x # xs) m = fold (\<lambda>(k, v). hm_update k v) xs ?m"
    using x by (simp add: hm_update_map [OF Cons.prems(1) v])
  also have "\<dots> = map (\<lambda>(k, v). (k, case map_of xs k of Some w \<Rightarrow> w | None \<Rightarrow> v)) ?m"
  proof (rule Cons.IH)
    show "distinct (map fst ?m)" using Cons.prems(1) by (simp only: keys)
    have "fst ` set ?m = fst ` set m" using arg_cong [OF keys, of set] by (simp only: set_map)
    then show "fst ` set xs \<subseteq> fst ` set ?m" using Cons.prems(3) x by auto
  qed (use Cons.prems(2) in simp)
  also have "\<dots> = map (\<lambda>(k, v). (k, case map_of (x # xs) k of Some w \<Rightarrow> w | None \<Rightarrow> v)) m"
    using k x by auto
  finally show ?case .
qed (simp add: case_prod_unfold)

lemma fold_update_kids:
  assumes inv: "oms_inv s"
  shows "fold (\<lambda>c. hm_update (co_id c) c) (map (ended ts) (kids pid (oms_children s))) (oms_children s) =
    cancelled_kids pid ts (oms_children s)"
proof -
  let ?m = "oms_children s"
  let ?xs = "map (\<lambda>(k, c). (k, ended ts c)) (kid_entries pid ?m)"
  note d = oms_invD(2) [OF inv]
  have key: "co_id c = k" if "(k, c) \<in> set ?m" for k c
    using oms_invD(4) [OF inv map_of_is_SomeI [OF d that]] by (simp add: child_ok_def)
  have sub: "set (kid_entries pid ?m) \<subseteq> set ?m" by (auto simp: kid_entries_def)
  have "fold (\<lambda>c. hm_update (co_id c) c) (map (ended ts) (map snd es)) m' =
      fold (\<lambda>(k, v). hm_update k v) (map (\<lambda>(k, c). (k, ended ts c)) es) m'"
    if "set es \<subseteq> set ?m" for es m'
    using that key by (induction es arbitrary: m') auto
  from this [OF sub] have "fold (\<lambda>c. hm_update (co_id c) c) (map (ended ts) (kids pid ?m)) ?m =
      fold (\<lambda>(k, v). hm_update k v) ?xs ?m"
    by (simp only: kids_def)
  also have "\<dots> = map (\<lambda>(k, v). (k, case map_of ?xs k of Some w \<Rightarrow> w | None \<Rightarrow> v)) ?m"
  proof (rule fold_update_map [OF d])
    have keys: "map fst ?xs = map fst (kid_entries pid ?m)" by auto
    show "distinct (map fst ?xs)"
      unfolding keys using d unfolding kid_entries_def by (rule distinct_map_filter)
    show "fst ` set ?xs \<subseteq> fst ` set ?m" using sub by force
  qed
  also have "\<dots> = cancelled_kids pid ts ?m"
    unfolding cancelled_kids_def
  proof (rule map_cong [OF refl])
    fix x assume "x \<in> set ?m"
    moreover obtain k c where x: "x = (k, c)" by (cases x)
    ultimately have kc: "(k, c) \<in> set ?m" by simp
    have "map_of (kid_entries pid ?m) k = (if co_parent_id c = pid then Some c else None)"
    proof (cases "co_parent_id c = pid")
      case True
      then have "(k, c) \<in> set (kid_entries pid ?m)" using kc by (simp add: kid_entries_def)
      moreover have "distinct (map fst (kid_entries pid ?m))"
        unfolding kid_entries_def using d by (rule distinct_map_filter)
      ultimately show ?thesis using True by (simp add: map_of_is_SomeI)
    next
      case False
      have "k \<notin> fst ` set (kid_entries pid ?m)"
        using False eq_key_imp_eq_value [OF d kc] by (auto simp: kid_entries_def)
      then show ?thesis using False by (simp add: map_of_eq_None_iff)
    qed
    moreover have "map_of ?xs k = map_option (ended ts) (map_of (kid_entries pid ?m) k)"
      using map_of_map_values [of "\<lambda>k. ended ts" "kid_entries pid ?m" k] by simp
    ultimately show "(case x of (k, v) \<Rightarrow> (k, case map_of ?xs k of Some w \<Rightarrow> w | None \<Rightarrow> v)) =
        (case x of (k, c) \<Rightarrow> (k, if co_parent_id c = pid then ended ts c else c))"
      by (simp add: x)
  qed
  finally show ?thesis .
qed

lemma created_follows:
  assumes "oms_follows s t"
  shows "map_of (oms_parents s) k = Some p \<Longrightarrow> map_of (oms_parents t) k = Some p' \<Longrightarrow>
      po_created_timestamp_ns p = po_created_timestamp_ns p'"
    and "map_of (oms_children s) k = Some c \<Longrightarrow> map_of (oms_children t) k = Some c' \<Longrightarrow>
      co_created_timestamp_ns c = co_created_timestamp_ns c'"
  using assms unfolding oms_follows_def map_follows_def parent_follows_def child_follows_def same_child_def
  by (metis option.inject)+

lemma fresh_report:
  assumes "oms_inv t" and "oms_reports t = rs @ [r]"
  shows "map_of (report_map rs) (xr_execution_report_id r) = None"
proof -
  have "numbered (oms_next_report_id t) (report_map (rs @ [r]))" "length (report_map (rs @ [r])) < 2 ^ 64"
    using assms unfolding oms_inv_def by (metis, simp add: report_map_def)
  then have "distinct (map fst (report_map rs @ [(xr_execution_report_id r, r)]))"
    using numbered_distinct by (metis report_map_snoc)
  then have "xr_execution_report_id r \<notin> fst ` set (report_map rs)" by simp
  then show ?thesis by (simp add: map_of_eq_None_iff)
qed

lemma rows_snoc: "rows_of f (m @ [(k, r)]) = rows_of f m @ [(k, f r)]"
  by (simp add: rows_of_def)

text \<open>One event of one call.\<close>

lemma persist_event_mirrors:
  assumes ops: "behaves ops view" and inv: "oms_inv s" "oms_inv t" and follows: "oms_follows s t"
    and ev: "event_step s e t" and m: "mirrors s (view d)"
    and ok: "persist_event ops t e d = (Inr u, d')"
    and fee: "\<forall>r \<in> set (oms_reports t). xr_fee r \<noteq> MinusZero"
  shows "mirrors t (view d')"
proof -
  obtain p where p: "me_parent e = Some p" "oms_parents t = hm_update (po_id p) p (oms_parents s)"
    and ch: "case me_child e of
          Some c \<Rightarrow> me_type e \<noteq> ParentUpdated \<and> oms_children t = hm_update (co_id c) c (oms_children s)
        | None \<Rightarrow> if me_type e = ParentUpdated
            then \<exists>ts. oms_children t = cancelled_kids (po_id p) ts (oms_children s)
            else oms_children t = oms_children s"
    and re: "oms_reports t = oms_reports s @ (case me_fill e of Some r \<Rightarrow> [r] | None \<Rightarrow> [])"
    using ev unfolding event_step_def by blast
  obtain d1 d2 d3 where d: "save_parent ops p d = (Inr (), d1)"
    "save_each (save_child ops) (case me_child e of None \<Rightarrow> [] | Some c \<Rightarrow> [c]) d1 = (Inr (), d2)"
    "save_each (save_fill ops) (case me_fill e of None \<Rightarrow> [] | Some r \<Rightarrow> [r]) d2 = (Inr (), d3)"
    "save_each (save_child ops) (if me_type e = ParentUpdated then children_for_parent (po_id p) t else []) d3
      = (Inr u, d')"
    using ok unfolding persist_event_def and_then_ok p(1)
    by (auto simp: save_each_single simp del: save_each.simps)
  have pt: "map_of (oms_parents t) (po_id p) = Some p" using p(2) by simp
  have v1: "view d1 = (view d)\<lparr>tb_parents := rows_of parent_row_of (oms_parents t)\<rparr>"
    using save_ok(1) [OF ops d(1) parent_plain [OF inv(2) pt]] m created_follows(1) [OF follows _ pt]
      upsert_parent_rows [of "oms_parents s" p]
    by (simp add: mirrors_def p(2))
  have v2: "view d2 = (view d1)\<lparr>tb_children := rows_of child_row_of
      (case me_child e of Some c \<Rightarrow> oms_children t | None \<Rightarrow> oms_children s)\<rparr>"
  proof (cases "me_child e")
    case None
    then show ?thesis using d(2) m v1 by (simp add: mirrors_def)
  next
    case (Some c)
    then have c: "oms_children t = hm_update (co_id c) c (oms_children s)" using ch by simp
    then have ct: "map_of (oms_children t) (co_id c) = Some c" by simp
    have "save_child ops c d1 = (Inr (), d2)" using d(2) Some by (simp only: save_each_single option.case)
    from save_ok(2) [OF ops this child_plain [OF inv(2) ct]] Some show ?thesis
      using m v1 created_follows(2) [OF follows _ ct] upsert_child_rows [of "oms_children s" c]
      by (simp add: mirrors_def c)
  qed
  have v3: "view d3 = (view d2)\<lparr>tb_fills := rows_of fill_row_of (report_map (oms_reports t))\<rparr>"
  proof (cases "me_fill e")
    case None
    then show ?thesis using d(3) m v1 v2 re by (simp add: mirrors_def)
  next
    case (Some r)
    then have r: "oms_reports t = oms_reports s @ [r]" using re by simp
    have "save_fill ops r d2 = (Inr (), d3)" using d(3) Some by (simp only: save_each_single option.case)
    moreover have "plain_fill (fill_row_of r)" using fill_plain [OF inv(2), of r] fee r by simp
    ultimately have "view d3 = (view d2)\<lparr>tb_fills :=
        hm_emplace (xr_execution_report_id r) (fill_row_of r) (tb_fills (view d2))\<rparr>"
      by (rule save_ok(3) [OF ops])
    moreover have "tb_fills (view d2) = rows_of fill_row_of (report_map (oms_reports s))"
      using m v1 v2 by (simp add: mirrors_def)
    moreover have "map_of (rows_of fill_row_of (report_map (oms_reports s))) (xr_execution_report_id r) = None"
      by (simp only: map_of_rows fresh_report [OF inv(2) r] option.map)
    ultimately show ?thesis by (simp add: hm_emplace_def r report_map_snoc rows_snoc)
  qed
  have v4: "view d' = (view d3)\<lparr>tb_children := rows_of child_row_of (oms_children t)\<rparr>"
  proof (cases "me_child e = None \<and> me_type e = ParentUpdated")
    case True
    then obtain ts where k: "oms_children t = cancelled_kids (po_id p) ts (oms_children s)" using ch by auto
    have cs: "children_for_parent (po_id p) t = kids (po_id p) (oms_children t)"
      using pt oms_invD(3) [OF inv(2) pt] read_kids [OF oms_invD(2) [OF inv(2)]]
      by (simp add: children_for_parent_def parent_ok_def)
    have in_t: "\<exists>i. map_of (oms_children t) i = Some c" if "c \<in> set (kids (po_id p) (oms_children t))" for c
      using that in_kids [OF oms_invD(2) [OF inv(2)]] by blast
    have id: "map_of (oms_children t) (co_id c) = Some c" if "c \<in> set (kids (po_id p) (oms_children t))" for c
      using in_t [OF that] oms_invD(4) [OF inv(2)] by (auto simp: child_ok_def)
    have dist: "distinct (map co_id (kids (po_id p) (oms_children t)))"
    proof -
      have "map co_id (kids (po_id p) (oms_children t)) = map fst (kid_entries (po_id p) (oms_children t))"
        using oms_invD(4) [OF inv(2) map_of_is_SomeI [OF oms_invD(2) [OF inv(2)]]]
        by (auto simp: kids_def kid_entries_def child_ok_def)
      then show ?thesis
        using oms_invD(2) [OF inv(2)] by (simp add: kid_entries_def distinct_map_filter)
    qed
    have "view d' = (view d3)\<lparr>tb_children :=
        fold (\<lambda>c. upsert_child (child_row_of c)) (kids (po_id p) (oms_children t)) (tb_children (view d3))\<rparr>"
      using d(4) True child_plain [OF inv(2) id] unfolding cs
      by (intro save_children_ok [OF ops]) auto
    moreover have "tb_children (view d3) = rows_of child_row_of (oms_children s)"
      using v2 v3 True by simp
    moreover have "fold (\<lambda>c. upsert_child (child_row_of c)) (kids (po_id p) (oms_children t))
        (rows_of child_row_of (oms_children s)) =
      rows_of child_row_of (fold (\<lambda>c. hm_update (co_id c) c) (kids (po_id p) (oms_children t)) (oms_children s))"
      by (rule fold_upsert_rows [OF dist]) (rule created_follows(2) [OF follows _ id])
    moreover have "fold (\<lambda>c. hm_update (co_id c) c) (kids (po_id p) (oms_children t)) (oms_children s) =
        oms_children t"
      unfolding k cancelled_kids_kids by (rule fold_update_kids [OF inv(1)])
    ultimately show ?thesis by simp
  next
    case False
    then have "me_type e \<noteq> ParentUpdated" "(case me_child e of Some c \<Rightarrow> oms_children t | None \<Rightarrow> oms_children s) = oms_children t"
      using ch by (auto split: option.splits)
    then show ?thesis using d(4) v2 v3 by simp
  qed
  show ?thesis using m v1 v2 v3 v4 by (simp add: mirrors_def)
qed

lemma notify_events:
  "oms_callback_set s \<Longrightarrow> oms_events (notify_mutation e s) = oms_events s @ [e]"
  "oms_callback_set (notify_mutation e s) = oms_callback_set s"
  by (simp_all add: notify_mutation_def)

lemma children_for_parent_notify [simp]:
  "children_for_parent k (notify_mutation e s) = children_for_parent k s"
  by (simp add: children_for_parent_def split: option.split)

lemma persist_event_notify [simp]: "persist_event ops (notify_mutation e s) = persist_event ops s"
  by (simp add: persist_event_def fun_eq_iff split: option.split)

lemma mirrors_notify [simp]: "mirrors (notify_mutation e s) v = mirrors s v"
  by (simp add: mirrors_def)

lemma persisted_call_mirrors:
  assumes ops: "behaves ops view" and inv: "oms_inv s" and room: "oms_room 1 s" and "proper_call x"
    and cb: "oms_callback_set s" and m: "mirrors s (view d)"
    and ok: "persisted_call ops x (s, d) = (Inr u, t, d')"
    and fee: "\<forall>r \<in> set (oms_reports t). xr_fee r \<noteq> MinusZero"
  shows "t = call_oms x s" and "oms_callback_set t" and "mirrors t (view d')"
proof -
  show t: "t = call_oms x s"
    using ok by (simp add: persisted_call_def Let_def split: prod.splits)
  have good: "good_step s t" unfolding t by (rule call_good [OF inv room assms(4)])
  have "reported s t" unfolding t by (rule call_reported [OF inv room])
  then consider "t = s" | e t0 where "event_step s e t0" "t = notify_mutation e t0"
    unfolding reported_def by blast
  then have "oms_callback_set t \<and> mirrors t (view d')"
  proof cases
    case 1
    then have "d' = d" using ok t by (simp add: persisted_call_def Let_def)
    with 1 cb m show ?thesis by simp
  next
    case (2 e t0)
    have ev: "oms_callback_set t0 = oms_callback_set s" "oms_events t0 = oms_events s"
      using 2(1) unfolding event_step_def by blast+
    then have events: "drop (length (oms_events s)) (oms_events t) = [e]"
      using 2(2) cb by (simp add: notify_events)
    have "persist_event ops t0 e d = (Inr u, d')"
      using ok 2(2) events unfolding t [symmetric]
      by (simp add: persisted_call_def Let_def t [symmetric] save_each_single del: save_each.simps
          split: prod.splits)
    moreover have "oms_inv t0" "oms_follows s t0"
      using good 2(2) by (simp_all add: good_step_def)
    ultimately have "mirrors t0 (view d')"
      using persist_event_mirrors [OF ops inv _ _ 2(1) m] fee 2(2) by simp
    then show ?thesis using 2(2) ev cb by (simp add: notify_events)
  qed
  then show "oms_callback_set t" "mirrors t (view d')" by simp_all
qed

lemma persisted_calls_run:
  "persisted_calls ops xs (s, d) = Some (t, d') \<Longrightarrow> t = oms_calls xs s"
proof (induction xs arbitrary: s d)
  case (Cons x xs)
  obtain s1 d1 where 1: "persisted_call ops x (s, d) = (Inr (), s1, d1)" "persisted_calls ops xs (s1, d1) = Some (t, d')"
    using Cons.prems by (auto split: prod.splits sum.splits)
  have "s1 = call_oms x s" using 1(1) by (simp add: persisted_call_def Let_def split: prod.splits)
  with Cons.IH [OF 1(2)] show ?case by (simp add: oms_calls_def)
qed (simp add: oms_calls_def)

lemma persisted_calls_mirrors:
  assumes ops: "behaves ops view"
  shows "oms_inv s \<Longrightarrow> oms_room (length xs) s \<Longrightarrow> list_all proper_call xs \<Longrightarrow> oms_callback_set s \<Longrightarrow>
    mirrors s (view d) \<Longrightarrow> persisted_calls ops xs (s, d) = Some (t, d') \<Longrightarrow>
    \<forall>r \<in> set (oms_reports t). xr_fee r \<noteq> MinusZero \<Longrightarrow> mirrors t (view d')"
proof (induction xs arbitrary: s d)
  case (Cons x xs)
  obtain s1 d1 where 1: "persisted_call ops x (s, d) = (Inr (), s1, d1)" "persisted_calls ops xs (s1, d1) = Some (t, d')"
    using Cons.prems(6) by (auto split: prod.splits sum.splits)
  have room: "oms_room 1 s" using Cons.prems(2) by (auto simp: oms_room_def)
  have s1: "s1 = call_oms x s" using 1(1) by (simp add: persisted_call_def Let_def split: prod.splits)
  have good: "good_step s s1"
    unfolding s1 using Cons.prems(1,3) room by (intro call_good) simp_all
  then have next_s: "oms_inv s1" "oms_room (length xs) s1" using Cons.prems(2) by (simp_all add: good_step_def)
  have "oms_follows s1 t"
    using calls_good [OF next_s] Cons.prems(3) persisted_calls_run [OF 1(2)] by simp
  then have "set (oms_reports s1) \<subseteq> set (oms_reports t)" unfolding oms_follows_def by auto
  then have fee: "\<forall>r \<in> set (oms_reports s1). xr_fee r \<noteq> MinusZero" using Cons.prems(7) by blast
  have "proper_call x" using Cons.prems(3) by simp
  note step = persisted_call_mirrors [OF ops Cons.prems(1) room this Cons.prems(4,5) 1(1) fee]
  show ?case
    using Cons.prems(3) by (intro Cons.IH [OF next_s _ step(2,3) 1(2) Cons.prems(7)]) simp
qed simp

section \<open>Reading the tables back\<close>

lemma parse_format [simp]:
  "parse_side (if x = Buy then ''BUY'' else ''SELL'') = x"
  "parse_algorithm (algorithm_string a) = a"
  "parse_status (order_status_string st) = st"
proof -
  show "parse_side (if x = Buy then ''BUY'' else ''SELL'') = x" by (cases x) (simp_all add: parse_side_def)
  show "parse_algorithm (algorithm_string a) = a"
    by (cases a) (simp_all add: parse_algorithm_def algorithm_string_def)
  show "parse_status (order_status_string st) = st"
    by (cases st) (simp_all add: parse_status_def order_status_string_def)
qed

lemma row_roundtrip:
  "no_nul (po_symbol p) \<Longrightarrow> parent_of_row (parent_row_of p) = p\<lparr>po_child_ids := []\<rparr>"
  "no_nul (co_venue c) \<Longrightarrow> child_of_row (child_row_of c) = c"
  "no_nul (xr_venue r) \<Longrightarrow> fill_of_row (fill_row_of r) = r"
  by (simp_all add: parent_of_row_def parent_row_of_def child_of_row_def child_row_of_def
      fill_of_row_def fill_row_of_def c_string_id)

lemma attach_child_map:
  "distinct (map po_id ps) \<Longrightarrow>
   attach_child c ps = map (\<lambda>p. if po_id p = co_parent_id c
     then p\<lparr>po_child_ids := po_child_ids p @ [co_id c]\<rparr> else p) ps"
proof (induction ps)
  case (Cons p ps)
  show ?case
  proof (cases "po_id p = co_parent_id c")
    case True
    then have "\<forall>q \<in> set ps. po_id q \<noteq> co_parent_id c" using Cons.prems by force
    then have "map (\<lambda>p. if po_id p = co_parent_id c
        then p\<lparr>po_child_ids := po_child_ids p @ [co_id c]\<rparr> else p) ps = ps"
      by (intro map_idI) simp
    with True show ?thesis by simp
  qed (use Cons in simp)
qed simp

lemma attach_children:
  "distinct (map po_id ps) \<Longrightarrow>
   fold attach_child cs ps = map (\<lambda>p. p\<lparr>po_child_ids := po_child_ids p @
     map co_id (filter (\<lambda>c. co_parent_id c = po_id p) cs)\<rparr>) ps"
proof (induction cs arbitrary: ps)
  case (Cons c cs)
  let ?ps = "map (\<lambda>p. if po_id p = co_parent_id c
     then p\<lparr>po_child_ids := po_child_ids p @ [co_id c]\<rparr> else p) ps"
  have "map po_id ?ps = map po_id ps" by auto
  then have "distinct (map po_id ?ps)" using Cons.prems by (simp only:)
  from Cons.IH [OF this] attach_child_map [OF Cons.prems, of c] show ?case by auto
qed simp

text \<open>Ids given out in order are sorted, also as the signed integers the database sorts by.\<close>

definition ids_of :: "('r \<Rightarrow> u64) \<Rightarrow> 'r list \<Rightarrow> (u64 \<times> 'r) list" where
  "ids_of f rs = map (\<lambda>r. (f r, r)) rs"

lemma ids_of_simps: "map fst (ids_of f rs) = map f rs" "length (ids_of f rs) = length rs"
  "ids_of f (rs @ [r]) = ids_of f rs @ [(f r, r)]"
  by (simp_all add: ids_of_def comp_def)

lemma numbered_sorted:
  assumes "numbered n (ids_of f rs)" and "length rs < 2 ^ 63" and that: "\<And>r. g (h r) = f r"
  shows "sort_key (\<lambda>w. sint (g w)) (map h rs) = map h rs"
proof (rule sort_key_id_if_sorted)
  have "map f rs = map of_nat [1..<Suc (length rs)]"
    using assms(1) by (simp add: numbered_def ids_of_simps)
  moreover have "map (\<lambda>w. sint (g w)) (map h rs) = map sint (map f rs)" by (simp add: that comp_def)
  ultimately have "map (\<lambda>w. sint (g w)) (map h rs) = map (\<lambda>i. sint (of_nat i :: u64)) [1..<Suc (length rs)]"
    by (simp only: map_map comp_def)
  also have "\<dots> = map int [1..<Suc (length rs)]"
  proof (intro map_cong refl sint_small)
    fix i assume "i \<in> set [1..<Suc (length rs)]"
    then have "i \<le> length rs" by auto
    then show "i < 2 ^ 63" using assms(2) by (rule le_less_trans)
  qed
  finally show "sorted (map (\<lambda>w. sint (g w)) (map h rs))"
    by (simp only:) (simp add: sorted_map del: upt_Suc)
qed

lemma numbered_butlast:
  assumes "numbered n (ids_of f (rs @ [r]))" and "length rs < 2 ^ 63"
  shows "numbered (f r) (ids_of f rs)" and "n = f r + 1" and "f r < n"
proof -
  have len: "length (ids_of f (rs @ [r])) = Suc (length rs)" by (simp add: ids_of_def)
  have all: "map f (rs @ [r]) = map of_nat [1..<Suc (Suc (length rs))]"
    and n: "n = of_nat (Suc (Suc (length rs)))"
    using assms(1) unfolding numbered_def ids_of_simps(1) len by blast+
  have "[1..<Suc (Suc (length rs))] = [1..<Suc (length rs)] @ [Suc (length rs)]"
    by (rule upt_Suc_append) simp
  with all have keys: "map f rs @ [f r] = map of_nat [1..<Suc (length rs)] @ [of_nat (Suc (length rs))]"
    by (simp only: map_append list.map)
  from keys have fr: "f r = of_nat (Suc (length rs))" and "map f rs = map of_nat [1..<Suc (length rs)]"
    by (simp_all only: append1_eq_conv)
  then show "numbered (f r) (ids_of f rs)" by (simp only: numbered_def ids_of_simps)
  show "n = f r + 1" by (simp add: n fr)
  have "unat (of_nat (Suc (length rs)) :: u64) = Suc (length rs)"
    "unat (of_nat (Suc (Suc (length rs))) :: u64) = Suc (Suc (length rs))"
    using assms(2) by (intro unat_of_nat_u64; simp)+
  then show "f r < n" unfolding n fr word_less_nat_alt by simp
qed

lemma restore_records_snoc:
  "restore_records f (rs @ [r]) acc =
     (let (n, m) = restore_records f rs acc in (max n (f r + 1), hm_emplace (f r) r m))"
  by (induction rs arbitrary: acc) (auto split: prod.splits)

lemma restore_numbered:
  "numbered n (ids_of f rs) \<Longrightarrow> length rs < 2 ^ 63 \<Longrightarrow> restore_records f rs (1, []) = (n, ids_of f rs)"
proof (induction rs arbitrary: n rule: rev_induct)
  case Nil
  then show ?case by (simp add: numbered_def ids_of_def)
next
  case (snoc r rs)
  have len: "length rs < 2 ^ 63" using snoc.prems(2) by simp
  note prev = numbered_butlast [OF snoc.prems(1) len]
  have "Suc (length (ids_of f rs)) < 2 ^ 64" using snoc.prems(2) by (simp add: ids_of_simps)
  then have "hm_emplace (f r) r (ids_of f rs) = ids_of f rs @ [(f r, r)]"
    by (rule numbered_next(2) [OF prev(1)])
  moreover have "max (f r) (f r + 1) = n" using prev(2,3) by (simp add: max_def less_imp_le)
  ultimately show ?case
    using snoc.IH [OF prev(1) len] by (simp add: restore_records_snoc ids_of_simps)
qed

lemma next_of_records:
  "foldl (\<lambda>n r. max n (f r + 1)) (fst acc) rs = fst (restore_records f rs acc)"
  by (induction rs arbitrary: acc) auto

lemma inv_ids:
  assumes "oms_inv s"
  shows "oms_parents s = ids_of po_id (map snd (oms_parents s))"
    and "oms_children s = ids_of co_id (map snd (oms_children s))"
    and "report_map (oms_reports s) = ids_of xr_execution_report_id (oms_reports s)"
proof -
  have "po_id p = k" if "(k, p) \<in> set (oms_parents s)" for k p
    using oms_invD(3) [OF assms map_of_is_SomeI [OF oms_invD(1) [OF assms] that]]
    by (simp add: parent_ok_def)
  then show "oms_parents s = ids_of po_id (map snd (oms_parents s))"
    by (auto simp: ids_of_def intro!: map_idI [symmetric])
  have "co_id c = k" if "(k, c) \<in> set (oms_children s)" for k c
    using oms_invD(4) [OF assms map_of_is_SomeI [OF oms_invD(2) [OF assms] that]]
    by (simp add: child_ok_def)
  then show "oms_children s = ids_of co_id (map snd (oms_children s))"
    by (auto simp: ids_of_def intro!: map_idI [symmetric])
  show "report_map (oms_reports s) = ids_of xr_execution_report_id (oms_reports s)"
    by (simp add: report_map_def ids_of_def)
qed

text \<open>What the texts must be for the store: without NUL characters, which end them there.\<close>

definition storable :: "oms \<Rightarrow> bool" where
  "storable s \<longleftrightarrow>
     (\<forall>p \<in> set (map snd (oms_parents s)). no_nul (po_symbol p)) \<and>
     (\<forall>c \<in> set (map snd (oms_children s)). no_nul (co_venue c)) \<and>
     (\<forall>r \<in> set (oms_reports s). no_nul (xr_venue r) \<and> xr_fee r \<noteq> MinusZero) \<and>
     length (oms_parents s) < 2 ^ 63 \<and> length (oms_children s) < 2 ^ 63 \<and> length (oms_reports s) < 2 ^ 63"

lemma load_mirrors:
  assumes ops: "behaves ops view" and inv: "oms_inv s" and m: "mirrors s (view d)" and st: "storable s"
  shows "rv_parents (load_state ops d) = map snd (oms_parents s)"
    and "rv_children (load_state ops d) = map snd (oms_children s)"
    and "rv_fills (load_state ops d) = oms_reports s"
proof -
  define ps where "ps = map snd (oms_parents s)"
  define cs where "cs = map snd (oms_children s)"
  have num: "numbered (oms_next_parent_id s) (ids_of po_id ps)"
    "numbered (oms_next_child_id s) (ids_of co_id cs)"
    "numbered (oms_next_report_id s) (ids_of xr_execution_report_id (oms_reports s))"
    using inv inv_ids [OF inv] unfolding oms_inv_def ps_def cs_def by metis+
  have len: "length ps < 2 ^ 63" "length cs < 2 ^ 63" "length (oms_reports s) < 2 ^ 63"
    using st unfolding ps_def cs_def by (simp_all add: storable_def)
  have sel: "select_parents ops d = map parent_row_of ps" "select_children ops d = map child_row_of cs"
    "select_fills ops d = map fill_row_of (oms_reports s)"
  proof -
    have "map snd (tb_parents (view d)) = map parent_row_of ps"
      "map snd (tb_children (view d)) = map child_row_of cs"
      "map snd (tb_fills (view d)) = map fill_row_of (oms_reports s)"
      using m by (auto simp: mirrors_def rows_of_def report_map_def ps_def cs_def)
    then show "select_parents ops d = map parent_row_of ps" "select_children ops d = map child_row_of cs"
      "select_fills ops d = map fill_row_of (oms_reports s)"
      using ops numbered_sorted [OF num(1) len(1), of pw_parent_id parent_row_of]
        numbered_sorted [OF num(2) len(2), of cw_child_id child_row_of]
        numbered_sorted [OF num(3) len(3), of fw_execution_report_id fill_row_of]
      by (simp_all add: behaves_def parent_row_of_def child_row_of_def fill_row_of_def)
  qed
  have names: "p \<in> set ps \<Longrightarrow> no_nul (po_symbol p)" "c \<in> set cs \<Longrightarrow> no_nul (co_venue c)"
    "r \<in> set (oms_reports s) \<Longrightarrow> no_nul (xr_venue r)" for p c r
    using st unfolding storable_def ps_def cs_def by blast+
  have cs_back: "map child_of_row (map child_row_of cs) = cs"
    unfolding map_map by (intro map_idI) (simp add: names row_roundtrip)
  then show "rv_children (load_state ops d) = map snd (oms_children s)"
    unfolding cs_def [symmetric] by (simp add: load_state_def Let_def sel)
  have "map fill_of_row (map fill_row_of (oms_reports s)) = oms_reports s"
    unfolding map_map by (intro map_idI) (simp add: names row_roundtrip)
  then show "rv_fills (load_state ops d) = oms_reports s" by (simp add: load_state_def Let_def sel)
  have ps_back: "map parent_of_row (map parent_row_of ps) = map (\<lambda>p. p\<lparr>po_child_ids := []\<rparr>) ps"
    unfolding map_map by (intro map_cong refl) (simp add: names row_roundtrip)
  have "distinct (map po_id ps)"
    using numbered_distinct [OF num(1)] len(1) by (simp add: ids_of_simps)
  moreover have "map po_id (map (\<lambda>p. p\<lparr>po_child_ids := []\<rparr>) ps) = map po_id ps" by simp
  ultimately have "distinct (map po_id (map (\<lambda>p. p\<lparr>po_child_ids := []\<rparr>) ps))" by (simp only:)
  from attach_children [OF this, of cs] have "rv_parents (load_state ops d) =
      map (\<lambda>p. p\<lparr>po_child_ids := map co_id (filter (\<lambda>c. co_parent_id c = po_id p) cs)\<rparr>) ps"
    by (simp add: load_state_def Let_def sel ps_back cs_back del: map_map) (simp add: comp_def)
  also have "\<dots> = ps"
  proof (rule map_idI)
    fix p assume "p \<in> set ps"
    then obtain k where "(k, p) \<in> set (oms_parents s)" by (auto simp: ps_def)
    then have "map_of (oms_parents s) k = Some p" by (rule map_of_is_SomeI [OF oms_invD(1) [OF inv]])
    then have ok: "parent_ok (oms_children s) k p" by (rule oms_invD(3) [OF inv])
    have "map co_id (filter (\<lambda>c. co_parent_id c = k) cs) = map fst (kid_entries k (ids_of co_id cs))"
      by (simp add: kid_entries_def ids_of_def filter_map comp_def)
    also have "\<dots> = po_child_ids p" using ok inv_ids(2) [OF inv, folded cs_def] by (simp add: parent_ok_def)
    finally show "p\<lparr>po_child_ids := map co_id (filter (\<lambda>c. co_parent_id c = po_id p) cs)\<rparr> = p"
      using ok by (simp add: parent_ok_def)
  qed
  finally show "rv_parents (load_state ops d) = map snd (oms_parents s)" by (simp only: ps_def)
qed

lemma restored_maps:
  assumes inv: "oms_inv s" and st: "storable s"
  shows "restore_records po_id (map snd (oms_parents s)) (1, []) = (oms_next_parent_id s, oms_parents s)"
    and "restore_records co_id (map snd (oms_children s)) (1, []) = (oms_next_child_id s, oms_children s)"
    and "foldl (\<lambda>n r. max n (xr_execution_report_id r + 1)) 1 (oms_reports s) = oms_next_report_id s"
proof -
  have num: "numbered (oms_next_parent_id s) (ids_of po_id (map snd (oms_parents s)))"
    "numbered (oms_next_child_id s) (ids_of co_id (map snd (oms_children s)))"
    "numbered (oms_next_report_id s) (ids_of xr_execution_report_id (oms_reports s))"
    using inv inv_ids [OF inv] unfolding oms_inv_def by metis+
  show "restore_records po_id (map snd (oms_parents s)) (1, []) = (oms_next_parent_id s, oms_parents s)"
    "restore_records co_id (map snd (oms_children s)) (1, []) = (oms_next_child_id s, oms_children s)"
    using restore_numbered [OF num(1)] restore_numbered [OF num(2)] st inv_ids(1,2) [OF inv]
    by (simp_all add: storable_def)
  show "foldl (\<lambda>n r. max n (xr_execution_report_id r + 1)) 1 (oms_reports s) = oms_next_report_id s"
    using next_of_records [of xr_execution_report_id "(1, [])" "oms_reports s"] restore_numbered [OF num(3)] st
    by (simp add: storable_def)
qed

lemma restore_lists:
  "oms_inv s \<Longrightarrow> storable s \<Longrightarrow>
   restore (map snd (oms_parents s)) (map snd (oms_children s)) (oms_reports s) s0 =
     s\<lparr>oms_callback_set := oms_callback_set s0, oms_events := oms_events s0\<rparr>"
  by (simp add: restore_def restored_maps)

lemma load_next:
  assumes ops: "behaves ops view" and inv: "oms_inv s" and m: "mirrors s (view d)" and st: "storable s"
  shows "rv_next_parent_id (load_state ops d) = oms_next_parent_id s \<and>
    rv_next_child_id (load_state ops d) = oms_next_child_id s \<and>
    rv_next_execution_report_id (load_state ops d) = oms_next_report_id s"
proof -
  note load = load_mirrors [OF assms]
  have "rv_next_child_id (load_state ops d) =
      foldl (\<lambda>n c. max n (co_id c + 1)) 1 (rv_children (load_state ops d))"
    "rv_next_execution_report_id (load_state ops d) =
      foldl (\<lambda>n r. max n (xr_execution_report_id r + 1)) 1 (rv_fills (load_state ops d))"
    by (simp_all add: load_state_def Let_def)
  moreover have "rv_next_parent_id (load_state ops d) =
      foldl (\<lambda>n p. max n (po_id p + 1)) 1 (rv_parents (load_state ops d))"
  proof -
    have attach: "map po_id (attach_child c ps) = map po_id ps" for c ps
      by (induction ps) auto
    have "map po_id (fold attach_child cs ps) = map po_id ps" for cs ps
      by (induction cs arbitrary: ps) (simp_all add: attach)
    moreover have ids: "foldl (\<lambda>n p. max n (po_id p + 1)) 1 ps = foldl (\<lambda>n i. max n (i + 1)) 1 (map po_id ps)" for ps
      by (simp add: foldl_map)
    ultimately have "foldl (\<lambda>n p. max n (po_id p + 1)) 1 (fold attach_child cs ps) =
        foldl (\<lambda>n p. max n (po_id p + 1)) 1 ps" for cs ps
      by (simp only: ids)
    then show ?thesis by (simp add: load_state_def Let_def)
  qed
  ultimately show ?thesis
    using next_of_records [of po_id "(1, [])" "map snd (oms_parents s)"]
      next_of_records [of co_id "(1, [])" "map snd (oms_children s)"] restored_maps [OF inv st]
    unfolding load by simp
qed

lemma restart_state:
  assumes "behaves ops view" and "view d0 = \<lparr>tb_parents = [], tb_children = [], tb_fills = []\<rparr>"
    and "list_all proper_call xs" and "length xs < 2 ^ 63"
    and "persisted_calls ops xs (set_mutation_callback new_oms, d0) = Some (s, d)" and "storable s"
  shows "let r = load_state ops d; t = restore (rv_parents r) (rv_children r) (rv_fills r) new_oms in
    t = s\<lparr>oms_callback_set := False, oms_events := []\<rparr> \<and>
    s = oms_calls xs (set_mutation_callback new_oms) \<and>
    rv_next_parent_id r = oms_next_parent_id s \<and> rv_next_child_id r = oms_next_child_id s \<and>
    rv_next_execution_report_id r = oms_next_report_id s"
proof -
  let ?s0 = "set_mutation_callback new_oms"
  have inv0: "oms_inv ?s0"
    by (simp add: oms_inv_def new_oms_def set_mutation_callback_def numbered_def report_map_def)
  have room: "oms_room (length xs) ?s0"
    using assms(4) by (simp add: oms_room_def new_oms_def set_mutation_callback_def)
  have run: "s = oms_calls xs ?s0" by (rule persisted_calls_run [OF assms(5)])
  then have inv: "oms_inv s" using calls_good [OF inv0 room assms(3)] by simp
  have "mirrors ?s0 (view d0)"
    using assms(2) by (simp add: mirrors_def new_oms_def set_mutation_callback_def rows_of_def report_map_def)
  then have m: "mirrors s (view d)"
    using persisted_calls_mirrors [OF assms(1) inv0 room assms(3) _ _ assms(5)] assms(6)
    by (simp add: set_mutation_callback_def storable_def)
  note load = load_mirrors [OF assms(1) inv m assms(6)]
  have "restore (map snd (oms_parents s)) (map snd (oms_children s)) (oms_reports s) new_oms =
      s\<lparr>oms_callback_set := False, oms_events := []\<rparr>"
    using restore_lists [OF inv assms(6), of new_oms] by (simp add: new_oms_def)
  then show ?thesis
    unfolding Let_def load using run load_next [OF assms(1) inv m assms(6)] by simp
qed

section \<open>The property\<close>

text \<open>C27: A restart loses nothing. Whatever has been called on the system of the service, as long as no
  write of the callback failed, loading the store and restoring a new system from it gives back
  every parent with its children in order, every child, every report and the three id counters,
  which the store computes the same way. It relies on the documented behaviour of the SQL
  statements, on names without NUL characters and on fees that are not a negative zero.\<close>

theorem restart_restores_orders:
  assumes "behaves ops view" and "view d0 = \<lparr>tb_parents = [], tb_children = [], tb_fills = []\<rparr>"
    and "list_all proper_call xs" and "length xs < 2 ^ 63"
    and "persisted_calls ops xs (set_mutation_callback new_oms, d0) = Some (s, d)" and "storable s"
  shows "let r = load_state ops d; t = restore (rv_parents r) (rv_children r) (rv_fills r) new_oms in
    t = s\<lparr>oms_callback_set := False, oms_events := []\<rparr> \<and>
    s = oms_calls xs (set_mutation_callback new_oms) \<and>
    rv_next_parent_id r = oms_next_parent_id s \<and> rv_next_child_id r = oms_next_child_id s \<and>
    rv_next_execution_report_id r = oms_next_report_id s"
  by (rule restart_state [OF assms])

definition table_database :: "tables oms_database" where
  "table_database =
     \<lparr>exec_parent = (\<lambda>w d. (True, d\<lparr>tb_parents := upsert_parent w (tb_parents d)\<rparr>)),
      exec_child = (\<lambda>w d. (True, d\<lparr>tb_children := upsert_child w (tb_children d)\<rparr>)),
      exec_fill = (\<lambda>w d. (True, d\<lparr>tb_fills := hm_emplace (fw_execution_report_id w) w (tb_fills d)\<rparr>)),
      exec_transaction = (\<lambda>x d. (True, d)),
      select_parents = (\<lambda>d. sort_key (\<lambda>w. sint (pw_parent_id w)) (map snd (tb_parents d))),
      select_children = (\<lambda>d. sort_key (\<lambda>w. sint (cw_child_id w)) (map snd (tb_children d))),
      select_fills = (\<lambda>d. sort_key (\<lambda>w. sint (fw_execution_report_id w)) (map snd (tb_fills d)))\<rparr>"

lemma table_database_behaves: "behaves table_database id"
  by (auto simp: behaves_def table_database_def)

lemma table_saves:
  "\<exists>d'. save_parent table_database p d = (Inr (), d')" "\<exists>d'. save_child table_database c d = (Inr (), d')"
  "\<exists>d'. save_fill table_database r d = (Inr (), d')"
  by (simp_all add: save_parent_def save_child_def save_fill_def check_sqlite_def table_database_def)

lemma save_each_succeeds:
  "(\<And>x d. \<exists>d'. f x d = (Inr (), d')) \<Longrightarrow> \<exists>d'. save_each f xs d = (Inr (), d')"
proof (induction xs arbitrary: d)
  case (Cons x xs)
  obtain d1 where "f x d = (Inr (), d1)" using Cons.prems by blast
  then show ?case using Cons.IH [OF Cons.prems, of d1] by simp
qed simp

lemma table_persists:
  "\<exists>s d'. persisted_calls table_database xs (s0, d) = Some (s, d')"
proof (induction xs arbitrary: s0 d)
  case (Cons x xs)
  have "\<exists>d'. persist_event table_database t e d = (Inr (), d')" for t e d
  proof -
    have "\<exists>d'. save_each (save_parent table_database) xs d = (Inr (), d')"
      "\<exists>d'. save_each (save_child table_database) ys d = (Inr (), d')"
      "\<exists>d'. save_each (save_fill table_database) zs d = (Inr (), d')" for xs ys zs d
      by (intro save_each_succeeds table_saves)+
    then show ?thesis unfolding persist_event_def and_then_ok by meson
  qed
  then have "\<exists>d1. save_each (persist_event table_database t) es d = (Inr (), d1)" for t es d
    by (intro save_each_succeeds)
  then
  obtain d1 where "save_each (persist_event table_database (call_oms x s0))
      (drop (length (oms_events s0)) (oms_events (call_oms x s0))) d = (Inr (), d1)" by blast
  then have "persisted_call table_database x (s0, d) = (Inr (), call_oms x s0, d1)"
    by (simp add: persisted_call_def Let_def)
  then show ?case using Cons.IH [of "call_oms x s0" d1] by simp
qed simp

definition two_orders :: "oms_call list" where
  "two_orders =
     [CallCreateParent \<lparr>pr_symbol = ''BTC'', pr_side = Buy, pr_quantity = Number 10, pr_algorithm = TWAP\<rparr> 1,
      CallCreateChild \<lparr>cr_parent_id = 1, cr_venue = ''A'', cr_price = Number 5, cr_quantity = Number 10,
        cr_created_timestamp_ns = 2\<rparr>]"

lemma two_orders_storable:
  "storable (oms_calls two_orders (set_mutation_callback new_oms))"
  "length (oms_children (oms_calls two_orders (set_mutation_callback new_oms))) = 1"
  by (simp_all add: two_orders_def oms_calls_def set_mutation_callback_def new_oms_def create_parent_def
      create_child_def evaluate evaluate(1,2) [THEN validate_positive_None [THEN iffD2]] hm_emplace_def
      notify_mutation_def terminal_status_def Let_def storable_def no_nul_def)

lemma restart_restores_orders_witness:
  "\<exists>s d. persisted_calls table_database two_orders
       (set_mutation_callback new_oms, \<lparr>tb_parents = [], tb_children = [], tb_fills = []\<rparr>) = Some (s, d) \<and>
     length (oms_children s) = 1 \<and>
     (let r = load_state table_database d in
      restore (rv_parents r) (rv_children r) (rv_fills r) new_oms =
        s\<lparr>oms_callback_set := False, oms_events := []\<rparr>)"
proof -
  obtain s d where run: "persisted_calls table_database two_orders
       (set_mutation_callback new_oms, \<lparr>tb_parents = [], tb_children = [], tb_fills = []\<rparr>) = Some (s, d)"
    using table_persists by blast
  have s: "s = oms_calls two_orders (set_mutation_callback new_oms)" by (rule persisted_calls_run [OF run])
  have "list_all proper_call two_orders" "length two_orders < 2 ^ 63" by (simp_all add: two_orders_def)
  from restart_restores_orders [OF table_database_behaves _ this run] two_orders_storable run s
  show ?thesis by (simp add: Let_def)
qed

end
