(* ===== verification/Positions_Recovery.thy ===== *)
theory Positions_Recovery
  imports Portfolio_Risk Oms_Recovery Oms_Correct
begin

text \<open>
  Positions across a restart (the constructor of the service, src/apps/api.cpp): the recovered fills
  are applied to an empty position manager, each with its recovered parent. Beside it the
  collection of a symbol's fills that the service reconciles with (\<open>reconcile_positions\<close> of
  src/apps/api.cpp).
\<close>

text \<open>The positions the callback builds up, from the events it has been called with.\<close>

definition live_positions :: "portfolio_risk_limits \<Rightarrow> mutation_event list \<Rightarrow> position_map" where
  "live_positions limits events = fold (\<lambda>event m. fst (position_callback limits event m)) events []"

definition recover_positions :: "oms \<Rightarrow> oms_execution_report list \<Rightarrow> position_map" where
  "recover_positions s fills =
     fold (\<lambda>fill m. case find_parent (xr_parent_id fill) s of
             None \<Rightarrow> m | Some parent \<Rightarrow> apply_fill parent fill m) fills []"

lemma apply_fill_cong:
  "po_symbol p = po_symbol q \<Longrightarrow> po_side p = po_side q \<Longrightarrow> apply_fill p fill m = apply_fill q fill m"
  by (simp add: apply_fill_def)

lemma recover_positions_follows:
  assumes "oms_follows s t" and "\<forall>r \<in> set rs. find_parent (xr_parent_id r) s \<noteq> None"
  shows "recover_positions t rs = recover_positions s rs"
proof -
  have "(case find_parent (xr_parent_id r) t of None \<Rightarrow> m | Some p \<Rightarrow> apply_fill p r m) =
      (case find_parent (xr_parent_id r) s of None \<Rightarrow> m | Some p \<Rightarrow> apply_fill p r m)"
    if r: "r \<in> set rs" for r m
  proof -
    obtain p where p: "map_of (oms_parents s) (xr_parent_id r) = Some p"
      using bspec [OF assms(2) r] by (auto simp: find_parent_def)
    then obtain q where "map_of (oms_parents t) (xr_parent_id r) = Some q" "parent_follows p q"
      using assms(1) unfolding oms_follows_def map_follows_def by blast
    then show ?thesis
      using p apply_fill_cong [of q p r m] by (simp add: find_parent_def parent_follows_def)
  qed
  then show ?thesis unfolding recover_positions_def by (intro fold_cong) auto
qed

lemma report_parents:
  assumes "oms_inv s" and "r \<in> set (oms_reports s)"
  shows "find_parent (xr_parent_id r) s \<noteq> None"
proof -
  obtain c where c: "map_of (oms_children s) (xr_child_id r) = Some c" "co_parent_id c = xr_parent_id r"
    using assms unfolding oms_inv_def report_ok_def by blast
  then have "child_ok s (xr_child_id r) c" using oms_invD(4) [OF assms(1)] by blast
  then show ?thesis using c(2) by (auto simp: child_ok_def find_parent_def)
qed

lemma call_positions_step:
  assumes inv: "oms_inv s" and room: "oms_room 1 s" and "proper_call x" and cb: "oms_callback_set s"
    and IH: "live_positions limits (oms_events s) = recover_positions s (oms_reports s)"
  defines "t \<equiv> call_oms x s"
  shows "live_positions limits (oms_events t) = recover_positions t (oms_reports t)" and "oms_callback_set t"
proof -
  have follows: "oms_follows s t" using call_good [OF inv room assms(3)] by (simp add: good_step_def t_def)
  have old: "recover_positions t (oms_reports s) = recover_positions s (oms_reports s)"
    using report_parents [OF inv] by (intro recover_positions_follows [OF follows]) blast
  have "reported s t" unfolding t_def by (rule call_reported [OF inv room])
  then have "live_positions limits (oms_events t) = recover_positions t (oms_reports t) \<and> oms_callback_set t"
    unfolding reported_def
  proof (elim disjE exE conjE)
    assume "t = s"
    then show ?thesis using IH cb by simp
  next
    fix e t0
    assume step: "event_step s e t0" and t: "t = notify_mutation e t0"
    obtain p where p: "me_parent e = Some p" "oms_parents t0 = hm_update (po_id p) p (oms_parents s)"
      using step unfolding event_step_def by blast
    have e: "oms_callback_set t0" "oms_events t0 = oms_events s"
        "oms_reports t0 = oms_reports s @ (case me_fill e of Some r \<Rightarrow> [r] | None \<Rightarrow> [])"
        "\<And>r. me_fill e = Some r \<Longrightarrow> po_id p = xr_parent_id r"
      using step cb p(1) unfolding event_step_def by auto
    have at: "find_parent (po_id p) t = Some p" using p(2) t by (simp add: find_parent_def)
    show ?thesis
    proof (cases "me_fill e")
      case None
      then show ?thesis
        using t e old IH by (simp add: notify_events live_positions_def position_callback_def)
    next
      case (Some r)
      then have "recover_positions t (oms_reports t) = apply_fill p r (recover_positions t (oms_reports s))"
        using t e(3) at e(4) [OF Some] by (simp add: recover_positions_def)
      then show ?thesis
        using Some t e old IH p(1)
        by (simp add: notify_events live_positions_def position_callback_def Let_def)
    qed
  qed
  then show "live_positions limits (oms_events t) = recover_positions t (oms_reports t)" "oms_callback_set t"
    by blast+
qed

lemma calls_positions:
  assumes "oms_inv s" and "oms_room (length xs) s" and "list_all proper_call xs" and "oms_callback_set s"
    and "live_positions limits (oms_events s) = recover_positions s (oms_reports s)"
  shows "live_positions limits (oms_events (oms_calls xs s)) =
    recover_positions (oms_calls xs s) (oms_reports (oms_calls xs s))"
  using assms
proof (induction xs arbitrary: s)
  case (Cons x xs)
  have room: "oms_room 1 s" using Cons.prems(2) by (auto simp: oms_room_def)
  have x: "proper_call x" "list_all proper_call xs" using Cons.prems(3) by simp_all
  have good: "good_step s (call_oms x s)" by (rule call_good [OF Cons.prems(1) room x(1)])
  then have "oms_inv (call_oms x s)" "oms_room (length xs) (call_oms x s)"
    using Cons.prems(2) by (simp_all add: good_step_def)
  from Cons.IH [OF this x(2)] call_positions_step [OF Cons.prems(1) room x(1) Cons.prems(4,5)]
  show ?case by (simp add: oms_calls_def)
qed (simp add: oms_calls_def)

text \<open>The calls the callback makes on the position manager.\<close>

definition event_fills :: "mutation_event list \<Rightarrow> position_call list" where
  "event_fills events = List.map_filter (\<lambda>event. case (me_fill event, me_parent event) of
     (Some fill, Some parent) \<Rightarrow> Some (Fill parent fill) | _ \<Rightarrow> None) events"

fun is_fill :: "position_call \<Rightarrow> bool" where
  "is_fill (Fill _ _) = True"
| "is_fill (Mark _ _) = False"

lemma live_positions_calls: "live_positions limits events = position_calls (event_fills events)"
proof (induction events rule: rev_induct)
  case (snoc e es)
  have "live_positions limits (es @ [e]) = fst (position_callback limits e (live_positions limits es))"
    by (simp add: live_positions_def)
  moreover have "position_calls (event_fills (es @ [e])) =
      fst (position_callback limits e (position_calls (event_fills es)))"
    by (cases "me_fill e"; cases "me_parent e")
      (simp_all add: event_fills_def map_filter_def position_calls_def position_callback_def Let_def)
  ultimately show ?case using snoc by simp
qed (simp add: live_positions_def event_fills_def position_calls_def map_filter_def)

lemma fills_in_order_marks: "fills_in_order symbol (filter is_fill xs) = fills_in_order symbol xs"
proof (induction xs)
  case (Cons x xs)
  then show ?case by (cases x) (simp_all add: fills_in_order_def map_filter_def)
qed simp

text \<open>C29: A restart rebuilds the positions. Whatever has been called on the order management system,
  with marks anywhere in between, as long as no write of the callback failed: applying the fills
  loaded from the store, each with its restored parent, to an empty position manager gives for
  every symbol exactly the net quantity, average cost and realized profit the running service
  holds; and the very positions it would hold had it never been given a mark.\<close>

theorem restart_restores_positions:
  assumes "behaves ops view" and "view d0 = \<lparr>tb_parents = [], tb_children = [], tb_fills = []\<rparr>"
    and "list_all proper_call xs" and "length xs < 2 ^ 63"
    and "persisted_calls ops xs (set_mutation_callback new_oms, d0) = Some (s, d)" and "storable s"
    and "filter is_fill ys = event_fills (oms_events s)"
  shows "let r = load_state ops d; t = restore (rv_parents r) (rv_children r) (rv_fills r) new_oms;
      m = recover_positions t (rv_fills r) in
    figures (position symbol m) = figures (position symbol (position_calls ys)) \<and>
    m = live_positions limits (oms_events s)"
proof -
  define s0 where "s0 = set_mutation_callback new_oms"
  define r where "r = load_state ops d"
  define t where "t = restore (rv_parents r) (rv_children r) (rv_fills r) new_oms"
  have t: "t = s\<lparr>oms_callback_set := False, oms_events := []\<rparr>" "s = oms_calls xs s0"
    using restart_state [OF assms(1-6)] by (simp_all add: Let_def r_def t_def s0_def)
  have s0: "oms_inv s0" "oms_room (length xs) s0" "oms_callback_set s0"
    using new_oms_inv new_oms_room assms(4)
    by (simp_all add: s0_def set_mutation_callback_def oms_inv_def oms_room_def report_map_def new_oms_def
        numbered_def)
  have "live_positions limits (oms_events s0) = recover_positions s0 (oms_reports s0)"
    by (simp add: s0_def set_mutation_callback_def new_oms_def live_positions_def recover_positions_def)
  then have live: "live_positions limits (oms_events s) = recover_positions s (oms_reports s)"
    unfolding t(2) by (intro calls_positions s0 assms(3))
  have fills: "rv_fills r = oms_reports s" using arg_cong [OF t(1), of oms_reports] by (simp add: t_def restore_def split: prod.splits)
  have "recover_positions t (rv_fills r) = recover_positions s (oms_reports s)"
    unfolding fills t(1) by (simp add: recover_positions_def find_parent_def)
  then have m: "recover_positions t (rv_fills r) = live_positions limits (oms_events s)" using live by simp
  have "figures (position symbol (position_calls (event_fills (oms_events s)))) =
      figures (position symbol (position_calls ys))"
    using positions_recomputed [of symbol] fills_in_order_marks [of symbol ys] assms(7) by simp
  then show ?thesis
    unfolding Let_def r_def [symmetric] t_def [symmetric] m by (simp add: live_positions_calls)
qed

definition one_fill :: "oms_call list" where
  "one_fill = two_orders @ [CallFill 1 (Number 5) (Number 10) (Number 0) 3]"

lemma one_fill_run:
  "storable (oms_calls one_fill (set_mutation_callback new_oms))"
  "figures (position ''BTC'' (position_calls (event_fills (oms_events (oms_calls one_fill (set_mutation_callback new_oms)))))) =
    (Number 10, Number 5, Number 0)"
  by (simp_all add: one_fill_def two_orders_def run_scenario set_mutation_callback_def storable_def no_nul_def
      event_fills_def map_filter_def position_calls_def position_eval figures_def)

lemma restart_restores_positions_witness:
  "\<exists>s d. persisted_calls table_database one_fill
       (set_mutation_callback new_oms, \<lparr>tb_parents = [], tb_children = [], tb_fills = []\<rparr>) = Some (s, d) \<and>
     (let r = load_state table_database d;
          t = restore (rv_parents r) (rv_children r) (rv_fills r) new_oms
      in figures (position ''BTC'' (recover_positions t (rv_fills r))) = (Number 10, Number 5, Number 0))"
proof -
  obtain s d where run: "persisted_calls table_database one_fill
       (set_mutation_callback new_oms, \<lparr>tb_parents = [], tb_children = [], tb_fills = []\<rparr>) = Some (s, d)"
    using table_persists by blast
  have s: "s = oms_calls one_fill (set_mutation_callback new_oms)" by (rule persisted_calls_run [OF run])
  have p: "list_all proper_call one_fill" "length one_fill < 2 ^ 63" by (simp_all add: one_fill_def two_orders_def)
  have "filter is_fill (event_fills es) = event_fills es" for es
    by (induction es) (auto simp: event_fills_def map_filter_def split: option.splits)
  then have "filter is_fill (Mark ''BTC'' (Number 7) # event_fills (oms_events s)) = event_fills (oms_events s)" by simp
  from restart_restores_positions [OF table_database_behaves _ p run _ this, of "''BTC''"]
  have "let r = load_state table_database d; t = restore (rv_parents r) (rv_children r) (rv_fills r) new_oms
      in figures (position ''BTC'' (recover_positions t (rv_fills r))) =
        figures (position ''BTC'' (position_calls (Mark ''BTC'' (Number 7) # event_fills (oms_events s))))"
    using one_fill_run(1) s by (simp add: Let_def)
  moreover have "figures (position ''BTC'' (position_calls (Mark ''BTC'' (Number 7) # event_fills (oms_events s)))) =
      figures (position ''BTC'' (position_calls (event_fills (oms_events s))))"
    using positions_recomputed [of "''BTC''"] by (simp add: fills_in_order_def map_filter_def)
  ultimately show ?thesis using run one_fill_run(2) s by (simp add: Let_def) 
qed

end
