(* ===== verification/Drop_Copy.thy ===== *)
theory Drop_Copy
  imports Market_Types Sqlite Hash_Map
begin

text \<open>
  The drop-copy log (include/minimatch/drop\_copy.hpp, src/drop\_copy.cpp): every event goes to a
  SQLite table, the latest ones also to a bounded cache with an index by order, from which the
  history of an order is answered when it is complete there.

  The statements sent to SQLite are the parameter \<open>'db drop_copy_database\<close>; \<open>log_behaves\<close> says what
  the documentation promises of the insert, of the ordered select with a limit and of the select of
  an order. The casts between the unsigned fields and the 64-bit columns are inverse to each other
  and leave no trace in the model, the order of the signed ids apart. The deque is the list of the
  events, the newest first; a \<open>std::unordered_set\<close> is a set.
\<close>

record drop_copy_event =
  de_id :: u64
  de_timestamp_ns :: u64
  de_order_id :: order_id
  de_symbol :: symbol_id
  de_event_type :: string
  de_status :: string
  de_remaining :: quantity
  de_reject_reason :: reject_reason

record 'db drop_copy_database =
  insert_event :: "drop_copy_event \<Rightarrow> 'db \<Rightarrow> bool \<times> 'db"
  select_recent :: "nat \<Rightarrow> 'db \<Rightarrow> drop_copy_event list"
  select_order :: "order_id \<Rightarrow> 'db \<Rightarrow> drop_copy_event list"

record drop_copy_store =
  dc_capacity :: nat
  dc_events :: "drop_copy_event list"
  dc_events_by_order :: "(order_id \<times> drop_copy_event list) list"
  dc_incomplete :: "order_id set"
  dc_next_id :: u64

section \<open>Operations\<close>

definition persist :: "'db drop_copy_database \<Rightarrow> drop_copy_event \<Rightarrow> 'db \<Rightarrow> (store_error + unit) \<times> 'db" where
  "persist ops event d = check_sqlite ''insert drop-copy event''
     (insert_event ops (event\<lparr>de_event_type := c_string (de_event_type event),
        de_status := c_string (de_status event)\<rparr>) d)"

text \<open>\<open>events_by_order_[event.order_id].push_back(event)\<close>\<close>

definition index_event ::
  "drop_copy_event \<Rightarrow> (order_id \<times> drop_copy_event list) list \<Rightarrow> (order_id \<times> drop_copy_event list) list"
where
  "index_event event m =
     (let order_events = (case map_of m (de_order_id event) of None \<Rightarrow> [] | Some es \<Rightarrow> es)
      in hm_update (de_order_id event) (order_events @ [event]) m)"

definition load_recent :: "'db drop_copy_database \<Rightarrow> nat \<Rightarrow> 'db \<Rightarrow> drop_copy_store" where
  "load_recent ops capacity d =
     (let rows = select_recent ops capacity d;
          by_order = fold index_event (rev rows) []
      in \<lparr>dc_capacity = capacity, dc_events = rows, dc_events_by_order = by_order,
          dc_incomplete = (if capacity \<le> length rows then fst ` set by_order else {}),
          dc_next_id = fold (\<lambda>event max_id. max max_id (de_id event)) rows 0 + 1\<rparr>)"

text \<open>The constructor; creating the directory and the table is not modelled.\<close>

definition open_drop_copy :: "'db drop_copy_database \<Rightarrow> nat \<Rightarrow> 'db \<Rightarrow> drop_copy_store" where
  "open_drop_copy ops capacity d = load_recent ops (max 1 capacity) d"

definition evict_oldest :: "drop_copy_store \<Rightarrow> drop_copy_store" where
  "evict_oldest s =
     (let evicted = last (dc_events s);
          s1 = s\<lparr>dc_events := butlast (dc_events s)\<rparr>;
          s2 = (case map_of (dc_events_by_order s1) (de_order_id evicted) of
                  None \<Rightarrow> s1
                | Some order_events \<Rightarrow>
                    let kept =
                      (if order_events \<noteq> [] \<and> de_id (hd order_events) = de_id evicted
                       then tl order_events
                       else takeWhile (\<lambda>e. de_id e \<noteq> de_id evicted) order_events @
                         drop 1 (dropWhile (\<lambda>e. de_id e \<noteq> de_id evicted) order_events))
                    in s1\<lparr>dc_events_by_order :=
                      (if kept = [] then AList.delete (de_order_id evicted) (dc_events_by_order s1)
                       else hm_update (de_order_id evicted) kept (dc_events_by_order s1))\<rparr>)
      in s2\<lparr>dc_incomplete := insert (de_order_id evicted) (dc_incomplete s2)\<rparr>)"

lemma evict_oldest_frame [simp]:
  "dc_events (evict_oldest s) = butlast (dc_events s)" "dc_capacity (evict_oldest s) = dc_capacity s"
  "dc_next_id (evict_oldest s) = dc_next_id s"
  "dc_incomplete (evict_oldest s) = insert (de_order_id (last (dc_events s))) (dc_incomplete s)"
  by (simp_all add: evict_oldest_def Let_def split: option.split)

function evict :: "drop_copy_store \<Rightarrow> drop_copy_store" where
  "evict s = (if dc_capacity s < length (dc_events s) then evict (evict_oldest s) else s)"
  by pat_completeness auto

termination
  by (relation "measure (\<lambda>s. length (dc_events s))") auto

declare evict.simps [simp del]

definition publish ::
  "'db drop_copy_database \<Rightarrow> drop_copy_event \<Rightarrow> drop_copy_store \<times> 'db
    \<Rightarrow> (store_error + unit) \<times> drop_copy_store \<times> 'db"
where
  "publish ops event st =
     (case st of (s, d) \<Rightarrow>
      let event' = event\<lparr>de_id := dc_next_id s\<rparr>;
          s1 = s\<lparr>dc_next_id := dc_next_id s + 1\<rparr>
      in case persist ops event' d of
           (Inl e, d') \<Rightarrow> (Inl e, s1, d')
         | (Inr _, d') \<Rightarrow>
             (Inr (), evict (s1\<lparr>dc_events_by_order := index_event event' (dc_events_by_order s1),
                dc_events := event' # dc_events s1\<rparr>), d'))"

definition recent :: "nat \<Rightarrow> drop_copy_store \<Rightarrow> drop_copy_event list" where
  "recent limit s = take (min limit (length (dc_events s))) (dc_events s)"

definition events_for_order ::
  "'db drop_copy_database \<Rightarrow> order_id \<Rightarrow> drop_copy_store \<times> 'db \<Rightarrow> drop_copy_event list"
where
  "events_for_order ops order_id st =
     (case st of (s, d) \<Rightarrow>
      case map_of (dc_events_by_order s) order_id of
        Some cached \<Rightarrow> if order_id \<notin> dc_incomplete s then cached else select_order ops order_id d
      | None \<Rightarrow> select_order ops order_id d)"

section \<open>What is relied on of the database\<close>

text \<open>\<open>view\<close> is the table in the order of its key, the signed id.\<close>

definition log_behaves :: "'db drop_copy_database \<Rightarrow> ('db \<Rightarrow> drop_copy_event list) \<Rightarrow> bool" where
  "log_behaves ops view \<longleftrightarrow>
     (\<forall>w d d'. insert_event ops w d = (True, d') \<longrightarrow>
        view d' = insort_key (\<lambda>e. sint (de_id e)) w (view d)) \<and>
     (\<forall>w d d'. insert_event ops w d = (False, d') \<longrightarrow> view d' = view d) \<and>
     (\<forall>n d. select_recent ops n d = take n (rev (view d))) \<and>
     (\<forall>k d. select_order ops k d = filter (\<lambda>e. de_order_id e = k) (view d))"

section \<open>The cache and the table\<close>

definition of_order :: "order_id \<Rightarrow> drop_copy_event list \<Rightarrow> drop_copy_event list" where
  "of_order k es = filter (\<lambda>e. de_order_id e = k) es"

lemma of_order_simps [simp]:
  "of_order k [] = []" "of_order k (xs @ ys) = of_order k xs @ of_order k ys"
  "of_order k (e # es) = (if de_order_id e = k then e # of_order k es else of_order k es)"
  by (simp_all add: of_order_def)

definition indexes :: "drop_copy_event list \<Rightarrow> (order_id \<times> drop_copy_event list) list \<Rightarrow> bool" where
  "indexes es m \<longleftrightarrow> (\<forall>k. map_of m k = (if of_order k es = [] then None else Some (of_order k es)))"

text \<open>The ids grow along the table and leave room for \<open>n\<close> more that are positive as signed numbers.\<close>

definition ids_grow :: "nat \<Rightarrow> drop_copy_event list \<Rightarrow> u64 \<Rightarrow> bool" where
  "ids_grow n D next_id \<longleftrightarrow> sorted_wrt (\<lambda>a b. unat (de_id a) < unat (de_id b)) D \<and>
     (\<forall>e \<in> set D. unat (de_id e) < unat next_id) \<and> unat next_id + n \<le> 2 ^ 63"

text \<open>\<open>A\<close> are the rows that have left the cache: the orders they belong to are marked.\<close>

definition log_inv :: "nat \<Rightarrow> drop_copy_event list \<Rightarrow> drop_copy_store \<Rightarrow> bool" where
  "log_inv n D s \<longleftrightarrow> ids_grow n D (dc_next_id s) \<and> 0 < dc_capacity s \<and>
     indexes (rev (dc_events s)) (dc_events_by_order s) \<and>
     (\<exists>A. D = A @ rev (dc_events s) \<and> (\<forall>k. k \<notin> dc_incomplete s \<longrightarrow> of_order k A = []) \<and>
       (A \<noteq> [] \<longrightarrow> dc_capacity s \<le> length (dc_events s)))"

lemma index_event_indexes: "indexes es m \<Longrightarrow> indexes (es @ [e]) (index_event e m)"
  by (auto simp: indexes_def index_event_def Let_def)

lemma fold_index_indexes: "indexes es (fold index_event es [])"
  by (induction es rule: rev_induct) (simp_all add: index_event_indexes, simp add: indexes_def)

lemma evict_oldest_indexes:
  assumes "indexes (x # es) (dc_events_by_order s)" and "last (dc_events s) = x"
  shows "indexes es (dc_events_by_order (evict_oldest s))"
proof -
  have "map_of (dc_events_by_order s) (de_order_id x) = Some (x # of_order (de_order_id x) es)"
    using assms(1) by (simp add: indexes_def)
  then show ?thesis
    using assms by (auto simp: indexes_def evict_oldest_def Let_def delete_conv')
qed

lemma evict_oldest_inv:
  assumes "log_inv n D s" and "dc_capacity s < length (dc_events s)"
  shows "log_inv n D (evict_oldest s)"
proof -
  obtain ys x where ys: "dc_events s = ys @ [x]" using assms(2) by (cases "dc_events s" rule: rev_cases) auto
  obtain A where A: "D = A @ x # rev ys" "\<forall>k. k \<notin> dc_incomplete s \<longrightarrow> of_order k A = []"
    using assms(1) ys unfolding log_inv_def by auto
  have "D = (A @ [x]) @ rev ys" using A(1) by simp
  moreover have "\<forall>k. k \<notin> insert (de_order_id x) (dc_incomplete s) \<longrightarrow> of_order k (A @ [x]) = []"
    using A(2) by simp
  moreover have "dc_capacity s \<le> length ys" using assms(2) ys by simp
  moreover have "indexes (x # rev ys) (dc_events_by_order s)"
    using assms(1) ys by (simp add: log_inv_def)
  then have "indexes (rev ys) (dc_events_by_order (evict_oldest s))"
    by (rule evict_oldest_indexes) (simp add: ys)
  moreover have "ids_grow n D (dc_next_id s)" "0 < dc_capacity s"
    using assms(1) by (simp_all add: log_inv_def)
  ultimately show ?thesis unfolding log_inv_def evict_oldest_frame ys butlast_snoc last_snoc by blast
qed

lemma evict_steps:
  "length (dc_events s) \<le> dc_capacity s \<Longrightarrow> evict s = s"
  "dc_capacity s < length (dc_events s) \<Longrightarrow> evict s = evict (evict_oldest s)"
  by (simp_all add: evict.simps [of s])

lemma evict_inv: "log_inv n D s \<Longrightarrow> log_inv n D (evict s) \<and> length (dc_events (evict s)) \<le> dc_capacity (evict s)"
proof (induction s rule: evict.induct)
  case (1 s)
  show ?case
  proof (cases "dc_capacity s < length (dc_events s)")
    case True
    then show ?thesis
      using "1.IH" [OF True evict_oldest_inv [OF "1.prems" True]] by (simp only: evict.simps [of s] if_True)
  next
    case False
    then show ?thesis using "1.prems" by (simp add: evict.simps [of s])
  qed
qed


lemma insort_key_last: "\<forall>y \<in> set ys. f y < f x \<Longrightarrow> insort_key f x ys = ys @ [x]"
  by (induction ys) (auto simp: not_le)

lemma ids_grow_next:
  assumes "ids_grow (Suc n) D k" and "de_id w = k"
  shows "insort_key (\<lambda>e. sint (de_id e)) w D = D @ [w]" and "ids_grow n (D @ [w]) (k + 1)" and "ids_grow n D (k + 1)"
proof -
  have k: "unat k + Suc n \<le> 2 ^ 63" "\<forall>e \<in> set D. unat (de_id e) < unat k"
      "sorted_wrt (\<lambda>a b. unat (de_id a) < unat (de_id b)) D"
    using assms(1) by (simp_all add: ids_grow_def)
  have "sint (de_id e) < sint k" if "e \<in> set D" for e
  proof -
    have "unat (de_id e) < unat k" using k(2) that by blast
    with k(1) have "unat (de_id e) < 2 ^ 63" "unat k < 2 ^ 63" by simp_all
    with \<open>unat (de_id e) < unat k\<close> show ?thesis by (simp only: small_sint of_nat_less_iff)
  qed
  then show "insort_key (\<lambda>e. sint (de_id e)) w D = D @ [w]"
    using assms(2) by (intro insort_key_last) simp
  have "unat (k + 1) = Suc (unat k)" using k(1) by (simp add: unat_word_ariths)
  then show "ids_grow n (D @ [w]) (k + 1)" "ids_grow n D (k + 1)"
    using k assms(2) by (auto simp: ids_grow_def sorted_wrt_append less_Suc_eq)
qed

lemma publish_inv:
  assumes ops: "log_behaves ops view" and inv: "log_inv (Suc n) (view d) s"
    and text_ok: "no_nul (de_event_type e)" "no_nul (de_status e)"
    and pub: "publish ops e (s, d) = (r, t, d')"
  shows "log_inv n (view d') t" and "dc_capacity t = dc_capacity s"
    and "length (dc_events s) \<le> dc_capacity s \<Longrightarrow> length (dc_events t) \<le> dc_capacity t"
    and "view d' = view d @ (case r of Inr _ \<Rightarrow> [e\<lparr>de_id := dc_next_id s\<rparr>] | Inl _ \<Rightarrow> [])"
proof -
  let ?e = "e\<lparr>de_id := dc_next_id s\<rparr>"
  have row: "?e\<lparr>de_event_type := c_string (de_event_type ?e), de_status := c_string (de_status ?e)\<rparr> = ?e"
    using text_ok by (simp add: c_string_id)
  have grow: "ids_grow (Suc n) (view d) (dc_next_id s)" and cap: "0 < dc_capacity s"
    and idx: "indexes (rev (dc_events s)) (dc_events_by_order s)"
    using inv by (simp_all add: log_inv_def)
  obtain A where A: "view d = A @ rev (dc_events s)" "\<forall>k. k \<notin> dc_incomplete s \<longrightarrow> of_order k A = []"
      "A \<noteq> [] \<longrightarrow> dc_capacity s \<le> length (dc_events s)"
    using inv unfolding log_inv_def by blast
  obtain ok d1 where ins: "insert_event ops ?e d = (ok, d1)" by fastforce
  note nx = ids_grow_next [OF grow, of ?e, simplified]
  have "log_inv n (view d') t \<and> dc_capacity t = dc_capacity s \<and>
    (length (dc_events s) \<le> dc_capacity s \<longrightarrow> length (dc_events t) \<le> dc_capacity t) \<and>
    view d' = view d @ (case r of Inr _ \<Rightarrow> [?e] | Inl _ \<Rightarrow> [])"
  proof (cases ok)
    case True
    define s2 where "s2 = s\<lparr>dc_next_id := dc_next_id s + 1,
      dc_events_by_order := index_event ?e (dc_events_by_order s), dc_events := ?e # dc_events s\<rparr>"
    have pub': "r = Inr ()" "t = evict s2" "d' = d1"
      using pub True ins row by (simp_all add: publish_def persist_def check_sqlite_def Let_def s2_def)
    have "insert_event ops ?e d = (True, d1)" using ins True by simp
    then have "view d1 = insort_key (\<lambda>e. sint (de_id e)) ?e (view d)"
      using ops unfolding log_behaves_def by blast
    then have v: "view d' = view d @ [?e]" using nx(1) pub'(3) by simp
    have "log_inv n (view d') s2"
      unfolding log_inv_def
      using A cap nx(2) index_event_indexes [OF idx, of ?e] unfolding v by (auto simp: s2_def)
    moreover have "dc_capacity (evict s) = dc_capacity s" for s
      by (induction s rule: evict.induct) (simp add: evict.simps)
    then have "dc_capacity t = dc_capacity s" by (simp add: pub' s2_def)
    ultimately show ?thesis using evict_inv [of n "view d'" s2] v pub' by simp
  next
    case False
    have pub': "\<exists>x. r = Inl x" "t = s\<lparr>dc_next_id := dc_next_id s + 1\<rparr>" "d' = d1"
      using pub False ins row by (auto simp: publish_def persist_def check_sqlite_def Let_def)
    have "insert_event ops ?e d = (False, d1)" using ins False by simp
    then have v: "view d' = view d" using ops pub'(3) unfolding log_behaves_def by blast
    have "log_inv n (view d') t"
      unfolding log_inv_def v using A cap nx(3) idx by (auto simp: pub'(2))
    then show ?thesis using pub' v by auto
  qed
  then show "log_inv n (view d') t" "dc_capacity t = dc_capacity s"
    "length (dc_events s) \<le> dc_capacity s \<Longrightarrow> length (dc_events t) \<le> dc_capacity t"
    "view d' = view d @ (case r of Inr _ \<Rightarrow> [?e] | Inl _ \<Rightarrow> [])" by blast+
qed

lemma load_inv:
  assumes ops: "log_behaves ops view" and small: "length (view d) \<le> capacity" "0 < capacity"
    and sorted: "sorted_wrt (\<lambda>a b. unat (de_id a) < unat (de_id b)) (view d)"
    and room: "\<forall>e \<in> set (view d). unat (de_id e) + n < 2 ^ 63" "n < 2 ^ 63"
  shows "log_inv n (view d) (load_recent ops capacity d)"
    and "length (dc_events (load_recent ops capacity d)) \<le> capacity"
proof -
  have rows: "select_recent ops capacity d = rev (view d)"
    using ops small(1) by (simp add: log_behaves_def)
  define m where "m = fold (\<lambda>event k. max k (de_id event)) (rev (view d)) 0"
  have "(\<forall>e \<in> set es. de_id e \<le> fold (\<lambda>event k. max k (de_id event)) es k) \<and>
      k \<le> fold (\<lambda>event k. max k (de_id event)) es k \<and>
      fold (\<lambda>event k. max k (de_id event)) es k \<in> insert k (de_id ` set es)" for es k
    by (induction es arbitrary: k) (auto simp: max_def, (meson order_trans nle_le)+)
  then have m: "\<forall>e \<in> set (view d). de_id e \<le> m" "m = 0 \<or> m \<in> de_id ` set (view d)"
    unfolding m_def by (metis set_rev, metis insertE set_rev)
  have "unat m + n < 2 ^ 63" using m(2) room by auto
  then have "unat (m + 1) = Suc (unat m)" by (simp add: unat_word_ariths)
  moreover have "\<forall>e \<in> set (view d). unat (de_id e) \<le> unat m" using m(1) by (simp add: word_le_nat_alt)
  ultimately have "ids_grow n (view d) (m + 1)"
    using sorted \<open>unat m + n < 2 ^ 63\<close> by (auto simp: ids_grow_def less_Suc_eq_le)
  then show "log_inv n (view d) (load_recent ops capacity d)"
    using small(2) fold_index_indexes [of "view d"]
    by (simp add: log_inv_def load_recent_def Let_def rows m_def)
  show "length (dc_events (load_recent ops capacity d)) \<le> capacity"
    using small(1) by (simp add: load_recent_def Let_def rows)
qed

definition text_ok :: "drop_copy_event \<Rightarrow> bool" where
  "text_ok e \<longleftrightarrow> no_nul (de_event_type e) \<and> no_nul (de_status e)"

text \<open>The events that reach the table, with the ids they get.\<close>

fun published ::
  "'db drop_copy_database \<Rightarrow> drop_copy_event list \<Rightarrow> drop_copy_store \<times> 'db \<Rightarrow> drop_copy_event list"
where
  "published ops [] st = []"
| "published ops (e # es) st =
     (case publish ops e st of (r, st') \<Rightarrow>
      (case r of Inr _ \<Rightarrow> [e\<lparr>de_id := dc_next_id (fst st)\<rparr>] | Inl _ \<Rightarrow> []) @ published ops es st')"

definition publish_all ::
  "'db drop_copy_database \<Rightarrow> drop_copy_event list \<Rightarrow> drop_copy_store \<times> 'db \<Rightarrow> drop_copy_store \<times> 'db"
where
  "publish_all ops es st = fold (\<lambda>e st. snd (publish ops e st)) es st"

lemma publish_all_inv:
  assumes ops: "log_behaves ops view"
  shows "log_inv (length es) (view d) s \<Longrightarrow> length (dc_events s) \<le> dc_capacity s \<Longrightarrow> list_all text_ok es \<Longrightarrow>
    publish_all ops es (s, d) = (t, d') \<Longrightarrow>
    log_inv 0 (view d') t \<and> length (dc_events t) \<le> dc_capacity t \<and> dc_capacity t = dc_capacity s \<and>
    view d' = view d @ published ops es (s, d)"
proof (induction es arbitrary: s d)
  case (Cons e es)
  obtain r s1 d1 where pub: "publish ops e (s, d) = (r, s1, d1)" by (metis prod.collapse)
  have e: "no_nul (de_event_type e)" "no_nul (de_status e)" and es: "list_all text_ok es"
    using Cons.prems(3) by (auto simp: text_ok_def list_all_iff)
  have inv: "log_inv (Suc (length es)) (view d) s" using Cons.prems(1) by simp
  note step = publish_inv [OF ops inv e pub]
  have "publish_all ops es (s1, d1) = (t, d')" using Cons.prems(4) by (simp add: publish_all_def pub)
  note IH = Cons.IH [OF step(1) step(3) [OF Cons.prems(2)] es this]
  have "view d' = view d @ published ops (e # es) (s, d)"
    using IH step(4) by (cases r) (simp_all add: pub)
  with IH step(2) show ?case by metis
qed (simp add: publish_all_def)

lemma history_complete:
  assumes "log_behaves ops view" and "log_inv n (view d) s" and "length (dc_events s) \<le> dc_capacity s"
  shows "events_for_order ops k (s, d) = filter (\<lambda>e. de_order_id e = k) (view d)"
    and "recent m s = take m (take (dc_capacity s) (rev (view d)))"
proof -
  obtain A where A: "view d = A @ rev (dc_events s)" "\<forall>k. k \<notin> dc_incomplete s \<longrightarrow> of_order k A = []"
      "A \<noteq> [] \<longrightarrow> dc_capacity s \<le> length (dc_events s)"
    using assms(2) unfolding log_inv_def by blast
  have idx: "map_of (dc_events_by_order s) k = (if of_order k (rev (dc_events s)) = [] then None
      else Some (of_order k (rev (dc_events s))))"
    using assms(2) by (simp add: log_inv_def indexes_def)
  have sel: "select_order ops k d = of_order k (view d)"
    using assms(1) by (simp add: log_behaves_def of_order_def)
  have "of_order k (view d) = of_order k (rev (dc_events s))" if "k \<notin> dc_incomplete s"
    using A(1,2) that by simp
  then show "events_for_order ops k (s, d) = filter (\<lambda>e. de_order_id e = k) (view d)"
    unfolding of_order_def [symmetric] by (simp add: events_for_order_def idx sel)
  have "take (dc_capacity s) (rev (view d)) = dc_events s"
    using A(1,3) assms(3) by (cases "A = []") simp_all
  then show "recent m s = take m (take (dc_capacity s) (rev (view d)))" by (simp add: recent_def min_def)
qed

section \<open>The properties\<close>


definition table_log :: "drop_copy_event list drop_copy_database" where
  "table_log =
     \<lparr>insert_event = (\<lambda>w d. (True, insort_key (\<lambda>e. sint (de_id e)) w d)),
      select_recent = (\<lambda>n d. take n (rev d)),
      select_order = (\<lambda>k d. filter (\<lambda>e. de_order_id e = k) d)\<rparr>"

lemma table_log_behaves: "log_behaves table_log id"
  by (simp add: log_behaves_def table_log_def)

definition sample_event :: "order_id \<Rightarrow> drop_copy_event" where
  "sample_event k = \<lparr>de_id = 0, de_timestamp_ns = 0, de_order_id = k, de_symbol = 1,
     de_event_type = ''OMS_FILL'', de_status = ''FILLED'', de_remaining = 0, de_reject_reason = RejNone\<rparr>"
lemmas log_eval = publish_all_def publish_def persist_def check_sqlite_def table_log_def open_drop_copy_def
  load_recent_def index_event_def sample_event_def c_string_def evict_steps evict_oldest_def Let_def
  events_for_order_def

lemma first_run:
  "publish_all table_log [sample_event 7, sample_event 8] (open_drop_copy table_log 1 [], []) =
   (\<lparr>dc_capacity = 1, dc_events = [(sample_event 8)\<lparr>de_id := 2\<rparr>],
     dc_events_by_order = [(8, [(sample_event 8)\<lparr>de_id := 2\<rparr>])], dc_incomplete = {7}, dc_next_id = 3\<rparr>,
    [(sample_event 7)\<lparr>de_id := 1\<rparr>, (sample_event 8)\<lparr>de_id := 2\<rparr>])"
  by (simp add: log_eval)

lemma second_run:
  "publish_all table_log [sample_event 7] (open_drop_copy table_log 1
     [(sample_event 7)\<lparr>de_id := 1\<rparr>, (sample_event 8)\<lparr>de_id := 2\<rparr>],
     [(sample_event 7)\<lparr>de_id := 1\<rparr>, (sample_event 8)\<lparr>de_id := 2\<rparr>]) =
   (\<lparr>dc_capacity = 1, dc_events = [(sample_event 7)\<lparr>de_id := 3\<rparr>],
     dc_events_by_order = [(7, [(sample_event 7)\<lparr>de_id := 3\<rparr>])], dc_incomplete = {8}, dc_next_id = 4\<rparr>,
    [(sample_event 7)\<lparr>de_id := 1\<rparr>, (sample_event 8)\<lparr>de_id := 2\<rparr>, (sample_event 7)\<lparr>de_id := 3\<rparr>])"
  by (simp add: log_eval)

text \<open>A restart can truncate a history. The set of the orders whose history is incomplete is
  rebuilt from the cached rows only. When the table has more rows than the cache holds, an order
  all of whose rows are older than the cache is not in the set; its next event makes the index look
  complete, and \<open>events_for_order\<close> returns that event alone, while the table holds two.\<close>

theorem history_truncated:
  "let (s1, d1) = publish_all table_log [sample_event 7, sample_event 8] (open_drop_copy table_log 1 [], []);
       (s2, d2) = publish_all table_log [sample_event 7] (open_drop_copy table_log 1 d1, d1)
   in map de_id (filter (\<lambda>e. de_order_id e = 7) d2) = [1, 3] \<and>
      map de_id (events_for_order table_log 7 (s2, d2)) = [3]"
  unfolding Let_def first_run case_prod_conv second_run by (simp add: events_for_order_def sample_event_def)

lemma third_run:
  "publish_all table_log [sample_event 7, sample_event 8, sample_event 7]
     (open_drop_copy table_log 2 [], []) =
   (\<lparr>dc_capacity = 2, dc_events = [(sample_event 7)\<lparr>de_id := 3\<rparr>, (sample_event 8)\<lparr>de_id := 2\<rparr>],
     dc_events_by_order = [(7, [(sample_event 7)\<lparr>de_id := 3\<rparr>]), (8, [(sample_event 8)\<lparr>de_id := 2\<rparr>])],
     dc_incomplete = {7}, dc_next_id = 4\<rparr>,
    [(sample_event 7)\<lparr>de_id := 1\<rparr>, (sample_event 8)\<lparr>de_id := 2\<rparr>, (sample_event 7)\<lparr>de_id := 3\<rparr>])"
  by (simp add: log_eval)


end
