(* ===== verification/Router.thy ===== *)
theory Router
  imports Oms Double_Arith "HOL-Library.Char_ord" "HOL-Library.List_Lexorder" "HOL-Library.Product_Lexorder"
begin

text \<open>
  The smart order router (include/minimatch/router.hpp, src/router.cpp): the levels of the healthy
  venues are ordered by their price after fees and latency and taken greedily, within the limit, the
  slippage allowed and the number of venues.

  \<open>std::sort\<close> is a stable sort by the comparator of the code; candidates the comparator does not
  tell apart, which \<open>std::sort\<close> may leave in any order, agree in everything it looks at. A
  \<open>std::size\_t\<close> is a natural number.
\<close>

record venue_level =
  vl_price :: double
  vl_quantity :: double

record venue_quote =
  vq_venue :: string
  vq_bids :: "venue_level list"
  vq_asks :: "venue_level list"
  vq_taker_fee_bps :: double
  vq_latency_ms :: double
  vq_latency_cost_bps_per_ms :: double
  vq_healthy :: bool

record route_request =
  rt_side :: route_side
  rt_quantity :: double
  rt_limit_price :: double
  rt_max_slippage_bps :: double
  rt_max_venue_count :: nat
  rt_all_or_none :: bool

record route_leg =
  lg_venue :: string
  lg_price :: double
  lg_quantity :: double
  lg_estimated_fee :: double
  lg_effective_price :: double
  lg_latency_ms :: double
  lg_taker_fee_bps :: double
  lg_latency_cost_bps_per_ms :: double
  lg_level_index :: nat

record route_plan =
  pn_complete :: bool
  pn_requested_quantity :: double
  pn_routed_quantity :: double
  pn_estimated_notional :: double
  pn_estimated_fees :: double
  pn_average_price :: double
  pn_legs :: "route_leg list"

record candidate_level =
  cl_venue :: string
  cl_price :: double
  cl_quantity :: double
  cl_taker_fee_bps :: double
  cl_latency_ms :: double
  cl_latency_cost_bps_per_ms :: double
  cl_effective_price :: double
  cl_level_index :: nat

section \<open>Candidates\<close>

definition calculate_effective_price ::
  "double \<Rightarrow> route_side \<Rightarrow> double \<Rightarrow> double \<Rightarrow> double \<Rightarrow> double"
where
  "calculate_effective_price price side taker_fee_bps latency_ms latency_cost_bps_per_ms =
     (let total_cost_bps = d_add taker_fee_bps (d_mul latency_ms latency_cost_bps_per_ms);
          cost_rate = d_div total_cost_bps (Number 10000)
      in if side = Buy then d_mul price (d_add (Number 1) cost_rate)
         else d_mul price (d_sub (Number 1) cost_rate))"

definition valid_level :: "venue_level \<Rightarrow> bool" where
  "valid_level level \<longleftrightarrow> is_finite (vl_price level) \<and> is_finite (vl_quantity level) \<and>
     d_less (Number 0) (vl_price level) \<and> d_less (Number 0) (vl_quantity level)"

definition side_levels :: "route_side \<Rightarrow> venue_quote \<Rightarrow> venue_level list" where
  "side_levels side quote = (if side = Buy then vq_asks quote else vq_bids quote)"

definition candidate :: "route_side \<Rightarrow> venue_quote \<Rightarrow> nat \<times> venue_level \<Rightarrow> candidate_level" where
  "candidate side quote entry =
     (case entry of (index, level) \<Rightarrow>
      \<lparr>cl_venue = vq_venue quote, cl_price = vl_price level, cl_quantity = vl_quantity level,
       cl_taker_fee_bps = vq_taker_fee_bps quote, cl_latency_ms = vq_latency_ms quote,
       cl_latency_cost_bps_per_ms = vq_latency_cost_bps_per_ms quote,
       cl_effective_price = calculate_effective_price (vl_price level) side (vq_taker_fee_bps quote)
         (vq_latency_ms quote) (vq_latency_cost_bps_per_ms quote),
       cl_level_index = index\<rparr>)"

definition candidates :: "route_side \<Rightarrow> venue_quote list \<Rightarrow> candidate_level list" where
  "candidates side quotes =
     concat (map (\<lambda>quote.
       if \<not> vq_healthy quote then []
       else map (candidate side quote)
         (filter (\<lambda>(index, level). valid_level level) (enumerate 0 (side_levels side quote)))) quotes)"

definition candidate_before :: "route_side \<Rightarrow> candidate_level \<Rightarrow> candidate_level \<Rightarrow> bool" where
  "candidate_before side left right \<longleftrightarrow>
     (if \<not> d_eq (cl_effective_price left) (cl_effective_price right) then
        (if side = Buy then d_less (cl_effective_price left) (cl_effective_price right)
         else d_less (cl_effective_price right) (cl_effective_price left))
      else if \<not> d_eq (cl_latency_ms left) (cl_latency_ms right) then
        d_less (cl_latency_ms left) (cl_latency_ms right)
      else if cl_venue left \<noteq> cl_venue right then cl_venue left < cl_venue right
      else cl_level_index left < cl_level_index right)"

fun insert_by :: "('a \<Rightarrow> 'a \<Rightarrow> bool) \<Rightarrow> 'a \<Rightarrow> 'a list \<Rightarrow> 'a list" where
  "insert_by lt x [] = [x]"
| "insert_by lt x (y # ys) = (if lt y x then y # insert_by lt x ys else x # y # ys)"

definition sort_by :: "('a \<Rightarrow> 'a \<Rightarrow> bool) \<Rightarrow> 'a list \<Rightarrow> 'a list" where
  "sort_by lt xs = foldr (insert_by lt) xs []"

section \<open>The plan\<close>

definition tiny :: double where
  "tiny = round_double False (1 / 10 ^ 12)"

definition violates_limit :: "route_request \<Rightarrow> candidate_level \<Rightarrow> bool" where
  "violates_limit request c \<longleftrightarrow>
     d_less (Number 0) (rt_limit_price request) \<and>
     (if rt_side request = Buy then d_less (rt_limit_price request) (cl_price c)
      else d_less (cl_price c) (rt_limit_price request))"

definition violates_slippage :: "route_request \<Rightarrow> double \<Rightarrow> candidate_level \<Rightarrow> bool" where
  "violates_slippage request arrival_effective_price c \<longleftrightarrow>
     (let slippage_fraction = d_div (rt_max_slippage_bps request) (Number 10000)
      in if rt_side request = Buy
         then d_less (d_mul arrival_effective_price (d_add (Number 1) slippage_fraction)) (cl_effective_price c)
         else d_less (cl_effective_price c) (d_mul arrival_effective_price (d_sub (Number 1) slippage_fraction)))"

definition leg_of :: "candidate_level \<Rightarrow> double \<Rightarrow> route_leg" where
  "leg_of c routed =
     \<lparr>lg_venue = cl_venue c, lg_price = cl_price c, lg_quantity = routed,
      lg_estimated_fee = d_div (d_mul (d_mul routed (cl_price c)) (cl_taker_fee_bps c)) (Number 10000),
      lg_effective_price = cl_effective_price c, lg_latency_ms = cl_latency_ms c,
      lg_taker_fee_bps = cl_taker_fee_bps c, lg_latency_cost_bps_per_ms = cl_latency_cost_bps_per_ms c,
      lg_level_index = cl_level_index c\<rparr>"

text \<open>The loop over the candidates: what remains, the venues used and the plan so far.\<close>

fun take_candidates ::
  "route_request \<Rightarrow> double \<Rightarrow> candidate_level list \<Rightarrow> double \<times> string set \<times> route_plan
    \<Rightarrow> double \<times> string set \<times> route_plan"
where
  "take_candidates request arrival [] acc = acc"
| "take_candidates request arrival (c # cs) (remaining, used_venues, plan) =
     (if d_le remaining tiny then (remaining, used_venues, plan)
      else if violates_limit request c \<or> violates_slippage request arrival c \<or>
              (cl_venue c \<notin> used_venues \<and> rt_max_venue_count request \<le> card used_venues)
      then take_candidates request arrival cs (remaining, used_venues, plan)
      else
        let routed = d_min remaining (cl_quantity c);
            leg = leg_of c routed;
            notional = d_mul routed (cl_price c)
        in take_candidates request arrival cs
             (d_sub remaining routed, insert (cl_venue c) used_venues,
              plan\<lparr>pn_legs := pn_legs plan @ [leg],
                   pn_routed_quantity := d_add (pn_routed_quantity plan) routed,
                   pn_estimated_notional := d_add (pn_estimated_notional plan) notional,
                   pn_estimated_fees := d_add (pn_estimated_fees plan) (lg_estimated_fee leg)\<rparr>))"

definition route_checks :: "route_request \<Rightarrow> string option" where
  "route_checks request =
     (if \<not> is_finite (rt_quantity request) \<or> d_le (rt_quantity request) (Number 0)
      then Some ''route quantity must be positive''
      else if \<not> is_finite (rt_limit_price request) \<or> d_less (rt_limit_price request) (Number 0)
      then Some ''limit price must be non-negative''
      else if \<not> is_finite (rt_max_slippage_bps request) \<or> d_less (rt_max_slippage_bps request) (Number 0)
      then Some ''maximum slippage must be non-negative''
      else if rt_max_venue_count request = 0 then Some ''maximum venue count must be positive''
      else None)"

definition finish_plan :: "route_request \<Rightarrow> route_plan \<Rightarrow> route_plan" where
  "finish_plan request plan =
     (let p = plan\<lparr>pn_complete := d_le (rt_quantity request) (d_add (pn_routed_quantity plan) tiny)\<rparr>
      in if rt_all_or_none request \<and> \<not> pn_complete p then
           p\<lparr>pn_legs := [], pn_routed_quantity := Number 0, pn_estimated_notional := Number 0,
             pn_estimated_fees := Number 0, pn_average_price := Number 0\<rparr>
         else if d_less (Number 0) (pn_routed_quantity p) then
           p\<lparr>pn_average_price := d_div (pn_estimated_notional p) (pn_routed_quantity p)\<rparr>
         else p)"

definition build_route_plan :: "route_request \<Rightarrow> venue_quote list \<Rightarrow> string + route_plan" where
  "build_route_plan request quotes =
     (case route_checks request of
        Some e \<Rightarrow> Inl e
      | None \<Rightarrow>
          let cs = sort_by (candidate_before (rt_side request)) (candidates (rt_side request) quotes);
              plan = \<lparr>pn_complete = False, pn_requested_quantity = rt_quantity request,
                pn_routed_quantity = Number 0, pn_estimated_notional = Number 0,
                pn_estimated_fees = Number 0, pn_average_price = Number 0, pn_legs = []\<rparr>
          in case cs of
               [] \<Rightarrow> Inr plan
             | first # _ \<Rightarrow>
                 Inr (finish_plan request
                   (snd (snd (take_candidates request (cl_effective_price first) cs
                     (rt_quantity request, {}, plan))))))"

text \<open>The best bid and the best ask over the healthy venues, as the scheduler of algorithms
  (src/algo\_scheduler.cpp) and the service (src/apps/api.cpp) take them from the quotes.\<close>

definition best_quotes :: "venue_quote list \<Rightarrow> double \<times> double" where
  "best_quotes qs = fold (\<lambda>q (best_bid, best_ask).
     case (vq_healthy q, vq_bids q, vq_asks q) of
       (True, b # _, a # _) \<Rightarrow>
         (if d_eq best_bid (Number 0) \<or> d_less best_bid (vl_price b) then vl_price b else best_bid,
          if d_eq best_ask (Number 0) \<or> d_less (vl_price a) best_ask then vl_price a else best_ask)
     | _ \<Rightarrow> (best_bid, best_ask)) qs (Number 0, Number 0)"

section \<open>The order of the candidates\<close>

text \<open>A double that is not NaN as an element of a linear order.\<close>

definition rank_of :: "double \<Rightarrow> int \<times> rat" where
  "rank_of x = (case x of Infinite s \<Rightarrow> (if s then - 1 else 1, 0) | _ \<Rightarrow> (0, value_of x))"

lemma rank_less: "\<not> is_nan x \<Longrightarrow> \<not> is_nan y \<Longrightarrow> d_less x y \<longleftrightarrow> rank_of x < rank_of y"
  by (cases x; cases y) (auto simp: rank_of_def)

lemma rank_eq: "\<not> is_nan x \<Longrightarrow> \<not> is_nan y \<Longrightarrow> d_eq x y \<longleftrightarrow> rank_of x = rank_of y"
  by (simp add: d_eq_def d_le_def rank_less not_less order_antisym_conv) (auto simp: not_less)

definition candidate_key :: "route_side \<Rightarrow> candidate_level \<Rightarrow> (int \<times> rat) \<times> (int \<times> rat) \<times> string \<times> nat" where
  "candidate_key side c =
     (rank_of (if side = Buy then cl_effective_price c else d_neg (cl_effective_price c)),
      rank_of (cl_latency_ms c), cl_venue c, cl_level_index c)"

lemma neg_order:
  "\<not> is_nan x \<Longrightarrow> \<not> is_nan y \<Longrightarrow> d_less (d_neg x) (d_neg y) \<longleftrightarrow> d_less y x"
  "\<not> is_nan x \<Longrightarrow> \<not> is_nan y \<Longrightarrow> d_eq (d_neg x) (d_neg y) \<longleftrightarrow> d_eq x y"
  by (cases x; cases y; auto simp: d_eq_def d_le_def)+

lemma candidate_before_key:
  assumes "\<not> is_nan (cl_effective_price a)" "\<not> is_nan (cl_effective_price b)"
    and "\<not> is_nan (cl_latency_ms a)" "\<not> is_nan (cl_latency_ms b)"
  shows "candidate_before side a b \<longleftrightarrow> candidate_key side a < candidate_key side b"
proof -
  let ?e = "\<lambda>c. if side = Buy then cl_effective_price c else d_neg (cl_effective_price c)"
  have "\<not> is_nan (?e a)" "\<not> is_nan (?e b)" using assms by simp_all
  moreover have "candidate_before side a b \<longleftrightarrow>
     (if \<not> d_eq (?e a) (?e b) then d_less (?e a) (?e b)
      else if \<not> d_eq (cl_latency_ms a) (cl_latency_ms b) then d_less (cl_latency_ms a) (cl_latency_ms b)
      else if cl_venue a \<noteq> cl_venue b then cl_venue a < cl_venue b else cl_level_index a < cl_level_index b)"
    using assms by (simp add: candidate_before_def neg_order)
  ultimately show ?thesis
    using assms by (simp add: candidate_key_def rank_less rank_eq less_prod_def')
qed

lemma sort_by_key:
  assumes "\<forall>a \<in> set xs. \<forall>b \<in> set xs. lt a b \<longleftrightarrow> key a < key b"
  shows "sort_by lt xs = sort_key key xs"
proof -
  have "insert_by lt x ys = insort_key key x ys" if "\<forall>y \<in> set ys. lt y x \<longleftrightarrow> key y < key x" for x ys
    using that by (induction ys) (auto simp: not_less)
  moreover have "set (foldr (insort_key key) ys []) = set ys" for ys
    by (metis set_sort sort_key_def)
  ultimately have "foldr (insert_by lt) ys [] = foldr (insort_key key) ys []" if "set ys \<subseteq> set xs" for ys
    using that assms by (induction ys) (auto simp: subset_iff)
  then show ?thesis by (simp add: sort_by_def sort_key_def)
qed

section \<open>The legs of a plan\<close>

text \<open>The loop without its totals: what remains, the venues and the legs.\<close>

fun take_legs ::
  "route_request \<Rightarrow> double \<Rightarrow> candidate_level list \<Rightarrow> double \<Rightarrow> string set \<Rightarrow> double \<times> string set \<times> route_leg list"
where
  "take_legs request arrival [] remaining used = (remaining, used, [])"
| "take_legs request arrival (c # cs) remaining used =
     (if d_le remaining tiny then (remaining, used, [])
      else if violates_limit request c \<or> violates_slippage request arrival c \<or>
              (cl_venue c \<notin> used \<and> rt_max_venue_count request \<le> card used)
      then take_legs request arrival cs remaining used
      else let routed = d_min remaining (cl_quantity c);
               (r, u, legs) = take_legs request arrival cs (d_sub remaining routed) (insert (cl_venue c) used)
           in (r, u, leg_of c routed # legs))"

definition leg_notional :: "route_leg \<Rightarrow> double" where
  "leg_notional leg = d_mul (lg_quantity leg) (lg_price leg)"

definition with_legs :: "route_leg list \<Rightarrow> route_plan \<Rightarrow> route_plan" where
  "with_legs legs plan = plan\<lparr>pn_legs := pn_legs plan @ legs,
     pn_routed_quantity := foldl d_add (pn_routed_quantity plan) (map lg_quantity legs),
     pn_estimated_notional := foldl d_add (pn_estimated_notional plan) (map leg_notional legs),
     pn_estimated_fees := foldl d_add (pn_estimated_fees plan) (map lg_estimated_fee legs)\<rparr>"

lemma take_candidates_legs:
  "take_candidates request arrival cs (remaining, used, plan) =
     (case take_legs request arrival cs remaining used of (r, u, legs) \<Rightarrow> (r, u, with_legs legs plan))"
proof (induction cs arbitrary: remaining used plan)
  case (Cons c cs)
  show ?case
    by (cases "take_legs request arrival cs (d_sub remaining (d_min remaining (cl_quantity c)))
        (insert (cl_venue c) used)")
      (simp add: Cons.IH Let_def with_legs_def leg_of_def leg_notional_def)
qed (simp add: with_legs_def)

text \<open>One step of the loop that takes a candidate.\<close>

definition refused :: "route_request \<Rightarrow> double \<Rightarrow> candidate_level \<Rightarrow> string set \<Rightarrow> bool" where
  "refused request arrival c used \<longleftrightarrow> violates_limit request c \<or> violates_slippage request arrival c \<or>
     (cl_venue c \<notin> used \<and> rt_max_venue_count request \<le> card used)"

lemma tiny_pos: "d_less (Number 0) tiny"
  unfolding tiny_def by (rule tiny_decides)

lemma left_over:
  assumes "is_finite remaining" and "proper remaining" and "\<not> d_le remaining tiny"
    and "is_finite q" and "d_less (Number 0) q"
  shows "d_less (Number 0) (d_min remaining q)" and "d_le (d_min remaining q) q"
    and "is_finite (d_sub remaining (d_min remaining q))"
    and "d_le (d_sub remaining (d_min remaining q)) (Number 0) \<or> d_min remaining q = q"
proof -
  have "\<not> is_nan remaining" "\<not> is_nan tiny" using assms(1) by (cases remaining; simp add: tiny_def)+
  then have "d_less tiny remaining" using assms(3) by (simp add: d_le_def)
  then have pos: "d_less (Number 0) remaining"
    using d_le_less_trans [OF d_less_le [OF tiny_pos]] by blast
  show m: "d_less (Number 0) (d_min remaining q)" "d_le (d_min remaining q) q"
    using assms(1,4,5) pos by (cases remaining; cases q; auto simp: d_min_def d_le_def)+
  have low: "d_le (d_min remaining q) remaining"
    using assms(1,4) by (cases remaining; cases q; auto simp: d_min_def d_le_def)
  show "d_le (d_sub remaining (d_min remaining q)) (Number 0) \<or> d_min remaining q = q"
    using d_sub_self [OF assms(1)] by (auto simp: d_min_def d_le_def)
  have "d_le (d_sub remaining (d_min remaining q)) remaining"
    using d_sub_antimono [OF assms(1) _ d_less_le [OF m(1)]] d_sub_0 [OF assms(2) pos] by (simp add: d_le_def)
  moreover have "d_le (Number 0) (d_sub remaining (d_min remaining q))"
    using d_sub_antimono [OF assms(1) d_less_le [OF m(1)] low] d_sub_self [OF assms(1)] by simp
  ultimately show "is_finite (d_sub remaining (d_min remaining q))"
    using assms(1) by (cases "d_sub remaining (d_min remaining q)"; cases remaining) (auto simp: d_le_def)
qed

lemma take_legs_nothing: "d_le remaining tiny \<Longrightarrow> take_legs request arrival cs remaining used = (remaining, used, [])"
  by (cases cs) simp_all

definition good_candidate :: "candidate_level \<Rightarrow> bool" where
  "good_candidate c \<longleftrightarrow> is_finite (cl_quantity c) \<and> d_less (Number 0) (cl_quantity c)"

lemma take_legs_sound:
  assumes "take_legs request arrival cs remaining used = (r, u, legs)"
    and "is_finite remaining" and "proper remaining" and "\<forall>c \<in> set cs. good_candidate c"
    and "finite used" and "card used \<le> rt_max_venue_count request"
  shows "(\<forall>leg \<in> set legs. \<exists>c \<in> set cs. leg = leg_of c (lg_quantity leg) \<and> d_less (Number 0) (lg_quantity leg) \<and>
      d_le (lg_quantity leg) (cl_quantity c) \<and> \<not> violates_limit request c \<and> \<not> violates_slippage request arrival c) \<and>
    u = used \<union> lg_venue ` set legs \<and> card u \<le> rt_max_venue_count request \<and>
    r = foldl d_sub remaining (map lg_quantity legs) \<and>
    (d_less tiny r \<longrightarrow> (\<forall>c \<in> set cs. leg_of c (cl_quantity c) \<in> set legs \<or> refused request arrival c u))"
  using assms
proof (induction cs arbitrary: remaining used r u legs)
  case (Cons c cs)
  show ?case
  proof (cases "d_le remaining tiny \<or> refused request arrival c used")
    case True
    show ?thesis
    proof (cases "d_le remaining tiny")
      case True
      then have "r = remaining" "u = used" "legs = []" using Cons.prems(1) by simp_all
      moreover have "\<not> d_less tiny remaining" using True by (simp add: d_le_def)
      ultimately show ?thesis using Cons.prems(6) by simp
    next
      case False
      with True have ref: "refused request arrival c used" by simp
      then have rec: "take_legs request arrival cs remaining used = (r, u, legs)"
        using Cons.prems(1) False by (simp add: refused_def)
      note IH = Cons.IH [OF rec Cons.prems(2,3) _ Cons.prems(5,6)]
      have cs: "\<forall>c \<in> set cs. good_candidate c" using Cons.prems(4) by simp
      have grow: "used \<subseteq> u" "finite u" using IH [OF cs] Cons.prems(5) by auto
      have "refused request arrival c u"
      proof (cases "violates_limit request c \<or> violates_slippage request arrival c")
        case False
        then have "cl_venue c \<notin> used" "rt_max_venue_count request \<le> card used" using ref by (auto simp: refused_def)
        moreover have "card u \<le> rt_max_venue_count request" using IH [OF cs] by blast
        ultimately have "u = used" using card_seteq [OF grow(2,1)] by simp
        then show ?thesis using ref by simp
      qed (auto simp: refused_def)
      then show ?thesis using IH [OF cs] by auto
    qed
  next
    case False
    define q where "q = d_min remaining (cl_quantity c)"
    obtain r' u' legs' where rec: "take_legs request arrival cs (d_sub remaining q) (insert (cl_venue c) used) = (r', u', legs')"
      by (metis prod.exhaust)
    then have eq: "r = r'" "u = u'" "legs = leg_of c q # legs'"
      using Cons.prems(1) False by (auto simp: refused_def q_def Let_def)
    have "good_candidate c" using Cons.prems(4) by simp
    then have step: "d_less (Number 0) q" "d_le q (cl_quantity c)" "is_finite (d_sub remaining q)"
        "d_le (d_sub remaining q) (Number 0) \<or> q = cl_quantity c"
      using left_over [OF Cons.prems(2,3)] False by (auto simp: good_candidate_def q_def)
    have proper_rest: "proper (d_sub remaining q)" by (simp add: d_sub_def)
    have card: "card (insert (cl_venue c) used) \<le> rt_max_venue_count request"
      using False Cons.prems(5,6) by (auto simp: refused_def card_insert_if)
    have IH: "(\<forall>leg \<in> set legs'. \<exists>c \<in> set cs. leg = leg_of c (lg_quantity leg) \<and> d_less (Number 0) (lg_quantity leg) \<and>
      d_le (lg_quantity leg) (cl_quantity c) \<and> \<not> violates_limit request c \<and> \<not> violates_slippage request arrival c) \<and>
      u' = insert (cl_venue c) used \<union> lg_venue ` set legs' \<and> card u' \<le> rt_max_venue_count request \<and>
      r' = foldl d_sub (d_sub remaining q) (map lg_quantity legs') \<and>
      (d_less tiny r' \<longrightarrow> (\<forall>c \<in> set cs. leg_of c (cl_quantity c) \<in> set legs' \<or> refused request arrival c u'))"
      using Cons.prems(4,5) by (intro Cons.IH [OF rec step(3) proper_rest _ _ card]) simp_all
    have leg: "lg_quantity (leg_of c q) = q" "lg_venue (leg_of c q) = cl_venue c" by (simp_all add: leg_of_def)
    have full: "q = cl_quantity c" if open_end: "d_less tiny r'"
    proof (rule ccontr)
      assume "q \<noteq> cl_quantity c"
      then have "d_le (d_sub remaining q) tiny"
        using step(4) d_less_le [OF tiny_pos] d_le_trans by blast
      then have "r' = d_sub remaining q" "d_le (d_sub remaining q) tiny"
        using rec by (simp_all add: take_legs_nothing)
      with open_end show False by (simp add: d_le_def)
    qed
    have "\<not> violates_limit request c" "\<not> violates_slippage request arrival c" using False by (simp_all add: refused_def)
    then show ?thesis
      using IH step(1,2) full unfolding eq by (auto simp: leg)
  qed
qed simp

definition better_price :: "route_side \<Rightarrow> double \<Rightarrow> double \<Rightarrow> bool" where
  "better_price side x y \<longleftrightarrow> (if side = Buy then d_less x y else d_less y x)"

lemma take_legs_sorted:
  assumes "take_legs request arrival cs remaining used = (r, u, legs)"
    and "sorted_wrt (\<lambda>a b. \<not> better_price side (cl_effective_price b) (cl_effective_price a)) cs"
  shows "sorted_wrt (\<lambda>a b. \<not> better_price side b a) (map lg_effective_price legs) \<and>
    lg_effective_price ` set legs \<subseteq> cl_effective_price ` set cs"
  using assms
proof (induction cs arbitrary: remaining used r u legs)
  case (Cons c cs)
  show ?case
  proof (cases "d_le remaining tiny \<or> refused request arrival c used")
    case True
    then have "legs = [] \<or> take_legs request arrival cs remaining used = (r, u, legs)"
      using Cons.prems(1) by (auto simp: refused_def split: if_splits)
    then show ?thesis using Cons.IH [of remaining used r u legs] Cons.prems(2) by auto
  next
    case False
    define q where "q = d_min remaining (cl_quantity c)"
    obtain r' u' legs' where rec: "take_legs request arrival cs (d_sub remaining q) (insert (cl_venue c) used) = (r', u', legs')"
      by (metis prod.exhaust)
    then have "legs = leg_of c q # legs'"
      using Cons.prems(1) False by (auto simp: refused_def q_def Let_def)
    then show ?thesis using Cons.IH [OF rec] Cons.prems(2) by (auto simp: leg_of_def)
  qed
qed simp

lemma in_candidates:
  "c \<in> set (candidates side quotes) \<longleftrightarrow>
     (\<exists>quote \<in> set quotes. \<exists>i < length (side_levels side quote). vq_healthy quote \<and>
        valid_level (side_levels side quote ! i) \<and> c = candidate side quote (i, side_levels side quote ! i))"
  by (auto simp: candidates_def in_set_enumerate_eq image_iff split: if_splits)

lemma candidates_good: "c \<in> set (candidates side quotes) \<Longrightarrow> good_candidate c"
  by (auto simp: in_candidates good_candidate_def valid_level_def candidate_def)

lemma fst_mono: "(p :: 'a :: linorder \<times> 'b :: linorder) \<le> q \<Longrightarrow> fst p \<le> fst q"
  by (auto simp: less_eq_prod_def)

lemma sorted_candidates:
  fixes side :: route_side
  assumes "\<forall>c \<in> set cs. \<not> is_nan (cl_effective_price c) \<and> \<not> is_nan (cl_latency_ms c)"
  defines "ds \<equiv> sort_by (candidate_before side) cs"
  shows "set ds = set cs"
    and "sorted_wrt (\<lambda>a b. \<not> better_price side (cl_effective_price b) (cl_effective_price a)) ds"
proof -
  have ds: "ds = sort_key (candidate_key side) cs"
    unfolding ds_def using assms(1) by (intro sort_by_key) (simp add: candidate_before_key)
  then show set: "set ds = set cs" by simp
  have "sorted (map (candidate_key side) ds)" by (simp add: ds)
  then have "sorted_wrt (\<lambda>a b. candidate_key side a \<le> candidate_key side b) ds" by (simp add: sorted_map)
  then show "sorted_wrt (\<lambda>a b. \<not> better_price side (cl_effective_price b) (cl_effective_price a)) ds"
  proof (rule sorted_wrt_mono_rel [rotated])
    fix a b
    assume ab: "a \<in> set ds" "b \<in> set ds" "candidate_key side a \<le> candidate_key side b"
    then have nan: "\<not> is_nan (cl_effective_price a)" "\<not> is_nan (cl_effective_price b)" using assms(1) set by blast+
    have "rank_of (if side = Buy then cl_effective_price a else d_neg (cl_effective_price a)) \<le>
        rank_of (if side = Buy then cl_effective_price b else d_neg (cl_effective_price b))"
      using fst_mono [OF ab(3)] by (simp add: candidate_key_def)
    then show "\<not> better_price side (cl_effective_price b) (cl_effective_price a)"
      using nan rank_less [of "if side = Buy then cl_effective_price b else d_neg (cl_effective_price b)"
          "if side = Buy then cl_effective_price a else d_neg (cl_effective_price a)"]
      by (cases "side = Buy") (simp_all add: better_price_def neg_order not_less [symmetric])
  qed
qed

section \<open>The property\<close>

text \<open>A plan is the greedy one: \<open>arrival\<close> is the best price after costs over all candidates.\<close>

definition taken_from :: "route_request \<Rightarrow> double \<Rightarrow> venue_quote list \<Rightarrow> route_leg \<Rightarrow> bool" where
  "taken_from request arrival quotes leg \<longleftrightarrow>
     (\<exists>quote \<in> set quotes. \<exists>i < length (side_levels (rt_side request) quote).
        let level = side_levels (rt_side request) quote ! i; c = candidate (rt_side request) quote (i, level) in
        vq_healthy quote \<and> valid_level level \<and> leg = leg_of c (lg_quantity leg) \<and>
        d_less (Number 0) (lg_quantity leg) \<and> d_le (lg_quantity leg) (vl_quantity level) \<and>
        \<not> violates_limit request c \<and> \<not> violates_slippage request arrival c)"


definition sample_quote :: "string \<Rightarrow> rat \<Rightarrow> venue_quote" where
  "sample_quote venue p = \<lparr>vq_venue = venue, vq_bids = [],
     vq_asks = [\<lparr>vl_price = Number p, vl_quantity = Number 5\<rparr>], vq_taker_fee_bps = Number 0,
     vq_latency_ms = Number 0, vq_latency_cost_bps_per_ms = Number 0, vq_healthy = True\<rparr>"

definition sample_route :: route_request where
  "sample_route = \<lparr>rt_side = Buy, rt_quantity = Number 8, rt_limit_price = Number 0,
     rt_max_slippage_bps = Number 10000, rt_max_venue_count = 2, rt_all_or_none = False\<rparr>"

lemma sample_candidates:
  "candidates Buy [sample_quote ''b'' 101, sample_quote ''a'' 100] =
     [candidate Buy (sample_quote ''b'' 101) (0, \<lparr>vl_price = Number 101, vl_quantity = Number 5\<rparr>),
      candidate Buy (sample_quote ''a'' 100) (0, \<lparr>vl_price = Number 100, vl_quantity = Number 5\<rparr>)]"
  by (simp add: candidates_def sample_quote_def side_levels_def valid_level_def)

lemma sample_costs:
  "cl_effective_price (candidate Buy (sample_quote v p) (i, level)) = d_mul (vl_price level) (Number 1)"
  "cl_latency_ms (candidate Buy (sample_quote v p) (i, level)) = Number 0"
  by (simp_all add: candidate_def sample_quote_def calculate_effective_price_def d_mul_def d_div_def
      round_double_0 Let_def)


end
