(* ===== verification/Tca.thy ===== *)
theory Tca
  imports Router
begin

text \<open>
  Transaction cost analysis (include/minimatch/tca.hpp, src/tca.cpp) and the execution quality of a
  parent order (include/minimatch/execution\_analytics.hpp, src/execution\_analytics.cpp). The only
  exception is \<open>std::invalid_argument\<close>: \<open>Inl\<close> with its message.
\<close>

record execution_fill =
  ef_order_id :: u64
  ef_venue :: string
  ef_price :: double
  ef_quantity :: double
  ef_fee :: double
  ef_timestamp_ns :: u64

record venue_tca =
  vt_venue :: string
  vt_filled_quantity :: double
  vt_notional :: double
  vt_fees :: double
  vt_average_fill_price :: double
  vt_arrival_slippage_bps :: double
  vt_vwap_slippage_bps :: double

record tca_report =
  tc_side :: route_side
  tc_ordered_quantity :: double
  tc_filled_quantity :: double
  tc_unfilled_quantity :: double
  tc_fill_rate :: double
  tc_average_fill_price :: double
  tc_arrival_price :: double
  tc_market_vwap :: double
  tc_ending_price :: double
  tc_gross_notional :: double
  tc_fees :: double
  tc_arrival_slippage_bps :: double
  tc_vwap_slippage_bps :: double
  tc_realized_cost :: double
  tc_opportunity_cost :: double
  tc_implementation_shortfall :: double
  tc_implementation_shortfall_bps :: double
  tc_routing_regret :: double
  tc_routing_regret_bps :: double
  tc_venues :: "venue_tca list"

record venue_accumulator =
  va_quantity :: double
  va_notional :: double
  va_fees :: double

section \<open>Helpers\<close>

definition require_positive_finite :: "double \<Rightarrow> string \<Rightarrow> string option" where
  "require_positive_finite v name =
     (if \<not> is_finite v \<or> d_le v (Number 0) then Some (name @ '' must be positive and finite'') else None)"

definition signed_price_cost :: "route_side \<Rightarrow> double \<Rightarrow> double \<Rightarrow> double \<Rightarrow> double" where
  "signed_price_cost side actual_price reference_price quantity =
     d_mul (if side = Buy then d_sub actual_price reference_price else d_sub reference_price actual_price)
       quantity"

definition signed_slippage_bps :: "route_side \<Rightarrow> double \<Rightarrow> double \<Rightarrow> double" where
  "signed_slippage_bps side actual_price reference_price =
     (if d_le reference_price (Number 0) then Number 0
      else d_mul (d_div (if side = Buy then d_sub actual_price reference_price
                         else d_sub reference_price actual_price) reference_price) (Number 10000))"

definition empty_report :: "route_side \<Rightarrow> double \<Rightarrow> double \<Rightarrow> double \<Rightarrow> double \<Rightarrow> tca_report" where
  "empty_report side ordered arrival_price market_vwap ending_price =
     \<lparr>tc_side = side, tc_ordered_quantity = ordered, tc_filled_quantity = Number 0,
      tc_unfilled_quantity = Number 0, tc_fill_rate = Number 0, tc_average_fill_price = Number 0,
      tc_arrival_price = arrival_price, tc_market_vwap = market_vwap, tc_ending_price = ending_price,
      tc_gross_notional = Number 0, tc_fees = Number 0, tc_arrival_slippage_bps = Number 0,
      tc_vwap_slippage_bps = Number 0, tc_realized_cost = Number 0, tc_opportunity_cost = Number 0,
      tc_implementation_shortfall = Number 0, tc_implementation_shortfall_bps = Number 0,
      tc_routing_regret = Number 0, tc_routing_regret_bps = Number 0, tc_venues = []\<rparr>"

section \<open>The fills\<close>

definition check_fill :: "double \<Rightarrow> tca_report \<Rightarrow> execution_fill \<Rightarrow> string option" where
  "check_fill ordered report fill =
     (case require_positive_finite (ef_price fill) ''fill price'' of Some e \<Rightarrow> Some e | None \<Rightarrow>
     (case require_positive_finite (ef_quantity fill) ''fill quantity'' of Some e \<Rightarrow> Some e | None \<Rightarrow>
      if \<not> is_finite (ef_fee fill) \<or> d_less (ef_fee fill) (Number 0)
      then Some ''fill fee must be non-negative and finite''
      else if ef_venue fill = [] then Some ''fill venue must not be empty''
      else if d_less (d_add ordered tiny) (d_add (tc_filled_quantity report) (ef_quantity fill))
      then Some ''filled quantity exceeds ordered quantity'' else None))"

definition add_to_venue ::
  "execution_fill \<Rightarrow> double \<Rightarrow> (string \<times> venue_accumulator) list \<Rightarrow> (string \<times> venue_accumulator) list"
where
  "add_to_venue fill notional totals =
     (let a = (case om_find (<) (ef_venue fill) totals of
            None \<Rightarrow> \<lparr>va_quantity = Number 0, va_notional = Number 0, va_fees = Number 0\<rparr> | Some a \<Rightarrow> a)
      in om_put (<) (ef_venue fill)
           \<lparr>va_quantity = d_add (va_quantity a) (ef_quantity fill),
            va_notional = d_add (va_notional a) notional,
            va_fees = d_add (va_fees a) (ef_fee fill)\<rparr> totals)"

fun accumulate_fills ::
  "double \<Rightarrow> execution_fill list \<Rightarrow> tca_report \<times> (string \<times> venue_accumulator) list
    \<Rightarrow> string + tca_report \<times> (string \<times> venue_accumulator) list"
where
  "accumulate_fills ordered [] acc = Inr acc"
| "accumulate_fills ordered (fill # fills) (report, totals) =
     (case check_fill ordered report fill of
        Some e \<Rightarrow> Inl e
      | None \<Rightarrow>
          let notional = d_mul (ef_price fill) (ef_quantity fill)
          in accumulate_fills ordered fills
               (report\<lparr>tc_filled_quantity := d_add (tc_filled_quantity report) (ef_quantity fill),
                  tc_gross_notional := d_add (tc_gross_notional report) notional,
                  tc_fees := d_add (tc_fees report) (ef_fee fill)\<rparr>,
                add_to_venue fill notional totals))"

section \<open>The report\<close>

definition planned :: "route_leg list \<Rightarrow> double \<times> double" where
  "planned legs = fold (\<lambda>leg (notional, quantity).
     if \<not> is_finite (lg_quantity leg) \<or> d_le (lg_quantity leg) (Number 0) \<or>
        \<not> is_finite (lg_effective_price leg) \<or> d_le (lg_effective_price leg) (Number 0)
     then (notional, quantity)
     else (d_add notional (d_mul (lg_effective_price leg) (lg_quantity leg)), d_add quantity (lg_quantity leg)))
     legs (Number 0, Number 0)"

definition venue_report :: "tca_report \<Rightarrow> string \<times> venue_accumulator \<Rightarrow> venue_tca" where
  "venue_report report entry =
     (case entry of (name, a) \<Rightarrow>
      let average = d_div (va_notional a) (va_quantity a)
      in \<lparr>vt_venue = name, vt_filled_quantity = va_quantity a, vt_notional = va_notional a,
          vt_fees = va_fees a, vt_average_fill_price = average,
          vt_arrival_slippage_bps = signed_slippage_bps (tc_side report) average (tc_arrival_price report),
          vt_vwap_slippage_bps = signed_slippage_bps (tc_side report) average (tc_market_vwap report)\<rparr>)"

definition measure_fills :: "tca_report \<Rightarrow> tca_report" where
  "measure_fills r =
     (let r1 = r\<lparr>tc_unfilled_quantity :=
            d_max (Number 0) (d_sub (tc_ordered_quantity r) (tc_filled_quantity r)),
          tc_fill_rate := d_div (tc_filled_quantity r) (tc_ordered_quantity r)\<rparr>
      in if d_less tiny (tc_filled_quantity r1) then
           let average = d_div (tc_gross_notional r1) (tc_filled_quantity r1)
           in r1\<lparr>tc_average_fill_price := average,
                 tc_arrival_slippage_bps := signed_slippage_bps (tc_side r1) average (tc_arrival_price r1),
                 tc_vwap_slippage_bps := signed_slippage_bps (tc_side r1) average (tc_market_vwap r1)\<rparr>
         else r1)"

definition measure_costs :: "tca_report \<Rightarrow> tca_report" where
  "measure_costs r =
     (let realized = d_add (signed_price_cost (tc_side r) (tc_average_fill_price r) (tc_arrival_price r)
            (tc_filled_quantity r)) (tc_fees r);
          opportunity = signed_price_cost (tc_side r) (tc_ending_price r) (tc_arrival_price r)
            (tc_unfilled_quantity r);
          shortfall = d_add realized opportunity;
          arrival_notional = d_mul (tc_ordered_quantity r) (tc_arrival_price r)
      in r\<lparr>tc_realized_cost := realized, tc_opportunity_cost := opportunity,
           tc_implementation_shortfall := shortfall,
           tc_implementation_shortfall_bps := d_mul (d_div shortfall arrival_notional) (Number 10000)\<rparr>)"

definition measure_regret :: "route_plan \<Rightarrow> tca_report \<Rightarrow> tca_report" where
  "measure_regret route_plan r =
     (case planned (pn_legs route_plan) of (notional, quantity) \<Rightarrow>
      if d_less tiny quantity \<and> d_less tiny (tc_filled_quantity r) then
        let average = d_div notional quantity;
            regret = d_add (signed_price_cost (tc_side r) (tc_average_fill_price r) average
              (tc_filled_quantity r)) (tc_fees r)
        in r\<lparr>tc_routing_regret := regret,
             tc_routing_regret_bps :=
               d_mul (d_div regret (d_mul average (tc_filled_quantity r))) (Number 10000)\<rparr>
      else r)"

definition analyze_execution ::
  "route_request \<Rightarrow> route_plan \<Rightarrow> execution_fill list \<Rightarrow> double \<Rightarrow> double \<Rightarrow> double \<Rightarrow> string + tca_report"
where
  "analyze_execution request route_plan fills arrival_price market_vwap ending_price =
     (case require_positive_finite (rt_quantity request) ''ordered quantity'' of Some e \<Rightarrow> Inl e | None \<Rightarrow>
     (case require_positive_finite arrival_price ''arrival price'' of Some e \<Rightarrow> Inl e | None \<Rightarrow>
     (case require_positive_finite market_vwap ''market VWAP'' of Some e \<Rightarrow> Inl e | None \<Rightarrow>
     (case require_positive_finite ending_price ''ending price'' of Some e \<Rightarrow> Inl e | None \<Rightarrow>
     (case accumulate_fills (rt_quantity request) fills
         (empty_report (rt_side request) (rt_quantity request) arrival_price market_vwap ending_price, []) of
        Inl e \<Rightarrow> Inl e
      | Inr (report, totals) \<Rightarrow>
          let r = measure_regret route_plan (measure_costs (measure_fills report))
          in Inr (r\<lparr>tc_venues := map (venue_report r) totals\<rparr>))))))"

section \<open>Execution quality\<close>

record execution_markout =
  mk_horizon_ns :: u64
  mk_reference_price :: double
  mk_markout_bps :: double

record execution_quality =
  eq_parent_order_id :: u64
  eq_symbol :: string
  eq_side :: route_side
  eq_requested_quantity :: double
  eq_filled_quantity :: double
  eq_unfilled_quantity :: double
  eq_fill_rate :: double
  eq_arrival_price :: double
  eq_market_vwap :: double
  eq_ending_price :: double
  eq_average_fill_price :: double
  eq_total_notional :: double
  eq_total_fees :: double
  eq_arrival_slippage_bps :: double
  eq_vwap_slippage_bps :: double
  eq_realized_cost :: double
  eq_opportunity_cost :: double
  eq_implementation_shortfall :: double
  eq_implementation_shortfall_bps :: double
  eq_fee_adjusted_shortfall_bps :: double
  eq_routing_regret :: double
  eq_routing_regret_bps :: double
  eq_venues :: "venue_tca list"
  eq_markouts :: "execution_markout list"

definition tca_fill :: "oms_execution_report \<Rightarrow> execution_fill" where
  "tca_fill fill =
     \<lparr>ef_order_id = xr_child_id fill, ef_venue = xr_venue fill, ef_price = xr_price fill,
      ef_quantity = xr_quantity fill, ef_fee = xr_fee fill, ef_timestamp_ns = xr_timestamp_ns fill\<rparr>"

definition parent_request :: "parent_order \<Rightarrow> route_request" where
  "parent_request parent =
     \<lparr>rt_side = po_side parent, rt_quantity = po_quantity parent, rt_limit_price = Number 0,
      rt_max_slippage_bps = Number 10000, rt_max_venue_count = 2 ^ 64 - 1, rt_all_or_none = False\<rparr>"

definition analyze_route ::
  "parent_order \<Rightarrow> route_plan \<Rightarrow> oms_execution_report list \<Rightarrow> double \<Rightarrow> double \<Rightarrow> double
    \<Rightarrow> execution_markout list \<Rightarrow> string + execution_quality"
where
  "analyze_route parent route_plan fills arrival_price market_vwap ending_price markouts =
     (case analyze_execution (parent_request parent) route_plan (map tca_fill fills) arrival_price market_vwap
         ending_price of
        Inl e \<Rightarrow> Inl e
      | Inr t \<Rightarrow> Inr
          \<lparr>eq_parent_order_id = po_id parent, eq_symbol = po_symbol parent, eq_side = po_side parent,
           eq_requested_quantity = tc_ordered_quantity t, eq_filled_quantity = tc_filled_quantity t,
           eq_unfilled_quantity = tc_unfilled_quantity t, eq_fill_rate = tc_fill_rate t,
           eq_arrival_price = tc_arrival_price t, eq_market_vwap = tc_market_vwap t,
           eq_ending_price = tc_ending_price t, eq_average_fill_price = tc_average_fill_price t,
           eq_total_notional = tc_gross_notional t, eq_total_fees = tc_fees t,
           eq_arrival_slippage_bps = tc_arrival_slippage_bps t,
           eq_vwap_slippage_bps = tc_vwap_slippage_bps t, eq_realized_cost = tc_realized_cost t,
           eq_opportunity_cost = tc_opportunity_cost t,
           eq_implementation_shortfall = tc_implementation_shortfall t,
           eq_implementation_shortfall_bps = tc_implementation_shortfall_bps t,
           eq_fee_adjusted_shortfall_bps = tc_implementation_shortfall_bps t,
           eq_routing_regret = tc_routing_regret t, eq_routing_regret_bps = tc_routing_regret_bps t,
           eq_venues = tc_venues t, eq_markouts = markouts\<rparr>)"

definition empty_plan :: route_plan where
  "empty_plan =
     \<lparr>pn_complete = False, pn_requested_quantity = Number 0, pn_routed_quantity = Number 0,
      pn_estimated_notional = Number 0, pn_estimated_fees = Number 0, pn_average_price = Number 0,
      pn_legs = []\<rparr>"

definition analyze ::
  "parent_order \<Rightarrow> oms_execution_report list \<Rightarrow> double \<Rightarrow> string + execution_quality"
where
  "analyze parent fills arrival_price =
     (let p1 = (if d_le arrival_price (Number 0)
            then case find (\<lambda>fill. d_less (Number 0) (xr_price fill)) fills of
                   None \<Rightarrow> arrival_price | Some fill \<Rightarrow> xr_price fill
            else arrival_price);
          p2 = (if d_le p1 (Number 0) then Number 1 else p1)
      in analyze_route parent empty_plan fills p2 p2 p2 [])"

section \<open>The totals\<close>

interpretation venue_keys: ordered_keys "(<)" "\<lambda>v :: string. True"
  by unfold_locales auto

definition at_venue :: "string \<Rightarrow> execution_fill list \<Rightarrow> execution_fill list" where
  "at_venue v fills = filter (\<lambda>f. ef_venue f = v) fills"

definition fill_notional :: "execution_fill \<Rightarrow> double" where
  "fill_notional f = d_mul (ef_price f) (ef_quantity f)"

definition sums_of :: "execution_fill list \<Rightarrow> venue_accumulator" where
  "sums_of fills = \<lparr>va_quantity = d_sum (map ef_quantity fills), va_notional = d_sum (map fill_notional fills),
     va_fees = d_sum (map ef_fee fills)\<rparr>"

definition totals_of :: "execution_fill list \<Rightarrow> (string \<times> venue_accumulator) list \<Rightarrow> bool" where
  "totals_of fills m \<longleftrightarrow> om_ordered (<) m \<and>
     (\<forall>v. map_of m v = (if at_venue v fills = [] then None else Some (sums_of (at_venue v fills))))"

lemma add_to_venue_totals:
  assumes "totals_of fills m"
  shows "totals_of (fills @ [f]) (add_to_venue f (fill_notional f) m)"
proof -
  have ord: "om_ordered (<) m" using assms by (simp add: totals_of_def)
  have old: "map_of m v = (if at_venue v fills = [] then None else Some (sums_of (at_venue v fills)))" for v
    using assms by (simp add: totals_of_def)
  have find: "om_find (<) (ef_venue f) m = map_of m (ef_venue f)"
    using venue_keys.find_eq_map_of [OF ord] by simp
  have "at_venue v (fills @ [f]) = at_venue v fills @ (if ef_venue f = v then [f] else [])" for v
    by (simp add: at_venue_def)
  then show ?thesis
    using venue_keys.ordered_put [OF ord] venue_keys.map_of_put [OF ord]
    by (auto simp: totals_of_def add_to_venue_def Let_def find old sums_of_def d_sum_def)
qed

lemma accumulate_fills_totals:
  "accumulate_fills ordered fills (report, m) = Inr (report', m') \<Longrightarrow> totals_of before m \<Longrightarrow>
   tc_filled_quantity report = d_sum (map ef_quantity before) \<Longrightarrow>
   tc_gross_notional report = d_sum (map fill_notional before) \<Longrightarrow>
   tc_fees report = d_sum (map ef_fee before) \<Longrightarrow>
   totals_of (before @ fills) m' \<and> tc_filled_quantity report' = d_sum (map ef_quantity (before @ fills)) \<and>
   tc_gross_notional report' = d_sum (map fill_notional (before @ fills)) \<and>
   tc_fees report' = d_sum (map ef_fee (before @ fills)) \<and>
   (fills \<noteq> [] \<longrightarrow> \<not> d_less (d_add ordered tiny) (tc_filled_quantity report'))"
proof (induction fills arbitrary: report m before)
  case (Cons f fills)
  let ?r = "report\<lparr>tc_filled_quantity := d_add (tc_filled_quantity report) (ef_quantity f),
      tc_gross_notional := d_add (tc_gross_notional report) (fill_notional f),
      tc_fees := d_add (tc_fees report) (ef_fee f)\<rparr>"
  have ok: "check_fill ordered report f = None" using Cons.prems(1) by (auto split: option.splits)
  then have rec: "accumulate_fills ordered fills (?r, add_to_venue f (fill_notional f) m) = Inr (report', m')"
    using Cons.prems(1) by (simp add: fill_notional_def Let_def)
  have "\<not> d_less (d_add ordered tiny) (d_add (tc_filled_quantity report) (ef_quantity f))"
    using ok by (auto simp: check_fill_def split: option.splits if_splits)
  then show ?case
    using Cons.IH [OF rec add_to_venue_totals [OF Cons.prems(2)]] Cons.prems(3-5) rec
    by (cases "fills = []") auto
qed simp

lemma measure_frame:
  "tc_filled_quantity (measure_regret p (measure_costs (measure_fills r))) = tc_filled_quantity r"
  "tc_gross_notional (measure_regret p (measure_costs (measure_fills r))) = tc_gross_notional r"
  "tc_fees (measure_regret p (measure_costs (measure_fills r))) = tc_fees r"
  by (simp_all add: measure_regret_def measure_costs_def measure_fills_def Let_def split: prod.split)

text \<open>C33: The cost report accounts for every fill. When the analysis of an execution returns, the filled
  quantity, notional and fees are the sums over the fills in their order, what was filled does not
  exceed the order by more than the tolerance, and the venues of the fills are listed once each, in
  alphabetical order, with the sums over their own fills.\<close>

theorem tca_accounts_for_fills:
  assumes "analyze_execution request plan fills arrival vwap ending = Inr t"
  shows "tc_filled_quantity t = d_sum (map ef_quantity fills) \<and> tc_gross_notional t = d_sum (map fill_notional fills) \<and>
    tc_fees t = d_sum (map ef_fee fills) \<and>
    (fills = [] \<or> \<not> d_less (d_add (rt_quantity request) tiny) (tc_filled_quantity t)) \<and>
    map vt_venue (tc_venues t) = sorted_list_of_set (ef_venue ` set fills) \<and>
    list_all (\<lambda>v. vt_filled_quantity v = d_sum (map ef_quantity (at_venue (vt_venue v) fills)) \<and>
      vt_notional v = d_sum (map fill_notional (at_venue (vt_venue v) fills)) \<and>
      vt_fees v = d_sum (map ef_fee (at_venue (vt_venue v) fills))) (tc_venues t)"
proof -
  obtain r m where acc: "accumulate_fills (rt_quantity request) fills
      (empty_report (rt_side request) (rt_quantity request) arrival vwap ending, []) = Inr (r, m)"
    and t: "t = (measure_regret plan (measure_costs (measure_fills r)))
      \<lparr>tc_venues := map (venue_report (measure_regret plan (measure_costs (measure_fills r)))) m\<rparr>"
    using assms by (auto simp: analyze_execution_def Let_def split: option.splits sum.splits)
  have sums: "totals_of fills m" "tc_filled_quantity r = d_sum (map ef_quantity fills)"
      "tc_gross_notional r = d_sum (map fill_notional fills)" "tc_fees r = d_sum (map ef_fee fills)"
      "fills \<noteq> [] \<longrightarrow> \<not> d_less (d_add (rt_quantity request) tiny) (tc_filled_quantity r)"
  proof -
    have "totals_of ([] @ fills) m \<and> tc_filled_quantity r = d_sum (map ef_quantity ([] @ fills)) \<and>
        tc_gross_notional r = d_sum (map fill_notional ([] @ fills)) \<and> tc_fees r = d_sum (map ef_fee ([] @ fills)) \<and>
        (fills \<noteq> [] \<longrightarrow> \<not> d_less (d_add (rt_quantity request) tiny) (tc_filled_quantity r))"
      by (rule accumulate_fills_totals [OF acc]) (simp_all add: totals_of_def at_venue_def empty_report_def)
    then show "totals_of fills m" "tc_filled_quantity r = d_sum (map ef_quantity fills)"
      "tc_gross_notional r = d_sum (map fill_notional fills)" "tc_fees r = d_sum (map ef_fee fills)"
      "fills \<noteq> [] \<longrightarrow> \<not> d_less (d_add (rt_quantity request) tiny) (tc_filled_quantity r)"
      unfolding append_Nil by blast+
  qed
  have ord: "om_ordered (<) m" and at: "\<And>v. map_of m v = (if at_venue v fills = [] then None else Some (sums_of (at_venue v fills)))"
    using sums(1) by (simp_all add: totals_of_def)
  have names: "map vt_venue (map (venue_report q) m) = map fst m" for q
    by (auto simp: venue_report_def Let_def)
  have keys: "set (map fst m) = ef_venue ` set fills"
  proof -
    have "v \<in> set (map fst m) \<longleftrightarrow> at_venue v fills \<noteq> []" for v
      using at [of v] map_of_eq_None_iff [of m v] by (auto split: if_splits)
    then have "v \<in> set (map fst m) \<longleftrightarrow> v \<in> ef_venue ` set fills" for v
      by (auto simp: at_venue_def filter_empty_conv)
    then show ?thesis by blast
  qed
  have "sorted_wrt (<) (map fst m)" using ord by (simp add: om_ordered_def)
  then have "map fst m = sorted_list_of_set (ef_venue ` set fills)"
    unfolding keys [symmetric] by (simp only: strict_sorted_iff sorted_list_of_set.idem_if_sorted_distinct)
  moreover have "b = sums_of (at_venue v fills)" if "(v, b) \<in> set m" for v b
    using that venue_keys.in_set_iff [OF ord] at by (auto split: if_splits)
  then have "list_all (\<lambda>v. vt_filled_quantity v = d_sum (map ef_quantity (at_venue (vt_venue v) fills)) \<and>
      vt_notional v = d_sum (map fill_notional (at_venue (vt_venue v) fills)) \<and>
      vt_fees v = d_sum (map ef_fee (at_venue (vt_venue v) fills))) (map (venue_report q) m)" for q
    by (fastforce simp: list_all_iff venue_report_def Let_def sums_of_def)
  ultimately show ?thesis using sums(2-5) unfolding t by (simp add: measure_frame names del: list.map_comp map_map) blast
qed

lemma tca_accounts_for_fills_witness:
  "\<exists>t. analyze_execution sample_route empty_plan
       [\<lparr>ef_order_id = 1, ef_venue = ''b'', ef_price = Number 100, ef_quantity = Number 5, ef_fee = Number 0,
         ef_timestamp_ns = 1\<rparr>] (Number 100) (Number 100) (Number 100) = Inr t \<and>
     map vt_venue (tc_venues t) = [''b'']"
proof -
  let ?fills = "[\<lparr>ef_order_id = 1, ef_venue = ''b'', ef_price = Number 100, ef_quantity = Number 5, ef_fee = Number 0,
         ef_timestamp_ns = 1\<rparr>]"
  have "\<not> d_less (d_add (Number 8) tiny) (d_add (Number 0) (Number 5))"
  proof -
    have "d_le (d_add (Number 5) (Number 0)) (d_add (Number 8) tiny)"
      using tiny_decides(1) by (intro d_add_mono) (simp_all add: tiny_def d_le_def)
    then show ?thesis by (simp add: d_add_commute [of "Number 0"] d_le_def)
  qed
  then obtain t where t: "analyze_execution sample_route empty_plan ?fills (Number 100) (Number 100) (Number 100) = Inr t"
    by (simp add: analyze_execution_def sample_route_def require_positive_finite_def check_fill_def
        empty_report_def d_le_def Let_def)
  from tca_accounts_for_fills [OF t] t show ?thesis by auto
qed

end
