(* ===== verification/Reconciliation.thy ===== *)
theory Reconciliation
  imports Positions_Recovery Drop_Copy Tca
begin

text \<open>
  The reconciliation of the service (src/apps/api.cpp, src/reconciliation.cpp): every parent order is
  classified by comparing the order management system with its fills, the execution analysis and
  the drop-copy log; the positions are compared with their recomputation.

  The drop-copy log is read through \<open>events\<close>, the arrival price through \<open>arrival\<close> (the state of the
  scheduler for the parent, if any) and the live quotes through \<open>quotes\<close> (which the code reads from
  files another process writes).
\<close>

datatype reconciliation_status = Consistent | LegacyUnverifiable | Inconsistent

record parent_reconciliation_input =
  pi_parent_id :: u64
  pi_classification :: reconciliation_status

record global_parent_reconciliation =
  gp_parent_count :: nat
  gp_consistent_parents :: nat
  gp_legacy_unverifiable_parents :: nat
  gp_inconsistent_parents :: nat
  gp_legacy_unverifiable_ids :: "u64 list"
  gp_inconsistent_ids :: "u64 list"
  gp_all_verifiable_consistent :: bool

section \<open>Parents\<close>

definition count_parent :: "parent_reconciliation_input \<Rightarrow> global_parent_reconciliation \<Rightarrow> global_parent_reconciliation" where
  "count_parent p r =
     (case pi_classification p of
        Consistent \<Rightarrow> r\<lparr>gp_consistent_parents := gp_consistent_parents r + 1\<rparr>
      | LegacyUnverifiable \<Rightarrow>
          r\<lparr>gp_legacy_unverifiable_parents := gp_legacy_unverifiable_parents r + 1,
            gp_legacy_unverifiable_ids := gp_legacy_unverifiable_ids r @ [pi_parent_id p]\<rparr>
      | Inconsistent \<Rightarrow>
          r\<lparr>gp_inconsistent_parents := gp_inconsistent_parents r + 1,
            gp_inconsistent_ids := gp_inconsistent_ids r @ [pi_parent_id p]\<rparr>)"

definition reconcile_parents :: "parent_reconciliation_input list \<Rightarrow> global_parent_reconciliation" where
  "reconcile_parents ps =
     (let r = fold count_parent ps \<lparr>gp_parent_count = length ps, gp_consistent_parents = 0,
            gp_legacy_unverifiable_parents = 0, gp_inconsistent_parents = 0,
            gp_legacy_unverifiable_ids = [], gp_inconsistent_ids = [], gp_all_verifiable_consistent = True\<rparr>
      in r\<lparr>gp_all_verifiable_consistent := (gp_inconsistent_parents r = 0)\<rparr>)"

definition drop_copy_fills :: "(order_id \<Rightarrow> drop_copy_event list) \<Rightarrow> child_order list \<Rightarrow> nat" where
  "drop_copy_fills events children =
     length (filter (\<lambda>child. \<exists>event \<in> set (events (co_id child)). de_event_type event = ''OMS_FILL'') children)"

definition status_epsilon :: double where
  "status_epsilon = round_double False (1 / 10 ^ 9)"

definition near :: "double \<Rightarrow> double \<Rightarrow> bool" where
  "near x y \<longleftrightarrow> d_le (d_abs (d_sub x y)) status_epsilon"

text \<open>The analysis may throw, which ends the request.\<close>

definition parent_reconciliation_status ::
  "oms \<Rightarrow> (order_id \<Rightarrow> drop_copy_event list) \<Rightarrow> (u64 \<Rightarrow> double option) \<Rightarrow> u64 \<Rightarrow> string + reconciliation_status"
where
  "parent_reconciliation_status s events arrival parent_id =
     (case Oms.find_parent parent_id s of
        None \<Rightarrow> Inr Inconsistent
      | Some parent \<Rightarrow>
          let fills = fills_for_parent parent_id s;
              children = children_for_parent parent_id s;
              fill_quantity = d_sum (map xr_quantity fills);
              fill_notional = d_sum (map xr_notional fills);
              total_fees = d_sum (map xr_fee fills);
              child_fill_quantity = d_sum (map co_filled_quantity children);
              drop_copy_fill_count = drop_copy_fills events children;
              arrival_price = (case arrival parent_id of None \<Rightarrow> Number 0 | Some p \<Rightarrow> p)
          in case analyze parent fills arrival_price of
               Inl e \<Rightarrow> Inl e
             | Inr quality \<Rightarrow>
                 Inr (if \<not> (near (po_filled_quantity parent) fill_quantity \<and>
                            near (po_filled_quantity parent) child_fill_quantity \<and>
                            near (eq_filled_quantity quality) fill_quantity \<and>
                            near (eq_total_notional quality) fill_notional \<and>
                            near (eq_total_fees quality) total_fees)
                      then Inconsistent
                      else if drop_copy_fill_count = length fills then Consistent
                      else if fills \<noteq> [] \<and> drop_copy_fill_count = 0 then LegacyUnverifiable
                      else Inconsistent))"

fun classify_parents ::
  "oms \<Rightarrow> (order_id \<Rightarrow> drop_copy_event list) \<Rightarrow> (u64 \<Rightarrow> double option) \<Rightarrow> parent_order list
    \<Rightarrow> string + parent_reconciliation_input list"
where
  "classify_parents s events arrival [] = Inr []"
| "classify_parents s events arrival (p # ps) =
     (case parent_reconciliation_status s events arrival (po_id p) of
        Inl e \<Rightarrow> Inl e
      | Inr c \<Rightarrow>
          (case classify_parents s events arrival ps of
             Inl e \<Rightarrow> Inl e
           | Inr inputs \<Rightarrow> Inr (\<lparr>pi_parent_id = po_id p, pi_classification = c\<rparr> # inputs)))"

definition reconcile_all_parents ::
  "oms \<Rightarrow> (order_id \<Rightarrow> drop_copy_event list) \<Rightarrow> (u64 \<Rightarrow> double option) \<Rightarrow> string + global_parent_reconciliation"
where
  "reconcile_all_parents s events arrival =
     (case classify_parents s events arrival (parents s) of
        Inl e \<Rightarrow> Inl e | Inr inputs \<Rightarrow> Inr (reconcile_parents inputs))"

section \<open>Positions\<close>

definition fill_input :: "parent_order \<Rightarrow> oms_execution_report \<Rightarrow> position_fill_input" where
  "fill_input parent fill =
     \<lparr>fi_side = po_side parent, fi_quantity = xr_quantity fill, fi_price = xr_price fill, fi_fee = xr_fee fill\<rparr>"

text \<open>The fills of a symbol, parent after parent.\<close>

definition inputs_by_symbol :: "oms \<Rightarrow> (string \<times> position_reconciliation_input) list" where
  "inputs_by_symbol s = fold (\<lambda>parent m.
     let old = (case map_of m (po_symbol parent) of
           None \<Rightarrow> \<lparr>ri_symbol = [], ri_fills = [], ri_actual = empty_position []\<rparr> | Some i \<Rightarrow> i)
     in hm_update (po_symbol parent)
          (old\<lparr>ri_symbol := po_symbol parent,
               ri_fills := ri_fills old @ map (fill_input parent) (fills_for_parent (po_id parent) s)\<rparr>) m)
     (parents s) []"

definition mark_to_market :: "venue_quote list \<Rightarrow> string \<Rightarrow> position_map \<Rightarrow> position_map" where
  "mark_to_market qs symbol m =
     (case best_quotes qs of (best_bid, best_ask) \<Rightarrow>
      if d_less (Number 0) best_bid \<and> d_less (Number 0) best_ask
      then mark symbol (d_div (d_add best_bid best_ask) (Number 2)) m else m)"

definition reconcile_service_positions ::
  "oms \<Rightarrow> (string \<Rightarrow> venue_quote list) \<Rightarrow> position_map \<Rightarrow> position_reconciliation_result list \<times> position_map"
where
  "reconcile_service_positions s quotes m =
     (let (inputs, m') = fold (\<lambda>(symbol, input) (inputs, m).
            let m' = mark_to_market (quotes symbol) symbol m
            in (inputs @ [input\<lparr>ri_actual := position symbol m'\<rparr>], m')) (inputs_by_symbol s) ([], m)
      in (reconcile_positions inputs status_epsilon, m'))"

definition positions_reconciliation_consistent ::
  "oms \<Rightarrow> (string \<Rightarrow> venue_quote list) \<Rightarrow> position_map \<Rightarrow> bool \<times> position_map"
where
  "positions_reconciliation_consistent s quotes m =
     (case reconcile_service_positions s quotes m of (results, m') \<Rightarrow> (list_all rr_consistent results, m'))"

section \<open>What the drop-copy count can confirm\<close>

text \<open>A parent filled in more reports than it has children is never reported consistent: the count
  of drop-copy fills stops at the first event of a child, but is compared with the number of fills.
  A child that is filled in two parts is reported inconsistent although every record agrees.\<close>

theorem consistent_fills_bounded:
  assumes "parent_reconciliation_status s events arrival parent_id = Inr Consistent"
  shows "length (fills_for_parent parent_id s) \<le> length (children_for_parent parent_id s)"
proof -
  have "length (fills_for_parent parent_id s) = drop_copy_fills events (children_for_parent parent_id s)"
    using assms by (auto simp: parent_reconciliation_status_def Let_def split: option.splits sum.splits if_splits)
  then show ?thesis by (simp add: drop_copy_fills_def)
qed

lemma within_remainder:
  assumes "proper (Number q)" and "0 \<le> q" and "q \<le> r"
  shows "\<not> d_less (d_add (Number r) oms_epsilon) (Number q)"
proof -
  have "d_le (d_add (Number q) (Number 0)) (d_add (Number r) oms_epsilon)"
    using assms epsilon_nonneg by (intro d_add_mono) (simp_all add: d_le_def)
  then show ?thesis using assms(1) d_add_0_right [of "Number q"] by (simp add: d_le_def)
qed

lemma oms_epsilon_decides:
  "1 \<le> q \<Longrightarrow> \<not> d_le (Number q) oms_epsilon" "1 \<le> q \<Longrightarrow> d_less oms_epsilon (Number q)"
  "\<not> d_less oms_epsilon (Number 0)"
  unfolding oms_epsilon_def using tiny_decides by (auto dest: d_less_imp_not_le simp: d_le_def)

definition interleaved_calls :: "oms_call list" where
  "interleaved_calls =
     [CallCreateParent \<lparr>pr_symbol = ''BTC'', pr_side = Oms.Buy, pr_quantity = Number 2, pr_algorithm = TWAP\<rparr> 1,
      CallCreateParent \<lparr>pr_symbol = ''BTC'', pr_side = Oms.Sell, pr_quantity = Number 1, pr_algorithm = TWAP\<rparr> 2,
      CallCreateChild \<lparr>cr_parent_id = 1, cr_venue = ''A'', cr_price = Number 30, cr_quantity = Number 2,
        cr_created_timestamp_ns = 3\<rparr>,
      CallCreateChild \<lparr>cr_parent_id = 2, cr_venue = ''A'', cr_price = Number 20, cr_quantity = Number 1,
        cr_created_timestamp_ns = 4\<rparr>,
      CallFill 1 (Number 10) (Number 1) (Number 0) 5,
      CallFill 2 (Number 20) (Number 1) (Number 0) 6,
      CallFill 1 (Number 30) (Number 1) (Number 0) 7]"

lemmas run_calls =
  oms_calls_def new_oms_def create_parent_def create_child_def record_fill_def set_mutation_callback_def
  hm_emplace_def notify_mutation_def terminal_status_def publish_child_def store_child_def refresh_parent_def
  d_min_def d_max_def Let_def validate_positive_def d_le_def [of _ "Number 0"] d_le_def [of "Number 0"]
  within_remainder oms_epsilon_decides d_mul_def d_sub_def round_double_0 find_parent_def fills_for_parent_def

definition buy_fill :: "rat \<Rightarrow> position_fill_input" where
  "buy_fill p = \<lparr>fi_side = Oms.Buy, fi_quantity = Number 1, fi_price = Number p, fi_fee = Number 0\<rparr>"

lemma interleaved_inputs:
  "inputs_by_symbol (oms_calls interleaved_calls (set_mutation_callback new_oms)) =
     [(''BTC'', \<lparr>ri_symbol = ''BTC'', ri_fills = [buy_fill 10, buy_fill 30, (buy_fill 20)\<lparr>fi_side := Oms.Sell\<rparr>],
       ri_actual = empty_position []\<rparr>)]"
  by (simp add: interleaved_calls_def run_calls epsilon_nonneg inputs_by_symbol_def parents_def fill_input_def buy_fill_def)

lemma interleaved_position:
  "live_positions limits (oms_events (oms_calls interleaved_calls (set_mutation_callback new_oms))) =
     [(''BTC'', \<lparr>ps_symbol = ''BTC'', ps_net_quantity = Number 1, ps_average_cost = Number 30,
       ps_realized_pnl = Number 10, ps_unrealized_pnl = Number 0, ps_mark_price = Number 0\<rparr>)]"
  unfolding live_positions_calls
  by (simp add: interleaved_calls_def run_calls epsilon_nonneg event_fills_def map_filter_def position_calls_def
      position_eval)

definition quote_at_30 :: venue_quote where
  "quote_at_30 = \<lparr>vq_venue = ''A'', vq_bids = [\<lparr>vl_price = Number 29, vl_quantity = Number 1\<rparr>],
     vq_asks = [\<lparr>vl_price = Number 31, vl_quantity = Number 1\<rparr>], vq_taker_fee_bps = Number 0,
     vq_latency_ms = Number 0, vq_latency_cost_bps_per_ms = Number 0, vq_healthy = True\<rparr>"

lemma marked_at_30: "mark_to_market [quote_at_30] symbol m = mark symbol (Number 30) m"
proof -
  have "d_eq (Number 0) (Number 0)" by (simp add: d_eq_def)
  then show ?thesis
    by (simp add: mark_to_market_def best_quotes_def quote_at_30_def d_div_def)
qed

lemma grouped_recompute:
  "recompute [buy_fill 10, buy_fill 30, (buy_fill 20)\<lparr>fi_side := Oms.Sell\<rparr>] = (Number 1, Number 20, Number 0)"
  by (simp add: recompute_def recompute_fill_def buy_fill_def position_eval)

text \<open>The service recomputes positions from the fills in the wrong order: parent after parent
  instead of as they came. Buying 1 at 10, selling it at 20 for another parent order and buying 1
  at 30 for the first one leaves a position of 1 at an average cost of 30, which the service holds;
  its reconciliation expects an average cost of 20 and reports the position inconsistent.\<close>

theorem interleaved_parents_inconsistent:
  "let s = oms_calls interleaved_calls (set_mutation_callback new_oms);
       m = live_positions limits (oms_events s);
       results = fst (reconcile_service_positions s (\<lambda>symbol. [quote_at_30]) m)
   in map (\<lambda>r. (rr_expected_average_cost r, rr_actual_average_cost r, rr_consistent r)) results =
        [(Number 20, Number 30, False)]"
proof -
  have "d_less status_epsilon (Number 10)"
    unfolding status_epsilon_def
    using round_double_mono [of "1 / 10 ^ 9" 1 False False] by (auto intro: d_le_less_trans)
  then have "\<not> d_le (Number 10) status_epsilon" by (rule d_less_imp_not_le)
  then show ?thesis
    unfolding Let_def reconcile_service_positions_def interleaved_inputs interleaved_position
    by (simp add: marked_at_30 reconcile_positions_def reconcile_position_def grouped_recompute mark_def
        position_at_def position_def Let_def d_sub_def d_mul_def round_double_0)
qed

lemmas analysis_eval = analyze_def analyze_route_def analyze_execution_def parent_request_def
  require_positive_finite_def empty_report_def empty_plan_def measure_frame check_fill_def tca_fill_def

lemma status_epsilon_nonneg: "nonneg status_epsilon"
  using round_double_mono [of 0 "1 / 10 ^ 9" False False] by (simp add: status_epsilon_def round_double_0)

lemma consistent_fills_bounded_witness:
  "let s = oms_calls (take 1 interleaved_calls) new_oms in
   parent_reconciliation_status s (\<lambda>k. []) (\<lambda>k. None) 1 = Inr Consistent \<and>
   length (fills_for_parent 1 s) \<le> length (children_for_parent 1 s)"
proof -
  define s where "s = oms_calls (take 1 interleaved_calls) new_oms"
  have "\<exists>p. Oms.find_parent 1 s = Some p \<and> po_quantity p = Number 2 \<and> po_filled_quantity p = Number 0"
    and none: "fills_for_parent 1 s = []" "children_for_parent 1 s = []"
    by (simp_all add: s_def interleaved_calls_def run_calls children_for_parent_def map_filter_def)
  then obtain p where p: "Oms.find_parent 1 s = Some p" "po_quantity p = Number 2" "po_filled_quantity p = Number 0"
    by blast
  have "near (Number 0) (Number 0)"
    using status_epsilon_nonneg by (simp add: near_def d_sub_def round_double_0)
  moreover have "\<exists>q. analyze p [] (Number 0) = Inr q \<and> eq_filled_quantity q = Number 0 \<and>
      eq_total_notional q = Number 0 \<and> eq_total_fees q = Number 0"
    by (simp add: analysis_eval p(2) d_le_def Let_def)
  ultimately have "parent_reconciliation_status s (\<lambda>k. []) (\<lambda>k. None) 1 = Inr Consistent"
    by (auto simp: parent_reconciliation_status_def none p drop_copy_fills_def Let_def)
  with consistent_fills_bounded [OF this] show ?thesis unfolding s_def by simp
qed

text \<open>A parent that has been filled beyond its quantity cannot be analysed at all: the exception ends the
  request for the status of every parent.\<close>

lemma overfilled_analysis_throws:
  "reconcile_all_parents (oms_calls overfill_calls new_oms) (\<lambda>k. []) (\<lambda>k. None) =
     Inl ''filled quantity exceeds ordered quantity''"
proof -
  define s where "s = oms_calls overfill_calls new_oms"
  have "\<exists>p r1 r2. parents s = [p] \<and> po_id p = 1 \<and> Oms.find_parent 1 s = Some p \<and> po_quantity p = Number 10 \<and>
      fills_for_parent 1 s = [r1, r2] \<and>
      tca_fill r1 = \<lparr>ef_order_id = 1, ef_venue = ''A'', ef_price = Number 5, ef_quantity = Number 10, ef_fee = Number 0, ef_timestamp_ns = 4\<rparr> \<and>
      tca_fill r2 = \<lparr>ef_order_id = 2, ef_venue = ''B'', ef_price = Number 5, ef_quantity = Number 10, ef_fee = Number 0, ef_timestamp_ns = 5\<rparr> \<and>
      xr_price r1 = Number 5"
    by (simp add: s_def run_scenario parents_def tca_fill_def)
  then obtain p r1 r2 where p: "parents s = [p]" "po_id p = 1" "Oms.find_parent 1 s = Some p" "po_quantity p = Number 10"
      "fills_for_parent 1 s = [r1, r2]"
      "tca_fill r1 = \<lparr>ef_order_id = 1, ef_venue = ''A'', ef_price = Number 5, ef_quantity = Number 10, ef_fee = Number 0, ef_timestamp_ns = 4\<rparr>"
      "tca_fill r2 = \<lparr>ef_order_id = 2, ef_venue = ''B'', ef_price = Number 5, ef_quantity = Number 10, ef_fee = Number 0, ef_timestamp_ns = 5\<rparr>"
      "xr_price r1 = Number 5" by blast
  have first: "\<not> d_less (d_add (Number 10) tiny) (Number 10)"
    using within_remainder [of 10 10] by (simp add: tiny_def oms_epsilon_def)
  have "d_le (d_add (Number 10) tiny) (d_add (Number 10) (Number 1))"
    using tiny_decides by (intro d_add_mono) (auto simp: tiny_def d_le_def)
  then have second: "d_less (d_add (Number 10) tiny) (Number 20)" by (auto intro: d_le_less_trans)
  have "analyze p [r1, r2] (Number 0) = Inl ''filled quantity exceeds ordered quantity''"
    using first second by (simp add: analyze_def analyze_route_def analyze_execution_def parent_request_def
      require_positive_finite_def empty_report_def check_fill_def p d_le_def [of _ "Number 0"] Let_def)
  then have "parent_reconciliation_status s (\<lambda>k. []) (\<lambda>k. None) 1 = Inl ''filled quantity exceeds ordered quantity''"
    by (simp add: parent_reconciliation_status_def p Let_def)
  then show ?thesis unfolding s_def [symmetric] by (simp add: reconcile_all_parents_def p)
qed

end
