(* ===== verification/Market_Data.thy ===== *)
theory Market_Data
  imports Double_Arith Hash_Map "HOL-Library.Char_ord" "HOL-Library.List_Lexorder"
begin

text \<open>
  The level-2 books of the venues and their consolidation (include/minimatch/market\_data.hpp,
  src/market\_data.cpp): snapshots, incremental updates in sequence, the buffer in which updates wait
  for the snapshot that closes a gap, batches, and the best bid and offer over all venues.

  The \<open>std::map\<close>s of levels are the ordered maps of the prelude, the bids by descending price. The
  only exception the operations throw is \<open>std::invalid_argument\<close>: \<open>Inl\<close> with its message, beside
  the state the call leaves.
\<close>

datatype market_data_side = Bid | Ask

datatype market_data_update_type = Snapshot | Upsert | Delete

record market_data_level =
  ml_price :: double
  ml_quantity :: double

record market_data_update =
  mu_venue :: string
  mu_symbol :: string
  mu_sequence :: u64
  mu_timestamp_ns :: u64
  mu_side :: market_data_side
  mu_type :: market_data_update_type
  mu_price :: double
  mu_quantity :: double

record market_data_snapshot =
  ms_venue :: string
  ms_symbol :: string
  ms_sequence :: u64
  ms_timestamp_ns :: u64
  ms_bids :: "market_data_level list"
  ms_asks :: "market_data_level list"

record market_data_decision =
  md_accepted :: bool
  md_sequence_gap :: bool
  md_expected_sequence :: u64
  md_received_sequence :: u64
  md_message :: string

record best_bid_offer =
  bo_valid :: bool
  bo_bid_price :: double
  bo_bid_quantity :: double
  bo_bid_venue :: string
  bo_ask_price :: double
  bo_ask_quantity :: double
  bo_ask_venue :: string
  bo_midpoint :: double
  bo_spread :: double
  bo_locked :: bool
  bo_crossed :: bool

type_synonym levels = "(double \<times> double) list"

record level2_book =
  lb_bids :: levels
  lb_asks :: levels
  lb_sequence :: u64
  lb_timestamp_ns :: u64
  lb_synchronized :: bool
  lb_recovery_buffer :: "(u64 \<times> market_data_update) list"
  lb_missing_sequence :: u64
  lb_sequence_gap_count :: u64
  lb_recovery_count :: u64

definition empty_level2_book :: level2_book where
  "empty_level2_book =
     \<lparr>lb_bids = [], lb_asks = [], lb_sequence = 0, lb_timestamp_ns = 0, lb_synchronized = False,
      lb_recovery_buffer = [], lb_missing_sequence = 0, lb_sequence_gap_count = 0, lb_recovery_count = 0\<rparr>"

definition max_recovery_buffer :: nat where
  "max_recovery_buffer = 4096"

section \<open>Helpers\<close>

definition md_epsilon :: double where
  "md_epsilon = round_double False (1 / 10 ^ 12)"

definition validate_identity :: "string \<Rightarrow> string \<Rightarrow> string option" where
  "validate_identity venue symbol =
     (if venue = [] then Some ''market-data venue cannot be empty''
      else if symbol = [] then Some ''market-data symbol cannot be empty'' else None)"

definition validate_price :: "double \<Rightarrow> string option" where
  "validate_price price =
     (if \<not> is_finite price \<or> d_le price (Number 0) then Some ''market-data price must be positive'' else None)"

definition validate_quantity :: "double \<Rightarrow> string option" where
  "validate_quantity quantity =
     (if \<not> is_finite quantity \<or> d_less quantity (Number 0)
      then Some ''market-data quantity must be non-negative'' else None)"

abbreviation d_greater :: "double \<Rightarrow> double \<Rightarrow> bool" where
  "d_greater x y \<equiv> d_less y x"

definition copy_depth :: "levels \<Rightarrow> nat \<Rightarrow> market_data_level list" where
  "copy_depth levels depth = map (\<lambda>(p, q). \<lparr>ml_price = p, ml_quantity = q\<rparr>) (take depth levels)"

definition side_string :: "market_data_side \<Rightarrow> string" where
  "side_string side = (case side of Bid \<Rightarrow> ''BID'' | Ask \<Rightarrow> ''ASK'')"

definition update_type_string :: "market_data_update_type \<Rightarrow> string" where
  "update_type_string type =
     (case type of Snapshot \<Rightarrow> ''SNAPSHOT'' | Upsert \<Rightarrow> ''UPSERT'' | Delete \<Rightarrow> ''DELETE'')"

text \<open>\<open>bids_.begin()->first >= asks_.begin()->first\<close>, when neither side is empty.\<close>

definition crossed_levels :: "levels \<Rightarrow> levels \<Rightarrow> bool" where
  "crossed_levels bs as =
     (case (bs, as) of ((b, _) # _, (a, _) # _) \<Rightarrow> d_le a b | _ \<Rightarrow> False)"

text \<open>One level of an update, on the two sides.\<close>

definition change_level :: "market_data_update \<Rightarrow> levels \<times> levels \<Rightarrow> levels \<times> levels" where
  "change_level update sides =
     (case sides of (bs, as) \<Rightarrow>
      let remove = (mu_type update = Delete \<or> d_le (mu_quantity update) md_epsilon)
      in if mu_side update = Bid
         then (if remove then om_erase d_greater (mu_price update) bs
               else om_put d_greater (mu_price update) (mu_quantity update) bs, as)
         else (bs, if remove then om_erase d_less (mu_price update) as
               else om_put d_less (mu_price update) (mu_quantity update) as))"

section \<open>Updates\<close>

definition apply_update ::
  "market_data_update \<Rightarrow> level2_book \<Rightarrow> (string + market_data_decision) \<times> level2_book"
where
  "apply_update update b =
     (case validate_identity (mu_venue update) (mu_symbol update) of Some e \<Rightarrow> (Inl e, b) | None \<Rightarrow>
     (case validate_price (mu_price update) of Some e \<Rightarrow> (Inl e, b) | None \<Rightarrow>
     (case validate_quantity (mu_quantity update) of Some e \<Rightarrow> (Inl e, b) | None \<Rightarrow>
      if mu_sequence update = 0 then (Inl ''update sequence must be positive'', b)
      else if mu_sequence update \<le> lb_sequence b then
        (Inr \<lparr>md_accepted = False, md_sequence_gap = False, md_expected_sequence = lb_sequence b + 1,
           md_received_sequence = mu_sequence update,
           md_message = ''stale or duplicate update ignored''\<rparr>, b)
      else if \<not> lb_synchronized b then
        (if max_recovery_buffer \<le> length (lb_recovery_buffer b) \<and>
            \<not> om_contains (<) (mu_sequence update) (lb_recovery_buffer b)
         then
           (Inr \<lparr>md_accepted = False, md_sequence_gap = True,
              md_expected_sequence = lb_missing_sequence b,
              md_received_sequence = mu_sequence update,
              md_message = ''recovery buffer capacity exceeded''\<rparr>, b)
         else
           (Inr \<lparr>md_accepted = False, md_sequence_gap = True,
              md_expected_sequence =
                (if lb_missing_sequence b \<noteq> 0 then lb_missing_sequence b else lb_sequence b + 1),
              md_received_sequence = mu_sequence update,
              md_message = ''incremental buffered during recovery''\<rparr>,
            b\<lparr>lb_recovery_buffer :=
              om_try_emplace (<) (mu_sequence update) update (lb_recovery_buffer b)\<rparr>))
      else
        let expected = lb_sequence b + 1 in
        if expected < mu_sequence update then
          (Inr \<lparr>md_accepted = False, md_sequence_gap = True, md_expected_sequence = expected,
             md_received_sequence = mu_sequence update,
             md_message = ''market-data sequence gap detected''\<rparr>,
           b\<lparr>lb_synchronized := False, lb_missing_sequence := expected,
             lb_sequence_gap_count := lb_sequence_gap_count b + 1,
             lb_recovery_buffer :=
               om_try_emplace (<) (mu_sequence update) update (lb_recovery_buffer b)\<rparr>)
        else
          let (bs, as) = change_level update (lb_bids b, lb_asks b);
              b1 = b\<lparr>lb_bids := bs, lb_asks := as\<rparr>
          in if crossed_levels bs as then
               (Inr \<lparr>md_accepted = False, md_sequence_gap = False, md_expected_sequence = expected,
                  md_received_sequence = mu_sequence update,
                  md_message = ''incremental update crossed the market''\<rparr>,
                b1\<lparr>lb_synchronized := False\<rparr>)
             else
               (Inr \<lparr>md_accepted = True, md_sequence_gap = False, md_expected_sequence = expected,
                  md_received_sequence = mu_sequence update,
                  md_message = ''incremental update accepted''\<rparr>,
                b1\<lparr>lb_sequence := mu_sequence update, lb_timestamp_ns := mu_timestamp_ns update\<rparr>))))"

section \<open>Snapshots\<close>

text \<open>The loops over the levels of a snapshot: the first invalid level throws.\<close>

fun snapshot_levels ::
  "(double \<Rightarrow> double \<Rightarrow> bool) \<Rightarrow> market_data_level list \<Rightarrow> levels \<Rightarrow> string + levels"
where
  "snapshot_levels lt [] m = Inr m"
| "snapshot_levels lt (l # ls) m =
     (case validate_price (ml_price l) of Some e \<Rightarrow> Inl e | None \<Rightarrow>
     (case validate_quantity (ml_quantity l) of Some e \<Rightarrow> Inl e | None \<Rightarrow>
      snapshot_levels lt ls
        (if d_less md_epsilon (ml_quantity l) then om_put lt (ml_price l) (ml_quantity l) m else m)))"

text \<open>The replay of the buffered updates: what \<open>apply\<close> returns is ignored.\<close>

fun replay_buffered :: "market_data_update list \<Rightarrow> level2_book \<Rightarrow> level2_book" where
  "replay_buffered [] b = b"
| "replay_buffered (u # us) b =
     (if mu_sequence u \<le> lb_sequence b then replay_buffered us b
      else replay_buffered us (snd (apply_update u b)))"

definition apply_snapshot ::
  "market_data_snapshot \<Rightarrow> level2_book \<Rightarrow> (string + market_data_decision) \<times> level2_book"
where
  "apply_snapshot snapshot b =
     (case validate_identity (ms_venue snapshot) (ms_symbol snapshot) of Some e \<Rightarrow> (Inl e, b) | None \<Rightarrow>
     (case snapshot_levels d_greater (ms_bids snapshot) [] of Inl e \<Rightarrow> (Inl e, b) | Inr next_bids \<Rightarrow>
     (case snapshot_levels d_less (ms_asks snapshot) [] of Inl e \<Rightarrow> (Inl e, b) | Inr next_asks \<Rightarrow>
      if crossed_levels next_bids next_asks then (Inl ''snapshot contains crossed market'', b)
      else
        let was_recovering = (lb_recovery_buffer b \<noteq> [] \<or> lb_missing_sequence b \<noteq> 0);
            buffered_updates = map snd (lb_recovery_buffer b);
            b1 = b\<lparr>lb_recovery_buffer := [], lb_bids := next_bids, lb_asks := next_asks,
                   lb_sequence := ms_sequence snapshot, lb_timestamp_ns := ms_timestamp_ns snapshot,
                   lb_synchronized := True, lb_missing_sequence := 0\<rparr>;
            b2 = replay_buffered buffered_updates b1;
            b3 = (if was_recovering \<and> lb_synchronized b2
                  then b2\<lparr>lb_recovery_count := lb_recovery_count b2 + 1\<rparr> else b2)
        in (Inr \<lparr>md_accepted = True, md_sequence_gap = (\<not> lb_synchronized b3),
              md_expected_sequence =
                (if lb_synchronized b3 then lb_sequence b3 + 1 else lb_missing_sequence b3),
              md_received_sequence = ms_sequence snapshot,
              md_message =
                (if lb_synchronized b3
                 then if was_recovering then ''snapshot accepted and recovery completed''
                      else ''snapshot accepted''
                 else ''snapshot accepted but buffered replay still contains a gap'')\<rparr>, b3))))"

section \<open>Batches\<close>

text \<open>The loop over a batch: the levels and the latest time, or the exception.\<close>

fun batch_levels ::
  "market_data_update \<Rightarrow> market_data_update list \<Rightarrow> (levels \<times> levels) \<times> u64
    \<Rightarrow> string + (levels \<times> levels) \<times> u64"
where
  "batch_levels first [] acc = Inr acc"
| "batch_levels first (u # us) (sides, latest_timestamp) =
     (case validate_identity (mu_venue u) (mu_symbol u) of Some e \<Rightarrow> Inl e | None \<Rightarrow>
      if mu_venue u \<noteq> mu_venue first \<or> mu_symbol u \<noteq> mu_symbol first
      then Inl ''market-data batch mixes books''
      else if mu_sequence u \<noteq> mu_sequence first then Inl ''market-data batch mixes sequences''
      else
        (case validate_price (mu_price u) of Some e \<Rightarrow> Inl e | None \<Rightarrow>
        (case validate_quantity (mu_quantity u) of Some e \<Rightarrow> Inl e | None \<Rightarrow>
         batch_levels first us (change_level u sides, max latest_timestamp (mu_timestamp_ns u)))))"

definition apply_batch ::
  "market_data_update list \<Rightarrow> level2_book \<Rightarrow> (string + market_data_decision) \<times> level2_book"
where
  "apply_batch updates b =
     (case updates of
        [] \<Rightarrow>
          (Inr \<lparr>md_accepted = True, md_sequence_gap = False, md_expected_sequence = lb_sequence b,
             md_received_sequence = lb_sequence b, md_message = ''empty update batch accepted''\<rparr>, b)
      | first # _ \<Rightarrow>
          (case validate_identity (mu_venue first) (mu_symbol first) of Some e \<Rightarrow> (Inl e, b) | None \<Rightarrow>
           let expected = lb_sequence b + 1;
               refuse = (\<lambda>gap message. Inr \<lparr>md_accepted = False, md_sequence_gap = gap,
                 md_expected_sequence = expected, md_received_sequence = mu_sequence first,
                 md_message = message\<rparr>)
           in if \<not> lb_synchronized b then (refuse True ''snapshot required before incrementals'', b)
              else if mu_sequence first \<noteq> expected then
                (refuse True ''market-data sequence gap detected'', b\<lparr>lb_synchronized := False\<rparr>)
              else case batch_levels first updates ((lb_bids b, lb_asks b), mu_timestamp_ns first) of
                Inl e \<Rightarrow> (Inl e, b)
              | Inr ((next_bids, next_asks), latest_timestamp) \<Rightarrow>
                  if crossed_levels next_bids next_asks then
                    (refuse False ''incremental batch crossed the market'', b\<lparr>lb_synchronized := False\<rparr>)
                  else
                    (Inr \<lparr>md_accepted = True, md_sequence_gap = False, md_expected_sequence = expected,
                       md_received_sequence = mu_sequence first,
                       md_message = ''incremental update batch accepted''\<rparr>,
                     b\<lparr>lb_bids := next_bids, lb_asks := next_asks, lb_sequence := mu_sequence first,
                       lb_timestamp_ns := latest_timestamp\<rparr>)))"

section \<open>Queries\<close>

definition best_level :: "levels \<Rightarrow> market_data_level option" where
  "best_level m = (case m of [] \<Rightarrow> None | (p, q) # _ \<Rightarrow> Some \<lparr>ml_price = p, ml_quantity = q\<rparr>)"

definition level2_best_bid :: "level2_book \<Rightarrow> market_data_level option" where
  "level2_best_bid b = best_level (lb_bids b)"

definition level2_best_ask :: "level2_book \<Rightarrow> market_data_level option" where
  "level2_best_ask b = best_level (lb_asks b)"

definition bids :: "nat \<Rightarrow> level2_book \<Rightarrow> market_data_level list" where
  "bids depth b = copy_depth (lb_bids b) depth"

definition asks :: "nat \<Rightarrow> level2_book \<Rightarrow> market_data_level list" where
  "asks depth b = copy_depth (lb_asks b) depth"

definition recovering :: "level2_book \<Rightarrow> bool" where
  "recovering b \<longleftrightarrow> \<not> lb_synchronized b \<and> lb_missing_sequence b \<noteq> 0"

definition clear_level2_book :: "level2_book \<Rightarrow> level2_book" where
  "clear_level2_book b =
     b\<lparr>lb_bids := [], lb_asks := [], lb_recovery_buffer := [], lb_sequence := 0, lb_timestamp_ns := 0,
       lb_synchronized := False, lb_missing_sequence := 0, lb_sequence_gap_count := 0,
       lb_recovery_count := 0\<rparr>"

section \<open>The books of all venues\<close>

type_synonym consolidated = "(string \<times> level2_book) list"

definition book_key :: "string \<Rightarrow> string \<Rightarrow> string + string" where
  "book_key venue symbol =
     (case validate_identity venue symbol of Some e \<Rightarrow> Inl e | None \<Rightarrow> Inr (venue @ [CHR 0x0A] @ symbol))"

text \<open>\<open>books_[key]\<close> creates the book before the operation runs, which may throw.\<close>

definition on_book ::
  "string \<Rightarrow> string \<Rightarrow> (level2_book \<Rightarrow> (string + market_data_decision) \<times> level2_book) \<Rightarrow> consolidated
    \<Rightarrow> (string + market_data_decision) \<times> consolidated"
where
  "on_book venue symbol f m =
     (case book_key venue symbol of
        Inl e \<Rightarrow> (Inl e, m)
      | Inr k \<Rightarrow>
          let b = (case map_of m k of None \<Rightarrow> empty_level2_book | Some b \<Rightarrow> b);
              (r, b') = f b
          in (r, hm_update k b' m))"

definition consolidated_snapshot ::
  "market_data_snapshot \<Rightarrow> consolidated \<Rightarrow> (string + market_data_decision) \<times> consolidated"
where
  "consolidated_snapshot s m = on_book (ms_venue s) (ms_symbol s) (apply_snapshot s) m"

definition consolidated_update ::
  "market_data_update \<Rightarrow> consolidated \<Rightarrow> (string + market_data_decision) \<times> consolidated"
where
  "consolidated_update u m = on_book (mu_venue u) (mu_symbol u) (apply_update u) m"

definition consolidated_batch ::
  "market_data_update list \<Rightarrow> consolidated \<Rightarrow> (string + market_data_decision) \<times> consolidated"
where
  "consolidated_batch us m =
     (case us of
        [] \<Rightarrow> (Inr \<lparr>md_accepted = True, md_sequence_gap = False, md_expected_sequence = 0,
                md_received_sequence = 0, md_message = ''empty update batch accepted''\<rparr>, m)
      | first # _ \<Rightarrow> on_book (mu_venue first) (mu_symbol first) (apply_batch us) m)"

definition find_venue_book :: "string \<Rightarrow> string \<Rightarrow> consolidated \<Rightarrow> string + level2_book option" where
  "find_venue_book venue symbol m =
     (case book_key venue symbol of Inl e \<Rightarrow> Inl e | Inr k \<Rightarrow> Inr (map_of m k))"

text \<open>The venue and the symbol of a key, split at its first newline.\<close>

definition split_key :: "string \<Rightarrow> (string \<times> string) option" where
  "split_key k =
     (case dropWhile (\<lambda>c. c \<noteq> CHR 0x0A) k of
        [] \<Rightarrow> None | _ # symbol \<Rightarrow> Some (takeWhile (\<lambda>c. c \<noteq> CHR 0x0A) k, symbol))"

definition consider_book :: "string \<Rightarrow> string \<times> level2_book \<Rightarrow> best_bid_offer \<Rightarrow> best_bid_offer" where
  "consider_book symbol entry result =
     (let b = snd entry in
      if \<not> lb_synchronized b then result
      else case split_key (fst entry) of
        None \<Rightarrow> result
      | Some (venue, stored_symbol) \<Rightarrow>
          if stored_symbol \<noteq> symbol then result
          else
            let r1 = (case level2_best_bid b of
                  None \<Rightarrow> result
                | Some bid \<Rightarrow>
                    if bo_bid_venue result = [] \<or> d_less (bo_bid_price result) (ml_price bid)
                    then result\<lparr>bo_bid_price := ml_price bid, bo_bid_quantity := ml_quantity bid,
                      bo_bid_venue := venue\<rparr>
                    else result);
                r2 = (case level2_best_ask b of
                  None \<Rightarrow> r1
                | Some ask \<Rightarrow>
                    if bo_ask_venue r1 = [] \<or> d_less (ml_price ask) (bo_ask_price r1)
                    then r1\<lparr>bo_ask_price := ml_price ask, bo_ask_quantity := ml_quantity ask,
                      bo_ask_venue := venue\<rparr>
                    else r1)
            in r2\<lparr>bo_valid := (bo_bid_venue r2 \<noteq> [] \<and> bo_ask_venue r2 \<noteq> [])\<rparr>)"

definition consolidated_bbo :: "string \<Rightarrow> consolidated \<Rightarrow> best_bid_offer" where
  "consolidated_bbo symbol m =
     (let r = fold (consider_book symbol) m
            \<lparr>bo_valid = False, bo_bid_price = Number 0, bo_bid_quantity = Number 0, bo_bid_venue = [],
             bo_ask_price = Number 0, bo_ask_quantity = Number 0, bo_ask_venue = [],
             bo_midpoint = Number 0, bo_spread = Number 0, bo_locked = False, bo_crossed = False\<rparr>
      in if bo_valid r then
           let spread = d_sub (bo_ask_price r) (bo_bid_price r);
               r1 = r\<lparr>bo_spread := spread, bo_locked := d_eq spread (Number 0),
                      bo_crossed := d_less spread (Number 0)\<rparr>
           in if bo_crossed r1 then r1\<lparr>bo_valid := False, bo_midpoint := Number 0\<rparr>
              else r1\<lparr>bo_midpoint := d_div (d_add (bo_bid_price r1) (bo_ask_price r1)) (Number 2)\<rparr>
         else r)"

definition venues_for_symbol :: "string \<Rightarrow> consolidated \<Rightarrow> string list" where
  "venues_for_symbol symbol m =
     sort (List.map_filter (\<lambda>(k, _). case split_key k of
        None \<Rightarrow> None
      | Some (venue, stored_symbol) \<Rightarrow> if stored_symbol = symbol then Some venue else None) m)"

end
