(* ===== verification/Market_Data_Inv.thy ===== *)
theory Market_Data_Inv
  imports Market_Data
begin

text \<open>
  The invariant of a level-2 book and the effect of the updates it accepts; a book that has missed
  messages catches up with one that has not.
\<close>

definition price_ok :: "double \<Rightarrow> bool" where
  "price_ok p \<longleftrightarrow> is_finite p \<and> d_less (Number 0) p"

lemma price_ok_cases:
  assumes "price_ok p"
  obtains q where "p = Number q" and "0 < q"
  using assms by (cases p) (auto simp: price_ok_def)

lemma validate_price_None [simp]: "validate_price p = None \<longleftrightarrow> price_ok p"
  by (cases p) (auto simp: validate_price_def price_ok_def d_le_def)

interpretation ask_keys: ordered_keys d_less price_ok
  by unfold_locales (auto elim!: price_ok_cases)

interpretation bid_keys: ordered_keys d_greater price_ok
  by unfold_locales (auto elim!: price_ok_cases)

interpretation sequence_keys: ordered_keys "(<)" "\<lambda>k :: u64. True"
  by unfold_locales auto

section \<open>The sides of a book\<close>

definition quantity_ok :: "double \<Rightarrow> bool" where
  "quantity_ok q \<longleftrightarrow> is_finite q \<and> d_less md_epsilon q"

definition levels_ok :: "(double \<Rightarrow> double \<Rightarrow> bool) \<Rightarrow> levels \<Rightarrow> bool" where
  "levels_ok lt m \<longleftrightarrow> om_ordered lt m \<and> (\<forall>(p, q) \<in> set m. price_ok p \<and> quantity_ok q)"

lemma levels_ok_Nil [simp]: "levels_ok lt []"
  by (simp add: levels_ok_def)

lemma levels_ok_keys: "levels_ok lt m \<Longrightarrow> om_ordered lt m \<and> (\<forall>k \<in> om_keys m. price_ok k)"
  by (auto simp: levels_ok_def om_keys_def)

lemma levels_ok_put:
  assumes "ordered_keys lt price_ok" and "levels_ok lt m" and "price_ok p" and "quantity_ok q"
  shows "levels_ok lt (om_put lt p q m)"
  using assms levels_ok_keys [OF assms(2)]
  by (auto simp: levels_ok_def ordered_keys.ordered_put ordered_keys.in_put split: if_splits)

lemma levels_ok_erase:
  assumes "ordered_keys lt price_ok" and "levels_ok lt m" and "price_ok p"
  shows "levels_ok lt (om_erase lt p m)"
  using assms levels_ok_keys [OF assms(2)]
  by (auto simp: levels_ok_def ordered_keys.ordered_erase ordered_keys.in_erase)

definition sides_ok :: "levels \<times> levels \<Rightarrow> bool" where
  "sides_ok sides \<longleftrightarrow> levels_ok d_greater (fst sides) \<and> levels_ok d_less (snd sides)"

definition update_ok :: "market_data_update \<Rightarrow> bool" where
  "update_ok u \<longleftrightarrow> validate_identity (mu_venue u) (mu_symbol u) = None \<and> price_ok (mu_price u) \<and>
     validate_quantity (mu_quantity u) = None"

lemma md_epsilon_not_nan [simp]: "\<not> is_nan md_epsilon"
  by (simp add: md_epsilon_def)

lemma kept_quantity:
  "validate_quantity q = None \<Longrightarrow> \<not> d_le q md_epsilon \<Longrightarrow> quantity_ok q"
  by (cases q) (auto simp: validate_quantity_def quantity_ok_def d_le_def split: if_splits)

lemma change_level_ok:
  assumes "sides_ok sides" and "price_ok (mu_price u)" and "validate_quantity (mu_quantity u) = None"
  shows "sides_ok (change_level u sides)"
proof -
  note keys = ask_keys.ordered_keys_axioms bid_keys.ordered_keys_axioms
  show ?thesis
    using assms kept_quantity [OF assms(3)]
    by (cases sides) (auto simp: sides_ok_def change_level_def Let_def intro!: levels_ok_put levels_ok_erase keys)
qed

lemma snapshot_levels_ok:
  "ordered_keys lt price_ok \<Longrightarrow> levels_ok lt m \<Longrightarrow> snapshot_levels lt ls m = Inr m' \<Longrightarrow> levels_ok lt m'"
proof (induction ls arbitrary: m)
  case (Cons l ls)
  have l: "price_ok (ml_price l)" "validate_quantity (ml_quantity l) = None"
    using Cons.prems(3) by (auto split: option.splits simp flip: validate_price_None)
  have "levels_ok lt (if d_less md_epsilon (ml_quantity l) then om_put lt (ml_price l) (ml_quantity l) m else m)"
    using Cons.prems(1,2) l by (auto simp: validate_quantity_def quantity_ok_def split: if_splits intro!: levels_ok_put)
  from Cons.IH [OF Cons.prems(1) this] Cons.prems(3) l(2) show ?case
    by (simp add: l(1) [THEN validate_price_None [THEN iffD2]])
qed simp

section \<open>The invariant\<close>

definition buffer_ok :: "u64 \<Rightarrow> (u64 \<times> market_data_update) list \<Rightarrow> bool" where
  "buffer_ok n m \<longleftrightarrow> om_ordered (<) m \<and> length m \<le> max_recovery_buffer \<and>
     (\<forall>(k, u) \<in> set m. mu_sequence u = k \<and> n < k \<and> update_ok u)"

definition book_ok :: "level2_book \<Rightarrow> bool" where
  "book_ok b \<longleftrightarrow> sides_ok (lb_bids b, lb_asks b) \<and> buffer_ok (lb_sequence b) (lb_recovery_buffer b) \<and>
     (lb_synchronized b \<longrightarrow> \<not> crossed_levels (lb_bids b) (lb_asks b) \<and> lb_recovery_buffer b = [] \<and>
        lb_missing_sequence b = 0) \<and>
     (lb_missing_sequence b \<noteq> 0 \<longrightarrow> lb_missing_sequence b = lb_sequence b + 1)"

lemma buffer_ok_Nil [simp]: "buffer_ok n []"
  by (simp add: buffer_ok_def)

lemma length_try_emplace:
  "length (om_try_emplace lt k v m) \<le> Suc (length m)"
  by (induction lt k v m rule: om_try_emplace.induct) auto

lemma try_emplace_contained:
  "om_contains (<) (k :: u64) m \<Longrightarrow> om_try_emplace (<) k v m = m"
  by (induction m) (auto simp: om_contains_def split: if_splits)

lemma buffer_ok_emplace:
  assumes "buffer_ok n m" and "n < mu_sequence u" and "update_ok u"
    and "length m < max_recovery_buffer \<or> om_contains (<) (mu_sequence u) m"
  shows "buffer_ok n (om_try_emplace (<) (mu_sequence u) u m)"
proof (cases "om_contains (<) (mu_sequence u) m")
  case True
  then show ?thesis using assms(1) by (simp add: try_emplace_contained)
next
  case False
  have ord: "om_ordered (<) m" using assms(1) by (simp add: buffer_ok_def)
  then have "mu_sequence u \<notin> om_keys m" using False by (simp add: sequence_keys.contains_iff)
  then obtain xs ys where split: "m = xs @ ys"
      "om_try_emplace (<) (mu_sequence u) u m = xs @ (mu_sequence u, u) # ys"
      "\<forall>y \<in> om_keys xs. y < mu_sequence u" "\<forall>y \<in> om_keys ys. mu_sequence u < y"
    using sequence_keys.try_emplace_new_split [OF ord, of "mu_sequence u" u] by auto
  then show ?thesis
    using assms False by (auto simp: buffer_ok_def)
qed

text \<open>The outcome of an update, case by case.\<close>

definition moved :: "market_data_update \<Rightarrow> level2_book \<Rightarrow> level2_book" where
  "moved u b = b\<lparr>lb_bids := fst (change_level u (lb_bids b, lb_asks b)),
     lb_asks := snd (change_level u (lb_bids b, lb_asks b))\<rparr>"

definition updated :: "market_data_update \<Rightarrow> level2_book \<Rightarrow> level2_book" where
  "updated u b = (moved u b)\<lparr>lb_sequence := mu_sequence u, lb_timestamp_ns := mu_timestamp_ns u\<rparr>"

definition buffered :: "market_data_update \<Rightarrow> level2_book \<Rightarrow> level2_book" where
  "buffered u b = b\<lparr>lb_recovery_buffer := om_try_emplace (<) (mu_sequence u) u (lb_recovery_buffer b)\<rparr>"

definition update_crosses :: "market_data_update \<Rightarrow> level2_book \<Rightarrow> bool" where
  "update_crosses u b \<longleftrightarrow> crossed_levels (lb_bids (moved u b)) (lb_asks (moved u b))"

lemma apply_update_state:
  "snd (apply_update u b) =
     (if \<not> update_ok u \<or> mu_sequence u \<le> lb_sequence b then b
      else if \<not> lb_synchronized b then
        (if max_recovery_buffer \<le> length (lb_recovery_buffer b) \<and>
            \<not> om_contains (<) (mu_sequence u) (lb_recovery_buffer b) then b else buffered u b)
      else if lb_sequence b + 1 < mu_sequence u then
        (buffered u b)\<lparr>lb_synchronized := False, lb_missing_sequence := lb_sequence b + 1,
           lb_sequence_gap_count := lb_sequence_gap_count b + 1\<rparr>
      else if update_crosses u b then (moved u b)\<lparr>lb_synchronized := False\<rparr>
      else updated u b)"
proof (cases "update_ok u")
  case True
  then have ok: "validate_identity (mu_venue u) (mu_symbol u) = None" "validate_price (mu_price u) = None"
      "validate_quantity (mu_quantity u) = None"
    by (simp_all only: update_ok_def validate_price_None)
  have zero: "mu_sequence u = 0 \<Longrightarrow> mu_sequence u \<le> lb_sequence b" by simp
  have prefix: "(if mu_sequence u = 0 then b else if mu_sequence u \<le> lb_sequence b then b else x) =
      (if \<not> update_ok u \<or> mu_sequence u \<le> lb_sequence b then b else x)" for x :: level2_book
    using True zero by presburger
  show ?thesis
    unfolding apply_update_def ok option.case Let_def case_prod_beta if_distrib [of snd] snd_conv prefix
      moved_def updated_def buffered_def update_crosses_def
    by (intro if_cong refl) simp_all
next
  case False
  then have "validate_identity (mu_venue u) (mu_symbol u) \<noteq> None \<or> validate_price (mu_price u) \<noteq> None \<or>
      validate_quantity (mu_quantity u) \<noteq> None"
    by (simp add: update_ok_def)
  then have "snd (apply_update u b) = b" by (auto simp: apply_update_def simp del: validate_price_None split: option.split)
  with False show ?thesis by simp
qed

lemma apply_update_accepted:
  "(\<exists>d. fst (apply_update u b) = Inr d \<and> md_accepted d) \<longleftrightarrow>
     update_ok u \<and> lb_synchronized b \<and> mu_sequence u = lb_sequence b + 1 \<and>
     lb_sequence b < mu_sequence u \<and> \<not> update_crosses u b"
proof (cases "update_ok u")
  case True
  then have ok: "validate_identity (mu_venue u) (mu_symbol u) = None" "validate_price (mu_price u) = None"
      "validate_quantity (mu_quantity u) = None"
    by (simp_all only: update_ok_def validate_price_None)
  have order: "(mu_sequence u \<noteq> 0 \<and> \<not> mu_sequence u \<le> lb_sequence b \<and> \<not> lb_sequence b + 1 < mu_sequence u) \<longleftrightarrow>
      mu_sequence u = lb_sequence b + 1 \<and> lb_sequence b < mu_sequence u"
    using inc_le [of "lb_sequence b" "mu_sequence u"] by (auto simp: not_le not_less)
  have "(\<exists>d. fst (apply_update u b) = Inr d \<and> md_accepted d) \<longleftrightarrow>
      mu_sequence u \<noteq> 0 \<and> \<not> mu_sequence u \<le> lb_sequence b \<and> lb_synchronized b \<and>
      \<not> lb_sequence b + 1 < mu_sequence u \<and> \<not> update_crosses u b"
    unfolding apply_update_def ok option.case Let_def case_prod_beta update_crosses_def moved_def
    by (cases "mu_sequence u = 0"; cases "mu_sequence u \<le> lb_sequence b"; cases "lb_synchronized b";
        cases "lb_sequence b + 1 < mu_sequence u"; simp only: simp_thms if_True if_False fst_conv; auto)
  then show ?thesis using True order by blast
next
  case False
  then have "validate_identity (mu_venue u) (mu_symbol u) \<noteq> None \<or> validate_price (mu_price u) \<noteq> None \<or>
      validate_quantity (mu_quantity u) \<noteq> None"
    by (simp add: update_ok_def)
  then have "\<exists>e. fst (apply_update u b) = Inl e" by (auto simp: apply_update_def simp del: validate_price_None split: option.split)
  with False show ?thesis by auto
qed

section \<open>Every operation keeps the invariant\<close>

lemma moved_simps [simp]:
  "lb_sequence (moved u b) = lb_sequence b" "lb_synchronized (moved u b) = lb_synchronized b"
  "lb_recovery_buffer (moved u b) = lb_recovery_buffer b" "lb_missing_sequence (moved u b) = lb_missing_sequence b"
  "(lb_bids (moved u b), lb_asks (moved u b)) = change_level u (lb_bids b, lb_asks b)"
  by (simp_all add: moved_def)

lemma updated_simps [simp]:
  "lb_sequence (updated u b) = mu_sequence u" "lb_synchronized (updated u b) = lb_synchronized b"
  "lb_recovery_buffer (updated u b) = lb_recovery_buffer b"
  "lb_missing_sequence (updated u b) = lb_missing_sequence b"
  "lb_bids (updated u b) = lb_bids (moved u b)" "lb_asks (updated u b) = lb_asks (moved u b)"
  by (simp_all add: updated_def)

lemma buffered_simps [simp]:
  "lb_sequence (buffered u b) = lb_sequence b" "lb_synchronized (buffered u b) = lb_synchronized b"
  "lb_missing_sequence (buffered u b) = lb_missing_sequence b"
  "lb_bids (buffered u b) = lb_bids b" "lb_asks (buffered u b) = lb_asks b"
  "lb_recovery_buffer (buffered u b) = om_try_emplace (<) (mu_sequence u) u (lb_recovery_buffer b)"
  by (simp_all add: buffered_def)

lemma book_ok_sides: "book_ok b \<Longrightarrow> sides_ok (lb_bids b, lb_asks b)"
  by (simp add: book_ok_def)

lemma moved_ok: "book_ok b \<Longrightarrow> update_ok u \<Longrightarrow> sides_ok (lb_bids (moved u b), lb_asks (moved u b))"
  unfolding moved_simps by (rule change_level_ok) (simp_all add: book_ok_def update_ok_def)

lemma apply_update_ok:
  assumes "book_ok b"
  shows "book_ok (snd (apply_update u b))"
proof -
  have sides: "sides_ok (lb_bids b, lb_asks b)" and buf: "buffer_ok (lb_sequence b) (lb_recovery_buffer b)"
    and sync: "lb_synchronized b \<Longrightarrow> \<not> crossed_levels (lb_bids b) (lb_asks b) \<and>
      lb_recovery_buffer b = [] \<and> lb_missing_sequence b = 0"
    and miss: "lb_missing_sequence b \<noteq> 0 \<Longrightarrow> lb_missing_sequence b = lb_sequence b + 1"
    using assms by (simp_all add: book_ok_def)
  consider (same) "snd (apply_update u b) = b"
    | (buffer) "update_ok u" "lb_sequence b < mu_sequence u" "\<not> lb_synchronized b"
        "length (lb_recovery_buffer b) < max_recovery_buffer \<or> om_contains (<) (mu_sequence u) (lb_recovery_buffer b)"
        "snd (apply_update u b) = buffered u b"
    | (gap) "update_ok u" "lb_sequence b < mu_sequence u" "lb_synchronized b"
        "snd (apply_update u b) = (buffered u b)\<lparr>lb_synchronized := False, lb_missing_sequence := lb_sequence b + 1,
           lb_sequence_gap_count := lb_sequence_gap_count b + 1\<rparr>"
    | (crossed) "update_ok u" "lb_synchronized b"
        "snd (apply_update u b) = (moved u b)\<lparr>lb_synchronized := False\<rparr>"
    | (accepted) "update_ok u" "lb_synchronized b" "\<not> update_crosses u b" "snd (apply_update u b) = updated u b"
    unfolding apply_update_state not_le [symmetric] by argo
  then show ?thesis
  proof cases
    case same
    then show ?thesis using assms by simp
  next
    case buffer
    have "buffer_ok (lb_sequence b) (lb_recovery_buffer (buffered u b))"
      unfolding buffered_simps by (rule buffer_ok_emplace [OF buf buffer(2,1,4)])
    then show ?thesis using buffer(3) sides miss unfolding buffer(5) book_ok_def by simp
  next
    case gap
    have "buffer_ok (lb_sequence b) (lb_recovery_buffer (buffered u b))"
      unfolding buffered_simps using sync [OF gap(3)]
      by (intro buffer_ok_emplace [OF buf gap(2,1)]) (simp add: max_recovery_buffer_def)
    then show ?thesis using sides unfolding gap(4) book_ok_def by simp
  next
    case crossed
    then show ?thesis using moved_ok [OF assms crossed(1)] buf miss unfolding crossed(3) book_ok_def by simp
  next
    case accepted
    then show ?thesis
      using moved_ok [OF assms accepted(1)] sync [OF accepted(2)] unfolding accepted(4) book_ok_def
      by (simp add: update_crosses_def)
  qed
qed

lemma replay_buffered_ok: "book_ok b \<Longrightarrow> book_ok (replay_buffered us b)"
  by (induction us b rule: replay_buffered.induct) (simp_all add: apply_update_ok)

text \<open>The book a snapshot starts from.\<close>

definition from_snapshot :: "market_data_snapshot \<Rightarrow> levels \<Rightarrow> levels \<Rightarrow> level2_book \<Rightarrow> level2_book" where
  "from_snapshot snapshot bs as b =
     b\<lparr>lb_recovery_buffer := [], lb_bids := bs, lb_asks := as, lb_sequence := ms_sequence snapshot,
       lb_timestamp_ns := ms_timestamp_ns snapshot, lb_synchronized := True, lb_missing_sequence := 0\<rparr>"

lemma apply_snapshot_cases:
  obtains (refused) e where "apply_snapshot s b = (Inl e, b)"
  | (taken) bs as d t where "snapshot_levels d_greater (ms_bids s) [] = Inr bs"
      "snapshot_levels d_less (ms_asks s) [] = Inr as" "\<not> crossed_levels bs as"
      "apply_snapshot s b = (Inr d, t)" "md_accepted d" "md_sequence_gap d = (\<not> lb_synchronized t)"
      "t = (let r = replay_buffered (map snd (lb_recovery_buffer b)) (from_snapshot s bs as b)
            in if (lb_recovery_buffer b \<noteq> [] \<or> lb_missing_sequence b \<noteq> 0) \<and> lb_synchronized r
               then r\<lparr>lb_recovery_count := lb_recovery_count r + 1\<rparr> else r)"
proof (cases "\<exists>e. apply_snapshot s b = (Inl e, b)")
  case False
  then obtain bs as where ok: "validate_identity (ms_venue s) (ms_symbol s) = None"
      "snapshot_levels d_greater (ms_bids s) [] = Inr bs" "snapshot_levels d_less (ms_asks s) [] = Inr as"
      "\<not> crossed_levels bs as"
    by (auto simp: apply_snapshot_def split: option.splits sum.splits if_splits)
  define T where "T = (let r = replay_buffered (map snd (lb_recovery_buffer b)) (from_snapshot s bs as b)
      in if (lb_recovery_buffer b \<noteq> [] \<or> lb_missing_sequence b \<noteq> 0) \<and> lb_synchronized r
         then r\<lparr>lb_recovery_count := lb_recovery_count r + 1\<rparr> else r)"
  have "\<exists>d. apply_snapshot s b = (Inr d, T) \<and> md_accepted d \<and> md_sequence_gap d = (\<not> lb_synchronized T)"
    unfolding apply_snapshot_def ok option.case sum.case if_not_P [OF ok(4)] Let_def
      from_snapshot_def [symmetric] T_def [unfolded Let_def, symmetric] by simp
  then show ?thesis using taken [OF ok(2-4)] T_def by blast
qed (use refused in blast)

lemma apply_snapshot_ok:
  assumes "book_ok b"
  shows "book_ok (snd (apply_snapshot s b))"
proof (cases s b rule: apply_snapshot_cases)
  case (refused e)
  then show ?thesis using assms by simp
next
  case (taken bs as d t)
  have "sides_ok (bs, as)"
    using snapshot_levels_ok [OF ask_keys.ordered_keys_axioms levels_ok_Nil taken(2)]
      snapshot_levels_ok [OF bid_keys.ordered_keys_axioms levels_ok_Nil taken(1)] by (simp add: sides_ok_def)
  then have "book_ok (from_snapshot s bs as b)"
    using taken(3) by (simp add: book_ok_def from_snapshot_def)
  then have "book_ok (replay_buffered (map snd (lb_recovery_buffer b)) (from_snapshot s bs as b))"
    by (rule replay_buffered_ok)
  then show ?thesis unfolding taken(4) snd_conv taken(7) Let_def by (simp add: book_ok_def)
qed

lemma batch_levels_ok:
  "sides_ok sides \<Longrightarrow> batch_levels f us (sides, ts) = Inr (sides', ts') \<Longrightarrow> sides_ok sides'"
proof (induction us arbitrary: sides ts)
  case (Cons u us)
  have u: "price_ok (mu_price u)" "validate_quantity (mu_quantity u) = None"
    using Cons.prems(2) by (auto split: option.splits if_splits simp flip: validate_price_None)
  have "\<exists>ts1. batch_levels f us (change_level u sides, ts1) = Inr (sides', ts')"
    using Cons.prems(2) by (auto split: option.splits if_splits simp del: validate_price_None)
  with Cons.IH change_level_ok [OF Cons.prems(1) u] show ?case by blast
qed simp

lemma apply_batch_cases:
  obtains (same) r where "apply_batch us b = (r, b)"
  | (lost) r where "apply_batch us b = (r, b\<lparr>lb_synchronized := False\<rparr>)"
  | (taken) d bs as ts where "us \<noteq> []" "mu_sequence (hd us) = lb_sequence b + 1" "lb_synchronized b"
      "batch_levels (hd us) us ((lb_bids b, lb_asks b), mu_timestamp_ns (hd us)) = Inr ((bs, as), ts)"
      "\<not> crossed_levels bs as"
      "apply_batch us b = (Inr d, b\<lparr>lb_bids := bs, lb_asks := as, lb_sequence := mu_sequence (hd us),
         lb_timestamp_ns := ts\<rparr>)"
proof (cases us)
  case Nil
  then show ?thesis using same by (simp add: apply_batch_def)
next
  case (Cons u vs)
  note eval = apply_batch_def Cons Let_def
  consider (invalid) e where "validate_identity (mu_venue u) (mu_symbol u) = Some e"
    | (valid) "validate_identity (mu_venue u) (mu_symbol u) = None" by fastforce
  then show ?thesis
  proof cases
    case invalid
    then show ?thesis using same by (simp add: eval)
  next
    case valid
    consider "\<not> lb_synchronized b" | "lb_synchronized b" "mu_sequence u \<noteq> lb_sequence b + 1"
      | e where "lb_synchronized b" "mu_sequence u = lb_sequence b + 1"
          "batch_levels u us ((lb_bids b, lb_asks b), mu_timestamp_ns u) = Inl e"
      | bs as ts where "lb_synchronized b" "mu_sequence u = lb_sequence b + 1"
          "batch_levels u us ((lb_bids b, lb_asks b), mu_timestamp_ns u) = Inr ((bs, as), ts)"
      by (metis sum.exhaust prod.exhaust)
    then show ?thesis
    proof cases
      case 1
      then show ?thesis using same by (simp add: eval valid)
    next
      case 2
      then show ?thesis using lost by (simp add: eval valid)
    next
      case 3
      then have "apply_batch us b = (Inl e, b)"
        unfolding apply_batch_def Cons list.case valid option.case Let_def by simp
      then show ?thesis by (rule same)
    next
      case (4 bs as ts)
      have "\<exists>r. apply_batch us b = (if crossed_levels bs as then (r, b\<lparr>lb_synchronized := False\<rparr>)
          else (r, b\<lparr>lb_bids := bs, lb_asks := as, lb_sequence := mu_sequence u, lb_timestamp_ns := ts\<rparr>)) \<and>
          (\<not> crossed_levels bs as \<longrightarrow> (\<exists>d. r = Inr d))"
        using 4 unfolding apply_batch_def Cons list.case valid option.case Let_def by (simp split: if_split)
      then show ?thesis
        using lost taken [of bs as ts] 4 Cons by (cases "crossed_levels bs as") auto
    qed
  qed
qed

lemma apply_batch_ok:
  assumes "book_ok b"
  shows "book_ok (snd (apply_batch us b))"
proof (cases us b rule: apply_batch_cases)
  case (taken d bs as ts)
  have "sides_ok (bs, as)"
    by (rule batch_levels_ok [OF book_ok_sides [OF assms] taken(4)])
  then show ?thesis using assms taken(3,5) unfolding taken(6) by (simp add: book_ok_def)
qed (use assms in \<open>simp_all add: book_ok_def\<close>)

lemma clear_ok: "book_ok (clear_level2_book b)" and empty_ok: "book_ok empty_level2_book"
  by (simp_all add: book_ok_def clear_level2_book_def empty_level2_book_def sides_ok_def)

datatype book_call =
    CallSnapshot market_data_snapshot | CallUpdate market_data_update
  | CallBatch "market_data_update list" | CallClear

fun call_book :: "book_call \<Rightarrow> level2_book \<Rightarrow> level2_book" where
  "call_book (CallSnapshot s) b = snd (apply_snapshot s b)"
| "call_book (CallUpdate u) b = snd (apply_update u b)"
| "call_book (CallBatch us) b = snd (apply_batch us b)"
| "call_book CallClear b = clear_level2_book b"

definition book_calls :: "book_call list \<Rightarrow> level2_book" where
  "book_calls xs = fold call_book xs empty_level2_book"

lemma reachable_book_ok: "book_ok (book_calls xs)"
proof -
  have "book_ok b \<Longrightarrow> book_ok (call_book x b)" for x b
    by (cases x) (simp_all add: apply_snapshot_ok apply_update_ok apply_batch_ok clear_ok)
  then have "book_ok b \<Longrightarrow> book_ok (fold call_book xs b)" for b by (induction xs arbitrary: b) simp_all
  then show ?thesis by (simp add: book_calls_def empty_ok)
qed

section \<open>A stream of updates\<close>

definition feed :: "market_data_update list \<Rightarrow> level2_book \<Rightarrow> level2_book" where
  "feed us b = fold (\<lambda>u b. snd (apply_update u b)) us b"

lemma feed_simps [simp]:
  "feed [] b = b" "feed (u # us) b = feed us (snd (apply_update u b))" "feed (us @ vs) b = feed vs (feed us b)"
  by (simp_all add: feed_def)

definition takes :: "market_data_update \<Rightarrow> level2_book \<Rightarrow> bool" where
  "takes u b \<longleftrightarrow> (case fst (apply_update u b) of Inl e \<Rightarrow> False | Inr d \<Rightarrow> md_accepted d)"

fun takes_all :: "market_data_update list \<Rightarrow> level2_book \<Rightarrow> bool" where
  "takes_all [] b = True"
| "takes_all (u # us) b = (takes u b \<and> takes_all us (snd (apply_update u b)))"

lemma takes_all_append: "takes_all (us @ vs) b \<longleftrightarrow> takes_all us b \<and> takes_all vs (feed us b)"
  by (induction us arbitrary: b) simp_all

lemma takes_iff:
  "takes u b \<longleftrightarrow> update_ok u \<and> lb_synchronized b \<and> mu_sequence u = lb_sequence b + 1 \<and>
     lb_sequence b < mu_sequence u \<and> \<not> update_crosses u b"
  unfolding apply_update_accepted [symmetric] by (auto simp: takes_def split: sum.split)

lemma takes_state:
  assumes "takes u b"
  shows "snd (apply_update u b) = updated u b"
proof -
  have "update_ok u" "lb_synchronized b" "\<not> mu_sequence u \<le> lb_sequence b" "\<not> update_crosses u b"
      "\<not> lb_sequence b + 1 < mu_sequence u"
    using assms unfolding takes_iff by (auto simp only: not_le)
  then show ?thesis unfolding apply_update_state by (simp only: simp_thms if_False)
qed

text \<open>What an update reads of a book when it is accepted.\<close>

definition equal_market :: "level2_book \<Rightarrow> level2_book \<Rightarrow> bool" where
  "equal_market b c \<longleftrightarrow> lb_bids b = lb_bids c \<and> lb_asks b = lb_asks c \<and> lb_sequence b = lb_sequence c \<and>
     lb_timestamp_ns b = lb_timestamp_ns c \<and> lb_synchronized b = lb_synchronized c"

lemma takes_all_same:
  "equal_market b c \<Longrightarrow> takes_all us b \<Longrightarrow> takes_all us c \<and> equal_market (feed us b) (feed us c)"
proof (induction us arbitrary: b c)
  case (Cons u us)
  have u: "takes u b" using Cons.prems(2) by simp
  moreover have "takes u b = takes u c"
    using Cons.prems(1) by (simp add: takes_iff equal_market_def update_crosses_def moved_def)
  with u have "takes u c" by simp
  moreover have "equal_market (updated u b) (updated u c)"
    using Cons.prems(1) by (simp add: equal_market_def updated_def moved_def)
  ultimately show ?case using Cons by (simp add: takes_state)
qed simp

lemma takes_all_ahead:
  "takes_all us b \<Longrightarrow> (\<forall>u \<in> set us. lb_sequence b < mu_sequence u \<and> mu_sequence u \<le> lb_sequence (feed us b) \<and> update_ok u) \<and>
     sorted_wrt (<) (map mu_sequence us) \<and> lb_sequence b \<le> lb_sequence (feed us b) \<and>
     (lb_synchronized b \<longrightarrow> lb_synchronized (feed us b)) \<and>
     lb_recovery_buffer (feed us b) = lb_recovery_buffer b \<and>
     lb_missing_sequence (feed us b) = lb_missing_sequence b"
proof (induction us arbitrary: b)
  case (Cons u us)
  have u: "takes u b" using Cons.prems by simp
  then have us: "takes_all us (updated u b)" using Cons.prems takes_state [OF u] by simp
  have "lb_sequence b < mu_sequence u" "update_ok u" using u unfolding takes_iff by blast+
  then show ?case using Cons.IH [OF us] by (auto simp: takes_state [OF u])
qed simp

text \<open>Updates of a stream wait in the buffer of a book that is not synchronized.\<close>

lemma om_emplace_last: "\<forall>k' \<in> om_keys m. k' < (k :: u64) \<Longrightarrow> om_try_emplace (<) k v m = m @ [(k, v)]"
  by (induction m) (auto dest: less_asym)

lemma feed_buffers:
  "\<not> lb_synchronized b \<Longrightarrow> sorted_wrt (<) (map mu_sequence us) \<Longrightarrow>
   \<forall>u \<in> set us. update_ok u \<and> lb_sequence b < mu_sequence u \<and>
     (\<forall>k \<in> om_keys (lb_recovery_buffer b). k < mu_sequence u) \<Longrightarrow>
   length (lb_recovery_buffer b) + length us \<le> max_recovery_buffer \<Longrightarrow>
   feed us b = b\<lparr>lb_recovery_buffer := lb_recovery_buffer b @ map (\<lambda>u. (mu_sequence u, u)) us\<rparr>"
proof (induction us arbitrary: b)
  case (Cons u us)
  let ?b = "b\<lparr>lb_recovery_buffer := lb_recovery_buffer b @ [(mu_sequence u, u)]\<rparr>"
  have "om_try_emplace (<) (mu_sequence u) u (lb_recovery_buffer b) = lb_recovery_buffer b @ [(mu_sequence u, u)]"
    using Cons.prems(3) by (intro om_emplace_last) simp
  then have "snd (apply_update u b) = ?b"
    using Cons.prems by (simp add: apply_update_state buffered_def not_le [symmetric])
  moreover have "feed us ?b = ?b\<lparr>lb_recovery_buffer := lb_recovery_buffer ?b @ map (\<lambda>u. (mu_sequence u, u)) us\<rparr>"
    using Cons.prems by (intro Cons.IH) auto
  ultimately show ?case by simp
qed simp

end
