(* ===== verification/Market_Data_Correct.thy ===== *)
theory Market_Data_Correct
  imports Market_Data_Inv
begin

text \<open>
  The properties of the market data: a reachable book is uncrossed and in sequence while it is
  synchronized; a snapshot closes a gap without losing or repeating an update; the consolidated
  quote is the best of the synchronized books.
\<close>

section \<open>Recovery from a gap\<close>

text \<open>The snapshot a venue sends: all levels of a book, and the place in the stream it stands for.\<close>

definition snapshot_of :: "string \<Rightarrow> string \<Rightarrow> level2_book \<Rightarrow> market_data_snapshot" where
  "snapshot_of venue symbol b =
     \<lparr>ms_venue = venue, ms_symbol = symbol, ms_sequence = lb_sequence b, ms_timestamp_ns = lb_timestamp_ns b,
      ms_bids = bids (length (lb_bids b)) b, ms_asks = asks (length (lb_asks b)) b\<rparr>"

lemma om_put_last: "\<forall>k' \<in> om_keys m. lt k' k \<and> \<not> lt k k' \<Longrightarrow> om_put lt k v m = m @ [(k, v)]"
  by (induction m) auto

lemma md_epsilon_nonneg: "nonneg md_epsilon"
  unfolding md_epsilon_def by (rule tiny_decides)

lemma copied_levels:
  assumes "ordered_keys lt price_ok"
  shows "levels_ok lt (xs @ ys) \<Longrightarrow> snapshot_levels lt (copy_depth ys (length ys)) xs = Inr (xs @ ys)"
proof (induction ys arbitrary: xs)
  case (Cons y ys)
  obtain p q where y: "y = (p, q)" by (cases y)
  have ok: "price_ok p" "quantity_ok q" "\<forall>k \<in> om_keys xs. price_ok k \<and> lt k p"
    using Cons.prems y levels_ok_keys [OF Cons.prems] by (auto simp: levels_ok_def)
  then have "om_put lt p q xs = xs @ [(p, q)]"
    using ordered_keys.asym [OF assms] by (intro om_put_last) blast
  moreover have "validate_quantity q = None"
    using ok(2) d_le_less_trans [OF md_epsilon_nonneg, of q]
    by (cases q) (auto simp: validate_quantity_def quantity_ok_def)
  ultimately show ?case
    using Cons.IH [of "xs @ [(p, q)]"] Cons.prems ok(2) y
    by (simp add: copy_depth_def quantity_ok_def ok(1) [THEN validate_price_None [THEN iffD2]])
qed (simp add: copy_depth_def)

lemma replay_skips: "\<forall>u \<in> set us. mu_sequence u \<le> lb_sequence b \<Longrightarrow> replay_buffered (us @ vs) b = replay_buffered vs b"
  by (induction us) simp_all

lemma replay_feeds: "takes_all us b \<Longrightarrow> replay_buffered us b = feed us b"
proof (induction us arbitrary: b)
  case (Cons u us)
  have "takes u b" using Cons.prems by simp
  then have "\<not> mu_sequence u \<le> lb_sequence b" unfolding takes_iff not_le by blast
  with Cons show ?case by simp
qed simp

lemma feed_count: "takes_all us b \<Longrightarrow> lb_recovery_count (feed us b) = lb_recovery_count b"
proof (induction us arbitrary: b)
  case (Cons u us)
  have "takes u b" "takes_all us (snd (apply_update u b))" using Cons.prems by simp_all
  then show ?case using Cons.IH by (simp add: takes_state updated_def moved_def)
qed simp

lemma feed_ok: "book_ok b \<Longrightarrow> book_ok (feed us b)"
  by (induction us arbitrary: b) (simp_all add: apply_update_ok)

text \<open>What a gap leaves: every later update of the stream in the buffer.\<close>

lemma feed_after_gap:
  assumes ok: "book_ok b" and sync: "lb_synchronized b" and stream: "takes_all (lost @ us) b"
    and "lost \<noteq> []" and "us \<noteq> []" and "length us \<le> max_recovery_buffer"
  shows "\<not> lb_synchronized (feed us b)" and "lb_missing_sequence (feed us b) = lb_sequence b + 1"
    and "map snd (lb_recovery_buffer (feed us b)) = us" and "lb_recovery_count (feed us b) = lb_recovery_count b"
proof -
  obtain l ls where lost: "lost = l # ls" using assms(4) by (cases lost) auto
  obtain u vs where us: "us = u # vs" using assms(5) by (cases us) auto
  have ahead: "takes_all us (feed lost b)" using stream by (simp add: takes_all_append)
  have "mu_sequence l = lb_sequence b + 1" using stream unfolding lost by (simp add: takes_iff)
  moreover have "mu_sequence l \<le> lb_sequence (feed lost b)"
    using takes_all_ahead [of lost b] stream lost by (simp add: takes_all_append)
  moreover have next_all: "\<forall>v \<in> set us. lb_sequence (feed lost b) < mu_sequence v \<and> update_ok v"
    and sorted: "sorted_wrt (<) (map mu_sequence us)"
    using takes_all_ahead [OF ahead] by blast+
  ultimately have far: "lb_sequence b + 1 < mu_sequence u" using us by auto
  have behind: "lb_sequence b \<le> lb_sequence (feed lost b)"
    using takes_all_ahead [of lost b] stream by (simp add: takes_all_append)
  then have u: "update_ok u" "\<not> mu_sequence u \<le> lb_sequence b" using next_all us by auto
  define g where "g = (buffered u b)\<lparr>lb_synchronized := False, lb_missing_sequence := lb_sequence b + 1,
    lb_sequence_gap_count := lb_sequence_gap_count b + 1\<rparr>"
  have "snd (apply_update u b) = g"
    unfolding apply_update_state g_def using u far sync by (simp only: simp_thms if_True if_False)
  then have feed: "feed us b = feed vs g" by (simp add: us)
  have buf: "lb_recovery_buffer g = [(mu_sequence u, u)]"
    using ok sync by (simp add: g_def book_ok_def)
  have g: "\<not> lb_synchronized g" "lb_sequence g = lb_sequence b" "lb_missing_sequence g = lb_sequence b + 1"
      "lb_recovery_count g = lb_recovery_count b"
    by (simp_all add: g_def buffered_def)
  have "feed vs g = g\<lparr>lb_recovery_buffer := lb_recovery_buffer g @ map (\<lambda>u. (mu_sequence u, u)) vs\<rparr>"
    using sorted next_all behind assms(6) us
    by (intro feed_buffers g(1)) (auto simp: buf g(2) intro: le_less_trans)
  then show "\<not> lb_synchronized (feed us b)" "lb_missing_sequence (feed us b) = lb_sequence b + 1"
      "map snd (lb_recovery_buffer (feed us b)) = us" "lb_recovery_count (feed us b) = lb_recovery_count b"
    unfolding feed by (simp_all add: buf g us comp_def)
qed

text \<open>C30: A snapshot closes a gap. A synchronized book that misses part of a stream, whatever comes
  before and after it (at most 4,096 updates after it), stops accepting, names the first missing
  number and buffers the rest; a snapshot of the stream taken anywhere after the lost part makes
  it exactly the book that has received every update: the same levels, sequence number and time,
  synchronized again, with nothing left in the buffer, and one more recovery on the count.\<close>

theorem gap_recovery:
  assumes "lb_synchronized b" and "b = book_calls xs"
    and "takes_all (before @ lost @ seen @ rest) b" and "lost \<noteq> []"
    and "length (seen @ rest) \<le> max_recovery_buffer" and "venue \<noteq> []" and "symbol \<noteq> []"
  defines "r \<equiv> feed (before @ seen @ rest) b"
    and "snapshot \<equiv> snapshot_of venue symbol (feed (before @ lost @ seen) b)"
  shows "(seen @ rest = [] \<or> \<not> lb_synchronized r \<and> lb_missing_sequence r = lb_sequence (feed before b) + 1) \<and>
    (\<exists>d t. apply_snapshot snapshot r = (Inr d, t) \<and> md_accepted d \<and> \<not> md_sequence_gap d \<and>
      equal_market t (feed (before @ lost @ seen @ rest) b) \<and> lb_recovery_buffer t = [] \<and>
      lb_recovery_count t = lb_recovery_count b + (if seen @ rest = [] then 0 else 1))"
proof -
  define b1 where "b1 = feed before b"
  define B where "B = feed seen (feed lost b1)"
  have ok: "book_ok b1" "book_ok B"
    unfolding B_def b1_def by (intro feed_ok; simp add: assms(2) reachable_book_ok)+
  have stream: "takes_all before b" "takes_all (lost @ seen @ rest) b1" "takes_all seen (feed lost b1)" "takes_all rest B"
    using assms(3) by (simp_all add: takes_all_append b1_def B_def)
  have b1: "lb_synchronized b1" "lb_recovery_count b1 = lb_recovery_count b"
    using takes_all_ahead [OF stream(1)] assms(1) feed_count [OF stream(1)] by (simp_all add: b1_def)
  have sync: "lb_synchronized B"
    using takes_all_ahead [of "lost @ seen" b1] stream(2) b1(1) by (simp add: takes_all_append B_def)
  have r: "map snd (lb_recovery_buffer r) = seen @ rest" "lb_recovery_count r = lb_recovery_count b"
    "seen @ rest = [] \<or> \<not> lb_synchronized r \<and> lb_missing_sequence r = lb_sequence b1 + 1"
    "lb_recovery_buffer r \<noteq> [] \<or> lb_missing_sequence r \<noteq> 0 \<longleftrightarrow> seen @ rest \<noteq> []"
  proof -
    have r_eq: "r = feed (seen @ rest) b1" by (simp add: r_def b1_def)
    have "map snd (lb_recovery_buffer r) = seen @ rest \<and> lb_recovery_count r = lb_recovery_count b \<and>
        (seen @ rest = [] \<or> \<not> lb_synchronized r \<and> lb_missing_sequence r = lb_sequence b1 + 1) \<and>
        (seen @ rest = [] \<longrightarrow> lb_missing_sequence r = 0)"
    proof (cases "seen @ rest = []")
      case True
      then show ?thesis using ok(1) b1 by (simp add: r_eq book_ok_def)
    next
      case False
      from feed_after_gap [OF ok(1) b1(1) stream(2) assms(4) False assms(5)] b1(2) False
      show ?thesis unfolding r_eq by presburger
    qed
    then show "map snd (lb_recovery_buffer r) = seen @ rest" "lb_recovery_count r = lb_recovery_count b"
      "seen @ rest = [] \<or> \<not> lb_synchronized r \<and> lb_missing_sequence r = lb_sequence b1 + 1"
      "lb_recovery_buffer r \<noteq> [] \<or> lb_missing_sequence r \<noteq> 0 \<longleftrightarrow> seen @ rest \<noteq> []"
      by (cases "lb_recovery_buffer r"; auto)+
  qed
  define F where "F = from_snapshot snapshot (lb_bids B) (lb_asks B) r"
  have snap: "snapshot_levels d_greater (ms_bids snapshot) [] = Inr (lb_bids B)"
      "snapshot_levels d_less (ms_asks snapshot) [] = Inr (lb_asks B)"
    using copied_levels [OF bid_keys.ordered_keys_axioms, of "[]" "lb_bids B"]
      copied_levels [OF ask_keys.ordered_keys_axioms, of "[]" "lb_asks B"] ok(2)
    by (simp_all add: snapshot_def snapshot_of_def bids_def asks_def B_def b1_def book_ok_def sides_ok_def)
  have same: "equal_market B F" "lb_sequence F = lb_sequence B" "lb_recovery_buffer F = []"
      "lb_recovery_count F = lb_recovery_count b"
    using sync r(2) by (simp_all add: equal_market_def F_def from_snapshot_def snapshot_def snapshot_of_def B_def b1_def)
  have rest: "takes_all rest F" "equal_market (feed rest B) (feed rest F)"
    using takes_all_same [OF same(1) stream(4)] by blast+
  have "\<forall>u \<in> set seen. mu_sequence u \<le> lb_sequence F"
    using takes_all_ahead [OF stream(3)] same(2) by (simp add: B_def)
  then have replay: "replay_buffered (seen @ rest) F = feed rest F"
    using rest(1) by (simp add: replay_skips replay_feeds)
  have end_sync: "lb_synchronized (feed rest F)"
    using takes_all_ahead [OF rest(1)] by (simp add: F_def from_snapshot_def)
  have identity: "validate_identity (ms_venue snapshot) (ms_symbol snapshot) = None"
    using assms(6,7) by (simp add: snapshot_def snapshot_of_def validate_identity_def)
  have uncrossed: "\<not> crossed_levels (lb_bids B) (lb_asks B)" using ok(2) sync by (simp add: book_ok_def)
  have accepted: "apply_snapshot snapshot r \<noteq> (Inl e, r)" for e
    unfolding apply_snapshot_def identity snap by (simp add: uncrossed Let_def)
  define t where "t = (if seen @ rest \<noteq> [] then (feed rest F)\<lparr>lb_recovery_count := lb_recovery_count b + 1\<rparr>
    else feed rest F)"
  have "\<exists>d. apply_snapshot snapshot r = (Inr d, t) \<and> md_accepted d \<and> \<not> md_sequence_gap d"
  proof (cases snapshot r rule: apply_snapshot_cases)
    case (taken bs as d t')
    have "bs = lb_bids B" "as = lb_asks B" using taken(1,2) snap by simp_all
    then have "t' = t"
      using taken(7) end_sync r(4) same(4)
      unfolding F_def [symmetric] r(1) Let_def by (simp add: F_def [symmetric] replay t_def feed_count [OF rest(1)])
    moreover have "lb_synchronized t" using end_sync by (auto simp: t_def)
    ultimately show ?thesis using taken(4-6) by simp
  qed (use accepted in blast)
  moreover have "equal_market t (feed (before @ lost @ seen @ rest) b)" "lb_recovery_buffer t = []"
    "lb_recovery_count t = lb_recovery_count b + (if seen @ rest = [] then 0 else 1)"
    using rest(2) takes_all_ahead [OF rest(1)] same(3,4) feed_count [OF rest(1)]
    by (auto simp: t_def equal_market_def B_def b1_def)
  ultimately show ?thesis using r(3) unfolding b1_def by blast
qed

definition sample_snapshot :: market_data_snapshot where
  "sample_snapshot = \<lparr>ms_venue = ''kraken'', ms_symbol = ''btcusd'', ms_sequence = 10, ms_timestamp_ns = 1,
     ms_bids = [\<lparr>ml_price = Number 100, ml_quantity = Number 1\<rparr>],
     ms_asks = [\<lparr>ml_price = Number 110, ml_quantity = Number 1\<rparr>]\<rparr>"

definition sample_update :: "u64 \<Rightarrow> rat \<Rightarrow> market_data_update" where
  "sample_update n p = \<lparr>mu_venue = ''kraken'', mu_symbol = ''btcusd'', mu_sequence = n, mu_timestamp_ns = n,
     mu_side = Bid, mu_type = Upsert, mu_price = Number p, mu_quantity = Number 2\<rparr>"

lemma md_epsilon_decides:
  "1 \<le> q \<Longrightarrow> d_less md_epsilon (Number q)" "1 \<le> q \<Longrightarrow> \<not> d_le (Number q) md_epsilon"
  unfolding md_epsilon_def by (rule tiny_decides; assumption?)+

lemmas market_eval = apply_snapshot_def sample_snapshot_def validate_identity_def validate_price_def
  validate_quantity_def md_epsilon_decides d_le_def crossed_levels_def Let_def
  sample_update_def apply_update_def change_level_def takes_def

lemma sample_book:
  "book_calls [CallSnapshot sample_snapshot] =
     \<lparr>lb_bids = [(Number 100, Number 1)], lb_asks = [(Number 110, Number 1)], lb_sequence = 10,
      lb_timestamp_ns = 1, lb_synchronized = True, lb_recovery_buffer = [], lb_missing_sequence = 0,
      lb_sequence_gap_count = 0, lb_recovery_count = 0\<rparr>"
  by (simp add: book_calls_def empty_level2_book_def market_eval del: validate_price_None)

lemma sample_stream:
  "takes_all ([] @ [sample_update 11 101] @ [sample_update 12 102] @ [sample_update 13 103])
     (book_calls [CallSnapshot sample_snapshot])"
  unfolding sample_book by (simp add: market_eval del: validate_price_None)

lemma gap_recovery_witness:
  "\<exists>d t. apply_snapshot (snapshot_of ''kraken'' ''btcusd''
       (feed [sample_update 11 101, sample_update 12 102] (book_calls [CallSnapshot sample_snapshot])))
     (feed [sample_update 12 102, sample_update 13 103] (book_calls [CallSnapshot sample_snapshot])) = (Inr d, t) \<and>
     lb_synchronized t \<and> lb_sequence t = 13"
proof -
  let ?b = "book_calls [CallSnapshot sample_snapshot]"
  have "lb_synchronized ?b" by (simp add: sample_book)
  note recover = gap_recovery [OF this refl sample_stream, of "''kraken''" "''btcusd''"]
  moreover have "lb_synchronized (feed ([] @ [sample_update 11 101] @ [sample_update 12 102] @ [sample_update 13 103]) ?b)"
    "lb_sequence (feed ([] @ [sample_update 11 101] @ [sample_update 12 102] @ [sample_update 13 103]) ?b) = 13"
    unfolding sample_book by (simp_all add: market_eval del: validate_price_None)
  ultimately show ?thesis by (auto simp: equal_market_def max_recovery_buffer_def)
qed

section \<open>The consolidated quote\<close>

text \<open>The levels a venue contributes: the best one of its side in a synchronized book of the symbol.\<close>

type_synonym venue_book = "string \<times> string \<times> level2_book"

definition venue_entry :: "venue_book \<Rightarrow> string \<times> level2_book" where
  "venue_entry e = (case e of (venue, symbol, b) \<Rightarrow> (venue @ [CHR 0x0A] @ symbol, b))"

definition quotes ::
  "(level2_book \<Rightarrow> market_data_level option) \<Rightarrow> string \<Rightarrow> venue_book list \<Rightarrow> (string \<times> market_data_level) list"
where
  "quotes best symbol es = List.map_filter (\<lambda>(venue, s, b).
     if lb_synchronized b \<and> s = symbol then map_option (Pair venue) (best b) else None) es"

text \<open>\<open>price\<close> is the best price quoted, the one no other precedes, and \<open>venue\<close> quotes it.\<close>

definition is_best ::
  "(double \<Rightarrow> double \<Rightarrow> bool) \<Rightarrow> (string \<times> market_data_level) list \<Rightarrow> string \<Rightarrow> double \<Rightarrow> double \<Rightarrow> bool"
where
  "is_best lt qs venue price quantity \<longleftrightarrow>
     (if qs = [] then venue = []
      else venue \<noteq> [] \<and> (venue, \<lparr>ml_price = price, ml_quantity = quantity\<rparr>) \<in> set qs \<and>
        (\<forall>(v, l) \<in> set qs. \<not> lt (ml_price l) price))"

lemma is_best_step:
  assumes "ordered_keys lt price_ok" and "is_best lt qs venue price quantity" and "v \<noteq> []"
    and "\<forall>(v, l) \<in> set qs. price_ok (ml_price l)" and "price_ok p"
  shows "if venue = [] \<or> lt p price then is_best lt (qs @ [(v, \<lparr>ml_price = p, ml_quantity = q\<rparr>)]) v p q
    else is_best lt (qs @ [(v, \<lparr>ml_price = p, ml_quantity = q\<rparr>)]) venue price quantity"
proof (cases "qs = []")
  case True
  then show ?thesis using assms ordered_keys.irrefl [OF assms(1)] by (simp add: is_best_def)
next
  case False
  then have best: "venue \<noteq> []" "(venue, \<lparr>ml_price = price, ml_quantity = quantity\<rparr>) \<in> set qs"
      "\<forall>(v, l) \<in> set qs. \<not> lt (ml_price l) price"
    using assms(2) by (simp_all add: is_best_def)
  have price: "price_ok price" using best(2) assms(4) by auto
  have "\<not> lt (ml_price l) p" if "(w, l) \<in> set qs" "lt p price" for w l
    using that best(3) assms(4,5) price ordered_keys.trans [OF assms(1), of "ml_price l" p price] by blast
  then show ?thesis
    using best assms(3,5) ordered_keys.irrefl [OF assms(1), of p] by (auto simp: is_best_def)
qed

lemma is_best_venue: "is_best lt qs venue price quantity \<Longrightarrow> venue \<noteq> [] \<longleftrightarrow> qs \<noteq> []"
  by (simp add: is_best_def split: if_splits)

lemma split_entry: "CHR 0x0A \<notin> set venue \<Longrightarrow> split_key (venue @ CHR 0x0A # symbol) = Some (venue, symbol)"
  by (induction venue) (auto simp: split_key_def split: list.splits)

lemma best_level_ok:
  assumes "levels_ok lt m" and "best_level m = Some l"
  shows "price_ok (ml_price l)"
  using assms by (cases m) (auto simp: best_level_def levels_ok_def)

definition no_quote :: best_bid_offer where
  "no_quote = \<lparr>bo_valid = False, bo_bid_price = Number 0, bo_bid_quantity = Number 0, bo_bid_venue = [],
     bo_ask_price = Number 0, bo_ask_quantity = Number 0, bo_ask_venue = [],
     bo_midpoint = Number 0, bo_spread = Number 0, bo_locked = False, bo_crossed = False\<rparr>"

definition venue_ok :: "venue_book \<Rightarrow> bool" where
  "venue_ok e \<longleftrightarrow> (case e of (venue, symbol, b) \<Rightarrow> venue \<noteq> [] \<and> CHR 0x0A \<notin> set venue \<and> book_ok b)"

definition quoted :: "string \<Rightarrow> venue_book list \<Rightarrow> best_bid_offer \<Rightarrow> bool" where
  "quoted symbol es r \<longleftrightarrow>
     is_best d_greater (quotes level2_best_bid symbol es) (bo_bid_venue r) (bo_bid_price r) (bo_bid_quantity r) \<and>
     is_best d_less (quotes level2_best_ask symbol es) (bo_ask_venue r) (bo_ask_price r) (bo_ask_quantity r) \<and>
     bo_valid r = (bo_bid_venue r \<noteq> [] \<and> bo_ask_venue r \<noteq> []) \<and> bo_midpoint r = Number 0 \<and>
     bo_spread r = Number 0 \<and> \<not> bo_locked r \<and> \<not> bo_crossed r"

lemma quotes_ok:
  assumes "list_all venue_ok es"
  shows "\<forall>(v, l) \<in> set (quotes level2_best_bid symbol es). price_ok (ml_price l)"
    and "\<forall>(v, l) \<in> set (quotes level2_best_ask symbol es). price_ok (ml_price l)"
  using assms
  by (auto simp: quotes_def map_filter_def list_all_iff venue_ok_def book_ok_def sides_ok_def level2_best_bid_def
      level2_best_ask_def split: if_splits dest!: best_level_ok)

lemma quotes_snoc:
  "quotes best symbol (es @ [(venue, s, b)]) = quotes best symbol es @
     (if lb_synchronized b \<and> s = symbol then case best b of None \<Rightarrow> [] | Some l \<Rightarrow> [(venue, l)] else [])"
  by (cases "best b") (simp_all add: quotes_def map_filter_def)

lemma level_eq: "\<lparr>ml_price = ml_price l, ml_quantity = ml_quantity l\<rparr> = (l :: market_data_level)"
  by simp

lemma is_best_level:
  assumes "ordered_keys lt price_ok" and "is_best lt qs venue price quantity" and "v \<noteq> []"
    and "\<forall>(v, l) \<in> set qs. price_ok (ml_price l)" and "price_ok (ml_price l)"
  shows "venue = [] \<or> lt (ml_price l) price \<Longrightarrow> is_best lt (qs @ [(v, l)]) v (ml_price l) (ml_quantity l)"
    and "\<not> (venue = [] \<or> lt (ml_price l) price) \<Longrightarrow> is_best lt (qs @ [(v, l)]) venue price quantity"
  using is_best_step [OF assms, of "ml_quantity l"] unfolding level_eq by presburger+

lemma consider_quoted:
  assumes "quoted symbol es r" and "list_all venue_ok es" and "venue_ok e"
  shows "quoted symbol (es @ [e]) (consider_book symbol (venue_entry e) r)"
proof -
  obtain venue s b where e: "e = (venue, s, b)" by (cases e) auto
  have v: "venue \<noteq> []" "split_key (venue @ CHR 0x0A # s) = Some (venue, s)" "book_ok b"
    using assms(3) by (simp_all add: e venue_ok_def split_entry)
  show ?thesis
  proof (cases "lb_synchronized b \<and> s = symbol")
    case False
    then show ?thesis
      using assms(1) v by (auto simp: consider_book_def venue_entry_def e quoted_def quotes_snoc)
  next
    case True
    have bid: "price_ok (ml_price l)" if "level2_best_bid b = Some l" for l
      using that v(3) best_level_ok by (simp add: book_ok_def sides_ok_def level2_best_bid_def) blast
    have ask: "price_ok (ml_price l)" if "level2_best_ask b = Some l" for l
      using that v(3) best_level_ok by (simp add: book_ok_def sides_ok_def level2_best_ask_def) blast
    have old: "is_best d_greater (quotes level2_best_bid symbol es) (bo_bid_venue r) (bo_bid_price r) (bo_bid_quantity r)"
      "is_best d_less (quotes level2_best_ask symbol es) (bo_ask_venue r) (bo_ask_price r) (bo_ask_quantity r)"
      using assms(1) by (simp_all add: quoted_def)
    note bids = is_best_level [OF bid_keys.ordered_keys_axioms old(1) v(1) quotes_ok(1) [OF assms(2)] bid]
    note asks = is_best_level [OF ask_keys.ordered_keys_axioms old(2) v(1) quotes_ok(2) [OF assms(2)] ask]
    have "split_key (venue @ CHR 0x0A # symbol) = Some (venue, symbol)" using True v(2) by simp
    then show ?thesis
      using True assms(1) bids asks
      by (cases "level2_best_bid b"; cases "level2_best_ask b")
        (simp_all add: consider_book_def venue_entry_def e quoted_def quotes_snoc Let_def)
  qed
qed

lemma fold_quoted:
  "list_all venue_ok es \<Longrightarrow> quoted symbol es (fold (consider_book symbol) (map venue_entry es) no_quote)"
proof (induction es rule: rev_induct)
  case Nil
  then show ?case by (simp add: quoted_def quotes_def map_filter_def is_best_def no_quote_def)
next
  case (snoc e es)
  then show ?case using consider_quoted [of symbol es] by simp
qed



text \<open>A batch that arrives out of sequence stops the book but, unlike a single update, neither names the
  missing number nor counts the gap: \<open>recovering\<close> stays false.\<close>

lemma batch_gap_not_counted:
  assumes "lb_synchronized b" and "book_ok b" and "mu_venue u \<noteq> []" and "mu_symbol u \<noteq> []"
    and "mu_sequence u \<noteq> lb_sequence b + 1"
  shows "let c = snd (apply_batch (u # us) b) in
    \<not> lb_synchronized c \<and> \<not> recovering c \<and> lb_sequence_gap_count c = lb_sequence_gap_count b"
  using assms by (simp add: apply_batch_def validate_identity_def Let_def recovering_def book_ok_def)

text \<open>An update that update_crosses the market is refused but stays in the levels.\<close>

lemma crossing_update_stays:
  "let b = book_calls [CallSnapshot sample_snapshot]; c = snd (apply_update (sample_update 11 120) b) in
   \<not> takes (sample_update 11 120) b \<and> lb_bids c = [(Number 120, Number 2), (Number 100, Number 1)] \<and>
   lb_sequence c = 10 \<and> \<not> recovering c"
  unfolding sample_book by (simp add: market_eval recovering_def del: validate_price_None)

text \<open>The key of a book joins the names with a newline, which a name may contain.\<close>

lemma key_ambiguous:
  "book_key (''a'' @ [CHR 0x0A] @ ''b'') ''c'' = book_key ''a'' (''b'' @ [CHR 0x0A] @ ''c'')"
  by (simp add: book_key_def validate_identity_def)

end
