(* ===== verification/Execution_Risk.thy ===== *)
theory Execution_Risk
  imports Oms_Inv
begin

text \<open>
  The pre-trade checks of the execution service (include/minimatch/execution\_risk.hpp,
  src/execution\_risk.cpp): a child order is compared with configured limits, each of which zero
  switches off. The manager is its limits; an exception is the left side of a sum.
\<close>

datatype execution_risk_reject_reason =
    NoReason | KillSwitchActive | InvalidOrder | ChildQuantityExceeded | ParentQuantityExceeded
  | NotionalExceeded | ParticipationExceeded | PriceCollarExceeded

record execution_risk_limits =
  xl_kill_switch_active :: bool
  xl_max_parent_quantity :: double
  xl_max_child_quantity :: double
  xl_max_order_notional :: double
  xl_max_participation_rate :: double
  xl_price_collar_bps :: double

record execution_risk_check =
  xc_side :: route_side
  xc_parent_quantity :: double
  xc_child_quantity :: double
  xc_order_price :: double
  xc_reference_price :: double
  xc_observed_market_volume :: double

record execution_risk_decision =
  xd_accepted :: bool
  xd_reason :: execution_risk_reject_reason
  xd_message :: string

definition default_execution_limits :: execution_risk_limits where
  "default_execution_limits =
     \<lparr>xl_kill_switch_active = False, xl_max_parent_quantity = Number 0, xl_max_child_quantity = Number 0,
      xl_max_order_notional = Number 0, xl_max_participation_rate = Number 0,
      xl_price_collar_bps = Number 10000\<rparr>"

definition risk_epsilon :: double where
  "risk_epsilon = round_double False (1 / 10 ^ 12)"

definition reject_decision :: "execution_risk_reject_reason \<Rightarrow> string \<Rightarrow> execution_risk_decision" where
  "reject_decision reason message = \<lparr>xd_accepted = False, xd_reason = reason, xd_message = message\<rparr>"

fun reject_reason_string :: "execution_risk_reject_reason \<Rightarrow> string" where
  "reject_reason_string NoReason = ''NONE''"
| "reject_reason_string KillSwitchActive = ''KILL_SWITCH_ACTIVE''"
| "reject_reason_string InvalidOrder = ''INVALID_ORDER''"
| "reject_reason_string ChildQuantityExceeded = ''CHILD_QUANTITY_EXCEEDED''"
| "reject_reason_string ParentQuantityExceeded = ''PARENT_QUANTITY_EXCEEDED''"
| "reject_reason_string NotionalExceeded = ''NOTIONAL_EXCEEDED''"
| "reject_reason_string ParticipationExceeded = ''PARTICIPATION_EXCEEDED''"
| "reject_reason_string PriceCollarExceeded = ''PRICE_COLLAR_EXCEEDED''"

definition non_negative :: "double \<Rightarrow> bool" where
  "non_negative v \<longleftrightarrow> is_finite v \<and> d_le (Number 0) v"

text \<open>The message of the exception, if any.\<close>

definition validate_limits :: "execution_risk_limits \<Rightarrow> string option" where
  "validate_limits limits =
     (if \<not> non_negative (xl_max_parent_quantity limits)
      then Some ''maximum parent quantity must be non-negative''
      else if \<not> non_negative (xl_max_child_quantity limits)
      then Some ''maximum child quantity must be non-negative''
      else if \<not> non_negative (xl_max_order_notional limits)
      then Some ''maximum order notional must be non-negative''
      else if \<not> is_finite (xl_max_participation_rate limits) \<or>
              d_less (xl_max_participation_rate limits) (Number 0) \<or>
              d_less (Number 1) (xl_max_participation_rate limits)
      then Some ''maximum participation rate must be in [0, 1]''
      else if \<not> non_negative (xl_price_collar_bps limits)
      then Some ''price collar must be non-negative'' else None)"

definition new_execution_risk :: "execution_risk_limits \<Rightarrow> string + execution_risk_limits" where
  "new_execution_risk limits = (case validate_limits limits of Some e \<Rightarrow> Inl e | None \<Rightarrow> Inr limits)"

definition set_execution_limits ::
  "execution_risk_limits \<Rightarrow> execution_risk_limits \<Rightarrow> (string + unit) \<times> execution_risk_limits"
where
  "set_execution_limits limits current =
     (case validate_limits limits of Some e \<Rightarrow> (Inl e, current) | None \<Rightarrow> (Inr (), limits))"

definition activate_kill_switch :: "execution_risk_limits \<Rightarrow> execution_risk_limits" where
  "activate_kill_switch limits = limits\<lparr>xl_kill_switch_active := True\<rparr>"

definition deactivate_kill_switch :: "execution_risk_limits \<Rightarrow> execution_risk_limits" where
  "deactivate_kill_switch limits = limits\<lparr>xl_kill_switch_active := False\<rparr>"

text \<open>A limit is exceeded when it is switched on and the amount is above it, with a tolerance.\<close>

definition exceeds :: "double \<Rightarrow> double \<Rightarrow> bool" where
  "exceeds amount limit \<longleftrightarrow> d_less risk_epsilon limit \<and> d_less (d_add limit risk_epsilon) amount"

definition invalid_check :: "execution_risk_check \<Rightarrow> bool" where
  "invalid_check request \<longleftrightarrow>
     \<not> is_finite (xc_parent_quantity request) \<or> \<not> is_finite (xc_child_quantity request) \<or>
     \<not> is_finite (xc_order_price request) \<or> \<not> is_finite (xc_reference_price request) \<or>
     \<not> is_finite (xc_observed_market_volume request) \<or>
     d_le (xc_parent_quantity request) (Number 0) \<or> d_le (xc_child_quantity request) (Number 0) \<or>
     d_le (xc_order_price request) (Number 0) \<or> d_le (xc_reference_price request) (Number 0) \<or>
     d_less (xc_observed_market_volume request) (Number 0)"

definition price_distance_bps :: "execution_risk_check \<Rightarrow> double" where
  "price_distance_bps request =
     (let price_difference =
            (if xc_side request = Buy then d_sub (xc_order_price request) (xc_reference_price request)
             else d_sub (xc_reference_price request) (xc_order_price request));
          adverse_difference = (if d_less (Number 0) price_difference then price_difference else Number 0)
      in d_mul (d_div adverse_difference (xc_reference_price request)) (Number 10000))"

definition check_execution :: "execution_risk_limits \<Rightarrow> execution_risk_check \<Rightarrow> execution_risk_decision" where
  "check_execution limits request =
     (if xl_kill_switch_active limits
      then reject_decision KillSwitchActive ''execution kill switch is active''
      else if invalid_check request
      then reject_decision InvalidOrder ''execution risk request contains invalid values''
      else if exceeds (xc_parent_quantity request) (xl_max_parent_quantity limits)
      then reject_decision ParentQuantityExceeded ''parent quantity exceeds configured limit''
      else if exceeds (xc_child_quantity request) (xl_max_child_quantity limits)
      then reject_decision ChildQuantityExceeded ''child quantity exceeds configured limit''
      else if exceeds (d_mul (xc_child_quantity request) (xc_order_price request)) (xl_max_order_notional limits)
      then reject_decision NotionalExceeded ''child order notional exceeds configured limit''
      else if d_less risk_epsilon (xl_max_participation_rate limits) \<and>
              d_less risk_epsilon (xc_observed_market_volume request) \<and>
              d_less (d_add (xl_max_participation_rate limits) risk_epsilon)
                (d_div (xc_child_quantity request) (xc_observed_market_volume request))
      then reject_decision ParticipationExceeded ''child order exceeds maximum participation rate''
      else if d_less (d_add (xl_price_collar_bps limits) risk_epsilon) (price_distance_bps request)
      then reject_decision PriceCollarExceeded ''child order exceeds configured price collar''
      else \<lparr>xd_accepted = True, xd_reason = NoReason, xd_message = ''accepted''\<rparr>)"

lemma exceeds_mono: "d_le x y \<Longrightarrow> exceeds x l \<Longrightarrow> exceeds y l"
  by (auto simp: exceeds_def intro: d_less_le_trans)

lemma check_accepted:
  "xd_accepted (check_execution limits r) \<longleftrightarrow>
     \<not> xl_kill_switch_active limits \<and> \<not> invalid_check r \<and>
     \<not> exceeds (xc_parent_quantity r) (xl_max_parent_quantity limits) \<and>
     \<not> exceeds (xc_child_quantity r) (xl_max_child_quantity limits) \<and>
     \<not> exceeds (d_mul (xc_child_quantity r) (xc_order_price r)) (xl_max_order_notional limits) \<and>
     \<not> (d_less risk_epsilon (xl_max_participation_rate limits) \<and>
        d_less risk_epsilon (xc_observed_market_volume r) \<and>
        d_less (d_add (xl_max_participation_rate limits) risk_epsilon)
          (d_div (xc_child_quantity r) (xc_observed_market_volume r))) \<and>
     \<not> d_less (d_add (xl_price_collar_bps limits) risk_epsilon) (price_distance_bps r)"
  by (simp add: check_execution_def reject_decision_def)

lemma risk_epsilon_nonneg: "nonneg risk_epsilon"
  unfolding risk_epsilon_def by (rule tiny_decides)

lemma above_epsilon: "d_less risk_epsilon v \<Longrightarrow> d_less (Number 0) v"
  using risk_epsilon_nonneg by (rule d_le_less_trans)

lemma valid_check:
  assumes "\<not> invalid_check r"
  shows "is_finite (xc_order_price r)" "is_finite (xc_child_quantity r)" "is_finite (xc_reference_price r)"
    "is_finite (xc_observed_market_volume r)"
    "d_less (Number 0) (xc_order_price r)" "d_less (Number 0) (xc_child_quantity r)"
    "d_less (Number 0) (xc_reference_price r)"
  using assms by (simp_all add: invalid_check_def positive_finite)

definition no_worse :: "route_side \<Rightarrow> double \<Rightarrow> double \<Rightarrow> bool" where
  "no_worse side p q \<longleftrightarrow> (if side = Buy then d_le p q else d_le q p)"

lemma price_distance_mono:
  fixes r r' :: execution_risk_check
  assumes "\<not> invalid_check r" "\<not> invalid_check r'"
    and "xc_side r' = xc_side r" "xc_reference_price r' = xc_reference_price r"
    and "no_worse (xc_side r) (xc_order_price r') (xc_order_price r)"
  shows "d_le (price_distance_bps r') (price_distance_bps r)"
proof -
  define diff where "diff r = (if xc_side r = Buy then d_sub (xc_order_price r) (xc_reference_price r)
    else d_sub (xc_reference_price r) (xc_order_price r))" for r :: execution_risk_check
  define adverse where "adverse r = (if d_less (Number 0) (diff r) then diff r else Number 0)"
    for r :: execution_risk_check
  note fin = valid_check(1,3) [OF assms(1)] valid_check(1,3) [OF assms(2)] and ref = valid_check(7) [OF assms(1)]
  have "d_le (diff r') (diff r)"
    using assms(3-5) fin unfolding diff_def no_worse_def by (auto intro!: d_sub_mono simp: finite_not_nan split: if_splits)
  then have "nonneg (adverse r')" "d_le (adverse r') (adverse r)"
    unfolding adverse_def using d_less_le_trans [of "Number 0" "diff r'" "diff r"]
    by (auto intro: d_less_le)
  then show ?thesis
    unfolding price_distance_bps_def Let_def
    using d_div_mono [of "adverse r'" "adverse r" "xc_reference_price r"]
      quotient_nonneg [of "adverse r'" "xc_reference_price r"] fin ref assms(4)
    unfolding adverse_def diff_def by (intro d_mul_mono) simp_all
qed


definition sample_check :: "rat \<Rightarrow> execution_risk_check" where
  "sample_check q =
     \<lparr>xc_side = Buy, xc_parent_quantity = Number 100, xc_child_quantity = Number q,
      xc_order_price = Number 10, xc_reference_price = Number 10, xc_observed_market_volume = Number 0\<rparr>"

definition sample_limits :: execution_risk_limits where
  "sample_limits = default_execution_limits\<lparr>xl_max_child_quantity := Number 20\<rparr>"

lemma limit_kept: "\<not> d_less (d_add (Number 20) risk_epsilon) (Number 20)"
  "\<not> d_less (d_add (Number 10000) risk_epsilon) (Number 0)" "\<not> d_less risk_epsilon (Number 0)"
  "d_less (d_add (Number 20) risk_epsilon) (Number 30)" "d_less risk_epsilon (Number 20)"
proof -
  show "d_less risk_epsilon (Number 20)" "\<not> d_less risk_epsilon (Number 0)"
    using risk_epsilon_nonneg tiny_decides(5) [of 20] by (simp_all add: risk_epsilon_def d_le_def)
  have "d_le (Number 20) (d_add (Number 20) risk_epsilon)"
    using risk_epsilon_nonneg by (intro d_add_grows; simp add: d_le_def)
  then show "\<not> d_less (d_add (Number 20) risk_epsilon) (Number 20)" by (simp add: d_le_def)
  have "nonneg (d_add (Number 10000) risk_epsilon)"
    using risk_epsilon_nonneg by (intro d_add_nonneg; simp add: d_le_def)
  then show "\<not> d_less (d_add (Number 10000) risk_epsilon) (Number 0)" by (simp add: d_le_def)
  have "d_le (d_add (Number 20) risk_epsilon) (d_add (Number 20) (Number 1))"
    using risk_epsilon_nonneg tiny_decides(5) [of 1]
    by (intro d_add_mono) (auto simp: risk_epsilon_def d_le_def [of "Number 0"] intro: d_less_le)
  then show "d_less (d_add (Number 20) risk_epsilon) (Number 30)" by (rule d_le_less_trans) simp
qed

lemmas check_eval = sample_check_def sample_limits_def default_execution_limits_def invalid_check_def exceeds_def
  price_distance_bps_def limit_kept d_le_def d_sub_def d_mul_def d_div_def round_double_0


text \<open>A participation limit does not hold before any volume has been seen: with an observed volume
  of zero an order of any size passes.\<close>

lemma participation_needs_volume:
  assumes "\<not> invalid_check r" "xc_observed_market_volume r = Number 0"
  shows "check_execution (limits\<lparr>xl_max_participation_rate := rate\<rparr>) r = check_execution (limits\<lparr>xl_max_participation_rate := Number 0\<rparr>) r"
proof -
  have "\<not> d_less risk_epsilon (Number 0)" using risk_epsilon_nonneg by (simp add: d_le_def)
  then show ?thesis by (simp add: check_execution_def assms)
qed

end
