(* ===== verification/Double_Error.thy ===== *)
theory Double_Error
  imports Double_Arith
begin

text \<open>
  How far rounding can move a value, and the differences that are exact: the facts behind the sums
  of many equal amounts.
\<close>

text \<open>A value far from the subnormals.\<close>

definition normal_range :: "rat \<Rightarrow> bool" where
  "normal_range q \<longleftrightarrow> 2 powi (- 1021) \<le> q"

lemma normal_pos: "normal_range q \<Longrightarrow> 0 < q"
  using powi_pos [of "- 1021"] unfolding normal_range_def by linarith

lemma normal_mono: "normal_range q \<Longrightarrow> q \<le> r \<Longrightarrow> normal_range r"
  by (simp add: normal_range_def)

lemma normal_exponent:
  assumes "normal_range q"
  shows "ulp_exponent q = exponent q - 52" and "- 1021 \<le> exponent q"
proof -
  have "2 powi (- 1021) < (2 powi (exponent q + 1) :: rat)"
    using exponent_bounds(2) [of q] normal_pos [OF assms] assms unfolding normal_range_def by linarith
  then show "- 1021 \<le> exponent q" unfolding powi_less_iff by linarith
  then show "ulp_exponent q = exponent q - 52" by (simp add: ulp_exponent_def)
qed

lemma round_even_near: "\<bar>of_int (round_even x) - x\<bar> \<le> 1 / 2"
proof -
  have "of_int \<lfloor>x\<rfloor> \<le> x" "x < of_int \<lfloor>x\<rfloor> + 1" by linarith+
  then show ?thesis unfolding round_even_def Let_def abs_if by (simp; linarith)
qed

text \<open>The relative error of one rounding is at most \<open>2^-53\<close>.\<close>

definition unit_roundoff :: rat where
  "unit_roundoff = 2 powi (- 53)"

lemma rounding_error:
  assumes "normal_range q"
  shows "\<bar>round_magnitude q - q\<bar> \<le> q * unit_roundoff"
proof -
  let ?E = "ulp_exponent q"
  have "\<bar>of_int (round_even (q / 2 powi ?E)) - q / 2 powi ?E\<bar> * 2 powi ?E \<le> 1 / 2 * 2 powi ?E"
    by (intro mult_right_mono round_even_near) simp
  moreover have "(of_int (round_even (q / 2 powi ?E)) - q / 2 powi ?E) * 2 powi ?E = round_magnitude q - q"
    by (simp add: round_magnitude_def left_diff_distrib)
  then have "\<bar>of_int (round_even (q / 2 powi ?E)) - q / 2 powi ?E\<bar> * 2 powi ?E = \<bar>round_magnitude q - q\<bar>"
    by (metis abs_mult abs_of_pos powi_pos)
  ultimately have "\<bar>round_magnitude q - q\<bar> \<le> 1 / 2 * 2 powi ?E" by simp
  also have "\<dots> = 2 powi exponent q * unit_roundoff"
  proof -
    have "(2 :: rat) powi exponent q * 2 powi (- 53) = 2 powi (- 1) * 2 powi ?E"
      using normal_exponent(1) [OF assms] by (simp only: powi_split [symmetric]) simp
    then show ?thesis by (simp add: unit_roundoff_def)
  qed
  also have "\<dots> \<le> q * unit_roundoff"
    using exponent_bounds(1) [OF normal_pos [OF assms]]
    by (intro mult_right_mono) (simp_all add: unit_roundoff_def)
  finally show ?thesis .
qed

lemma round_normal:
  assumes "normal_range q" and "q \<le> 2 ^ 1000"
  obtains v where "round_double s q = Number v" and "\<bar>v - q\<bar> \<le> q * unit_roundoff" and "proper (Number v)"
proof -
  define B :: rat where "B = 2 ^ 1024"
  have pos: "0 < q" by (rule normal_pos [OF assms(1)])
  have "round_magnitude q \<le> round_magnitude (2 ^ 1000)" by (rule round_magnitude_mono [OF pos assms(2)])
  also have "round_magnitude (2 ^ 1000) = (2 ^ 1000 :: rat)"
    using round_magnitude_exact [of 1 1000] by simp
  also have "(2 :: rat) ^ 1000 < B" unfolding B_def by (rule power_strict_increasing) simp_all
  finally have eq: "round_double s q = Number (round_magnitude q)"
    using pos by (simp add: round_double_pos [folded B_def] not_le)
  show thesis
  proof (rule that [OF eq rounding_error [OF assms(1)]])
    show "proper (Number (round_magnitude q))" using proper_round [of s q] by (simp only: eq)
  qed
qed

text \<open>A positive double as a significand of 53 bits.\<close>

lemma significand:
  assumes "proper (Number q)" and "0 < q"
  obtains m where "q = of_int m * 2 powi ulp_exponent q" and "0 < m" and "m < 2 ^ 53"
proof -
  define B :: rat where "B = 2 ^ 1024"
  let ?E = "ulp_exponent q"
  have "round_magnitude q = q"
    using assms by (simp add: round_double_pos [folded B_def] split: if_splits)
  then obtain m :: int where m: "q = of_int m * 2 powi ?E" unfolding round_magnitude_def by metis
  have "(0 :: rat) < of_int m" using assms(2) m by (metis powi_pos zero_less_mult_pos2)
  moreover have "of_int m * 2 powi ?E < (2 powi (?E + 53) :: rat)"
  proof -
    have "q < 2 powi (exponent q + 1)" by (rule exponent_bounds(2) [OF assms(2)])
    also have "\<dots> \<le> 2 powi (?E + 53)" by (intro power_int_increasing) (simp_all add: ulp_exponent_def)
    finally show ?thesis using m by simp
  qed
  then have "of_int m * 2 powi ?E < (of_int (2 ^ 53) * 2 powi ?E :: rat)"
    by (simp add: powi_split mult.commute)
  then have "(of_int m :: rat) < of_int (2 ^ 53)" by (simp only: mult_less_cancel_right_pos powi_pos)
  ultimately show thesis using m by (intro that) (simp_all only: of_int_less_iff of_int_0_less_iff)
qed

text \<open>The difference of two doubles within a factor of two is exact (Sterbenz).\<close>

lemma exact_difference:
  assumes "proper (Number x)" "proper (Number y)" "0 < x" "x \<le> y" "y \<le> 2 * x"
  shows "proper (Number (y - x))"
proof (cases "x = y")
  case False
  obtain m where m: "x = of_int m * 2 powi ulp_exponent x" "0 < m" "m < 2 ^ 53"
    by (rule significand [OF assms(1,3)])
  obtain k where k: "y = of_int k * 2 powi ulp_exponent y" "0 < k" "k < 2 ^ 53"
    using significand [OF assms(2)] assms(3,4) by (metis order_less_le_trans)
  let ?E = "ulp_exponent x"
  have le: "?E \<le> ulp_exponent y"
    using exponent_mono [OF assms(3,4)] by (simp add: ulp_exponent_def)
  define d where "d = k * 2 ^ nat (ulp_exponent y - ?E) - m"
  have "(2 :: rat) powi ulp_exponent y = of_int (2 ^ nat (ulp_exponent y - ?E)) * 2 powi ?E"
    using le powi_join [of "ulp_exponent y - ?E" ?E] by (simp add: power_int_def)
  then have "of_int k * 2 powi ulp_exponent y = (of_int (k * 2 ^ nat (ulp_exponent y - ?E)) * 2 powi ?E :: rat)"
    by simp
  with k(1) m(1) have diff: "y - x = of_int d * 2 powi ?E"
    unfolding d_def by (metis left_diff_distrib of_int_diff)
  have pos: "0 < y - x" using assms(4) False by simp
  then have d: "0 < d" using diff by (metis of_int_0_less_iff powi_pos zero_less_mult_pos2)
  have "of_int d * 2 powi ?E \<le> (of_int m * 2 powi ?E :: rat)"
    using assms(5) diff m(1) by linarith
  then have "d \<le> m" by simp
  with m(3) have "d < 2 ^ 53" by simp
  then have "round_magnitude (y - x) = y - x"
    unfolding diff by (intro round_magnitude_exact d) (simp_all add: ulp_exponent_def)
  moreover define B :: rat where "B = 2 ^ 1024"
  have "y < B"
  proof -
    have "round_magnitude y = y" "\<not> B \<le> round_magnitude y"
      using assms(2-4) by (auto simp: round_double_pos [folded B_def] split: if_splits)
    then show ?thesis by simp
  qed
  ultimately show ?thesis
    using pos assms(3) by (simp add: round_double_pos [folded B_def])
qed (simp add: round_double_0)

section \<open>Rounding a given value\<close>

lemma exponent_unique: "2 powi k \<le> q \<Longrightarrow> q < 2 powi (k + 1) \<Longrightarrow> exponent q = k"
proof -
  assume b: "2 powi k \<le> q" "q < 2 powi (k + 1)"
  have pos: "0 < q" using powi_pos [of k] b(1) by linarith
  have "(2 :: rat) powi exponent q < 2 powi (k + 1)" "(2 :: rat) powi k < 2 powi (exponent q + 1)"
    using exponent_bounds [OF pos] b by linarith+
  then show ?thesis by (simp only: powi_less_iff)
qed

lemma round_even_unique:
  assumes "\<bar>x - of_int m\<bar> < 1 / 2 \<or> \<bar>x - of_int m\<bar> = 1 / 2 \<and> even m"
  shows "round_even x = m"
proof (cases "of_int m \<le> x")
  case True
  then have "\<lfloor>x\<rfloor> = m" using assms by (auto simp: abs_if floor_eq_iff)
  then show ?thesis using True assms by (auto simp: round_even_def Let_def abs_if)
next
  case False
  then have "\<lfloor>x\<rfloor> = m - 1" using assms by (auto simp: abs_if floor_eq_iff)
  then show ?thesis using False assms by (auto simp: round_even_def Let_def abs_if)
qed

text \<open>The result of a rounding, given the integer significand \<open>m\<close> and the exponent of its last place.\<close>

lemma round_to:
  assumes "2 ^ 52 \<le> q * 2 ^ n" "q * 2 ^ n < 2 ^ 53" "n \<le> 1000"
    and near: "\<bar>q * 2 ^ n - of_int m\<bar> < 1 / 2 \<or> \<bar>q * 2 ^ n - of_int m\<bar> = 1 / 2 \<and> even m"
  shows "round_double s q = Number (of_int m / 2 ^ n)"
proof -
  note m = round_even_unique [OF near]
  have scale: "q * 2 ^ n = q / 2 powi (- int n)" by (simp add: power_int_minus field_simps)
  have pow: "2 ^ j * (2 powi (- int n) :: rat) = 2 powi (int j - int n)" for j
    by (simp add: power_int_diff power_int_minus field_simps)
  have "2 powi (52 - int n) \<le> q" "q < 2 powi (52 - int n + 1)"
    using assms(1,2) pow [of 52] pow [of 53] unfolding scale
    by (simp_all only: pos_le_divide_eq [OF powi_pos] pos_divide_less_eq [OF powi_pos]) simp_all
  then have e: "exponent q = 52 - int n" by (rule exponent_unique)
  then have u: "ulp_exponent q = - int n" using assms(3) by (simp add: ulp_exponent_def)
  have rm: "round_magnitude q = of_int m / 2 ^ n"
    using m unfolding round_magnitude_def u scale by (simp add: power_int_minus field_simps)
  define B :: rat where "B = 2 ^ 1024"
  have "0 < q" using assms(1) by (metis less_le_trans zero_less_mult_pos2 zero_less_numeral zero_less_power)
  moreover have "round_magnitude q < B"
  proof -
    have "m \<le> 2 ^ 53" using round_even_mono [OF less_imp_le [OF assms(2)]] round_even_of_int [of "2 ^ 53"] m by simp
    then have "(of_int m :: rat) \<le> of_int (2 ^ 53)" by (simp only: of_int_le_iff)
    moreover have "(of_int m :: rat) / 2 ^ n \<le> of_int m"
    proof -
      have "0 \<le> m" using round_even_mono [of 0 "q * 2 ^ n"] round_even_of_int [of 0] \<open>0 < q\<close> m by simp
      then show ?thesis using mult_left_mono [of 1 "2 ^ n :: rat" "of_int m"] by (simp add: divide_le_eq)
    qed
    moreover have "(2 :: rat) ^ 53 < B" unfolding B_def by (rule power_strict_increasing) simp_all
    ultimately show ?thesis using rm by simp
  qed
  ultimately show ?thesis using rm by (simp add: round_double_pos [folded B_def] not_le)
qed

lemma round_to_neg:
  assumes "2 ^ 52 \<le> q * 2 ^ n" "q * 2 ^ n < 2 ^ 53" "n \<le> 1000"
    and "\<bar>q * 2 ^ n - of_int m\<bar> < 1 / 2 \<or> \<bar>q * 2 ^ n - of_int m\<bar> = 1 / 2 \<and> even m"
  shows "round_double s (- q) = Number (- (of_int m / 2 ^ n))"
proof -
  define B :: rat where "B = 2 ^ 1024"
  have q: "0 < q" using assms(1) by (metis less_le_trans zero_less_mult_pos2 zero_less_numeral zero_less_power)
  have "0 < m" using assms(1,4) by (auto simp: abs_if split: if_splits intro!: of_int_0_less_iff [where 'a = rat, THEN iffD1])
  then show ?thesis
    using round_to [OF assms, of s] q by (auto simp: round_double_pos [folded B_def] round_double_neg [folded B_def] split: if_splits)
qed

end
