(* ===== verification/Execution_Algo.thy ===== *)
theory Execution_Algo
  imports Router Double_Error
begin

text \<open>
  The execution schedules (include/minimatch/execution\_algo.hpp, src/execution\_algo.cpp): how an
  order is cut into slices, each with a quantity and a delay.

  A \<open>std::size\_t\<close> is a natural number and an \<open>int\<close> an integer, of which the slice count must be
  positive; no operation overflows in their range. An exception is the left side of a sum. The
  conversion of the number of iceberg slices to \<open>std::size\_t\<close> is undefined when it does not fit; the
  model then has the error \<open>Undefined\<close>. Memory is unbounded.
\<close>

record slice =
  sl_quantity :: double
  sl_delay_seconds :: double

record execution_schedule_request =
  sq_algorithm :: execution_algorithm
  sq_quantity :: double
  sq_slices :: int
  sq_duration_seconds :: double
  sq_volume_profile :: "double list"
  sq_participation_rate :: double
  sq_displayed_quantity :: double

datatype schedule_error = BadSchedule string | Undefined

definition sched_epsilon :: double where
  "sched_epsilon = round_double False (1 / 10 ^ 12)"

definition validate_common :: "execution_schedule_request \<Rightarrow> string option" where
  "validate_common request =
     (if \<not> is_finite (sq_quantity request) \<or> d_le (sq_quantity request) (Number 0)
      then Some ''execution quantity must be positive''
      else if sq_slices request \<le> 0 then Some ''slice count must be positive''
      else if \<not> is_finite (sq_duration_seconds request) \<or> d_less (sq_duration_seconds request) (Number 0)
      then Some ''duration must be non-negative'' else None)"

definition interval_seconds :: "double \<Rightarrow> nat \<Rightarrow> double" where
  "interval_seconds duration slice_count =
     (if slice_count \<le> 1 then Number 0 else d_div duration (d_of_int (int slice_count)))"

definition build_market_schedule :: "execution_schedule_request \<Rightarrow> slice list" where
  "build_market_schedule request = [\<lparr>sl_quantity = sq_quantity request, sl_delay_seconds = Number 0\<rparr>]"

text \<open>The loops of the equal and of the weighted schedule, from \<open>index\<close> on: \<open>base\<close> is the quantity of
  every slice but the last, which takes what is left.\<close>

function fixed_slices :: "(nat \<Rightarrow> double) \<Rightarrow> double \<Rightarrow> double \<Rightarrow> nat \<Rightarrow> nat \<Rightarrow> double \<Rightarrow> slice list" where
  "fixed_slices base whole interval count index scheduled =
     (if index < count then
        let quantity = (if index + 1 = count then d_sub whole scheduled else base index)
        in \<lparr>sl_quantity = quantity, sl_delay_seconds = d_mul (d_of_int (int index)) interval\<rparr> #
           fixed_slices base whole interval count (index + 1) (d_add scheduled quantity)
      else [])"
  by pat_completeness auto

termination
  by (relation "measure (\<lambda>(base, whole, interval, count, index, scheduled). count - index)") auto

declare fixed_slices.simps [simp del]

definition build_twap_schedule :: "execution_schedule_request \<Rightarrow> slice list" where
  "build_twap_schedule request =
     (let count = nat (sq_slices request);
          base_quantity = d_div (sq_quantity request) (d_of_int (int count))
      in fixed_slices (\<lambda>index. base_quantity) (sq_quantity request)
           (interval_seconds (sq_duration_seconds request) count) count 0 (Number 0))"

definition build_vwap_schedule :: "execution_schedule_request \<Rightarrow> string + slice list" where
  "build_vwap_schedule request =
     (let count = nat (sq_slices request); profile = sq_volume_profile request in
      if length profile \<noteq> count then Inl ''VWAP volume profile must match slice count''
      else if \<exists>weight \<in> set profile. \<not> is_finite weight \<or> d_less weight (Number 0)
      then Inl ''VWAP volume weights must be non-negative''
      else
        let total_weight = fold (\<lambda>weight total. d_add total weight) profile (Number 0) in
        if d_le total_weight sched_epsilon then Inl ''VWAP volume profile must have positive weight''
        else Inr (fixed_slices
          (\<lambda>index. d_div (d_mul (sq_quantity request) (profile ! index)) total_weight) (sq_quantity request)
          (interval_seconds (sq_duration_seconds request) count) count 0 (Number 0)))"

fun pov_slices :: "double \<Rightarrow> double \<Rightarrow> nat \<Rightarrow> double list \<Rightarrow> double \<Rightarrow> slice list" where
  "pov_slices rate interval index [] remaining = []"
| "pov_slices rate interval index (volume # volumes) remaining =
     (if d_le remaining sched_epsilon then []
      else
        let quantity = d_min remaining (d_mul volume rate) in
        if d_le quantity sched_epsilon then pov_slices rate interval (index + 1) volumes remaining
        else \<lparr>sl_quantity = quantity, sl_delay_seconds = d_mul (d_of_int (int index)) interval\<rparr> #
          pov_slices rate interval (index + 1) volumes (d_sub remaining quantity))"

definition build_pov_schedule :: "execution_schedule_request \<Rightarrow> string + slice list" where
  "build_pov_schedule request =
     (let rate = sq_participation_rate request; profile = sq_volume_profile request in
      if \<not> is_finite rate \<or> d_le rate (Number 0) \<or> d_less (Number 1) rate
      then Inl ''POV participation rate must be in (0, 1]''
      else if profile = [] then Inl ''POV requires an expected volume profile''
      else if \<exists>volume \<in> set profile. \<not> is_finite volume \<or> d_less volume (Number 0)
      then Inl ''POV market volume must be non-negative''
      else Inr (pov_slices rate (interval_seconds (sq_duration_seconds request) (length profile)) 0 profile
        (sq_quantity request)))"

function iceberg_slices :: "double \<Rightarrow> double \<Rightarrow> nat \<Rightarrow> nat \<Rightarrow> double \<Rightarrow> slice list" where
  "iceberg_slices displayed interval count index remaining =
     (if index < count then
        let quantity = d_min remaining displayed
        in \<lparr>sl_quantity = quantity, sl_delay_seconds = d_mul (d_of_int (int index)) interval\<rparr> #
           iceberg_slices displayed interval count (index + 1) (d_sub remaining quantity)
      else [])"
  by pat_completeness auto

termination
  by (relation "measure (\<lambda>(displayed, interval, count, index, remaining). count - index)") auto

declare iceberg_slices.simps [simp del]

text \<open>\<open>static\_cast<std::size\_t>(std::ceil(x))\<close>: undefined unless the value fits.\<close>

definition ceil_to_size :: "double \<Rightarrow> nat option" where
  "ceil_to_size x =
     (if is_finite x \<and> - 1 < value_of x \<and> \<lceil>value_of x\<rceil> < 2 ^ 64 then Some (nat \<lceil>value_of x\<rceil>) else None)"

definition build_iceberg_schedule :: "execution_schedule_request \<Rightarrow> schedule_error + slice list" where
  "build_iceberg_schedule request =
     (let displayed = sq_displayed_quantity request in
      if \<not> is_finite displayed \<or> d_le displayed (Number 0)
      then Inl (BadSchedule ''iceberg displayed quantity must be positive'')
      else case ceil_to_size (d_div (sq_quantity request) displayed) of
        None \<Rightarrow> Inl Undefined
      | Some count \<Rightarrow> Inr (iceberg_slices displayed (interval_seconds (sq_duration_seconds request) count)
          count 0 (sq_quantity request)))"

definition named :: "string + slice list \<Rightarrow> schedule_error + slice list" where
  "named r = (case r of Inl e \<Rightarrow> Inl (BadSchedule e) | Inr s \<Rightarrow> Inr s)"

definition build_execution_schedule :: "execution_schedule_request \<Rightarrow> schedule_error + slice list" where
  "build_execution_schedule request =
     (case validate_common request of Some e \<Rightarrow> Inl (BadSchedule e) | None \<Rightarrow>
      case sq_algorithm request of
        Market \<Rightarrow> Inr (build_market_schedule request)
      | TWAP \<Rightarrow> Inr (build_twap_schedule request)
      | VWAP \<Rightarrow> named (build_vwap_schedule request)
      | POV \<Rightarrow> named (build_pov_schedule request)
      | Iceberg \<Rightarrow> build_iceberg_schedule request)"

text \<open>The overload with the defaults of the request.\<close>

definition build_simple_schedule ::
  "execution_algorithm \<Rightarrow> double \<Rightarrow> int \<Rightarrow> double \<Rightarrow> schedule_error + slice list"
where
  "build_simple_schedule algorithm quantity slices duration_seconds = build_execution_schedule
     \<lparr>sq_algorithm = algorithm, sq_quantity = quantity, sq_slices = slices,
      sq_duration_seconds = duration_seconds, sq_volume_profile = [],
      sq_participation_rate = round_double False (1 / 10), sq_displayed_quantity = Number 0\<rparr>"

text \<open>Adding up \<open>k\<close> equal amounts.\<close>

lemma equal_sum:
  assumes "normal_range b" and "b \<le> 2 ^ 900" and "k \<le> 2 ^ 20"
  shows "\<exists>s. d_sum (replicate k (Number b)) = Number s \<and> proper (Number s) \<and>
    \<bar>s - of_nat k * b\<bar> \<le> of_nat k * of_nat k * b * unit_roundoff"
  using assms(3)
proof (induction k)
  case 0
  then show ?case by (auto simp: round_double_0)
next
  case (Suc k)
  then obtain s where s: "d_sum (replicate k (Number b)) = Number s" "\<bar>s - of_nat k * b\<bar> \<le> of_nat k * of_nat k * b * unit_roundoff"
    by auto
  have b: "0 < b" by (rule normal_pos [OF assms(1)])
  define K :: rat where "K = of_nat k"
  have "(of_nat k :: rat) \<le> of_nat (2 ^ 20)" using Suc.prems by (intro of_nat_mono) simp
  then have K: "0 \<le> K" "K \<le> 2 ^ 20" by (simp_all add: K_def)
  have e: "0 \<le> unit_roundoff" "2 ^ 20 * unit_roundoff \<le> 1" by (simp_all add: unit_roundoff_def power_int_minus)
  then have Ke: "K * unit_roundoff \<le> 1" using mult_right_mono [OF K(2) e(1)] by linarith
  have Kb: "0 \<le> K * b" using K b by simp
  have "K * b * (K * unit_roundoff) \<le> K * b" using mult_left_mono [OF Ke Kb] by simp
  then have near: "\<bar>s - K * b\<bar> \<le> K * b" using s(2) by (simp add: K_def [symmetric] algebra_simps)
  then have lo: "0 \<le> s" and hi: "s \<le> 2 * (K * b)" by (auto simp: abs_le_iff)
  have "normal_range (s + b)" using normal_mono [OF assms(1)] lo by simp
  moreover have "s + b \<le> 2 ^ 1000"
  proof -
    have "s + b \<le> (2 * K + 1) * b" using hi by (simp add: algebra_simps)
    also have "\<dots> \<le> (2 ^ 21 + 1) * 2 ^ 900" using K b assms(2) by (intro mult_mono) simp_all
    also have "\<dots> \<le> (2 ^ 1000 :: rat)" by simp
    finally show ?thesis .
  qed
  ultimately obtain v where v: "round_double False (s + b) = Number v" "\<bar>v - (s + b)\<bar> \<le> (s + b) * unit_roundoff" "proper (Number v)"
    by (rule round_normal)
  have "d_sum (replicate (Suc k) (Number b)) = Number v"
    using s(1) v(1) by (simp add: replicate_append_same [symmetric])
  moreover have "\<bar>v - (K + 1) * b\<bar> \<le> (K + 1) * (K + 1) * b * unit_roundoff"
  proof -
    have "(s + b) * unit_roundoff \<le> (2 * (K * b) + b) * unit_roundoff" using hi e(1) by (intro mult_right_mono) simp_all
    moreover have "\<bar>v - (K + 1) * b\<bar> \<le> \<bar>v - (s + b)\<bar> + \<bar>s - K * b\<bar>" by (simp add: distrib_right)
    ultimately have "\<bar>v - (K + 1) * b\<bar> \<le> (2 * (K * b) + b) * unit_roundoff + K * K * b * unit_roundoff"
      using v(2) s(2) by (simp add: K_def [symmetric])
    then show ?thesis by (simp add: algebra_simps)
  qed
  ultimately show ?case using v(3) by (auto simp: K_def add.commute)
qed


text \<open>Half of a double that is not tiny is exact.\<close>

lemma half_exact:
  assumes "proper (Number q)" and "normal_range q"
  shows "round_double s (q / 2) = Number (q / 2)"
proof -
  obtain m where m: "q = of_int m * 2 powi ulp_exponent q" "0 < m" "m < 2 ^ 53"
    by (rule significand [OF assms(1) normal_pos [OF assms(2)]])
  have "q / 2 = of_int m * 2 powi (ulp_exponent q - 1)"
    using m(1) by (simp add: power_int_diff)
  moreover have "- 1074 \<le> ulp_exponent q - 1" using normal_exponent [OF assms(2)] by simp
  ultimately have eq: "round_magnitude (q / 2) = q / 2"
    using round_magnitude_exact [OF m(2,3)] by metis
  define B :: rat where "B = 2 ^ 1024"
  have pos: "0 < q" by (rule normal_pos [OF assms(2)])
  have "\<not> B \<le> round_magnitude q" "round_magnitude q = q"
    using assms(1) pos by (auto simp: round_double_pos [folded B_def] split: if_splits)
  then show ?thesis using pos eq by (simp add: round_double_pos [folded B_def])
qed

section \<open>The loops\<close>

lemma fixed_slices_eq:
  "index \<le> k \<Longrightarrow>
   map sl_quantity (fixed_slices base whole interval (Suc k) index scheduled) =
     map base [index..<k] @ [d_sub whole (foldl d_add scheduled (map base [index..<k]))] \<and>
   map sl_delay_seconds (fixed_slices base whole interval (Suc k) index scheduled) =
     map (\<lambda>i. d_mul (d_of_int (int i)) interval) [index..<Suc k]"
proof (induction "k - index" arbitrary: index scheduled)
  case 0
  then show ?case by (simp add: fixed_slices.simps [of _ _ _ _ index] fixed_slices.simps [of _ _ _ _ "Suc index"] Let_def)
next
  case (Suc j)
  then have "index < k" by simp
  moreover have "map sl_quantity (fixed_slices base whole interval (Suc k) (Suc index) (d_add scheduled (base index))) =
      map base [Suc index..<k] @ [d_sub whole (foldl d_add (d_add scheduled (base index)) (map base [Suc index..<k]))] \<and>
     map sl_delay_seconds (fixed_slices base whole interval (Suc k) (Suc index) (d_add scheduled (base index))) =
      map (\<lambda>i. d_mul (d_of_int (int i)) interval) [Suc index..<Suc k]"
    by (rule Suc.hyps(1)) (use Suc.hyps(2) \<open>index < k\<close> in simp_all)
  ultimately show ?case by (simp add: fixed_slices.simps [of _ _ _ _ index] Let_def upt_rec [of index])
qed

text \<open>The sum of all slices but the last stays between half of the order and the order.\<close>

lemma twap_partial_sum:
  assumes "proper (Number q)" "normal_range (q / 2 ^ 21)" "q \<le> 2 ^ 900" and "1 \<le> k" "k < 2 ^ 20"
  obtains b s where "round_double False (q / (of_nat k + 1)) = Number b" "0 < b"
    "d_sum (replicate k (Number b)) = Number s" "proper (Number s)" "q / 2 \<le> s" "s < q"
proof (cases "k = 1")
  case True
  have q: "0 < q" using normal_pos [OF assms(2)] by simp
  have "q / 2 ^ 21 \<le> q" using q by (simp add: divide_le_eq)
  then have half: "round_double False (q / 2) = Number (q / 2)"
    using half_exact assms(1) normal_mono [OF assms(2)] by blast
  then have "proper (Number (q / 2))" by simp
  with half show thesis using q by (intro that [of "q / 2" "q / 2"]) (simp_all add: True d_sum_def)
next
  case False
  define K :: rat where "K = of_nat k"
  define e where "e = unit_roundoff"
  define B where "B = q / (K + 1)"
  have "2 \<le> k" "k + 1 \<le> 2 ^ 20" using assms(4,5) False by simp_all
  then have "(of_nat 2 :: rat) \<le> of_nat k" "(of_nat (k + 1) :: rat) \<le> of_nat (2 ^ 20)" by (intro of_nat_mono, simp)+
  then have K: "2 \<le> K" "K + 1 \<le> 2 ^ 20" by (simp_all add: K_def)
  have e: "0 < e" "2 ^ 42 * e \<le> 1 / 2 ^ 11" by (simp_all add: e_def unit_roundoff_def power_int_minus)
  have Ke: "K * e \<le> 1 / 2 ^ 11" "K * K * e \<le> 1 / 2 ^ 11"
  proof -
    have "K * e \<le> 2 ^ 42 * e" "K * K \<le> 2 ^ 20 * 2 ^ 20" using K e(1) by (intro mult_right_mono mult_mono; simp)+
    moreover have "K * K * e \<le> 2 ^ 42 * e" using calculation(2) e(1) by (intro mult_right_mono) simp_all
    ultimately show "K * e \<le> 1 / 2 ^ 11" "K * K * e \<le> 1 / 2 ^ 11" using e(2) by linarith+
  qed
  have q: "0 < q" using normal_pos [OF assms(2)] by simp
  have "B * (K + 1) = q" using K by (simp add: B_def)
  then have B: "0 < B" "q = B * K + B" using q K by (simp_all add: B_def distrib_left)
  have "q / 2 ^ 20 \<le> B" unfolding B_def using q K by (intro divide_left_mono) simp_all
  then have B21: "q / 2 ^ 21 \<le> B / 2" by simp
  then have range: "normal_range B" using B(1) by (intro normal_mono [OF assms(2)]) simp
  have Bq: "B * 3 \<le> q" using K B by (simp add: mult_left_mono)
  then have "B \<le> 2 ^ 1000" using B(1) assms(3) by simp
  then obtain b where b: "round_double False B = Number b" "\<bar>b - B\<bar> \<le> B * e"
    using round_normal [OF range] unfolding e_def by metis
  have "B * e \<le> B * (1 / 2)" using e B(1) by (intro mult_left_mono) simp_all
  then have b': "B / 2 \<le> b" "b \<le> 2 * B" using b(2) by (simp_all add: abs_le_iff)
  have nb: "normal_range b" "b \<le> 2 ^ 900" using normal_mono [OF assms(2)] B21 b' Bq B(1) assms(3) by simp_all
  obtain s where s: "d_sum (replicate k (Number b)) = Number s" "proper (Number s)" "\<bar>s - K * b\<bar> \<le> K * K * b * e"
    using equal_sum [OF nb, of k] assms(5) unfolding K_def e_def by auto
  have "K * \<bar>b - B\<bar> \<le> K * (B * e)" using b(2) K by (intro mult_left_mono) simp_all
  also have "\<dots> = B * (K * e)" by simp
  also have "\<dots> \<le> B * (1 / 2 ^ 11)" using Ke(1) B(1) by (intro mult_left_mono) simp_all
  finally have "\<bar>K * b - K * B\<bar> \<le> B / 2 ^ 11"
    using K by (simp add: right_diff_distrib [symmetric] abs_mult)
  moreover have "K * K * b * e \<le> 2 * B / 2 ^ 11"
  proof -
    have "K * K * b * e = b * (K * K * e)" by simp
    also have "\<dots> \<le> b * (1 / 2 ^ 11)" using Ke(2) b' B(1) by (intro mult_left_mono) simp_all
    also have "\<dots> \<le> 2 * B * (1 / 2 ^ 11)" using b'(2) by (intro mult_right_mono) simp_all
    finally show ?thesis by simp
  qed
  ultimately have near: "s - B * K \<le> B / 2" "B * K - s \<le> B / 2"
    using s(3) B(1) unfolding abs_le_iff mult.commute [of K B] by simp_all
  have KB: "B * 2 \<le> B * K" using K(1) B(1) by (intro mult_left_mono) simp_all
  show thesis
  proof (rule that)
    show "round_double False (q / (of_nat k + 1)) = Number b" using b(1) by (simp add: B_def K_def)
    show "0 < b" using b' B(1) by simp
    show "q / 2 \<le> s" using near KB B by linarith
    show "s < q" using near KB B by linarith
  qed (rule s)+
qed


lemma interval_finite:
  assumes "is_finite d" "\<not> d_less d (Number 0)" "proper d" "n \<le> 2 ^ 20"
  shows "is_finite (interval_seconds d n) \<and> nonneg (interval_seconds d n)"
proof (cases "n \<le> 1")
  case False
  then have n: "1 \<le> int n" "\<bar>int n\<bar> < 2 ^ 53" using assms(4) by simp_all
  have d: "nonneg d" "\<not> is_nan d" using assms(1,2) by (simp_all add: d_le_def finite_not_nan)
  have "value_of d / of_int (int n) \<le> value_of d" "0 \<le> value_of d / of_int (int n)"
    using d(1) assms(1) n(1) mult_left_mono [of 1 "of_nat n" "value_of d"]
    by (simp_all add: d_le_finite divide_le_eq)
  note bounds = this
  have "d_le (round_double (sign_bit d) (value_of d / of_int (int n))) (round_double (sign_bit d) (value_of d))"
    by (rule round_double_mono [OF bounds(1)])
  moreover have "d_le (round_double False 0) (round_double (sign_bit d) (value_of d / of_int (int n)))"
    by (rule round_double_mono [OF bounds(2)])
  moreover have "is_finite (round_double (sign_bit d) (value_of d))"
    using assms(1,3) d by (cases d) (auto simp: round_double_0 d_le_def split: if_splits)
  moreover have "d_div d (d_of_int (int n)) = round_double (sign_bit d) (value_of d / of_int (int n))"
    using assms(1) n by (cases d) (simp_all add: d_of_int_exact d_div_def)
  ultimately show ?thesis
    using False finite_between by (simp add: interval_seconds_def round_double_0)
qed (simp add: interval_seconds_def)

lemma delay_mono:
  assumes "m \<le> n" "n < 2 ^ 53" "is_finite i" "nonneg i"
  shows "d_le (d_mul (d_of_int (int m)) i) (d_mul (d_of_int (int n)) i)"
proof -
  have eq: "d_of_int (int k) = Number (of_nat k)" if "k \<le> n" for k
    using that assms(2) by (simp add: d_of_int_exact)
  have "of_nat m * value_of i \<le> of_nat n * value_of i"
    using assms by (intro mult_right_mono of_nat_mono) (simp_all add: d_le_finite)
  moreover have "d_mul (Number (of_nat k)) i = round_double (sign_bit i) (of_nat k * value_of i)" for k
    using assms(3) by (cases i) (simp_all add: d_mul_def)
  ultimately show ?thesis using assms(1) by (simp add: eq round_double_mono)
qed


definition equal_request :: execution_schedule_request where
  "equal_request =
     \<lparr>sq_algorithm = TWAP, sq_quantity = Number 10, sq_slices = 3, sq_duration_seconds = Number 60,
      sq_volume_profile = [], sq_participation_rate = Number 0, sq_displayed_quantity = Number 0\<rparr>"


section \<open>Participation and display\<close>

text \<open>The slices are taken from a quantity that never becomes negative.\<close>

definition taken_within :: "double \<Rightarrow> double list \<Rightarrow> bool" where
  "taken_within r qs \<longleftrightarrow> list_all nonneg qs \<and> (\<forall>k. nonneg (foldl d_sub r (take k qs)))"

lemma taken_within_Nil: "nonneg r \<Longrightarrow> taken_within r []"
  by (simp add: taken_within_def)

lemma taken_within_Cons: "nonneg r \<Longrightarrow> nonneg q \<Longrightarrow> taken_within (d_sub r q) qs \<Longrightarrow> taken_within r (q # qs)"
proof -
  assume a: "nonneg r" "nonneg q" "taken_within (d_sub r q) qs"
  have "nonneg (foldl d_sub r (take k (q # qs)))" for k
    using a by (cases k) (auto simp: taken_within_def)
  then show ?thesis using a by (auto simp: taken_within_def)
qed

text \<open>A slice stays within the share of the volume of the interval in which it is sent.\<close>

definition paced :: "double \<Rightarrow> double \<Rightarrow> nat \<Rightarrow> double list \<Rightarrow> slice \<Rightarrow> bool" where
  "paced rate interval n volumes s \<longleftrightarrow>
     (\<exists>j < length volumes. sl_delay_seconds s = d_mul (d_of_int (int (n + j))) interval \<and>
        d_le (sl_quantity s) (d_mul (volumes ! j) rate))"

lemma paced_Suc: "paced rate i (Suc n) vs s \<Longrightarrow> paced rate i n (v # vs) s"
  unfolding paced_def by (metis Suc_less_eq add_Suc_right add_Suc length_Cons nth_Cons_Suc)

lemma paced_0: "sl_delay_seconds s = d_mul (d_of_int (int n)) i \<Longrightarrow> d_le (sl_quantity s) (d_mul v rate) \<Longrightarrow>
    paced rate i n (v # vs) s"
  unfolding paced_def by (intro exI [of _ 0]) simp

lemma pov_slices_within:
  assumes "is_finite r" "nonneg r" "proper r" and "\<forall>v \<in> set vs. nonneg (d_mul v rate)"
  shows "taken_within r (map sl_quantity (pov_slices rate i n vs r)) \<and>
    list_all (paced rate i n vs) (pov_slices rate i n vs r)"
  using assms
proof (induction vs arbitrary: n r)
  case Nil
  then show ?case by (simp add: taken_within_Nil)
next
  case (Cons v vs)
  note m = min_remaining [OF Cons.prems(1-3), of "d_mul v rate"]
  have v: "nonneg (d_mul v rate)" and vs: "\<forall>v \<in> set vs. nonneg (d_mul v rate)" using Cons.prems(4) by simp_all
  have shift: "list_all (paced rate i (Suc n) vs) ss \<Longrightarrow> list_all (paced rate i n (v # vs)) ss" for ss
    using paced_Suc by (auto simp: list_all_iff)
  have limit: "d_le (d_min r (d_mul v rate)) (d_mul v rate)"
    using v Cons.prems(2) by (intro d_min_limit) (auto simp: d_le_not_nan)
  consider "d_le r sched_epsilon" | "\<not> d_le r sched_epsilon" "d_le (d_min r (d_mul v rate)) sched_epsilon"
    | "\<not> d_le r sched_epsilon" "\<not> d_le (d_min r (d_mul v rate)) sched_epsilon" by blast
  then show ?case
  proof cases
    case 1
    then show ?thesis using Cons.prems by (simp add: taken_within_Nil)
  next
    case 2
    with Cons.IH [OF Cons.prems(1-3) vs, of "Suc n"] shift show ?thesis by (simp add: Let_def)
  next
    case 3
    with Cons.IH [OF m(2,3,4) vs, of "Suc n"] v shift limit Cons.prems(2) m(1)
    show ?thesis by (simp add: Let_def taken_within_Cons paced_0)
  qed
qed

lemma iceberg_slices_within:
  assumes "is_finite r" "nonneg r" "proper r" and "nonneg d"
  shows "taken_within r (map sl_quantity (iceberg_slices d i count n r)) \<and>
    list_all (\<lambda>s. d_le (sl_quantity s) d) (iceberg_slices d i count n r)"
  using assms
proof (induction d i count n r rule: iceberg_slices.induct)
  case (1 d i count n r)
  note m = min_remaining [OF 1(2-5)]
  show ?case
    using 1(1) [OF _ refl m(2,3,4) 1(5)] 1(2-5) m(1) d_min_limit [of d r]
    by (subst (1 2) iceberg_slices.simps) (auto simp: Let_def taken_within_Nil d_le_not_nan intro!: taken_within_Cons)
qed

text \<open>C15: A schedule stays within the order. The slices of a POV or an iceberg schedule are never
  negative and never more than what is left of the order, rounding included; a POV slice is at
  most the participation in the volume of its interval, an iceberg slice at most the displayed
  quantity.\<close>

theorem schedule_within_order:
  assumes "build_execution_schedule request = Inr ss" and "proper (sq_quantity request)"
    and "sq_algorithm request = POV \<or> sq_algorithm request = Iceberg"
  shows "taken_within (sq_quantity request) (map sl_quantity ss) \<and>
    (if sq_algorithm request = POV
     then list_all (paced (sq_participation_rate request)
       (interval_seconds (sq_duration_seconds request) (length (sq_volume_profile request))) 0
       (sq_volume_profile request)) ss
     else list_all (\<lambda>s. d_le (sl_quantity s) (sq_displayed_quantity request)) ss)"
proof -
  have q: "is_finite (sq_quantity request)" "nonneg (sq_quantity request)"
    using assms(1) positive_finite
    by (auto simp: build_execution_schedule_def validate_common_def split: option.splits if_splits intro: d_less_le)
  from assms(3) show ?thesis
  proof
    assume pov: "sq_algorithm request = POV"
    define rate where "rate = sq_participation_rate request"
    from pov assms(1) have rate: "is_finite rate" "d_less (Number 0) rate"
      and vs: "\<forall>v \<in> set (sq_volume_profile request). is_finite v \<and> \<not> d_less v (Number 0)"
      and ss: "ss = pov_slices rate
        (interval_seconds (sq_duration_seconds request) (length (sq_volume_profile request))) 0
        (sq_volume_profile request) (sq_quantity request)"
      using positive_finite [of rate]
      by (auto simp: build_execution_schedule_def build_pov_schedule_def named_def Let_def rate_def split: option.splits if_splits)
    have "\<forall>v \<in> set (sq_volume_profile request). nonneg (d_mul v rate)"
      using vs rate d_mul_nonneg by (auto simp: d_le_def finite_not_nan)
    from pov_slices_within [OF q assms(2) this] pov show ?thesis by (simp add: ss rate_def)
  next
    assume iceberg: "sq_algorithm request = Iceberg"
    then have "nonneg (sq_displayed_quantity request)"
      and "\<exists>count i. ss = iceberg_slices (sq_displayed_quantity request) i count 0 (sq_quantity request)"
      using assms(1) positive_finite [of "sq_displayed_quantity request"]
      by (auto simp: build_execution_schedule_def build_iceberg_schedule_def Let_def split: option.splits if_splits intro: d_less_le)
    with iceberg_slices_within [OF q assms(2)] iceberg show ?thesis by auto
  qed
qed

definition shown_request :: execution_schedule_request where
  "shown_request = equal_request\<lparr>sq_algorithm := Iceberg, sq_displayed_quantity := Number 4\<rparr>"

lemma schedule_within_order_witness:
  "\<exists>ss. build_execution_schedule shown_request = Inr ss \<and> map sl_quantity ss = [Number 4, Number 4, Number 2] \<and>
    taken_within (Number 10) (map sl_quantity ss)"
proof -
  have "round_double False (5 / 2) = Number (5 / 2)"
    using round_to [of "5 / 2" 51 5629499534213120] by simp
  moreover have "\<lceil>5 / 2 :: rat\<rceil> = 3" by (simp add: ceiling_eq_iff)
  ultimately have "build_execution_schedule shown_request = Inr (iceberg_slices (Number 4) (Number 20) 3 0 (Number 10))"
    by (simp add: build_execution_schedule_def validate_common_def build_iceberg_schedule_def shown_request_def
        equal_request_def d_le_def d_div_def ceil_to_size_def interval_seconds_def d_of_int_exact)
  moreover have "map sl_quantity (iceberg_slices (Number 4) (Number 20) 3 0 (Number 10)) = [Number 4, Number 4, Number 2]"
    by (simp add: iceberg_slices.simps d_min_def d_sub_def Let_def)
  ultimately show ?thesis
    using schedule_within_order [of shown_request] by (auto simp: shown_request_def equal_request_def)
qed

text \<open>The last slice of a VWAP schedule can be negative: an order of 7 over six equal weights and a
  weight of zero.\<close>

definition weighted_request :: execution_schedule_request where
  "weighted_request =
     \<lparr>sq_algorithm = VWAP, sq_quantity = Number 7, sq_slices = 7, sq_duration_seconds = Number 0,
      sq_volume_profile = [Number 1, Number 1, Number 1, Number 1, Number 1, Number 1, Number 0],
      sq_participation_rate = Number 0, sq_displayed_quantity = Number 0\<rparr>"

lemma vwap_negative_slice:
  "\<exists>ss. build_execution_schedule weighted_request = Inr ss \<and> sl_quantity (last ss) = Number (- 1 / 2 ^ 50)"
proof -
  define v :: rat where "v = 5254199565265579 / 2 ^ 52"
  have b: "round_double False (7 / 6) = Number v"
    using round_to [of "7 / 6" 52 5254199565265579] by (simp add: v_def)
  have sums: "d_add (Number 0) (Number v) = Number v" "d_add (Number v) (Number v) = Number (2 * v)"
    "d_add (Number (2 * v)) (Number v) = Number (7 / 2)"
    "d_add (Number (7 / 2)) (Number v) = Number (4 * v)"
    "d_add (Number (4 * v)) (Number v) = Number (6567749456581974 / 2 ^ 50)"
    "d_add (Number (6567749456581974 / 2 ^ 50)) (Number v) = Number (7881299347898369 / 2 ^ 50)"
    using round_to [of v 52 5254199565265579] round_to [of "2 * v" 51 5254199565265579]
      round_to [of "3 * v" 51 7881299347898368] round_to [of "7 / 2 + v" 50 5254199565265579]
      round_to [of "5 * v" 50 6567749456581974] round_to [of "6567749456581974 / 2 ^ 50 + v" 50 7881299347898369]
    by (simp_all add: v_def)
  have "d_sub (Number 7) (foldl d_add (Number 0) (replicate 6 (Number v))) = Number (- 1 / 2 ^ 50)"
    using sums round_to_neg [of "1 / 2 ^ 50" 102 4503599627370496]
    by (simp add: numeral_eq_Suc d_sub_def)
  note last = this
  have "build_vwap_schedule weighted_request =
      Inr (fixed_slices (\<lambda>i. d_div (d_mul (Number 7) (sq_volume_profile weighted_request ! i)) (Number 6)) (Number 7)
        (d_div (Number 0) (Number 7)) 7 0 (Number 0))"
    using tiny_decides(4) [of 6]
    by (simp add: build_vwap_schedule_def weighted_request_def interval_seconds_def d_of_int_exact sched_epsilon_def)
  moreover have "map (\<lambda>i. d_div (d_mul (Number 7) (sq_volume_profile weighted_request ! i)) (Number 6)) [0..<6] = replicate 6 (Number v)"
    by (simp add: weighted_request_def d_mul_def d_div_def b upt_rec numeral_eq_Suc)
  then have "map sl_quantity (fixed_slices (\<lambda>i. d_div (d_mul (Number 7) (sq_volume_profile weighted_request ! i)) (Number 6)) (Number 7)
        (d_div (Number 0) (Number 7)) 7 0 (Number 0)) = replicate 6 (Number v) @ [Number (- 1 / 2 ^ 50)]"
    using fixed_slices_eq [of 0 6 _ "Number 7" "d_div (Number 0) (Number 7)" "Number 0"] last by (simp add: numeral_eq_Suc)
  then obtain ss where ss: "build_vwap_schedule weighted_request = Inr ss" "map sl_quantity ss = replicate 6 (Number v) @ [Number (- 1 / 2 ^ 50)]"
    using calculation by blast
  then have "ss \<noteq> []" by auto
  then have "sl_quantity (last ss) = Number (- 1 / 2 ^ 50)" using ss(2) last_map [of ss sl_quantity] by simp
  moreover have "build_execution_schedule weighted_request = Inr ss"
    using ss(1) by (simp add: build_execution_schedule_def named_def validate_common_def weighted_request_def d_le_def)
  ultimately show ?thesis by blast
qed

text \<open>An iceberg order can be left incomplete: 12,291.6 shown 4,097.2 at a time is three slices, after
  which more than the tolerance is left.\<close>

lemma iceberg_leftover:
  "\<exists>ss. build_execution_schedule (shown_request\<lparr>sq_quantity := round_double False (122916 / 10),
       sq_displayed_quantity := round_double False (40972 / 10)\<rparr>) = Inr ss \<and> length ss = 3 \<and>
     d_less sched_epsilon (foldl d_sub (round_double False (122916 / 10)) (map sl_quantity ss))"
proof -
  define q d :: rat where "q = 6757378561985741 / 2 ^ 39" and "d = 4504919041323827 / 2 ^ 40"
  have qd: "round_double False (122916 / 10) = Number q" "round_double False (40972 / 10) = Number d"
    using round_to [of "122916 / 10" 39 6757378561985741] round_to [of "40972 / 10" 40 4504919041323827]
    by (simp_all add: q_def d_def)
  have three: "round_double False (q / d) = Number 3"
    using round_to [of "q / d" 51 6755399441055744] by (simp add: q_def d_def)
  define r r' :: rat where "r = 4504919041323828 / 2 ^ 39" and "r' = 4504919041323829 / 2 ^ 40"
  have left: "d_sub (Number q) (Number d) = Number r" "d_sub (Number r) (Number d) = Number r'"
    "d_sub (Number r') (Number d) = Number (1 / 2 ^ 39)"
    using round_to [of "q - d" 39 4504919041323828] round_to [of "4504919041323828 / 2 ^ 39 - d" 40 4504919041323829]
      round_to [of "4504919041323829 / 2 ^ 40 - d" 91 4503599627370496]
    by (simp_all add: d_sub_def q_def d_def r_def r'_def)
  have min: "d_min (Number q) (Number d) = Number d" "d_min (Number r) (Number d) = Number d" "d_min (Number r') (Number d) = Number d"
    by (simp_all add: d_min_def q_def d_def r_def r'_def)
  have pos: "0 < q" "0 < d" by (simp_all add: q_def d_def)
  have "build_execution_schedule (shown_request\<lparr>sq_quantity := Number q, sq_displayed_quantity := Number d\<rparr>) =
      Inr (iceberg_slices (Number d) (Number 20) 3 0 (Number q))"
    using pos by (simp add: build_execution_schedule_def validate_common_def build_iceberg_schedule_def shown_request_def
        equal_request_def d_le_def d_div_def ceil_to_size_def interval_seconds_def d_of_int_exact three)
  moreover have "map sl_quantity (iceberg_slices (Number d) (Number 20) 3 0 (Number q)) = replicate 3 (Number d)"
    by (simp add: iceberg_slices.simps min left Let_def numeral_eq_Suc)
  then have "length (iceberg_slices (Number d) (Number 20) 3 0 (Number q)) = 3 \<and>
      foldl d_sub (Number q) (map sl_quantity (iceberg_slices (Number d) (Number 20) 3 0 (Number q))) = Number (1 / 2 ^ 39)"
    using arg_cong [of _ _ length] by (auto simp: left numeral_eq_Suc simp del: length_0_conv dest: arg_cong [of _ _ length])
  moreover have "d_less sched_epsilon (Number (1 / 2 ^ 39))"
    using round_to [of "1 / 10 ^ 12" 92 4951760157141521] by (simp add: sched_epsilon_def)
  ultimately show ?thesis unfolding qd by (auto simp: left numeral_eq_Suc)
qed

end
