(* ===== verification/Execution_Engine.thy ===== *)
theory Execution_Engine
  imports Tca Double_Error
begin

text \<open>
  The simulated execution of a route plan (include/minimatch/execution\_engine.hpp,
  src/execution\_engine.cpp): every leg becomes a child that is rejected or filled by a fixed ratio.

  The random numbers are a parameter: for a configuration, which holds the seed, and the leg with
  number \<open>n\<close>, the draw of the jitter and the draw that decides on a rejection; the standard leaves
  the algorithm of \<open>std::uniform\_real\_distribution\<close> open. An exception is the left side of a sum.
\<close>

datatype child_execution_status = ChildFilled | ChildPartiallyFilled | ChildRejected

record routed_child_execution =
  rc_venue :: string
  rc_level_index :: nat
  rc_requested_quantity :: double
  rc_filled_quantity :: double
  rc_remaining_quantity :: double
  rc_price :: double
  rc_notional :: double
  rc_fee :: double
  rc_latency_ms :: double
  rc_status :: child_execution_status

record routed_execution_summary =
  rs_complete :: bool
  rs_requested_quantity :: double
  rs_filled_quantity :: double
  rs_remaining_quantity :: double
  rs_average_fill_price :: double
  rs_total_notional :: double
  rs_total_fees :: double
  rs_total_latency_ms :: double
  rs_children :: "routed_child_execution list"

record execution_simulation_config =
  sc_fill_ratio :: double
  sc_rejection_probability :: double
  sc_base_latency_ms :: double
  sc_latency_jitter_ms :: double
  sc_seed :: u64

type_synonym draws = "execution_simulation_config \<Rightarrow> nat \<Rightarrow> double \<times> double"

fun child_status_string :: "child_execution_status \<Rightarrow> string" where
  "child_status_string ChildFilled = ''FILLED''"
| "child_status_string ChildPartiallyFilled = ''PARTIALLY_FILLED''"
| "child_status_string ChildRejected = ''REJECTED''"

definition default_simulation :: execution_simulation_config where
  "default_simulation =
     \<lparr>sc_fill_ratio = Number 1, sc_rejection_probability = Number 0, sc_base_latency_ms = Number 0,
      sc_latency_jitter_ms = Number 0, sc_seed = 1\<rparr>"

text \<open>\<open>std::clamp\<close>\<close>

definition d_clamp :: "double \<Rightarrow> double \<Rightarrow> double \<Rightarrow> double" where
  "d_clamp v lo hi = (if d_less v lo then lo else if d_less hi v then hi else v)"

definition validate_simulation :: "execution_simulation_config \<Rightarrow> string option" where
  "validate_simulation config =
     (if \<not> is_finite (sc_fill_ratio config) \<or> d_less (sc_fill_ratio config) (Number 0) \<or>
         d_less (Number 1) (sc_fill_ratio config)
      then Some ''fill ratio must be between zero and one''
      else if \<not> is_finite (sc_rejection_probability config) \<or>
              d_less (sc_rejection_probability config) (Number 0) \<or>
              d_less (Number 1) (sc_rejection_probability config)
      then Some ''rejection probability must be between zero and one''
      else if \<not> is_finite (sc_base_latency_ms config) \<or> d_less (sc_base_latency_ms config) (Number 0)
      then Some ''base latency must be non-negative''
      else if \<not> is_finite (sc_latency_jitter_ms config) \<or> d_less (sc_latency_jitter_ms config) (Number 0)
      then Some ''latency jitter must be non-negative'' else None)"

definition execute_leg :: "execution_simulation_config \<Rightarrow> double \<times> double \<Rightarrow> route_leg \<Rightarrow> routed_child_execution" where
  "execute_leg config draw leg =
     (let child = \<lparr>rc_venue = lg_venue leg, rc_level_index = lg_level_index leg,
            rc_requested_quantity = lg_quantity leg, rc_filled_quantity = Number 0,
            rc_remaining_quantity = Number 0, rc_price = lg_price leg, rc_notional = Number 0,
            rc_fee = Number 0,
            rc_latency_ms = d_add (d_add (lg_latency_ms leg) (sc_base_latency_ms config)) (fst draw),
            rc_status = ChildRejected\<rparr>
      in if d_less (snd draw) (sc_rejection_probability config)
         then child\<lparr>rc_remaining_quantity := lg_quantity leg\<rparr>
         else
           let filled = d_clamp (d_mul (lg_quantity leg) (sc_fill_ratio config)) (Number 0) (lg_quantity leg);
               remaining = d_sub (lg_quantity leg) filled;
               notional = d_mul filled (lg_price leg)
           in child\<lparr>rc_filled_quantity := filled, rc_remaining_quantity := remaining, rc_notional := notional,
                rc_fee := d_div (d_mul notional (lg_taker_fee_bps leg)) (Number 10000),
                rc_status :=
                  (if d_le filled tiny then ChildRejected
                   else if d_le remaining tiny then ChildFilled else ChildPartiallyFilled)\<rparr>)"

text \<open>The loop: a child rejected by its draw adds to the latency only.\<close>

definition rejected_by :: "execution_simulation_config \<Rightarrow> double \<times> double \<Rightarrow> bool" where
  "rejected_by config draw \<longleftrightarrow> d_less (snd draw) (sc_rejection_probability config)"

fun execute_legs ::
  "execution_simulation_config \<Rightarrow> draws \<Rightarrow> nat \<Rightarrow> route_leg list \<Rightarrow> routed_execution_summary
    \<Rightarrow> routed_execution_summary"
where
  "execute_legs config draws n [] summary = summary"
| "execute_legs config draws n (leg # legs) summary =
     (let child = execute_leg config (draws config n) leg;
          s1 = summary\<lparr>rs_total_latency_ms := d_add (rs_total_latency_ms summary) (rc_latency_ms child),
                 rs_children := rs_children summary @ [child]\<rparr>;
          s2 = (if rejected_by config (draws config n) then s1
                else s1\<lparr>rs_filled_quantity := d_add (rs_filled_quantity s1) (rc_filled_quantity child),
                       rs_total_notional := d_add (rs_total_notional s1) (rc_notional child),
                       rs_total_fees := d_add (rs_total_fees s1) (rc_fee child)\<rparr>)
      in execute_legs config draws (n + 1) legs s2)"

definition simulate_route_execution ::
  "draws \<Rightarrow> route_plan \<Rightarrow> execution_simulation_config \<Rightarrow> string + routed_execution_summary"
where
  "simulate_route_execution draws plan config =
     (case validate_simulation config of Some e \<Rightarrow> Inl e | None \<Rightarrow>
      let s = execute_legs config draws 0 (pn_legs plan)
            \<lparr>rs_complete = False, rs_requested_quantity = pn_requested_quantity plan,
             rs_filled_quantity = Number 0, rs_remaining_quantity = Number 0,
             rs_average_fill_price = Number 0, rs_total_notional = Number 0, rs_total_fees = Number 0,
             rs_total_latency_ms = Number 0, rs_children = []\<rparr>;
          remaining = d_max (Number 0) (d_sub (rs_requested_quantity s) (rs_filled_quantity s));
          s1 = s\<lparr>rs_remaining_quantity := remaining, rs_complete := d_le remaining tiny\<rparr>
      in Inr (if d_less (Number 0) (rs_filled_quantity s1)
              then s1\<lparr>rs_average_fill_price := d_div (rs_total_notional s1) (rs_filled_quantity s1)\<rparr>
              else s1))"

end
