(* ===== verification/Algo_Scheduler.thy ===== *)
theory Algo_Scheduler
  imports Execution_Algo Execution_Engine Oms_Correct
begin

text \<open>
  The scheduler of execution algorithms (algo\_scheduler.hpp, live\_algo\_executor.hpp,
  src/algo\_scheduler.cpp): an accepted order becomes a parent of the order management system and a
  job; the thread of the job sends the slices of its schedule one after the other through the
  router and the simulated execution, and records what happens as children of the parent.

  What the thread of a job sees of the rest of the world is an argument, one \<open>slice\_env\<close> for each
  slice: the clock, the quotes, the reads of the flag \<open>cancel\_requested\<close>, and the calls other threads
  have made on the order management system. These come between two slices; the calls for the
  children of one slice are made without others in between. The waiting itself takes no step. The
  state callback is the list of the states it has been called with; that it throws is not
  modelled. None is undefined behaviour: a delay or a number of slices that does not fit its
  integer type.
\<close>

datatype algo_order_status = AlgoRunning | AlgoCompleted | AlgoCancelled | AlgoFailed

record algo_order_state =
  ao_parent_order_id :: u64
  ao_status :: algo_order_status
  ao_symbol :: string
  ao_algorithm :: execution_algorithm
  ao_current_slice :: nat
  ao_total_slices :: nat
  ao_started_at_ns :: u64
  ao_next_slice_at_ns :: u64
  ao_completed_at_ns :: u64
  ao_requested_quantity :: double
  ao_filled_quantity :: double
  ao_remaining_quantity :: double
  ao_arrival_price :: double
  ao_recovered :: bool
  ao_recovery_count :: nat
  ao_last_recovered_at_ns :: u64
  ao_error :: string

record live_algo_request =
  la_symbol :: string
  la_side :: route_side
  la_quantity :: double
  la_schedule :: execution_schedule_request
  la_limit_price :: double
  la_max_slippage_bps :: double
  la_max_venue_count :: nat
  la_all_or_none :: bool
  la_simulation :: execution_simulation_config

record persisted_algo_order =
  pa_state :: algo_order_state
  pa_request :: live_algo_request
  pa_has_request :: bool

record job =
  jb_state :: algo_order_state
  jb_request :: live_algo_request
  jb_cancel_requested :: bool
  jb_started :: bool

record algo_scheduler =
  as_jobs :: "(u64 \<times> job) list"
  as_callback_set :: bool
  as_published :: "algo_order_state list"

fun algo_status_string :: "algo_order_status \<Rightarrow> string" where
  "algo_status_string AlgoRunning = ''RUNNING''"
| "algo_status_string AlgoCompleted = ''COMPLETED''"
| "algo_status_string AlgoCancelled = ''CANCELLED''"
| "algo_status_string AlgoFailed = ''FAILED''"

text \<open>The message of an exception; that of \<open>at\<close> is not specified.\<close>

fun oms_what :: "oms_error \<Rightarrow> string" where
  "oms_what (InvalidArgument message) = message"
| "oms_what (LogicError message) = message"
| "oms_what OutOfRange = ''out of range''"

section \<open>Submission\<close>

definition schedule_of :: "live_algo_request \<Rightarrow> execution_schedule_request" where
  "schedule_of request = (la_schedule request)\<lparr>sq_quantity := la_quantity request\<rparr>"

definition arrival_price_of :: "venue_quote list \<Rightarrow> double" where
  "arrival_price_of quotes =
     (case best_quotes quotes of (best_bid, best_ask) \<Rightarrow>
      if d_less (Number 0) best_bid \<and> d_less (Number 0) best_ask
      then d_div (d_add best_bid best_ask) (Number 2) else Number 0)"

definition new_algo_state :: "u64 \<Rightarrow> live_algo_request \<Rightarrow> nat \<Rightarrow> u64 \<Rightarrow> double \<Rightarrow> algo_order_state" where
  "new_algo_state parent_id request total_slices now arrival_price =
     \<lparr>ao_parent_order_id = parent_id, ao_status = AlgoRunning, ao_symbol = la_symbol request,
      ao_algorithm = sq_algorithm (la_schedule request), ao_current_slice = 0,
      ao_total_slices = total_slices, ao_started_at_ns = now, ao_next_slice_at_ns = 0,
      ao_completed_at_ns = 0, ao_requested_quantity = la_quantity request,
      ao_filled_quantity = Number 0, ao_remaining_quantity = la_quantity request,
      ao_arrival_price = arrival_price, ao_recovered = False, ao_recovery_count = 0,
      ao_last_recovered_at_ns = 0, ao_error = []\<rparr>"

definition publish_state :: "bool \<Rightarrow> algo_order_state \<Rightarrow> algo_order_state list \<Rightarrow> algo_order_state list" where
  "publish_state callback state published = (if callback then published @ [state] else published)"

definition submit_algo ::
  "u64 \<Rightarrow> venue_quote list \<Rightarrow> live_algo_request \<Rightarrow> oms \<Rightarrow> algo_scheduler
    \<Rightarrow> ((string + u64) \<times> oms \<times> algo_scheduler) option"
where
  "submit_algo now quotes request s a =
     (if la_symbol request = [] then Some (Inl ''algo symbol cannot be empty'', s, a)
      else if \<not> is_finite (la_quantity request) \<or> d_le (la_quantity request) (Number 0)
      then Some (Inl ''algo quantity must be positive'', s, a)
      else case build_execution_schedule (schedule_of request) of
        Inl Undefined \<Rightarrow> None
      | Inl (BadSchedule e) \<Rightarrow> Some (Inl e, s, a)
      | Inr schedule \<Rightarrow>
          if schedule = [] then Some (Inl ''algo schedule cannot be empty'', s, a)
          else case create_parent \<lparr>pr_symbol = la_symbol request, pr_side = la_side request,
                 pr_quantity = la_quantity request, pr_algorithm = sq_algorithm (schedule_of request)\<rparr> now s of
            (Inl e, s') \<Rightarrow> Some (Inl (oms_what e), s', a)
          | (Inr parent_id, s') \<Rightarrow>
              let state = new_algo_state parent_id request (length schedule) now (arrival_price_of quotes);
                  job = \<lparr>jb_state = state, jb_request = request, jb_cancel_requested = False, jb_started = True\<rparr>
              in Some (Inr parent_id, s',
                   a\<lparr>as_jobs := hm_emplace parent_id job (as_jobs a),
                     as_published := publish_state (as_callback_set a) state (as_published a)\<rparr>))"

section \<open>The run of a job\<close>

text \<open>What the thread meets at one slice: the calls of other threads on the order management system
  since its last slice, the reads of the flag at the top of the loop and after the wait, the values
  of the clock and the quotes.\<close>

record slice_env =
  se_calls :: "oms_call list"
  se_cancel_before :: bool
  se_cancel_time :: u64
  se_now :: u64
  se_cancel_after :: bool
  se_quotes :: "venue_quote list"
  se_child_time :: "nat \<Rightarrow> u64"

text \<open>\<open>static\_cast<std::uint64\_t>(slice.delay\_seconds * 1'000'000'000.0)\<close>\<close>

definition delay_ns :: "double \<Rightarrow> u64 option" where
  "delay_ns delay_seconds =
     (let x = d_mul delay_seconds (Number 1000000000) in
      if is_finite x \<and> - 1 < value_of x \<and> value_of x < 2 ^ 64
      then Some (word_of_int \<lfloor>value_of x\<rfloor>) else None)"

text \<open>When the slice is due, whether that is new, and so published.\<close>

definition slice_target :: "u64 \<Rightarrow> u64 \<Rightarrow> double \<Rightarrow> (u64 \<times> bool) option" where
  "slice_target now_ns next_slice_at_ns delay_seconds =
     (if now_ns < next_slice_at_ns then Some (next_slice_at_ns, False)
      else if next_slice_at_ns \<noteq> 0 then Some (now_ns, False)
      else map_option (\<lambda>d. (now_ns + d, True)) (delay_ns delay_seconds))"

text \<open>One routed child: what it adds to the filled quantity of the slice.\<close>

definition run_child ::
  "u64 \<Rightarrow> u64 \<Rightarrow> routed_child_execution \<Rightarrow> oms \<Rightarrow> (oms_error + double option) \<times> oms"
where
  "run_child parent_id now child s =
     (case create_child \<lparr>cr_parent_id = parent_id, cr_venue = rc_venue child, cr_price = rc_price child,
         cr_quantity = rc_requested_quantity child, cr_created_timestamp_ns = now\<rparr> s of
        (Inl e, s1) \<Rightarrow> (Inl e, s1)
      | (Inr child_id, s1) \<Rightarrow>
          if rc_status child = ChildRejected then
            (case reject_child child_id now s1 of
               (Inl e, s2) \<Rightarrow> (Inl e, s2) | (Inr _, s2) \<Rightarrow> (Inr None, s2))
          else case mark_child_working child_id now s1 of
            (Inl e, s2) \<Rightarrow> (Inl e, s2)
          | (Inr _, s2) \<Rightarrow>
              (case (if d_less tiny (rc_filled_quantity child)
                     then case record_fill child_id (rc_price child) (rc_filled_quantity child) (rc_fee child) now s2 of
                       (Inl e, s3) \<Rightarrow> (Inl e, s3) | (Inr _, s3) \<Rightarrow> (Inr (Some (rc_filled_quantity child)), s3)
                     else (Inr None, s2)) of
                 (Inl e, s3) \<Rightarrow> (Inl e, s3)
               | (Inr filled, s3) \<Rightarrow>
                   if d_less tiny (rc_remaining_quantity child)
                   then case cancel_child child_id now s3 of
                     (Inl e, s4) \<Rightarrow> (Inl e, s4) | (Inr _, s4) \<Rightarrow> (Inr filled, s4)
                   else (Inr filled, s3)))"

fun run_children ::
  "u64 \<Rightarrow> (nat \<Rightarrow> u64) \<Rightarrow> nat \<Rightarrow> routed_child_execution list \<Rightarrow> double \<Rightarrow> oms \<Rightarrow> (oms_error + double) \<times> oms"
where
  "run_children parent_id clock n [] slice_filled s = (Inr slice_filled, s)"
| "run_children parent_id clock n (child # children) slice_filled s =
     (case run_child parent_id (clock n) child s of
        (Inl e, s') \<Rightarrow> (Inl e, s')
      | (Inr None, s') \<Rightarrow> run_children parent_id clock (n + 1) children slice_filled s'
      | (Inr (Some q), s') \<Rightarrow> run_children parent_id clock (n + 1) children (d_add slice_filled q) s')"

definition wait_slice ::
  "bool \<Rightarrow> u64 \<Rightarrow> double \<Rightarrow> algo_order_state \<times> algo_order_state list
    \<Rightarrow> (algo_order_state \<times> algo_order_state list) option"
where
  "wait_slice callback now_ns delay_seconds sp =
     (case sp of (state, published) \<Rightarrow>
      if d_less (Number 0) delay_seconds then
        (case slice_target now_ns (ao_next_slice_at_ns state) delay_seconds of
           None \<Rightarrow> None
         | Some (target_ns, fresh) \<Rightarrow>
             if fresh then
               let state' = state\<lparr>ao_next_slice_at_ns := target_ns\<rparr>
               in Some (state', publish_state callback state' published)
             else Some (state, published))
      else Some (state, published))"

definition route_of :: "live_algo_request \<Rightarrow> double \<Rightarrow> route_request" where
  "route_of request quantity =
     \<lparr>rt_side = la_side request, rt_quantity = quantity, rt_limit_price = la_limit_price request,
      rt_max_slippage_bps = la_max_slippage_bps request, rt_max_venue_count = la_max_venue_count request,
      rt_all_or_none = la_all_or_none request\<rparr>"

definition slice_done :: "nat \<Rightarrow> double \<Rightarrow> algo_order_state \<Rightarrow> algo_order_state" where
  "slice_done index slice_filled state =
     (let filled = d_add (ao_filled_quantity state) slice_filled
      in state\<lparr>ao_filled_quantity := filled,
           ao_remaining_quantity := d_max (Number 0) (d_sub (ao_requested_quantity state) filled),
           ao_current_slice := index + 1, ao_next_slice_at_ns := 0\<rparr>)"

text \<open>How an iteration of the loop ends: with the next one, after a \<open>break\<close>, with a \<open>return\<close> from the
  job or with an exception.\<close>

datatype slice_outcome = NextSlice | LeaveLoop | Stopped | Thrown string

type_synonym run_state = "algo_order_state \<times> algo_order_state list \<times> oms"

definition send_slice ::
  "live_algo_request \<Rightarrow> draws \<Rightarrow> bool \<Rightarrow> slice_env \<Rightarrow> nat \<Rightarrow> slice \<Rightarrow> run_state \<Rightarrow> slice_outcome \<times> run_state"
where
  "send_slice request draws callback env index sl r =
     (case r of (state0, published, s) \<Rightarrow>
      let remaining = ao_remaining_quantity state0;
          state = state0\<lparr>ao_next_slice_at_ns := 0\<rparr>;
          quantity = d_min (sl_quantity sl) remaining
      in if d_le remaining tiny then (LeaveLoop, state, published, s)
         else if d_le quantity tiny then (NextSlice, state, published, s)
         else if se_quotes env = [] then (NextSlice, state, published, s)
         else case build_route_plan (route_of request quantity) (se_quotes env) of
           Inl e \<Rightarrow> (Thrown e, state, published, s)
         | Inr plan \<Rightarrow>
             if pn_legs plan = [] then (NextSlice, state, published, s)
             else case simulate_route_execution draws plan (la_simulation request) of
               Inl e \<Rightarrow> (Thrown e, state, published, s)
             | Inr execution \<Rightarrow>
                 (case run_children (ao_parent_order_id state) (se_child_time env) 0 (rs_children execution)
                    (Number 0) s of
                    (Inl e, s') \<Rightarrow> (Thrown (oms_what e), state, published, s')
                  | (Inr slice_filled, s') \<Rightarrow>
                      let state' = slice_done index slice_filled state
                      in (NextSlice, state', publish_state callback state' published, s')))"

definition run_slice ::
  "live_algo_request \<Rightarrow> draws \<Rightarrow> bool \<Rightarrow> slice_env \<Rightarrow> nat \<Rightarrow> slice \<Rightarrow> run_state
    \<Rightarrow> (slice_outcome \<times> run_state) option"
where
  "run_slice request draws callback env index sl r =
     (case r of (state, published, s0) \<Rightarrow>
      let s = oms_calls (se_calls env) s0
      in if se_cancel_before env then
           Some (Stopped, state\<lparr>ao_status := AlgoCancelled, ao_completed_at_ns := se_cancel_time env\<rparr>,
             published, snd (cancel_parent (ao_parent_order_id state) (se_cancel_time env) s))
         else case wait_slice callback (se_now env) (sl_delay_seconds sl) (state, published) of
           None \<Rightarrow> None
         | Some (state1, published1) \<Rightarrow>
             if d_less (Number 0) (sl_delay_seconds sl) \<and> se_cancel_after env
             then Some (NextSlice, state1, published1, s)
             else Some (send_slice request draws callback env index sl (state1, published1, s)))"

fun run_slices ::
  "live_algo_request \<Rightarrow> draws \<Rightarrow> bool \<Rightarrow> (nat \<Rightarrow> slice_env) \<Rightarrow> nat \<Rightarrow> slice list \<Rightarrow> run_state
    \<Rightarrow> (slice_outcome \<times> run_state) option"
where
  "run_slices request draws callback envs index [] r = Some (LeaveLoop, r)"
| "run_slices request draws callback envs index (sl # slices) r =
     (case run_slice request draws callback (envs index) index sl r of
        Some (NextSlice, r') \<Rightarrow> run_slices request draws callback envs (index + 1) slices r'
      | result \<Rightarrow> result)"

text \<open>The end of the job: the calls of the other threads until then, the clock and the flag.\<close>

record job_end =
  je_calls :: "oms_call list"
  je_now :: u64
  je_cancelled :: bool

definition finish_job :: "bool \<Rightarrow> job_end \<Rightarrow> run_state \<Rightarrow> run_state" where
  "finish_job callback je r =
     (case r of (state, published, s0) \<Rightarrow>
      let s = oms_calls (je_calls je) s0;
          done = d_le (ao_remaining_quantity state) tiny;
          state' = state\<lparr>ao_status := (if done \<or> \<not> je_cancelled je then AlgoCompleted else AlgoCancelled),
                     ao_completed_at_ns := je_now je, ao_next_slice_at_ns := 0\<rparr>
      in (state', publish_state callback state' published,
          if done then s else snd (cancel_parent (ao_parent_order_id state) (je_now je) s)))"

definition fail_job :: "bool \<Rightarrow> job_end \<Rightarrow> string \<Rightarrow> run_state \<Rightarrow> run_state" where
  "fail_job callback je what r =
     (case r of (state, published, s0) \<Rightarrow>
      let s = oms_calls (je_calls je) s0;
          state' = state\<lparr>ao_status := AlgoFailed, ao_error := what, ao_completed_at_ns := je_now je\<rparr>
      in (state', publish_state callback state' published,
          snd (cancel_parent (ao_parent_order_id state) (je_now je) s)))"

definition run_job ::
  "draws \<Rightarrow> bool \<Rightarrow> (nat \<Rightarrow> slice_env) \<Rightarrow> job_end \<Rightarrow> live_algo_request \<Rightarrow> run_state \<Rightarrow> run_state option"
where
  "run_job draws callback envs je request r =
     (case build_execution_schedule (schedule_of request) of
        Inl Undefined \<Rightarrow> None
      | Inl (BadSchedule e) \<Rightarrow> Some (fail_job callback je e r)
      | Inr schedule \<Rightarrow>
          let start_index = min (ao_current_slice (fst r)) (length schedule)
          in case run_slices request draws callback envs start_index (drop start_index schedule) r of
               None \<Rightarrow> None
             | Some (Stopped, r') \<Rightarrow> Some r'
             | Some (Thrown e, r') \<Rightarrow> Some (fail_job callback je e r')
             | Some (_, r') \<Rightarrow> Some (finish_job callback je r'))"

section \<open>The other operations\<close>

definition cancel_algo :: "u64 \<Rightarrow> algo_scheduler \<Rightarrow> bool \<times> algo_scheduler" where
  "cancel_algo parent_order_id a =
     (case map_of (as_jobs a) parent_order_id of
        None \<Rightarrow> (False, a)
      | Some job \<Rightarrow>
          if ao_status (jb_state job) \<noteq> AlgoRunning then (False, a)
          else (True, a\<lparr>as_jobs := hm_update parent_order_id (job\<lparr>jb_cancel_requested := True\<rparr>) (as_jobs a)\<rparr>))"

definition find_algo :: "u64 \<Rightarrow> algo_scheduler \<Rightarrow> algo_order_state option" where
  "find_algo parent_order_id a = map_option jb_state (map_of (as_jobs a) parent_order_id)"

definition algo_orders :: "algo_scheduler \<Rightarrow> algo_order_state list" where
  "algo_orders a = sort_key ao_parent_order_id (map (jb_state \<circ> snd) (as_jobs a))"

definition set_state_callback :: "algo_scheduler \<Rightarrow> algo_scheduler" where
  "set_state_callback a = a\<lparr>as_callback_set := True\<rparr>"

text \<open>The destructor: every job is asked to stop; the joins take no step.\<close>

definition destroy_scheduler :: "algo_scheduler \<Rightarrow> algo_scheduler" where
  "destroy_scheduler a = a\<lparr>as_jobs := map (\<lambda>(k, job). (k, job\<lparr>jb_cancel_requested := True\<rparr>)) (as_jobs a)\<rparr>"

definition new_scheduler :: algo_scheduler where
  "new_scheduler = \<lparr>as_jobs = [], as_callback_set = False, as_published = []\<rparr>"

text \<open>A default \<open>LiveAlgoRequest\<close>, the request of a restored job that has none.\<close>

definition default_request :: live_algo_request where
  "default_request =
     \<lparr>la_symbol = [], la_side = Oms.Buy, la_quantity = Number 0,
      la_schedule = \<lparr>sq_algorithm = Market, sq_quantity = Number 0, sq_slices = 1,
        sq_duration_seconds = Number 0, sq_volume_profile = [],
        sq_participation_rate = round_double False (1 / 10), sq_displayed_quantity = Number 0\<rparr>,
      la_limit_price = Number 0, la_max_slippage_bps = Number 10000,
      la_max_venue_count = 100, la_all_or_none = False, la_simulation = default_simulation\<rparr>"

definition restored_job :: "u64 \<Rightarrow> persisted_algo_order \<Rightarrow> job" where
  "restored_job now persisted =
     (let state = (pa_state persisted)\<lparr>ao_recovered := False\<rparr>;
          job = \<lparr>jb_state = state, jb_request = default_request, jb_cancel_requested = False, jb_started = False\<rparr>
      in if ao_status (pa_state persisted) \<noteq> AlgoRunning then job
         else if \<not> pa_has_request persisted then
           job\<lparr>jb_state := state\<lparr>ao_status := AlgoFailed,
             ao_error := ''missing persisted algo request'', ao_next_slice_at_ns := 0\<rparr>\<rparr>
         else job\<lparr>jb_request := pa_request persisted, jb_started := True,
           jb_state := state\<lparr>ao_error := [], ao_recovered := True,
             ao_recovery_count := ao_recovery_count state + 1, ao_last_recovered_at_ns := now\<rparr>\<rparr>)"

text \<open>The recovery with requests: every job enters the table, a running one publishes its state, and
  the jobs to resume are the second result. The clock is read once for each of these.\<close>

fun restore_recoverable ::
  "(nat \<Rightarrow> u64) \<Rightarrow> nat \<Rightarrow> persisted_algo_order list \<Rightarrow> algo_scheduler \<times> job list \<Rightarrow> algo_scheduler \<times> job list"
where
  "restore_recoverable clock n [] acc = acc"
| "restore_recoverable clock n (persisted # orders) (a, jobs_to_resume) =
     (let job = restored_job (clock n) persisted;
          running = (ao_status (pa_state persisted) = AlgoRunning)
      in restore_recoverable clock (n + 1) orders
           (a\<lparr>as_jobs := hm_update (ao_parent_order_id (jb_state job)) job (as_jobs a),
              as_published := publish_state (as_callback_set a \<and> running) (jb_state job) (as_published a)\<rparr>,
            if jb_started job then jobs_to_resume @ [job] else jobs_to_resume))"

definition interrupted :: "algo_order_state \<Rightarrow> algo_order_state" where
  "interrupted state =
     (if ao_status state = AlgoRunning
      then state\<lparr>ao_status := AlgoFailed, ao_error := ''interrupted by process restart'', ao_next_slice_at_ns := 0\<rparr>
      else state)"

fun restore_history :: "algo_order_state list \<Rightarrow> algo_scheduler \<Rightarrow> algo_scheduler" where
  "restore_history [] a = a"
| "restore_history (state # states) a =
     restore_history states
       (a\<lparr>as_jobs := hm_update (ao_parent_order_id state)
          \<lparr>jb_state = interrupted state, jb_request = default_request, jb_cancel_requested = False,
           jb_started = False\<rparr> (as_jobs a)\<rparr>)"


end
