(* ===== verification/Algo_Scheduler_Correct.thy ===== *)
theory Algo_Scheduler_Correct
  imports Algo_Scheduler
begin

text \<open>
  The properties of the scheduler of execution algorithms. Whatever a job does to the order
  management system is a sequence of its calls, of bounded length, so the invariant of the system
  carries over; from it follows how a job ends.
\<close>

section \<open>The routes\<close>

lemma take_legs_legs:
  assumes "take_legs request arrival cs remaining used = (r, u, legs)"
  shows "length legs \<le> length cs \<and>
    (proper remaining \<and> (\<forall>c \<in> set cs. proper (cl_quantity c)) \<longrightarrow> (\<forall>leg \<in> set legs. proper (lg_quantity leg)))"
  using assms
proof (induction cs arbitrary: remaining used r u legs)
  case (Cons c cs)
  show ?case
  proof (cases "d_le remaining tiny \<or> refused request arrival c used")
    case True
    then show ?thesis using Cons by (force simp: refused_def split: if_splits)
  next
    case False
    obtain r' u' legs' where rec: "take_legs request arrival cs
        (d_sub remaining (d_min remaining (cl_quantity c))) (insert (cl_venue c) used) = (r', u', legs')"
      by (metis prod.exhaust)
    have "legs = leg_of c (d_min remaining (cl_quantity c)) # legs'"
      using Cons.prems False rec by (auto simp: refused_def Let_def)
    then show ?thesis using Cons.IH [OF rec] by (auto simp: leg_of_def d_min_def d_sub_def)
  qed
qed simp

definition quote_levels :: "venue_quote list \<Rightarrow> nat" where
  "quote_levels quotes = sum_list (map (\<lambda>q. length (vq_bids q) + length (vq_asks q)) quotes)"

definition proper_quotes :: "venue_quote list \<Rightarrow> bool" where
  "proper_quotes quotes \<longleftrightarrow> (\<forall>q \<in> set quotes. \<forall>l \<in> set (vq_bids q) \<union> set (vq_asks q). proper (vl_quantity l))"

lemma length_candidates: "length (candidates side quotes) \<le> quote_levels quotes"
proof (induction quotes)
  case (Cons q quotes)
  let ?valid = "\<lambda>(index :: nat, level). valid_level level"
  have "length (filter ?valid (enumerate 0 (side_levels side q))) \<le> length (vq_bids q) + length (vq_asks q)"
    using length_filter_le [of ?valid "enumerate 0 (side_levels side q)"] by (auto simp: side_levels_def split: if_splits)
  with Cons show ?case unfolding candidates_def quote_levels_def by (auto intro: add_mono)
qed (simp add: candidates_def quote_levels_def)

lemma candidates_proper: "proper_quotes quotes \<Longrightarrow> c \<in> set (candidates side quotes) \<Longrightarrow> proper (cl_quantity c)"
  by (fastforce simp: candidates_def proper_quotes_def candidate_def side_levels_def in_set_enumerate_eq split: if_splits)

lemma length_insert_by [simp]: "length (insert_by lt x xs) = Suc (length xs)"
  by (induction xs) simp_all

lemma set_insert_by [simp]: "set (insert_by lt x xs) = insert x (set xs)"
  by (induction xs) auto

lemma sort_by_same: "length (sort_by lt xs) = length xs \<and> set (sort_by lt xs) = set xs"
  by (induction xs) (simp_all add: sort_by_def)

lemma plan_legs:
  assumes "build_route_plan request quotes = Inr plan"
  shows "length (pn_legs plan) \<le> quote_levels quotes \<and>
    (proper (rt_quantity request) \<and> proper_quotes quotes \<longrightarrow> (\<forall>leg \<in> set (pn_legs plan). proper (lg_quantity leg)))"
proof -
  define cs where "cs = sort_by (candidate_before (rt_side request)) (candidates (rt_side request) quotes)"
  have cs: "length cs \<le> quote_levels quotes" "set cs = set (candidates (rt_side request) quotes)"
    using length_candidates [of "rt_side request" quotes] by (simp_all add: cs_def sort_by_same)
  show ?thesis
  proof (cases cs)
    case Nil
    then show ?thesis using assms by (auto simp: build_route_plan_def cs_def [symmetric] split: option.splits)
  next
    case (Cons first rest)
    obtain r u legs where take: "take_legs request (cl_effective_price first) cs (rt_quantity request) {} = (r, u, legs)"
      by (metis prod.exhaust)
    have "pn_legs plan = [] \<or> pn_legs plan = legs"
      using assms take Cons by (auto simp: build_route_plan_def cs_def [symmetric] take_candidates_legs
          finish_plan_def Let_def with_legs_def split: option.splits if_splits)
    then show ?thesis using take_legs_legs [OF take] cs candidates_proper by fastforce
  qed
qed

lemma execute_legs_children:
  "map rc_requested_quantity (rs_children (execute_legs config draws n legs summary)) =
    map rc_requested_quantity (rs_children summary) @ map lg_quantity legs"
proof (induction legs arbitrary: n summary)
  case (Cons leg legs)
  have "rc_requested_quantity (execute_leg config draw leg) = lg_quantity leg" for draw
    by (simp add: execute_leg_def Let_def)
  with Cons show ?case by (simp add: Let_def)
qed simp

lemma simulated_children:
  assumes "simulate_route_execution draws plan config = Inr execution"
  shows "map rc_requested_quantity (rs_children execution) = map lg_quantity (pn_legs plan)"
  using assms by (auto simp: simulate_route_execution_def Let_def execute_legs_children split: option.splits if_splits)

section \<open>Calls\<close>

text \<open>A state that at most \<open>n\<close> calls lead to.\<close>

definition called :: "nat \<Rightarrow> oms \<Rightarrow> oms \<Rightarrow> bool" where
  "called n s t \<longleftrightarrow> (\<exists>xs. length xs \<le> n \<and> list_all proper_call xs \<and> t = oms_calls xs s)"

lemma called_refl [simp]: "called n s s"
  by (auto simp: called_def oms_calls_def intro: exI [of _ "[]"])

lemma called_trans:
  assumes "called m s t" and "called n t u" and "m + n \<le> k"
  shows "called k s u"
proof -
  obtain xs ys where "length xs \<le> m" "list_all proper_call xs" "t = oms_calls xs s"
    "length ys \<le> n" "list_all proper_call ys" "u = oms_calls ys t"
    using assms(1,2) unfolding called_def by blast
  then show ?thesis using assms(3) unfolding called_def by (intro exI [of _ "xs @ ys"]) (simp add: oms_calls_def)
qed

lemma called_mono: "called m s t \<Longrightarrow> m \<le> n \<Longrightarrow> called n s t"
  by (rule called_trans [OF _ called_refl [of 0]]) simp_all

lemma called_calls: "list_all proper_call xs \<Longrightarrow> called (length xs) s (oms_calls xs s)"
  unfolding called_def by blast

lemma called_call: "proper_call x \<Longrightarrow> called 1 s (call_oms x s)"
  unfolding called_def by (intro exI [of _ "[x]"]) (simp add: oms_calls_def)

lemma called_good:
  assumes "called n s t" and "oms_inv s" and "oms_room (n + m) s"
  shows "oms_inv t \<and> oms_follows s t \<and> oms_room m t"
proof -
  obtain xs where xs: "length xs \<le> n" "list_all proper_call xs" "t = oms_calls xs s"
    using assms(1) unfolding called_def by blast
  then have "oms_room (length xs + m) s" "oms_room (length xs) s" using assms(3) by (auto simp: oms_room_def)
  then show ?thesis using calls_good [OF assms(2) _ xs(2)] calls_room [OF assms(2) _ xs(2)] xs(3) by blast
qed

lemmas called_steps =
  called_call [of "CallCreateChild rq" for rq, simplified call_oms.simps proper_call.simps True_implies_equals]
  called_call [of "CallMarkWorking k ts" for k ts, simplified call_oms.simps proper_call.simps True_implies_equals]
  called_call [of "CallFill k p q f ts" for k p q f ts, simplified call_oms.simps proper_call.simps True_implies_equals]
  called_call [of "CallCancelChild k ts" for k ts, simplified call_oms.simps proper_call.simps True_implies_equals]
  called_call [of "CallRejectChild k ts" for k ts, simplified call_oms.simps proper_call.simps True_implies_equals]
  called_call [of "CallCancelParent k ts" for k ts, simplified call_oms.simps proper_call.simps True_implies_equals]

text \<open>A child, the children of a slice.\<close>

lemma run_child_called:
  assumes "proper (rc_requested_quantity child)"
  shows "called 4 s (snd (run_child parent_id now child s))"
proof -
  have c: "called 1 s (snd (create_child \<lparr>cr_parent_id = parent_id, cr_venue = rc_venue child, cr_price = rc_price child,
      cr_quantity = rc_requested_quantity child, cr_created_timestamp_ns = now\<rparr> s))" for s
    using assms by (intro called_steps) simp
  show ?thesis
  proof (cases "create_child \<lparr>cr_parent_id = parent_id, cr_venue = rc_venue child, cr_price = rc_price child,
      cr_quantity = rc_requested_quantity child, cr_created_timestamp_ns = now\<rparr> s")
    case (Pair r s1)
    with c [of s] have s1: "called 1 s s1" by simp
    show ?thesis
    proof (cases r)
      case Inl
      with Pair s1 show ?thesis by (simp add: run_child_def called_mono)
    next
      case (Inr k)
      have rest: "called 1 s1 (snd (reject_child k now s1))" "called 1 s1 (snd (mark_child_working k now s1))"
        "called 1 s2 (snd (record_fill k p q f now s2))" "called 1 s3 (snd (cancel_child k now s3))" for s2 s3 p q f
        by (rule called_steps)+
      obtain r2 s2 where s2: "mark_child_working k now s1 = (r2, s2)" by (metis prod.exhaust)
      define s3 where "s3 = (if d_less tiny (rc_filled_quantity child)
        then snd (record_fill k (rc_price child) (rc_filled_quantity child) (rc_fee child) now s2) else s2)"
      have "called 2 s s2" using called_trans [OF s1] rest(2) s2 by simp
      moreover have "called 1 s2 s3" using rest(3) by (simp add: s3_def)
      ultimately have "called 3 s s3" by (rule called_trans) simp
      moreover from this have "called 4 s (snd (cancel_child k now s3))" by (rule called_trans [OF _ rest(4)]) simp
      moreover have "called 4 s (snd (reject_child k now s1))" by (rule called_trans [OF s1 rest(1)]) simp
      moreover have "called 4 s s2" using \<open>called 2 s s2\<close> by (rule called_mono) simp
      moreover have "called 4 s s3" using \<open>called 3 s s3\<close> by (rule called_mono) simp
      ultimately show ?thesis
        using Pair Inr s2 by (auto simp: run_child_def s3_def split: prod.splits sum.splits if_splits)
    qed
  qed
qed

lemma run_children_called:
  "\<forall>child \<in> set children. proper (rc_requested_quantity child) \<Longrightarrow>
   called (4 * length children) s (snd (run_children parent_id clock n children filled s))"
proof (induction children arbitrary: n filled s)
  case (Cons child children)
  obtain r s' where s': "run_child parent_id (clock n) child s = (r, s')" by (metis prod.exhaust)
  have "called 4 s s'" using run_child_called [of child s parent_id "clock n"] Cons.prems s' by simp
  moreover have "called (4 * length children) s' (snd (run_children parent_id clock (n + 1) children f s'))" for f
    using Cons by simp
  ultimately have "called (4 * length (child # children)) s (snd (run_children parent_id clock (n + 1) children f s'))"
    "called (4 * length (child # children)) s s'" for f
    by (auto intro: called_trans called_mono)
  then show ?case using s' by (auto split: sum.splits option.splits)
qed simp

section \<open>Slices and jobs\<close>

definition slice_cost :: "slice_env \<Rightarrow> nat" where
  "slice_cost env = length (se_calls env) + 4 * quote_levels (se_quotes env) + 1"

definition proper_env :: "slice_env \<Rightarrow> bool" where
  "proper_env env \<longleftrightarrow> list_all proper_call (se_calls env) \<and> proper_quotes (se_quotes env)"

lemma d_min_proper [intro]: "proper x \<Longrightarrow> proper y \<Longrightarrow> proper (d_min x y)"
  by (simp add: d_min_def)

lemma d_sub_proper [simp]: "proper (d_sub x y)"
  by (simp add: d_sub_def)

lemma slice_done_simps:
  "ao_parent_order_id (slice_done index f state) = ao_parent_order_id state"
  "ao_status (slice_done index f state) = ao_status state"
  "proper (ao_remaining_quantity (slice_done index f state))"
  by (simp_all add: slice_done_def Let_def d_max_def round_double_0)

lemma sent_children:
  assumes plan: "build_route_plan (route_of request quantity) quotes = Inr plan"
    and execution: "simulate_route_execution draws plan config = Inr execution"
    and "proper quantity" and "proper_quotes quotes"
  shows "length (rs_children execution) \<le> quote_levels quotes \<and>
    (\<forall>child \<in> set (rs_children execution). proper (rc_requested_quantity child))"
proof -
  have legs: "length (pn_legs plan) \<le> quote_levels quotes" "\<forall>leg \<in> set (pn_legs plan). proper (lg_quantity leg)"
    using plan_legs [OF plan] assms(3,4) by (simp_all add: route_of_def)
  note same = simulated_children [OF execution]
  have "rc_requested_quantity ` set (rs_children execution) = lg_quantity ` set (pn_legs plan)"
    using arg_cong [OF same, of set] by simp
  then show ?thesis using legs arg_cong [OF same, of length] by (metis image_iff length_map)
qed

lemma send_slice_called:
  assumes "send_slice request draws callback env index sl (state, published, s) = (out, state', published', s')"
    and "proper (ao_remaining_quantity state)" and "proper (sl_quantity sl)" and "proper_quotes (se_quotes env)"
  shows "called (4 * quote_levels (se_quotes env)) s s' \<and>
    ao_parent_order_id state' = ao_parent_order_id state \<and> ao_status state' = ao_status state \<and>
    proper (ao_remaining_quantity state') \<and> out \<noteq> Stopped"
proof -
  define quantity where "quantity = d_min (sl_quantity sl) (ao_remaining_quantity state)"
  have quantity: "proper quantity" unfolding quantity_def using assms(2,3) by blast
  have children: "called (4 * quote_levels (se_quotes env)) s t"
    if plan: "build_route_plan (route_of request quantity) (se_quotes env) = Inr plan"
      and execution: "simulate_route_execution draws plan (la_simulation request) = Inr execution"
      and run: "run_children pid clock 0 (rs_children execution) (Number 0) s = (r, t)"
    for plan execution pid clock r t
  proof -
    note sent = sent_children [OF plan execution quantity assms(4)]
    show ?thesis
      by (rule called_mono [OF run_children_called [OF conjunct2 [OF sent], of s pid clock 0 "Number 0", unfolded run snd_conv]])
        (use sent in simp)
  qed
  show ?thesis
    using assms(1,2) unfolding send_slice_def Let_def prod.case quantity_def [symmetric]
    by (auto simp: slice_done_simps intro: children split: if_splits sum.splits prod.splits)
qed

text \<open>The parent is cancelled in the last of the calls.\<close>

definition closed_by :: "nat \<Rightarrow> u64 \<Rightarrow> oms \<Rightarrow> oms \<Rightarrow> bool" where
  "closed_by n pid s t \<longleftrightarrow> (\<exists>u ts. called n s u \<and> t = snd (cancel_parent pid ts u))"

lemma closed_by_called: "closed_by n pid s t \<Longrightarrow> called (Suc n) s t"
  unfolding closed_by_def using called_trans called_steps(6) by force

lemma closed_by_trans:
  assumes "called m s t" and "closed_by n pid t u" and "m + n \<le> k"
  shows "closed_by k pid s u"
  using assms called_trans unfolding closed_by_def by blast

lemma wait_slice_frame:
  "wait_slice callback now delay (state, published) = Some (state', published') \<Longrightarrow>
   ao_parent_order_id state' = ao_parent_order_id state \<and> ao_status state' = ao_status state \<and>
   ao_remaining_quantity state' = ao_remaining_quantity state"
  by (auto simp: wait_slice_def Let_def split: if_splits option.splits)

lemma run_slice_called:
  assumes run: "run_slice request draws callback env index sl (state, published, s) = Some (out, state', published', s')"
    and "proper (ao_remaining_quantity state)" and "proper (sl_quantity sl)" and "proper_env env"
  shows "ao_parent_order_id state' = ao_parent_order_id state \<and>
    (if out = Stopped then ao_status state' = AlgoCancelled \<and> closed_by (slice_cost env) (ao_parent_order_id state) s s'
     else ao_status state' = ao_status state \<and> called (slice_cost env) s s' \<and> proper (ao_remaining_quantity state'))"
proof -
  define s1 where "s1 = oms_calls (se_calls env) s"
  have s1: "called (length (se_calls env)) s s1"
    unfolding s1_def using assms(4) by (intro called_calls) (simp add: proper_env_def)
  then have reach: "called (slice_cost env) s s1"
    by (rule called_mono) (simp add: slice_cost_def)
  show ?thesis
  proof (cases "se_cancel_before env")
    case True
    then show ?thesis using run reach unfolding closed_by_def by (auto simp: run_slice_def Let_def s1_def)
  next
    case False
    then obtain state1 published1 where w: "wait_slice callback (se_now env) (sl_delay_seconds sl) (state, published) =
        Some (state1, published1)"
      using run by (auto simp: run_slice_def Let_def split: option.splits)
    note frame = wait_slice_frame [OF w]
    show ?thesis
    proof (cases "d_less (Number 0) (sl_delay_seconds sl) \<and> se_cancel_after env")
      case True
      then show ?thesis using run False w frame reach assms(2) by (auto simp: run_slice_def Let_def s1_def)
    next
      case cont: False
      then have "send_slice request draws callback env index sl (state1, published1, s1) = (out, state', published', s')"
        using run False w by (auto simp: run_slice_def Let_def s1_def)
      from send_slice_called [OF this] frame assms(2-4) have
        "called (4 * quote_levels (se_quotes env)) s1 s'" "ao_parent_order_id state' = ao_parent_order_id state"
        "ao_status state' = ao_status state" "proper (ao_remaining_quantity state')" "out \<noteq> Stopped"
        by (simp_all add: proper_env_def)
      moreover have "called (slice_cost env) s s'"
        by (rule called_trans [OF s1 calculation(1)]) (simp add: slice_cost_def)
      ultimately show ?thesis by simp
    qed
  qed
qed

definition slices_cost :: "(nat \<Rightarrow> slice_env) \<Rightarrow> nat \<Rightarrow> nat \<Rightarrow> nat" where
  "slices_cost envs index n = sum_list (map (slice_cost \<circ> envs) [index..<index + n])"

lemma slices_cost_Suc: "slices_cost envs index (Suc n) = slice_cost (envs index) + slices_cost envs (Suc index) n"
  by (simp add: slices_cost_def upt_rec [of index] del: upt_Suc)

lemma run_slices_called:
  assumes "run_slices request draws callback envs index sls (state, published, s) = Some (out, state', published', s')"
    and "proper (ao_remaining_quantity state)" and "\<forall>sl \<in> set sls. proper (sl_quantity sl)" and "\<And>i. proper_env (envs i)"
  shows "out \<noteq> NextSlice \<and> ao_parent_order_id state' = ao_parent_order_id state \<and>
    (if out = Stopped then ao_status state' = AlgoCancelled \<and>
       closed_by (slices_cost envs index (length sls)) (ao_parent_order_id state) s s'
     else ao_status state' = ao_status state \<and> called (slices_cost envs index (length sls)) s s' \<and>
       proper (ao_remaining_quantity state'))"
  using assms(1-3)
proof (induction sls arbitrary: index state published s)
  case (Cons sl sls)
  let ?N = "slices_cost envs index (length (sl # sls))"
  obtain out1 state1 published1 s1 where r: "run_slice request draws callback (envs index) index sl (state, published, s) =
      Some (out1, state1, published1, s1)"
    using Cons.prems(1) by (cases "run_slice request draws callback (envs index) index sl (state, published, s)") auto
  note one = run_slice_called [OF r Cons.prems(2) _ assms(4)]
  have N: "?N = slice_cost (envs index) + slices_cost envs (Suc index) (length sls)" by (simp add: slices_cost_Suc)
  show ?case
  proof (cases "out1 = NextSlice")
    case True
    then have rest: "run_slices request draws callback envs (index + 1) sls (state1, published1, s1) = Some (out, state', published', s')"
      using Cons.prems(1) r by simp
    have c: "called (slice_cost (envs index)) s s1" using one True Cons.prems(3) by simp
    show ?thesis
      using Cons.IH [OF rest] one True Cons.prems(3) closed_by_trans [OF c] called_trans [OF c] N by (auto split: if_splits)
  next
    case False
    then have eq: "out = out1" "state' = state1" "published' = published1" "s' = s1"
      using Cons.prems(1) r by (cases out1; simp)+
    have "called ?N s s1" if "called (slice_cost (envs index)) s s1"
      by (rule called_mono [OF that]) (simp add: slices_cost_Suc)
    moreover have "closed_by ?N k s s1" if "closed_by (slice_cost (envs index)) k s s1" for k
      by (rule closed_by_trans [OF called_refl [of 0] that]) (simp add: slices_cost_Suc)
    ultimately show ?thesis using one False Cons.prems(3) unfolding eq by (auto split: if_splits)
  qed
qed simp

lemma fixed_slices_proper:
  "(\<And>i. proper (base i)) \<Longrightarrow> sl \<in> set (fixed_slices base whole interval count index scheduled) \<Longrightarrow>
   proper (sl_quantity sl)"
proof (induction base whole interval count index scheduled rule: fixed_slices.induct)
  case (1 base whole interval count index scheduled)
  show ?case
  proof (cases "index < count")
    case True
    then show ?thesis
      using 1(2,3) 1(1) [OF True refl] by (subst (asm) fixed_slices.simps) (auto simp: Let_def split: if_splits)
  next
    case False
    then show ?thesis using 1(3) by (subst (asm) fixed_slices.simps) simp
  qed
qed

lemma pov_slices_proper:
  "proper remaining \<Longrightarrow> sl \<in> set (pov_slices rate interval index volumes remaining) \<Longrightarrow> proper (sl_quantity sl)"
proof (induction volumes arbitrary: index remaining)
  case (Cons v vs)
  then show ?case
    using Cons.IH [OF d_sub_proper] d_min_proper [OF Cons.prems(1) proper_mul] by (auto simp: Let_def split: if_splits)
qed simp

lemma iceberg_slices_proper:
  "proper displayed \<Longrightarrow> proper remaining \<Longrightarrow> sl \<in> set (iceberg_slices displayed interval count index remaining) \<Longrightarrow>
   proper (sl_quantity sl)"
proof (induction displayed interval count index remaining rule: iceberg_slices.induct)
  case (1 displayed interval count index remaining)
  show ?case
  proof (cases "index < count")
    case True
    then show ?thesis
      using 1(2-4) 1(1) [OF True refl] by (subst (asm) iceberg_slices.simps) (auto simp: Let_def)
  next
    case False
    then show ?thesis using 1(4) by (subst (asm) iceberg_slices.simps) simp
  qed
qed

lemma schedule_proper:
  assumes "build_execution_schedule request = Inr schedule" and "sl \<in> set schedule"
    and "proper (sq_quantity request)" and "proper (sq_displayed_quantity request)"
  shows "proper (sl_quantity sl)"
proof (cases "sq_algorithm request")
  case Market
  then show ?thesis using assms
    by (auto simp: build_execution_schedule_def build_market_schedule_def split: option.splits)
next
  case TWAP
  then show ?thesis using assms fixed_slices_proper [OF proper_div]
    by (auto simp: build_execution_schedule_def build_twap_schedule_def Let_def split: option.splits)
next
  case VWAP
  then show ?thesis using assms fixed_slices_proper [OF proper_div]
    by (auto simp: build_execution_schedule_def build_vwap_schedule_def named_def Let_def
        split: option.splits if_splits)
next
  case POV
  then show ?thesis using assms pov_slices_proper
    by (auto simp: build_execution_schedule_def build_pov_schedule_def named_def Let_def
        split: option.splits if_splits)
next
  case Iceberg
  then show ?thesis using assms iceberg_slices_proper
    by (auto simp: build_execution_schedule_def build_iceberg_schedule_def named_def Let_def
        split: option.splits if_splits)
qed

definition schedule_slices :: "live_algo_request \<Rightarrow> slice list" where
  "schedule_slices request =
     (case build_execution_schedule (schedule_of request) of Inl e \<Rightarrow> [] | Inr schedule \<Rightarrow> schedule)"

definition job_cost :: "(nat \<Rightarrow> slice_env) \<Rightarrow> job_end \<Rightarrow> live_algo_request \<Rightarrow> nat" where
  "job_cost envs je request =
     slices_cost envs 0 (length (schedule_slices request)) + length (je_calls je) + 1"

lemma slices_cost_drop: "k \<le> n \<Longrightarrow> slices_cost envs k (n - k) \<le> slices_cost envs 0 n"
  using upt_add_eq_append [of 0 k "n - k"] by (simp add: slices_cost_def)

lemma run_slices_total:
  "list_all (\<lambda>sl. delay_ns (sl_delay_seconds sl) \<noteq> None) sls \<Longrightarrow>
   run_slices request draws callback envs index sls r \<noteq> None"
proof (induction sls arbitrary: index r)
  case (Cons sl sls)
  have "slice_target now d (sl_delay_seconds sl) \<noteq> None" for now d
    using Cons.prems by (simp add: slice_target_def del: not_None_eq)
  then have target: "slice_target now d (sl_delay_seconds sl) = None \<longleftrightarrow> False" for now d by simp
  have "wait_slice callback now (sl_delay_seconds sl) sp \<noteq> None" for now sp
    by (auto simp: wait_slice_def Let_def target split: prod.splits option.splits)
  then have wait: "wait_slice callback now (sl_delay_seconds sl) sp = None \<longleftrightarrow> False" for now sp by simp
  have "run_slice request draws callback (envs index) index sl r \<noteq> None"
    by (simp add: run_slice_def Let_def wait del: not_None_eq split: prod.splits option.splits)
  then obtain out r' where "run_slice request draws callback (envs index) index sl r = Some (out, r')" by force
  then show ?case using Cons by (cases out) auto
qed simp

definition delays_fit :: "live_algo_request \<Rightarrow> bool" where
  "delays_fit request \<longleftrightarrow> build_execution_schedule (schedule_of request) \<noteq> Inl Undefined \<and>
     list_all (\<lambda>sl. delay_ns (sl_delay_seconds sl) \<noteq> None) (schedule_slices request)"

lemma run_job_valid:
  assumes "build_execution_schedule (schedule_of request) = Inr schedule"
    and "k = min (ao_current_slice (fst r)) (length schedule)"
  shows "run_job draws callback envs je request r =
    (case run_slices request draws callback envs k (drop k schedule) r of
       None \<Rightarrow> None
     | Some (Stopped, r') \<Rightarrow> Some r'
     | Some (Thrown e, r') \<Rightarrow> Some (fail_job callback je e r')
     | Some (_, r') \<Rightarrow> Some (finish_job callback je r'))"
  unfolding run_job_def assms sum.case Let_def by (rule refl)

lemma run_job_total:
  assumes "delays_fit request"
  shows "run_job draws callback envs je request r \<noteq> None"
proof (cases "build_execution_schedule (schedule_of request)")
  case (Inl e)
  then show ?thesis using assms by (cases e) (auto simp: run_job_def delays_fit_def)
next
  case (Inr schedule)
  define k where "k = min (ao_current_slice (fst r)) (length schedule)"
  have "list_all (\<lambda>sl. delay_ns (sl_delay_seconds sl) \<noteq> None) (drop k schedule)"
    using assms Inr by (auto simp: delays_fit_def schedule_slices_def list_all_iff dest: in_set_dropD)
  then have "run_slices request draws callback envs k (drop k schedule) r \<noteq> None" by (rule run_slices_total)
  then obtain out r' where "run_slices request draws callback envs k (drop k schedule) r = Some (out, r')" by force
  then show ?thesis
    unfolding run_job_valid [OF Inr k_def] by (cases out) simp_all
qed

text \<open>How a job ends, in calls.\<close>

lemma run_job_called:
  assumes run: "run_job draws callback envs je request (state, published, s) = Some (state', published', s')"
    and "proper (ao_remaining_quantity state)" and "proper (la_quantity request)"
    and "proper (sq_displayed_quantity (la_schedule request))"
    and "\<And>i. proper_env (envs i)" and je: "list_all proper_call (je_calls je)"
  shows "ao_status state' \<noteq> AlgoRunning \<and>
    (closed_by (job_cost envs je request - 1) (ao_parent_order_id state) s s' \<or>
     ao_status state' = AlgoCompleted \<and> d_le (ao_remaining_quantity state') tiny \<and> called (job_cost envs je request) s s')"
proof -
  let ?n = "length (je_calls je)" and ?N = "job_cost envs je request"
  have calls: "called ?n u (oms_calls (je_calls je) u)" for u by (rule called_calls [OF je])
  have failed: "?thesis"
    if "(state', published', s') = fail_job callback je e (state1, published1, s1)" "called k s s1"
      "k + ?n \<le> ?N - 1" "ao_parent_order_id state1 = ao_parent_order_id state" for e state1 published1 s1 k
  proof -
    have "called (?N - 1) s (oms_calls (je_calls je) s1)" by (rule called_trans [OF that(2) calls that(3)])
    then show ?thesis using that(1,4) by (auto simp: fail_job_def Let_def closed_by_def)
  qed
  show ?thesis
  proof (cases "build_execution_schedule (schedule_of request)")
    case (Inl e)
    then obtain m where "fail_job callback je m (state, published, s) = (state', published', s')"
      using run by (cases e) (auto simp: run_job_def)
    then show ?thesis by (intro failed [OF sym called_refl [of 0]]) (simp_all add: job_cost_def)
  next
    case (Inr schedule)
    define k where "k = min (ao_current_slice state) (length schedule)"
    define C where "C = slices_cost envs k (length schedule - k)"
    have C: "C + ?n \<le> ?N - 1"
      using slices_cost_drop [of k "length schedule" envs] Inr by (simp add: C_def k_def job_cost_def schedule_slices_def)
    have "k = min (ao_current_slice (fst (state, published, s))) (length schedule)" by (simp add: k_def)
    note eq = run_job_valid [OF Inr this, of draws callback envs je]
    have "run_slices request draws callback envs k (drop k schedule) (state, published, s) \<noteq> None"
      using run unfolding eq by (cases "run_slices request draws callback envs k (drop k schedule) (state, published, s)") simp_all
    then obtain out state1 published1 s1 where
      r: "run_slices request draws callback envs k (drop k schedule) (state, published, s) = Some (out, state1, published1, s1)"
      by (metis not_None_eq prod.exhaust)
    note eq = eq [unfolded r option.case prod.case]
    have "\<forall>sl \<in> set (drop k schedule). proper (sl_quantity sl)"
      using schedule_proper [OF Inr] assms(3,4) by (auto simp: schedule_of_def dest: in_set_dropD)
    note outcome = run_slices_called [OF r assms(2) this assms(5), simplified]
    show ?thesis
    proof (cases out)
      case Stopped
      then have "(state', published', s') = (state1, published1, s1)"
        using run eq by simp
      moreover have "closed_by C (ao_parent_order_id state) s s1" "ao_status state1 = AlgoCancelled"
        using outcome Stopped by (simp_all add: C_def)
      moreover have "closed_by (?N - 1) (ao_parent_order_id state) s s1"
        by (rule closed_by_trans [OF called_refl [of 0] calculation(2)]) (use C in simp)
      ultimately show ?thesis by simp
    next
      case (Thrown e)
      then have "(state', published', s') = fail_job callback je e (state1, published1, s1)"
        using run eq by simp
      then show ?thesis by (rule failed) (use outcome Thrown C in \<open>simp_all add: C_def\<close>)
    next
      case LeaveLoop
      then have fin: "(state', published', s') = finish_job callback je (state1, published1, s1)"
        using run eq by simp
      have "called C s s1" using outcome LeaveLoop by (simp add: C_def)
      then have "called (?N - 1) s (oms_calls (je_calls je) s1)" by (rule called_trans [OF _ calls C])
      moreover from this have "called ?N s (oms_calls (je_calls je) s1)" by (rule called_mono) simp
      ultimately show ?thesis using fin outcome LeaveLoop
        by (auto simp: finish_job_def Let_def closed_by_def split: if_splits)
    qed (use outcome in simp)
  qed
qed

section \<open>How a job ends\<close>

lemma cancel_parent_ends:
  assumes "map_of (oms_parents u) pid \<noteq> None"
  shows "\<exists>p. map_of (oms_parents (snd (cancel_parent pid ts u))) pid = Some p \<and> terminal_status (po_status p)"
  using assms by (auto simp: cancel_parent_def Let_def terminal_status_def split: option.splits)

text \<open>C11: A job ends, whatever the quotes, the clock, a cancellation and the calls of other threads
  are: it returns with a status other than RUNNING, and leaves its parent order filled, cancelled or
  rejected, unless the job itself counts the whole quantity as filled and is COMPLETED. When the
  parent is cancelled or rejected, no child of it is open any more.\<close>

theorem job_ends:
  assumes "list_all proper_call xs" and "find_parent (ao_parent_order_id state) (oms_calls xs new_oms) = Some p"
    and "proper (ao_remaining_quantity state)" and "proper (la_quantity request)"
    and "proper (sq_displayed_quantity (la_schedule request))" and "delays_fit request"
    and "\<forall>i. proper_env (envs i)" and "list_all proper_call (je_calls je)"
    and "length xs + job_cost envs je request < 2 ^ 64"
  shows "\<exists>state' published' s' p'.
    run_job draws callback envs je request (state, published, oms_calls xs new_oms) = Some (state', published', s') \<and>
    ao_status state' \<noteq> AlgoRunning \<and> find_parent (ao_parent_order_id state) s' = Some p' \<and>
    (terminal_status (po_status p') \<or> ao_status state' = AlgoCompleted \<and> d_le (ao_remaining_quantity state') tiny) \<and>
    (po_status p' = Cancelled \<or> po_status p' = Rejected \<longrightarrow>
      (\<forall>k c. find_child k s' = Some c \<and> co_parent_id c = ao_parent_order_id state \<longrightarrow> terminal_status (co_status c)))"
proof -
  define s where "s = oms_calls xs new_oms"
  let ?pid = "ao_parent_order_id state" and ?N = "job_cost envs je request"
  have N: "Suc (?N - 1) = ?N" by (simp add: job_cost_def)
  have inv: "oms_inv s" unfolding s_def by (rule oms_reachable_inv [OF _ assms(1)]) (use assms(9) in simp)
  have room: "oms_room (?N + 0) s"
    unfolding s_def by (rule calls_room [OF new_oms_inv new_oms_room assms(1)]) (use assms(9) in simp)
  obtain state' published' s' where
    run: "run_job draws callback envs je request (state, published, s) = Some (state', published', s')"
    using run_job_total [OF assms(6)] by (metis not_None_eq prod.exhaust)
  note result = run_job_called [OF run assms(3-5) _ assms(8)] assms(7)
  then have "called ?N s s'" using closed_by_called [of "?N - 1" ?pid s s'] N by auto
  note good = called_good [OF this inv room]
  obtain p' where p': "map_of (oms_parents s') ?pid = Some p'"
    using good assms(2) unfolding oms_follows_def map_follows_def find_parent_def s_def by blast
  have "terminal_status (po_status p') \<or> ao_status state' = AlgoCompleted \<and> d_le (ao_remaining_quantity state') tiny"
  proof (cases "closed_by (?N - 1) ?pid s s'")
    case True
    then obtain u ts where u: "called (?N - 1) s u" "s' = snd (cancel_parent ?pid ts u)"
      unfolding closed_by_def by blast
    have "oms_room (?N - 1 + 1) s" using room N by simp
    from called_good [OF u(1) inv this] have "map_of (oms_parents u) ?pid \<noteq> None"
      using assms(2) unfolding oms_follows_def map_follows_def find_parent_def s_def by blast
    then show ?thesis using cancel_parent_ends [of u ?pid ts] p' u(2) by auto
  qed (use result in blast)
  moreover have "terminal_status (co_status c)"
    if "po_status p' = Cancelled \<or> po_status p' = Rejected" "map_of (oms_children s') k = Some c" "co_parent_id c = ?pid" for k c
  proof -
    have "parent_ok (oms_children s') ?pid p'" using good p' by (intro oms_invD(3)) simp_all
    moreover have "c \<in> set (kids ?pid (oms_children s'))"
      using good that(2,3) by (subst in_kids [OF oms_invD(2)]) auto
    ultimately show ?thesis using that(1) by (auto simp: parent_ok_def)
  qed
  ultimately show ?thesis
    using run result p' unfolding s_def find_parent_def find_child_def by blast
qed

definition sample_job :: live_algo_request where
  "sample_job = default_request\<lparr>la_symbol := ''BTC'', la_quantity := Number 10\<rparr>"

definition sample_env :: slice_env where
  "sample_env = \<lparr>se_calls = [CallCancelParent 2 5], se_cancel_before = False, se_cancel_time = 0, se_now = 6,
     se_cancel_after = False, se_quotes = [sample_quote ''a'' 100], se_child_time = (\<lambda>n. 7)\<rparr>"

definition sample_end :: job_end where
  "sample_end = \<lparr>je_calls = [], je_now = 8, je_cancelled = True\<rparr>"

definition sample_parent :: "oms_call list" where
  "sample_parent =
     [CallCreateParent \<lparr>pr_symbol = ''BTC'', pr_side = Oms.Buy, pr_quantity = Number 10, pr_algorithm = Market\<rparr> 4]"

lemma sample_schedule: "build_execution_schedule (schedule_of sample_job) = Inr [\<lparr>sl_quantity = Number 10, sl_delay_seconds = Number 0\<rparr>]"
  by (simp add: build_execution_schedule_def schedule_of_def sample_job_def default_request_def
      validate_common_def build_market_schedule_def d_le_def)

lemma job_ends_witness:
  "\<exists>state' published' s' p'.
    run_job (\<lambda>config n. (Number 0, Number 1)) True (\<lambda>i. sample_env) sample_end sample_job
      (new_algo_state 1 sample_job 1 4 (Number 0), [], oms_calls sample_parent new_oms) = Some (state', published', s') \<and>
    ao_status state' \<noteq> AlgoRunning \<and> find_parent 1 s' = Some p'"
proof -
  define state where "state = new_algo_state 1 sample_job 1 4 (Number 0)"
  have id: "ao_parent_order_id state = 1" "proper (ao_remaining_quantity state)"
    by (simp_all add: state_def new_algo_state_def sample_job_def)
  have "\<exists>p. find_parent 1 (oms_calls sample_parent new_oms) = Some p"
    by (simp add: run_scenario sample_parent_def)
  then obtain p where p: "find_parent (ao_parent_order_id state) (oms_calls sample_parent new_oms) = Some p"
    using id(1) by auto
  have calls: "list_all proper_call sample_parent" "list_all proper_call (je_calls sample_end)"
    by (simp_all add: sample_parent_def sample_end_def)
  have proper: "proper (la_quantity sample_job)" "proper (sq_displayed_quantity (la_schedule sample_job))"
    by (simp_all add: sample_job_def default_request_def round_double_0)
  have fits: "delays_fit sample_job"
    by (simp add: delays_fit_def schedule_slices_def sample_schedule delay_ns_def d_mul_def round_double_0 Let_def)
  have env: "\<forall>i :: nat. proper_env sample_env"
    by (simp add: proper_env_def sample_env_def proper_quotes_def sample_quote_def)
  have cost: "length sample_parent + job_cost (\<lambda>i. sample_env) sample_end sample_job < 2 ^ 64"
    by (simp add: sample_parent_def job_cost_def schedule_slices_def sample_schedule slices_cost_def slice_cost_def
        sample_env_def sample_end_def quote_levels_def sample_quote_def)
  show ?thesis
    using job_ends [OF calls(1) p id(2) proper fits env calls(2) cost, of "\<lambda>config n. (Number 0, Number 1)" True "[]"]
    unfolding id(1) unfolding state_def by blast
qed

section \<open>The fills of a slice\<close>

lemma publish_frame:
  "publish_child ty c fill ts res s = (r, t) \<Longrightarrow> oms_reports t = oms_reports s \<and> oms_children t = oms_children s"
proof -
  have "oms_reports (refresh_parent k ts s) = oms_reports s \<and> oms_children (refresh_parent k ts s) = oms_children s" for k
    by (simp add: refresh_parent_def Let_def split: option.split prod.split)
  then show "publish_child ty c fill ts res s = (r, t) \<Longrightarrow> ?thesis"
    by (auto simp: publish_child_def Let_def split: option.splits)
qed

lemma end_child_reports: "end_child st k ts s = (r, t) \<Longrightarrow> oms_reports t = oms_reports s"
  by (auto simp: end_child_def store_child_def Let_def dest: publish_frame split: option.splits if_splits)

lemma mark_child_frame:
  assumes "mark_child_working k ts s = (r, t)" and "map_of (oms_children s) k = Some c"
  shows "oms_reports t = oms_reports s \<and> (\<exists>c'. map_of (oms_children t) k = Some c' \<and> co_parent_id c' = co_parent_id c)"
  using assms by (auto simp: mark_child_working_def store_child_def Let_def dest: publish_frame split: if_splits)

lemma record_fill_frame:
  assumes "record_fill k price q fee ts s = (Inr x, t)" and "map_of (oms_children s) k = Some c"
  shows "\<exists>r. oms_reports t = oms_reports s @ [r] \<and> xr_quantity r = q \<and> xr_parent_id r = co_parent_id c"
  using assms by (auto simp: record_fill_def store_child_def Let_def dest: publish_frame split: option.splits if_splits)

lemma create_child_frame:
  assumes "oms_inv s" and "oms_room 1 s" and "create_child rq s = (Inr k, t)"
  shows "oms_reports t = oms_reports s \<and> (\<exists>c. map_of (oms_children t) k = Some c \<and> co_parent_id c = cr_parent_id rq)"
proof -
  have "numbered (oms_next_child_id s) (oms_children s)" "Suc (length (oms_children s)) < 2 ^ 64"
    using assms(1,2) unfolding oms_inv_def oms_room_def by (blast, simp)
  then have fresh: "map_of (oms_children s) (oms_next_child_id s) = None" by (rule numbered_next(1))
  show ?thesis
    using assms(3) map_of_snoc [OF fresh] fresh
    by (auto simp: create_child_def hm_emplace_def Let_def simp del: map_of_append split: option.splits if_splits)
qed

definition fills_in :: "u64 \<Rightarrow> double list \<Rightarrow> oms \<Rightarrow> oms \<Rightarrow> bool" where
  "fills_in pid qs s t \<longleftrightarrow> (\<exists>rs. oms_reports t = oms_reports s @ rs \<and> map xr_quantity rs = qs \<and>
     list_all (\<lambda>r. xr_parent_id r = pid) rs)"

lemma fills_in_Nil: "oms_reports t = oms_reports s \<Longrightarrow> fills_in pid [] s t"
  by (simp add: fills_in_def)

lemma fills_in_trans: "fills_in pid ps s t \<Longrightarrow> fills_in pid qs t u \<Longrightarrow> fills_in pid (ps @ qs) s u"
  unfolding fills_in_def by (elim exE conjE) (rule exI, intro conjI, simp, simp_all)

lemma run_child_fills:
  assumes "oms_inv s" and "oms_room 1 s" and "run_child pid now child s = (Inr f, t)"
  shows "fills_in pid (case f of None \<Rightarrow> [] | Some q \<Rightarrow> [q]) s t"
proof -
  define rq where "rq = \<lparr>cr_parent_id = pid, cr_venue = rc_venue child, cr_price = rc_price child,
    cr_quantity = rc_requested_quantity child, cr_created_timestamp_ns = now\<rparr>"
  obtain k s1 where s1: "create_child rq s = (Inr k, s1)"
    using assms(3) by (auto simp: run_child_def rq_def split: prod.splits sum.splits)
  obtain c where c: "oms_reports s1 = oms_reports s" "map_of (oms_children s1) k = Some c" "co_parent_id c = pid"
    using create_child_frame [OF assms(1,2) s1] by (auto simp: rq_def)
  show ?thesis
  proof (cases "rc_status child = ChildRejected")
    case True
    then show ?thesis
      using assms(3) s1 c(1) by (auto simp: run_child_def rq_def [symmetric] reject_child_def fills_in_def
          dest: end_child_reports split: prod.splits sum.splits)
  next
    case False
    then obtain b s2 where s2: "mark_child_working k now s1 = (Inr b, s2)"
      using assms(3) s1 by (auto simp: run_child_def rq_def [symmetric] split: prod.splits sum.splits)
    obtain c2 where c2: "oms_reports s2 = oms_reports s1" "map_of (oms_children s2) k = Some c2" "co_parent_id c2 = pid"
      using mark_child_frame [OF s2 c(2)] c(3) by auto
    show ?thesis
    proof (cases "d_less tiny (rc_filled_quantity child)")
      case fill: True
      then obtain x s3 where s3: "record_fill k (rc_price child) (rc_filled_quantity child) (rc_fee child) now s2 = (Inr x, s3)"
        using assms(3) s1 s2 False by (auto simp: run_child_def rq_def [symmetric] split: prod.splits sum.splits)
      obtain r where r: "oms_reports s3 = oms_reports s2 @ [r]" "xr_quantity r = rc_filled_quantity child" "xr_parent_id r = pid"
        using record_fill_frame [OF s3 c2(2)] c2(3) by auto
      have "f = Some (rc_filled_quantity child) \<and> oms_reports t = oms_reports s3"
        using assms(3) s1 s2 s3 False fill
        by (auto simp: run_child_def rq_def [symmetric] cancel_child_def dest: end_child_reports
            split: prod.splits sum.splits if_splits)
      then show ?thesis using r c(1) c2(1) by (simp add: fills_in_def)
    next
      case no_fill: False
      have "f = None \<and> oms_reports t = oms_reports s2"
        using assms(3) s1 s2 False no_fill
        by (auto simp: run_child_def rq_def [symmetric] cancel_child_def dest: end_child_reports
            split: prod.splits sum.splits if_splits)
      then show ?thesis using c(1) c2(1) by (simp add: fills_in_def)
    qed
  qed
qed

lemma run_children_fills:
  assumes "\<forall>child \<in> set children. proper (rc_requested_quantity child)"
  shows "oms_inv s \<Longrightarrow> oms_room (4 * length children) s \<Longrightarrow>
    run_children pid clock n children filled s = (Inr f1, t) \<Longrightarrow>
    \<exists>qs. fills_in pid qs s t \<and> f1 = foldl d_add filled qs"
  using assms
proof (induction children arbitrary: n filled s)
  case Nil
  then show ?case by (auto intro: exI [of _ "[]"] fills_in_Nil)
next
  case (Cons child children)
  obtain f s1 where s1: "run_child pid (clock n) child s = (Inr f, s1)"
    using Cons.prems(3) by (auto split: prod.splits sum.splits)
  have "called 4 s s1" using run_child_called [of child s pid "clock n"] Cons.prems(4) s1 by simp
  moreover have "oms_room (4 + 4 * length children) s" "oms_room 1 s"
    using Cons.prems(2) by (simp_all add: oms_room_def)
  ultimately have good: "oms_inv s1" "oms_room (4 * length children) s1"
    using called_good Cons.prems(1) by blast+
  note one = run_child_fills [OF Cons.prems(1) \<open>oms_room 1 s\<close> s1]
  have rest: "run_children pid clock (n + 1) children (case f of None \<Rightarrow> filled | Some q \<Rightarrow> d_add filled q) s1 = (Inr f1, t)"
    using Cons.prems(3) s1 by (cases f) simp_all
  obtain qs where qs: "fills_in pid qs s1 t" "f1 = foldl d_add (case f of None \<Rightarrow> filled | Some q \<Rightarrow> d_add filled q) qs"
    using Cons.IH [OF good rest] Cons.prems(4) by auto
  then have "f1 = foldl d_add filled ((case f of None \<Rightarrow> [] | Some q \<Rightarrow> [q]) @ qs)" by (cases f) simp_all
  with fills_in_trans [OF one qs(1)] show ?case by blast
qed

definition booked :: "nat \<Rightarrow> algo_order_state \<Rightarrow> double list \<Rightarrow> algo_order_state \<Rightarrow> bool" where
  "booked index state qs state' \<longleftrightarrow>
     ao_current_slice state' = index + 1 \<and>
     ao_filled_quantity state' = d_add (ao_filled_quantity state) (d_sum qs) \<and>
     ao_remaining_quantity state' = d_max (Number 0) (d_sub (ao_requested_quantity state) (ao_filled_quantity state')) \<or>
     ao_current_slice state' = ao_current_slice state \<and> ao_filled_quantity state' = ao_filled_quantity state \<and>
     ao_remaining_quantity state' = ao_remaining_quantity state \<and> qs = []"

lemma send_slice_booked:
  assumes send: "send_slice request draws callback env index sl (state, published, s) = (NextSlice, state', published', s')"
    and "proper (ao_remaining_quantity state)" and "proper (sl_quantity sl)" and "proper_quotes (se_quotes env)"
    and "oms_inv s" and "oms_room (4 * quote_levels (se_quotes env)) s"
  shows "\<exists>qs. fills_in (ao_parent_order_id state) qs s s' \<and> booked index state qs state'"
proof -
  define quantity where "quantity = d_min (sl_quantity sl) (ao_remaining_quantity state)"
  have quantity: "proper quantity" unfolding quantity_def using assms(2,3) by blast
  have sent: "\<exists>qs. fills_in pid qs s t \<and> f1 = d_sum qs"
    if plan: "build_route_plan (route_of request quantity) (se_quotes env) = Inr plan"
      and execution: "simulate_route_execution draws plan (la_simulation request) = Inr execution"
      and run: "run_children pid clock 0 (rs_children execution) (Number 0) s = (Inr f1, t)"
    for plan execution pid clock f1 t
  proof -
    note children = sent_children [OF plan execution quantity assms(4)]
    have "oms_room (4 * length (rs_children execution)) s"
      using assms(6) children by (auto simp: oms_room_def)
    from run_children_fills [OF conjunct2 [OF children] assms(5) this run] show ?thesis
      by (simp add: d_sum_def)
  qed
  have idle: "\<exists>qs. fills_in (ao_parent_order_id state) qs s s \<and> booked index state qs (state\<lparr>ao_next_slice_at_ns := 0\<rparr>)"
    by (intro exI [of _ "[]"]) (simp add: fills_in_Nil booked_def)
  have busy: "booked index state qs (slice_done index (d_sum qs) (state\<lparr>ao_next_slice_at_ns := 0\<rparr>))" for qs
    by (simp add: booked_def slice_done_def Let_def)
  show ?thesis
    using send idle unfolding send_slice_def Let_def prod.case quantity_def [symmetric]
    by (auto dest!: sent intro: busy split: if_splits sum.splits prod.splits)
qed


lemma tiny_number:
  obtains e where "tiny = Number e" and "oms_epsilon = Number e" and "0 < e" and "e \<le> 1 / 2"
  using epsilon_value unfolding tiny_def oms_epsilon_def by metis

definition sample_leg :: route_leg where
  "sample_leg = leg_of (candidate Oms.Buy (sample_quote ''a'' 100) (0, \<lparr>vl_price = Number 100, vl_quantity = Number 5\<rparr>)) (Number 5)"

lemma sample_plan:
  "\<exists>plan. build_route_plan (route_of sample_job (Number 10)) [sample_quote ''a'' 100] = Inr plan \<and> pn_legs plan = [sample_leg]"
proof -
  obtain e where e: "tiny = Number e" "oms_epsilon = Number e" "0 < e" "e \<le> 1 / 2" by (rule tiny_number)
  define c where "c = candidate Oms.Buy (sample_quote ''a'' 100) (0, \<lparr>vl_price = Number 100, vl_quantity = Number 5\<rparr>)"
  have cs: "candidates Oms.Buy [sample_quote ''a'' 100] = [c]"
    by (simp add: candidates_def sample_quote_def side_levels_def valid_level_def c_def)
  have c: "cl_effective_price c = Number 100" "cl_quantity c = Number 5" "cl_price c = Number 100"
    by (simp_all add: c_def sample_costs d_mul_def) (simp_all add: candidate_def)
  define request where "request = route_of sample_job (Number 10)"
  have request: "rt_side request = Oms.Buy" "rt_quantity request = Number 10" "rt_limit_price request = Number 0"
    "rt_max_slippage_bps request = Number 10000" "rt_max_venue_count request = 100" "\<not> rt_all_or_none request"
    by (simp_all add: request_def route_of_def sample_job_def default_request_def)
  have ok: "\<not> refused request (Number 100) c {}"
    by (simp add: refused_def violates_limit_def violates_slippage_def request c d_div_def d_mul_def Let_def)
  have "take_legs request (Number 100) [c] (Number 10) {} = (Number 5, {cl_venue c}, [sample_leg])"
    using ok e(3,4) by (simp add: e(1) refused_def c d_min_def d_sub_def Let_def d_le_def sample_leg_def c_def [symmetric])
  moreover have "route_checks request = None" by (simp add: route_checks_def request d_le_def)
  ultimately show ?thesis
    unfolding request_def [symmetric]
    by (simp add: build_route_plan_def request cs sort_by_def c take_candidates_legs finish_plan_def with_legs_def Let_def)
qed

lemma sample_execution:
  assumes "pn_legs plan = [sample_leg]"
  shows "\<exists>execution child. simulate_route_execution (\<lambda>config n. (Number 0, Number 1)) plan default_simulation = Inr execution \<and>
    rs_children execution = [child] \<and> rc_venue child = ''a'' \<and> rc_requested_quantity child = Number 5 \<and> rc_filled_quantity child = Number 5 \<and>
    rc_remaining_quantity child = Number 0 \<and> rc_price child = Number 100 \<and> rc_fee child = Number 0 \<and>
    rc_status child = ChildFilled"
proof -
  obtain e where e: "tiny = Number e" "oms_epsilon = Number e" "0 < e" "e \<le> 1 / 2" by (rule tiny_number)
  have "validate_simulation default_simulation = None" by (simp add: validate_simulation_def default_simulation_def)
  then show ?thesis
    using assms e(3,4)
    by (simp add: e(1) simulate_route_execution_def Let_def execute_leg_def sample_leg_def leg_of_def candidate_def sample_quote_def
        default_simulation_def rejected_by_def d_clamp_def d_mul_def d_div_def d_sub_def round_double_0 d_le_def)
qed

lemma sample_fill:
  assumes "rc_venue child = ''a''" "rc_requested_quantity child = Number 5" "rc_filled_quantity child = Number 5"
    "rc_remaining_quantity child = Number 0" "rc_price child = Number 100" "rc_fee child = Number 0" "rc_status child = ChildFilled"
  shows "\<exists>s'. run_children 1 clock 0 [child] (Number 0) (oms_calls sample_parent new_oms) = (Inr (Number 5), s')"
proof -
  obtain e where e: "tiny = Number e" "oms_epsilon = Number e" "0 < e" "e \<le> 1 / 2" by (rule tiny_number)
  have above: "\<not> d_less (d_add (Number 10) oms_epsilon) (Number 5)" "\<not> d_less (d_add (Number 5) oms_epsilon) (Number 5)"
  proof -
    have "d_le (round_double False 5) (round_double False (10 + e))" "d_le (round_double False 5) (round_double False (5 + e))"
      using e(3) by (intro round_double_mono; simp)+
    then show "\<not> d_less (d_add (Number 10) oms_epsilon) (Number 5)" "\<not> d_less (d_add (Number 5) oms_epsilon) (Number 5)"
      by (simp_all add: e(2) d_le_def)
  qed
  have positive: "positive (Number 100)" "positive (Number 5)" by (simp_all add: positive_def)
  have eps: "d_less tiny (Number 5)" "\<not> d_less tiny (Number 0)" "d_less oms_epsilon (Number 5)" "\<not> d_less oms_epsilon (Number 0)"
    "\<not> d_le (Number 10) oms_epsilon" "\<not> d_le (Number 5) oms_epsilon" "d_le (Number 0) oms_epsilon"
    using e(3,4) by (simp_all add: e(1) d_le_def) (simp_all add: e(2) d_le_def)
  have sums: "d_add (Number 0) (Number 5) = Number 5" "d_sub (Number 5) (Number 5) = Number 0" "d_sub (Number 10) (Number 5) = Number 5"
    "d_sub (Number 10) (Number 0) = Number 10" "d_add (Number 0) (Number 0) = Number 0"
    by (simp_all add: d_sub_def round_double_0)
  show ?thesis
    by (simp add: assms run_child_def sample_parent_def oms_calls_def new_oms_def create_parent_def create_child_def
        record_fill_def mark_child_working_def evaluate(1) [THEN validate_positive_None [THEN iffD2]]
        positive [THEN validate_positive_None [THEN iffD2]] hm_emplace_def notify_mutation_def terminal_status_def
        publish_child_def store_child_def refresh_parent_def d_min_def d_max_def Let_def eps sums above)
qed


section \<open>Rejections and cancellations\<close>

text \<open>The first child of a parent ends it when it is rejected; the next child of the same slice is then
  an exception, which fails the job.\<close>

lemma rejected_child_fails_slice:
  assumes "rc_venue c = ''a''" "rc_requested_quantity c = Number 5" "rc_price c = Number 100" "rc_status c = ChildRejected"
  shows "fst (run_children 1 clock 0 [c, d] (Number 0) (oms_calls sample_parent new_oms)) =
    Inl (LogicError ''cannot create child for terminal parent'')"
proof -
  obtain e where e: "tiny = Number e" "oms_epsilon = Number e" "0 < e" "e \<le> 1 / 2" by (rule tiny_number)
  have above: "\<not> d_less (d_add (Number 10) oms_epsilon) (Number 5)"
  proof -
    have "d_le (round_double False 5) (round_double False (10 + e))"
      using e(3) by (intro round_double_mono) simp
    then show ?thesis by (simp add: e(2) d_le_def)
  qed
  have positive: "positive (Number 100)" "positive (Number 5)" by (simp_all add: positive_def)
  have eps: "\<not> d_less oms_epsilon (Number 0)" "\<not> d_le (Number 10) oms_epsilon"
    using e(3,4) by (simp_all add: e(2) d_le_def)
  have sums: "d_sub (Number 10) (Number 0) = Number 10" "d_add (Number 0) (Number 0) = Number 0"
    by (simp_all add: d_sub_def round_double_0)
  show ?thesis
    by (simp add: assms run_child_def sample_parent_def oms_calls_def new_oms_def create_parent_def create_child_def
        reject_child_def end_child_def evaluate(1) [THEN validate_positive_None [THEN iffD2]]
        positive [THEN validate_positive_None [THEN iffD2]] hm_emplace_def notify_mutation_def terminal_status_def
        publish_child_def store_child_def refresh_parent_def d_min_def d_max_def Let_def eps sums above round_double_0)
qed

text \<open>A job that sees its cancellation at the top of the loop returns without the state callback: what
  was published last, and with it the stored state, is still RUNNING.\<close>

lemma cancelled_job_unpublished:
  assumes "build_execution_schedule (schedule_of request) = Inr (sl # sls)" and "ao_current_slice state = 0"
    and "se_cancel_before (envs 0)"
  shows "\<exists>state' s'. run_job draws callback envs je request (state, published, s) = Some (state', published, s') \<and>
    ao_status state' = AlgoCancelled"
proof -
  have "0 = min (ao_current_slice (fst (state, published, s))) (length (sl # sls))" using assms(2) by simp
  from run_job_valid [OF assms(1) this, of draws callback envs je] assms(3) show ?thesis
    by (simp add: run_slice_def Let_def)
qed

text \<open>A stored job that is RUNNING and has a request starts again.\<close>

lemma running_job_restarts:
  "ao_status (pa_state p) = AlgoRunning \<Longrightarrow> pa_has_request p \<Longrightarrow> jb_started (restored_job now p)"
  by (simp add: restored_job_def Let_def)

end
