(* ===== verification/Venue_Health.thy ===== *)
theory Venue_Health
  imports Double_Arith Hash_Map "HOL-Library.Char_ord" "HOL-Library.List_Lexorder"
begin

text \<open>
  The health of the venues (include/minimatch/venue\_health.hpp, src/venue\_health.cpp): what the feed
  of a venue has reported, and from it the status that says whether orders may be routed to it.

  The methods run under one mutex, each is one step. An exception is the left side of a sum.
\<close>

datatype venue_health_status =
  HealthUnknown | Healthy | Delayed | Stale | Disconnected

record venue_health_config =
  vc_delayed_after_ns :: u64
  vc_stale_after_ns :: u64
  vc_disconnected_after_ns :: u64
  vc_rate_window_ns :: u64

record venue_health_snapshot =
  hs_venue :: string
  hs_status :: venue_health_status
  hs_synchronized :: bool
  hs_last_message_ns :: u64
  hs_quote_age_ns :: u64
  hs_message_count :: u64
  hs_snapshot_count :: u64
  hs_update_count :: u64
  hs_reconnect_count :: u64
  hs_rejected_count :: u64
  hs_sequence_gap_count :: u64
  hs_checksum_error_count :: u64
  hs_messages_per_second :: double

record venue_state =
  vs_synchronized :: bool
  vs_first_window_message_ns :: u64
  vs_window_message_count :: u64
  vs_last_message_ns :: u64
  vs_message_count :: u64
  vs_snapshot_count :: u64
  vs_update_count :: u64
  vs_reconnect_count :: u64
  vs_rejected_count :: u64
  vs_sequence_gap_count :: u64
  vs_checksum_error_count :: u64

record venue_monitor =
  vm_config :: venue_health_config
  vm_states :: "(string \<times> venue_state) list"

fun health_status_string :: "venue_health_status \<Rightarrow> string" where
  "health_status_string HealthUnknown = ''unknown''"
| "health_status_string Healthy = ''healthy''"
| "health_status_string Delayed = ''delayed''"
| "health_status_string Stale = ''stale''"
| "health_status_string Disconnected = ''disconnected''"

definition default_health_config :: venue_health_config where
  "default_health_config =
     \<lparr>vc_delayed_after_ns = 500000000, vc_stale_after_ns = 2000000000,
      vc_disconnected_after_ns = 10000000000, vc_rate_window_ns = 1000000000\<rparr>"

definition validate_config :: "venue_health_config \<Rightarrow> string option" where
  "validate_config config =
     (if vc_delayed_after_ns config = 0 \<or>
         vc_stale_after_ns config < vc_delayed_after_ns config \<or>
         vc_disconnected_after_ns config < vc_stale_after_ns config \<or>
         vc_rate_window_ns config = 0
      then Some ''invalid venue health configuration'' else None)"

definition new_monitor :: "venue_health_config \<Rightarrow> string + venue_monitor" where
  "new_monitor config =
     (case validate_config config of
        Some e \<Rightarrow> Inl e
      | None \<Rightarrow> Inr \<lparr>vm_config = config, vm_states = []\<rparr>)"

definition empty_venue_state :: venue_state where
  "empty_venue_state =
     \<lparr>vs_synchronized = False, vs_first_window_message_ns = 0, vs_window_message_count = 0,
      vs_last_message_ns = 0, vs_message_count = 0, vs_snapshot_count = 0, vs_update_count = 0,
      vs_reconnect_count = 0, vs_rejected_count = 0, vs_sequence_gap_count = 0,
      vs_checksum_error_count = 0\<rparr>"

text \<open>\<open>states\_[venue]\<close>, changed by \<open>f\<close>.\<close>

definition venue_state_at :: "string \<Rightarrow> venue_monitor \<Rightarrow> venue_state" where
  "venue_state_at venue m =
     (case map_of (vm_states m) venue of None \<Rightarrow> empty_venue_state | Some state \<Rightarrow> state)"

definition change_venue :: "string \<Rightarrow> (venue_state \<Rightarrow> venue_state) \<Rightarrow> venue_monitor \<Rightarrow> venue_monitor" where
  "change_venue venue f m =
     m\<lparr>vm_states := hm_update venue (f (venue_state_at venue m)) (vm_states m)\<rparr>"

definition count_message :: "u64 \<Rightarrow> u64 \<Rightarrow> bool \<Rightarrow> venue_state \<Rightarrow> venue_state" where
  "count_message rate_window_ns timestamp_ns snapshot state0 =
     (let restart = vs_first_window_message_ns state0 = 0 \<or>
            timestamp_ns < vs_first_window_message_ns state0 \<or>
            timestamp_ns - vs_first_window_message_ns state0 > rate_window_ns;
          state =
            (if restart
             then state0\<lparr>vs_first_window_message_ns := timestamp_ns, vs_window_message_count := 0\<rparr>
             else state0);
          counted = state\<lparr>vs_window_message_count := vs_window_message_count state + 1,
            vs_message_count := vs_message_count state + 1,
            vs_last_message_ns := max (vs_last_message_ns state) timestamp_ns\<rparr>
      in if snapshot then counted\<lparr>vs_snapshot_count := vs_snapshot_count counted + 1\<rparr>
         else counted\<lparr>vs_update_count := vs_update_count counted + 1\<rparr>)"

definition record_message :: "string \<Rightarrow> u64 \<Rightarrow> bool \<Rightarrow> venue_monitor \<Rightarrow> (string + unit) \<times> venue_monitor" where
  "record_message venue timestamp_ns snapshot m =
     (if venue = [] \<or> timestamp_ns = 0 then (Inl ''venue and timestamp are required'', m)
      else (Inr (), change_venue venue
        (count_message (vc_rate_window_ns (vm_config m)) timestamp_ns snapshot) m))"

definition record_snapshot :: "string \<Rightarrow> u64 \<Rightarrow> venue_monitor \<Rightarrow> (string + unit) \<times> venue_monitor" where
  "record_snapshot venue timestamp_ns = record_message venue timestamp_ns True"

definition record_update :: "string \<Rightarrow> u64 \<Rightarrow> venue_monitor \<Rightarrow> (string + unit) \<times> venue_monitor" where
  "record_update venue timestamp_ns = record_message venue timestamp_ns False"

definition record_reconnect :: "string \<Rightarrow> venue_monitor \<Rightarrow> venue_monitor" where
  "record_reconnect venue =
     change_venue venue (\<lambda>state. state\<lparr>vs_reconnect_count := vs_reconnect_count state + 1\<rparr>)"

definition record_rejection :: "string \<Rightarrow> venue_monitor \<Rightarrow> venue_monitor" where
  "record_rejection venue =
     change_venue venue (\<lambda>state. state\<lparr>vs_rejected_count := vs_rejected_count state + 1\<rparr>)"

definition record_sequence_gap :: "string \<Rightarrow> venue_monitor \<Rightarrow> venue_monitor" where
  "record_sequence_gap venue =
     change_venue venue (\<lambda>state. state\<lparr>vs_sequence_gap_count := vs_sequence_gap_count state + 1\<rparr>)"

definition record_checksum_error :: "string \<Rightarrow> venue_monitor \<Rightarrow> venue_monitor" where
  "record_checksum_error venue =
     change_venue venue (\<lambda>state. state\<lparr>vs_checksum_error_count := vs_checksum_error_count state + 1\<rparr>)"

definition set_synchronized :: "string \<Rightarrow> bool \<Rightarrow> venue_monitor \<Rightarrow> venue_monitor" where
  "set_synchronized venue synchronized =
     change_venue venue (\<lambda>state. state\<lparr>vs_synchronized := synchronized\<rparr>)"

definition quote_age :: "venue_state \<Rightarrow> u64 \<Rightarrow> u64" where
  "quote_age state now_ns =
     (if vs_last_message_ns state = 0 \<or> now_ns < vs_last_message_ns state then 0
      else now_ns - vs_last_message_ns state)"

definition health_status :: "venue_health_config \<Rightarrow> venue_state \<Rightarrow> u64 \<Rightarrow> venue_health_status" where
  "health_status config state age =
     (if vs_last_message_ns state = 0 then HealthUnknown
      else if \<not> vs_synchronized state \<or> age \<ge> vc_disconnected_after_ns config then Disconnected
      else if age \<ge> vc_stale_after_ns config then Stale
      else if age \<ge> vc_delayed_after_ns config then Delayed
      else Healthy)"

definition message_rate :: "venue_state \<Rightarrow> u64 \<Rightarrow> double" where
  "message_rate state now_ns =
     (if vs_first_window_message_ns state \<noteq> 0 \<and> now_ns > vs_first_window_message_ns state then
        let elapsed_seconds = d_div (d_of_int (uint (now_ns - vs_first_window_message_ns state))) (Number 1000000000)
        in if d_less (Number 0) elapsed_seconds
           then d_div (d_of_int (uint (vs_window_message_count state))) elapsed_seconds else Number 0
      else Number 0)"

definition build_snapshot :: "venue_health_config \<Rightarrow> string \<Rightarrow> venue_state \<Rightarrow> u64 \<Rightarrow> venue_health_snapshot" where
  "build_snapshot config venue state now_ns =
     \<lparr>hs_venue = venue, hs_status = health_status config state (quote_age state now_ns),
      hs_synchronized = vs_synchronized state, hs_last_message_ns = vs_last_message_ns state,
      hs_quote_age_ns = quote_age state now_ns, hs_message_count = vs_message_count state,
      hs_snapshot_count = vs_snapshot_count state, hs_update_count = vs_update_count state,
      hs_reconnect_count = vs_reconnect_count state, hs_rejected_count = vs_rejected_count state,
      hs_sequence_gap_count = vs_sequence_gap_count state,
      hs_checksum_error_count = vs_checksum_error_count state,
      hs_messages_per_second = message_rate state now_ns\<rparr>"

definition unknown_venue :: "string \<Rightarrow> venue_health_snapshot" where
  "unknown_venue venue =
     \<lparr>hs_venue = venue, hs_status = HealthUnknown, hs_synchronized = False, hs_last_message_ns = 0,
      hs_quote_age_ns = 0, hs_message_count = 0, hs_snapshot_count = 0, hs_update_count = 0,
      hs_reconnect_count = 0, hs_rejected_count = 0, hs_sequence_gap_count = 0,
      hs_checksum_error_count = 0, hs_messages_per_second = Number 0\<rparr>"

definition venue_snapshot :: "string \<Rightarrow> u64 \<Rightarrow> venue_monitor \<Rightarrow> venue_health_snapshot" where
  "venue_snapshot venue now_ns m =
     (case map_of (vm_states m) venue of
        None \<Rightarrow> unknown_venue venue
      | Some state \<Rightarrow> build_snapshot (vm_config m) venue state now_ns)"

definition venue_snapshots :: "u64 \<Rightarrow> venue_monitor \<Rightarrow> venue_health_snapshot list" where
  "venue_snapshots now_ns m =
     sort_key hs_venue (map (\<lambda>(venue, state). build_snapshot (vm_config m) venue state now_ns) (vm_states m))"

definition routable :: "string \<Rightarrow> u64 \<Rightarrow> venue_monitor \<Rightarrow> bool" where
  "routable venue now_ns m =
     (let current = venue_snapshot venue now_ns m
      in hs_synchronized current \<and> (hs_status current = Healthy \<or> hs_status current = Delayed))"

section \<open>Reports\<close>

text \<open>What a feed can report of a venue, and the monitor after a sequence of reports.\<close>

datatype venue_report =
    MessageReport string u64 bool
  | ReconnectReport string
  | RejectionReport string
  | GapReport string
  | ChecksumReport string
  | SyncReport string bool

fun apply_report :: "venue_report \<Rightarrow> venue_monitor \<Rightarrow> venue_monitor" where
  "apply_report (MessageReport venue ts snapshot) m = snd (record_message venue ts snapshot m)"
| "apply_report (ReconnectReport venue) m = record_reconnect venue m"
| "apply_report (RejectionReport venue) m = record_rejection venue m"
| "apply_report (GapReport venue) m = record_sequence_gap venue m"
| "apply_report (ChecksumReport venue) m = record_checksum_error venue m"
| "apply_report (SyncReport venue on) m = set_synchronized venue on m"

definition apply_reports :: "venue_report list \<Rightarrow> venue_monitor \<Rightarrow> venue_monitor" where
  "apply_reports rs m = fold apply_report rs m"

text \<open>What the reports say of one venue, without the monitor.\<close>

definition message_times :: "string \<Rightarrow> venue_report list \<Rightarrow> u64 list" where
  "message_times venue rs = concat (map (\<lambda>r. case r of
     MessageReport v ts snapshot \<Rightarrow> if v = venue \<and> v \<noteq> [] \<and> ts \<noteq> 0 then [ts] else [] | _ \<Rightarrow> []) rs)"

definition last_sync :: "string \<Rightarrow> venue_report list \<Rightarrow> bool" where
  "last_sync venue rs = fold (\<lambda>r on. case r of SyncReport v b \<Rightarrow> if v = venue then b else on | _ \<Rightarrow> on) rs False"

lemma state_change: "venue_state_at v (change_venue w f m) = (if v = w then f (venue_state_at v m) else venue_state_at v m)"
  by (simp add: venue_state_at_def change_venue_def)

lemma known_change: "map_of (vm_states (change_venue w f m)) v \<noteq> None \<longleftrightarrow> v = w \<or> map_of (vm_states m) v \<noteq> None"
  by (simp add: change_venue_def)

lemma config_change: "vm_config (change_venue w f m) = vm_config m"
  by (simp add: change_venue_def)

lemma count_message_simps:
  "vs_synchronized (count_message w ts b st) = vs_synchronized st"
  "vs_last_message_ns (count_message w ts b st) = max (vs_last_message_ns st) ts"
  "vs_message_count (count_message w ts b st) = vs_message_count st + 1"
  by (simp_all add: count_message_def Let_def)

lemma report_state:
  "vs_synchronized (venue_state_at v (apply_report r m)) =
     (case r of SyncReport w b \<Rightarrow> if w = v then b else vs_synchronized (venue_state_at v m)
      | _ \<Rightarrow> vs_synchronized (venue_state_at v m))"
  "vs_last_message_ns (venue_state_at v (apply_report r m)) =
     fold max (message_times v [r]) (vs_last_message_ns (venue_state_at v m))"
  "vs_message_count (venue_state_at v (apply_report r m)) =
     vs_message_count (venue_state_at v m) + of_nat (length (message_times v [r]))"
  by (cases r; auto simp: record_message_def record_reconnect_def record_rejection_def record_sequence_gap_def
      record_checksum_error_def set_synchronized_def state_change count_message_simps message_times_def max.commute)+

lemma message_times_Cons: "message_times v (r # rs) = message_times v [r] @ message_times v rs"
  by (simp add: message_times_def)

lemma reports_state:
  "vs_last_message_ns (venue_state_at v (apply_reports rs m)) =
     fold max (message_times v rs) (vs_last_message_ns (venue_state_at v m)) \<and>
   vs_message_count (venue_state_at v (apply_reports rs m)) =
     vs_message_count (venue_state_at v m) + of_nat (length (message_times v rs))"
proof (induction rs arbitrary: m)
  case (Cons r rs)
  have "apply_reports (r # rs) m = apply_reports rs (apply_report r m)" by (simp add: apply_reports_def)
  then show ?case by (simp add: Cons report_state message_times_Cons [of v r rs])
qed (simp add: apply_reports_def message_times_def)

lemma reports_sync:
  "vs_synchronized (venue_state_at v (apply_reports rs m)) =
     fold (\<lambda>r on. case r of SyncReport w b \<Rightarrow> if w = v then b else on | _ \<Rightarrow> on) rs (vs_synchronized (venue_state_at v m))"
proof (induction rs arbitrary: m)
  case (Cons r rs)
  have "apply_reports (r # rs) m = apply_reports rs (apply_report r m)" by (simp add: apply_reports_def)
  then show ?case by (simp add: Cons report_state split: venue_report.split)
qed (simp add: apply_reports_def)

lemma reports_config: "vm_config (apply_reports rs m) = vm_config m"
proof (induction rs arbitrary: m)
  case (Cons r rs)
  have "vm_config (apply_report r m) = vm_config m"
    by (cases r) (auto simp: record_message_def record_reconnect_def record_rejection_def record_sequence_gap_def
        record_checksum_error_def set_synchronized_def config_change)
  then show ?case using Cons by (simp add: apply_reports_def)
qed (simp add: apply_reports_def)

lemma routable_state:
  "routable v now m \<longleftrightarrow> vs_synchronized (venue_state_at v m) \<and>
     health_status (vm_config m) (venue_state_at v m) (quote_age (venue_state_at v m) now) \<in> {Healthy, Delayed}"
  by (auto simp: routable_def venue_snapshot_def venue_state_at_def unknown_venue_def build_snapshot_def
      empty_venue_state_def Let_def split: option.split)

text \<open>C19: Whether a venue is routable depends on its history in two points only: its feed was reported
  synchronized last, and the newest of its messages is less than \<open>stale\_after\_ns\<close> old (or from the
  future). Reconnections, gaps, rejections and checksum errors are counted and change nothing.\<close>

theorem routable_history:
  assumes "new_monitor config = Inr m"
  shows "routable venue now_ns (apply_reports rs m) \<longleftrightarrow>
    last_sync venue rs \<and> message_times venue rs \<noteq> [] \<and>
    (now_ns < Max (set (message_times venue rs)) \<or>
     now_ns - Max (set (message_times venue rs)) < vc_stale_after_ns config)"
proof -
  define st where "st = venue_state_at venue (apply_reports rs m)"
  define last where "last = vs_last_message_ns st"
  define times where "times = message_times venue rs"
  have m: "vm_config m = config" "vm_states m = []" "validate_config config = None"
    using assms by (auto simp: new_monitor_def split: option.splits)
  have empty: "venue_state_at venue m = empty_venue_state" by (simp add: venue_state_at_def m(2))
  have sync: "vs_synchronized st = last_sync venue rs"
    by (simp add: st_def reports_sync empty last_sync_def empty_venue_state_def)
  have last: "last = fold max times 0"
    by (simp add: last_def st_def reports_state empty times_def empty_venue_state_def)
  have positive: "ts \<noteq> 0" if "ts \<in> set times" for ts
    using that by (auto simp: times_def message_times_def split: venue_report.splits if_splits)
  have newest: "last = Max (set times) \<and> last \<noteq> 0" if "times \<noteq> []"
  proof -
    obtain x xs where x: "times = x # xs" using \<open>times \<noteq> []\<close> by (cases times) auto
    then have "last = Max (set times)" using last Max.set_eq_fold [of x xs] by (simp add: max_def)
    moreover have "Max (set times) \<in> set times" using that by (intro Max_in) simp_all
    ultimately show ?thesis using positive by metis
  qed
  have silent: "last = 0" if "times = []" using that last by simp
  have limits: "0 < vc_stale_after_ns config" "vc_stale_after_ns config \<le> vc_disconnected_after_ns config"
    using m(3) by (auto simp: validate_config_def word_gt_0 split: if_splits)
  have fresh: "health_status config st age \<in> {Healthy, Delayed} \<longleftrightarrow>
      last \<noteq> 0 \<and> vs_synchronized st \<and> age < vc_stale_after_ns config" for age
    using limits(2) by (auto simp: health_status_def last_def)
  have "quote_age st now_ns = (if last = 0 \<or> now_ns < last then 0 else now_ns - last)"
    by (simp add: quote_age_def last_def)
  then show ?thesis
    unfolding routable_state reports_config m(1) st_def [symmetric] fresh sync times_def [symmetric]
    using newest silent limits(1) by (cases "times = []") auto
qed

lemma routable_history_witness:
  "routable ''kraken'' 100 (apply_reports [SyncReport ''kraken'' True, MessageReport ''kraken'' 90 True,
     GapReport ''kraken''] \<lparr>vm_config = default_health_config, vm_states = []\<rparr>)"
proof -
  have "new_monitor default_health_config = Inr \<lparr>vm_config = default_health_config, vm_states = []\<rparr>"
    by (simp add: new_monitor_def validate_config_def default_health_config_def)
  from routable_history [OF this, of "''kraken''" 100 "[SyncReport ''kraken'' True, MessageReport ''kraken'' 90 True, GapReport ''kraken'']"]
  show ?thesis by (simp add: last_sync_def message_times_def default_health_config_def)
qed

end
