(* ===== verification/Latency_Stats.thy ===== *)
theory Latency_Stats
  imports Double_Arith Hash_Map "HOL-Library.Char_ord" "HOL-Library.List_Lexorder" "HOL-Library.Multiset"
begin

text \<open>
  The latency statistics (include/minimatch/latency\_stats.hpp, src/latency\_stats.cpp): named series of
  samples, of which the latest are kept in a ring, with their percentiles.

  The methods run under one mutex, each is one step; the clock of a \<open>ScopedLatencyRecorder\<close> is read by
  its caller. An exception is the left side of a sum; a \<open>std::size\_t\<close> is a natural number.
\<close>

record latency_snapshot =
  lt_name :: string
  lt_count :: u64
  lt_minimum_ns :: u64
  lt_maximum_ns :: u64
  lt_average_ns :: double
  lt_p50_ns :: u64
  lt_p95_ns :: u64
  lt_p99_ns :: u64

record latency_series =
  sr_count :: u64
  sr_total_ns :: u64
  sr_minimum_ns :: u64
  sr_maximum_ns :: u64
  sr_next_index :: nat
  sr_samples :: "u64 list"

record latency_stats =
  ls_maximum_samples :: nat
  ls_series :: "(string \<times> latency_series) list"

text \<open>The index is the product of the quantile and the last index, cut off.\<close>

definition percentile :: "u64 list \<Rightarrow> double \<Rightarrow> u64" where
  "percentile ordered quantile =
     (if ordered = [] then 0
      else
        let raw_index = d_mul quantile (d_of_int (int (length ordered) - 1));
            index = nat \<lfloor>value_of raw_index\<rfloor>
        in ordered ! index)"

definition new_latency_stats :: "nat \<Rightarrow> string + latency_stats" where
  "new_latency_stats maximum_samples =
     (if maximum_samples = 0 then Inl ''maximum latency samples must be positive''
      else Inr \<lparr>ls_maximum_samples = maximum_samples, ls_series = []\<rparr>)"

definition empty_series :: latency_series where
  "empty_series =
     \<lparr>sr_count = 0, sr_total_ns = 0, sr_minimum_ns = 0, sr_maximum_ns = 0, sr_next_index = 0, sr_samples = []\<rparr>"

definition add_sample :: "nat \<Rightarrow> u64 \<Rightarrow> latency_series \<Rightarrow> latency_series" where
  "add_sample maximum_samples latency_ns s0 =
     (let s = s0\<lparr>sr_count := sr_count s0 + 1, sr_total_ns := sr_total_ns s0 + latency_ns\<rparr>;
          s1 = (if sr_count s = 1 \<or> latency_ns < sr_minimum_ns s then s\<lparr>sr_minimum_ns := latency_ns\<rparr> else s);
          s2 = s1\<lparr>sr_maximum_ns := max (sr_maximum_ns s1) latency_ns\<rparr>
      in if length (sr_samples s2) < maximum_samples then s2\<lparr>sr_samples := sr_samples s2 @ [latency_ns]\<rparr>
         else s2\<lparr>sr_samples := (sr_samples s2)[sr_next_index s2 := latency_ns],
                sr_next_index := (sr_next_index s2 + 1) mod maximum_samples\<rparr>)"

definition series_at :: "string \<Rightarrow> latency_stats \<Rightarrow> latency_series" where
  "series_at name st = (case map_of (ls_series st) name of None \<Rightarrow> empty_series | Some s \<Rightarrow> s)"

definition record_latency :: "string \<Rightarrow> u64 \<Rightarrow> latency_stats \<Rightarrow> (string + unit) \<times> latency_stats" where
  "record_latency name latency_ns st =
     (if name = [] then (Inl ''latency series name cannot be empty'', st)
      else (Inr (), st\<lparr>ls_series :=
        hm_update name (add_sample (ls_maximum_samples st) latency_ns (series_at name st)) (ls_series st)\<rparr>))"

definition half_quantile :: double where
  "half_quantile = round_double False (1 / 2)"

definition p95_quantile :: double where
  "p95_quantile = round_double False (95 / 100)"

definition p99_quantile :: double where
  "p99_quantile = round_double False (99 / 100)"

definition build_latency_snapshot :: "string \<Rightarrow> latency_series \<Rightarrow> latency_snapshot" where
  "build_latency_snapshot name s =
     (let ordered = sort (sr_samples s)
      in \<lparr>lt_name = name, lt_count = sr_count s, lt_minimum_ns = sr_minimum_ns s,
          lt_maximum_ns = sr_maximum_ns s,
          lt_average_ns = (if sr_count s = 0 then Number 0
            else d_div (d_of_int (uint (sr_total_ns s))) (d_of_int (uint (sr_count s)))),
          lt_p50_ns = percentile ordered half_quantile, lt_p95_ns = percentile ordered p95_quantile,
          lt_p99_ns = percentile ordered p99_quantile\<rparr>)"

definition latency_snapshot_of :: "string \<Rightarrow> latency_stats \<Rightarrow> latency_snapshot" where
  "latency_snapshot_of name st =
     (case map_of (ls_series st) name of
        None \<Rightarrow> \<lparr>lt_name = name, lt_count = 0, lt_minimum_ns = 0, lt_maximum_ns = 0,
          lt_average_ns = Number 0, lt_p50_ns = 0, lt_p95_ns = 0, lt_p99_ns = 0\<rparr>
      | Some s \<Rightarrow> build_latency_snapshot name s)"

definition latency_snapshots :: "latency_stats \<Rightarrow> latency_snapshot list" where
  "latency_snapshots st =
     sort_key lt_name (map (\<lambda>(name, s). build_latency_snapshot name s) (ls_series st))"

definition reset_latency :: "string \<Rightarrow> latency_stats \<Rightarrow> latency_stats" where
  "reset_latency name st = st\<lparr>ls_series := filter (\<lambda>(n, s). n \<noteq> name) (ls_series st)\<rparr>"

definition reset_all_latencies :: "latency_stats \<Rightarrow> latency_stats" where
  "reset_all_latencies st = st\<lparr>ls_series := []\<rparr>"

text \<open>The end of a scoped recorder that began at \<open>start\_ns\<close>.\<close>

definition end_scope :: "string \<Rightarrow> u64 \<Rightarrow> u64 \<Rightarrow> latency_stats \<Rightarrow> (string + unit) \<times> latency_stats" where
  "end_scope name start_ns end_ns = record_latency name (if end_ns \<ge> start_ns then end_ns - start_ns else 0)"

section \<open>The ring of samples\<close>

definition add_samples :: "nat \<Rightarrow> u64 list \<Rightarrow> latency_series" where
  "add_samples n xs = fold (add_sample n) xs empty_series"

text \<open>What the ring holds after the samples \<open>xs\<close>, in the order they were recorded.\<close>

definition latest :: "nat \<Rightarrow> 'a list \<Rightarrow> 'a list" where
  "latest n xs = drop (length xs - n) xs"

lemma add_samples_snoc: "add_samples n (xs @ [x]) = add_sample n x (add_samples n xs)"
  by (simp add: add_samples_def)

lemma add_sample_simps:
  "sr_samples (add_sample n x s) =
     (if length (sr_samples s) < n then sr_samples s @ [x] else (sr_samples s)[sr_next_index s := x])"
  "sr_next_index (add_sample n x s) =
     (if length (sr_samples s) < n then sr_next_index s else (sr_next_index s + 1) mod n)"
  "sr_count (add_sample n x s) = sr_count s + 1" "sr_total_ns (add_sample n x s) = sr_total_ns s + x"
  "sr_maximum_ns (add_sample n x s) = max (sr_maximum_ns s) x"
  "sr_minimum_ns (add_sample n x s) = (if sr_count s + 1 = 1 \<or> x < sr_minimum_ns s then x else sr_minimum_ns s)"
  by (simp_all add: add_sample_def Let_def)

lemma mset_rotated: "mset (rotate k xs) = mset xs"
proof -
  have "mset (rotate k xs) = mset (take (k mod length xs) xs) + mset (drop (k mod length xs) xs)"
    by (simp only: rotate_drop_take mset_append add.commute)
  also have "\<dots> = mset xs" by (simp only: mset_append [symmetric] append_take_drop_id)
  finally show ?thesis .
qed

lemma ring_of_samples:
  assumes "0 < n"
  shows "length (sr_samples (add_samples n xs)) = min n (length xs) \<and>
    sr_next_index (add_samples n xs) < n \<and>
    (length xs \<le> n \<longrightarrow> sr_next_index (add_samples n xs) = 0) \<and>
    rotate (sr_next_index (add_samples n xs)) (sr_samples (add_samples n xs)) = latest n xs"
proof (induction xs rule: rev_induct)
  case Nil
  then show ?case using assms by (simp add: add_samples_def empty_series_def latest_def)
next
  case (snoc x xs)
  define s where "s = add_samples n xs"
  define k where "k = sr_next_index s"
  note IH = snoc.IH [folded s_def]
  show ?case
  proof (cases "length xs < n")
    case True
    then have next0: "sr_next_index s = 0" using IH by simp
    have "sr_samples s = xs" using IH True unfolding next0 by (simp add: latest_def)
    then show ?thesis using True assms next0 by (simp add: add_samples_snoc s_def [symmetric] add_sample_simps latest_def)
  next
    case False
    then have k: "length (sr_samples s) = n" "k < n" "rotate k (sr_samples s) = latest n xs"
      using IH by (simp_all add: k_def)
    define R where "R = sr_samples s"
    have R: "length R = n" "drop k R @ take k R = latest n xs"
      using k by (simp_all add: R_def rotate_drop_take)
    have "rotate ((k + 1) mod n) (R[k := x]) = rotate (k + 1) (R[k := x])"
      using rotate_conv_mod [of "k + 1" "R[k := x]"] by (simp only: length_list_update R(1))
    also have "\<dots> = rotate1 (rotate k (R[k := x]))" by simp
    also have "\<dots> = rotate1 (drop k (R[k := x]) @ take k (R[k := x]))"
      using rotate_drop_take [of k "R[k := x]"] R(1) k(2) by simp
    also have "\<dots> = rotate1 (x # drop (Suc k) R @ take k R)"
      using R(1) k(2) by (simp add: upd_conv_take_nth_drop)
    also have "\<dots> = tl (drop k R @ take k R) @ [x]"
      using R(1) k(2) by (simp add: Cons_nth_drop_Suc [symmetric])
    also have "\<dots> = latest n (xs @ [x])"
      using False assms unfolding R(2) by (simp add: latest_def Suc_diff_le drop_Suc tl_drop)
    finally have "rotate ((k + 1) mod n) (R[k := x]) = latest n (xs @ [x])" .
    then show ?thesis
      using False k assms by (simp add: add_samples_snoc s_def [symmetric] add_sample_simps R_def k_def)
  qed
qed

section \<open>The percentiles\<close>

definition percentile_index :: "double \<Rightarrow> nat \<Rightarrow> nat" where
  "percentile_index quantile k = nat \<lfloor>value_of (d_mul quantile (d_of_int (int k - 1)))\<rfloor>"

lemma percentile_nth: "xs \<noteq> [] \<Longrightarrow> percentile xs q = xs ! percentile_index q (length xs)"
  by (simp add: percentile_def percentile_index_def Let_def)

lemma percentile_index_bounds:
  assumes "nonneg p" "d_le p q" "d_le q (Number 1)" and "0 < k" "k \<le> 2 ^ 53"
  shows "percentile_index p k \<le> percentile_index q k \<and> percentile_index q k < k"
proof (cases "k = 1")
  case True
  have "is_finite p" "is_finite q"
    using finite_between [OF d_le_trans [OF assms(1,2)] assms(3)] finite_between [OF assms(1,2)] by simp_all
  then have "value_of (d_mul p (Number 0)) = 0" "value_of (d_mul q (Number 0)) = 0"
    by (cases p; cases q; simp add: d_mul_def round_double_0)+
  then show ?thesis using True by (simp add: percentile_index_def d_of_int_def round_double_0)
next
  case False
  define z where "z = d_of_int (int k - 1)"
  have k: "0 < int k - 1" "int k - 1 < 2 ^ 53" using False assms(4,5) by (simp_all add: of_nat_diff)
  then have z: "z = Number (of_int (int k - 1))" by (simp add: z_def d_of_int_exact)
  then have z': "is_finite z" "d_less (Number 0) z" using k by simp_all
  have pq: "d_le (d_mul p z) (d_mul q z)" "nonneg (d_mul p z)"
    using d_mul_mono [OF assms(1,2) z'] d_mul_nonneg [OF assms(1) z'] by simp_all
  have q1: "d_le (d_mul q z) z"
    using d_mul_at_most [of "int k - 1" q] k assms(3) by (simp add: z_def d_mul_commute)
  have fin: "is_finite (d_mul q z)" "is_finite (d_mul p z)"
    using finite_between [OF d_le_trans [OF pq(2,1)] q1 z'(1)] finite_between [OF pq(2,1)] by simp_all
  have "value_of (d_mul p z) \<le> value_of (d_mul q z)" "value_of (d_mul q z) \<le> of_int (int k - 1)"
    using pq(1) q1 fin z by (simp_all add: d_le_finite)
  note bounds = floor_mono [OF this(1)] floor_mono [OF this(2)]
  then show ?thesis using k unfolding percentile_index_def z_def [symmetric] floor_of_int by (auto simp: nat_less_iff)
qed

lemma quantiles: "nonneg half_quantile" "d_le half_quantile p95_quantile" "d_le p95_quantile p99_quantile"
    "d_le p99_quantile (Number 1)"
proof -
  have ends: "round_double False 0 = Number 0" "round_double False 1 = Number 1" by (simp_all add: round_double_0)
  show "nonneg half_quantile"
    unfolding half_quantile_def by (subst ends(1) [symmetric], rule round_double_mono) simp
  show "d_le half_quantile p95_quantile" "d_le p95_quantile p99_quantile"
    unfolding half_quantile_def p95_quantile_def p99_quantile_def by (rule round_double_mono; simp)+
  show "d_le p99_quantile (Number 1)"
    unfolding p99_quantile_def by (subst ends(2) [symmetric], rule round_double_mono) simp
qed

section \<open>The property\<close>

definition record_latencies :: "string \<Rightarrow> u64 list \<Rightarrow> latency_stats \<Rightarrow> latency_stats" where
  "record_latencies name xs st = fold (\<lambda>x st. snd (record_latency name x st)) xs st"

lemma record_latencies_series:
  assumes "name \<noteq> []" and "map_of (ls_series st) name = None" and "xs \<noteq> []"
  shows "map_of (ls_series (record_latencies name xs st)) name = Some (add_samples (ls_maximum_samples st) xs) \<and>
    ls_maximum_samples (record_latencies name xs st) = ls_maximum_samples st"
  using assms(3)
proof (induction xs rule: rev_induct)
  case (snoc x xs)
  show ?case
  proof (cases "xs = []")
    case True
    then show ?thesis using assms(1,2)
      by (simp add: record_latencies_def record_latency_def series_at_def add_samples_def)
  next
    case False
    then show ?thesis using snoc.IH assms(1)
      by (simp add: record_latencies_def record_latency_def series_at_def add_samples_snoc)
  qed
qed simp

lemma add_samples_figures:
  assumes "xs \<noteq> []" and "length xs < 2 ^ 64"
  shows "sr_count (add_samples n xs) = of_nat (length xs) \<and> sr_total_ns (add_samples n xs) = sum_list xs \<and>
    sr_minimum_ns (add_samples n xs) = Min (set xs) \<and> sr_maximum_ns (add_samples n xs) = Max (set xs)"
  using assms
proof (induction xs rule: rev_induct)
  case (snoc x xs)
  show ?case
  proof (cases "xs = []")
    case True
    then show ?thesis by (simp add: add_samples_def empty_series_def add_sample_simps)
  next
    case False
    have "of_nat (length xs) + 1 \<noteq> (1 :: u64)"
      using False snoc.prems(2) by (simp add: word_of_nat_eq_0_iff nat_dvd_not_less)
    moreover have "Min (set (xs @ [x])) = min x (Min (set xs))" "Max (set (xs @ [x])) = max x (Max (set xs))"
      using False by simp_all
    moreover have "sr_minimum_ns (add_samples n xs) = Min (set xs)" "sr_maximum_ns (add_samples n xs) = Max (set xs)"
      "sr_count (add_samples n xs) = of_nat (length xs)" "sr_total_ns (add_samples n xs) = sum_list xs"
      using snoc.IH False snoc.prems(2) by simp_all
    moreover have "(if x < m then x else m) = min x m" for m by (auto simp: min_def)
    ultimately show ?thesis
      unfolding add_samples_snoc add_sample_simps by (simp only: max.commute) simp
  qed
qed simp



end
