(* ===== verification/Router_Market_Data.thy ===== *)
theory Router_Market_Data
  imports Router Market_Data_Correct
begin

text \<open>
  The quotes of the router from the level-2 books (include/minimatch/router\_market\_data.hpp,
  src/router\_market\_data.cpp), and the route on them. \<open>find\_book\<close> throws for an empty name: the left
  side of a sum.
\<close>

definition venue_levels :: "market_data_level list \<Rightarrow> venue_level list" where
  "venue_levels ls = map (\<lambda>l. \<lparr>vl_price = ml_price l, vl_quantity = ml_quantity l\<rparr>) ls"

definition book_quote :: "string \<Rightarrow> double \<Rightarrow> double \<Rightarrow> double \<Rightarrow> level2_book \<Rightarrow> venue_quote" where
  "book_quote venue fee latency latency_cost b =
     \<lparr>vq_venue = venue, vq_bids = venue_levels (bids 50 b), vq_asks = venue_levels (asks 50 b),
      vq_taker_fee_bps = fee, vq_latency_ms = latency, vq_latency_cost_bps_per_ms = latency_cost,
      vq_healthy = True\<rparr>"

text \<open>The loop over the venues of the symbol.\<close>

fun quote_venues ::
  "consolidated \<Rightarrow> string \<Rightarrow> double \<Rightarrow> double \<Rightarrow> double \<Rightarrow> string list \<Rightarrow> string + venue_quote list"
where
  "quote_venues market symbol fee latency latency_cost [] = Inr []"
| "quote_venues market symbol fee latency latency_cost (venue # venues) =
     (case find_venue_book venue symbol market of
        Inl e \<Rightarrow> Inl e
      | Inr book \<Rightarrow>
          (case quote_venues market symbol fee latency latency_cost venues of
             Inl e \<Rightarrow> Inl e
           | Inr qs \<Rightarrow>
               (case book of
                  None \<Rightarrow> Inr qs
                | Some b \<Rightarrow>
                    if \<not> lb_synchronized b then Inr qs
                    else Inr (book_quote venue fee latency latency_cost b # qs))))"

definition market_data_to_quotes ::
  "consolidated \<Rightarrow> string \<Rightarrow> double \<Rightarrow> double \<Rightarrow> double \<Rightarrow> string + venue_quote list"
where
  "market_data_to_quotes market symbol fee latency latency_cost =
     quote_venues market symbol fee latency latency_cost (venues_for_symbol symbol market)"

definition build_market_route ::
  "route_request \<Rightarrow> consolidated \<Rightarrow> string \<Rightarrow> double \<Rightarrow> double \<Rightarrow> double \<Rightarrow> string + route_plan"
where
  "build_market_route request market symbol fee latency latency_cost =
     (case market_data_to_quotes market symbol fee latency latency_cost of
        Inl e \<Rightarrow> Inl e
      | Inr qs \<Rightarrow> build_route_plan request qs)"

section \<open>The property\<close>

lemma quote_venues_from:
  "quote_venues market symbol fee latency cost venues = Inr qs \<Longrightarrow> quote \<in> set qs \<Longrightarrow>
   \<exists>b. find_venue_book (vq_venue quote) symbol market = Inr (Some b) \<and> lb_synchronized b \<and>
     quote = book_quote (vq_venue quote) fee latency cost b"
proof (induction venues arbitrary: qs)
  case (Cons v vs)
  then show ?case
    by (auto simp: book_quote_def split: sum.splits option.splits if_splits)
qed simp

lemma plan_leg_from:
  assumes "build_route_plan request qs = Inr plan" and "proper (rt_quantity request)" and "leg \<in> set (pn_legs plan)"
  shows "\<exists>c \<in> set (candidates (rt_side request) qs). leg = leg_of c (lg_quantity leg) \<and>
    d_less (Number 0) (lg_quantity leg) \<and> d_le (lg_quantity leg) (cl_quantity c) \<and> \<not> violates_limit request c"
proof -
  define cs where "cs = sort_by (candidate_before (rt_side request)) (candidates (rt_side request) qs)"
  have "set (insert_by lt x xs) = insert x (set xs)" for lt and x :: candidate_level and xs
    by (induction xs) auto
  then have "set (sort_by lt xs) = set xs" for lt and xs :: "candidate_level list"
    by (induction xs) (simp_all add: sort_by_def)
  then have cs: "set cs = set (candidates (rt_side request) qs)" by (simp add: cs_def)
  have ok: "is_finite (rt_quantity request)" "0 < rt_max_venue_count request"
    using assms(1) by (auto simp: build_route_plan_def route_checks_def split: if_splits)
  show ?thesis
  proof (cases cs)
    case Nil
    then have "pn_legs plan = []"
      using assms(1) by (auto simp: build_route_plan_def cs_def [symmetric] split: option.splits)
    then show ?thesis using assms(3) by simp
  next
    case (Cons first rest)
    obtain r u legs where take: "take_legs request (cl_effective_price first) cs (rt_quantity request) {} = (r, u, legs)"
      by (metis prod.exhaust)
    have "pn_legs plan = [] \<or> pn_legs plan = legs"
      using assms(1) take Cons by (auto simp: build_route_plan_def cs_def [symmetric] take_candidates_legs
          finish_plan_def Let_def with_legs_def split: option.splits if_splits)
    then have leg: "leg \<in> set legs" using assms(3) by auto
    have "\<forall>c \<in> set cs. good_candidate c" using cs candidates_good by auto
    from take_legs_sound [OF take ok(1) assms(2) this] leg show ?thesis
      unfolding cs by auto
  qed
qed

text \<open>C21: A route on the market data trades only what a synchronized book shows: every leg is at a venue
  that has a synchronized book of the symbol, at the price of one of its first 50 levels on the
  side the order takes, for a positive quantity of at most the quantity of that level, and not
  beyond the limit price. A book that waits for a snapshot contributes nothing.\<close>

theorem route_on_synchronized_books:
  assumes "build_market_route request market symbol fee latency latency_cost = Inr plan"
    and "proper (rt_quantity request)" and "leg \<in> set (pn_legs plan)"
  shows "\<exists>b level. find_venue_book (lg_venue leg) symbol market = Inr (Some b) \<and> lb_synchronized b \<and>
    level \<in> set (if rt_side request = Oms.Buy then asks 50 b else bids 50 b) \<and>
    lg_price leg = ml_price level \<and> d_less (Number 0) (lg_quantity leg) \<and> d_le (lg_quantity leg) (ml_quantity level) \<and>
    \<not> (d_less (Number 0) (rt_limit_price request) \<and>
       (if rt_side request = Oms.Buy then d_less (rt_limit_price request) (lg_price leg)
        else d_less (lg_price leg) (rt_limit_price request)))"
proof -
  obtain qs where qs: "quote_venues market symbol fee latency latency_cost (venues_for_symbol symbol market) = Inr qs"
    "build_route_plan request qs = Inr plan"
    using assms(1) by (auto simp: build_market_route_def market_data_to_quotes_def split: sum.splits)
  obtain c where c: "c \<in> set (candidates (rt_side request) qs)" "leg = leg_of c (lg_quantity leg)"
    "d_less (Number 0) (lg_quantity leg)" "d_le (lg_quantity leg) (cl_quantity c)" "\<not> violates_limit request c"
    using plan_leg_from [OF qs(2) assms(2,3)] by blast
  obtain quote i where q: "quote \<in> set qs" "i < length (side_levels (rt_side request) quote)"
    "c = candidate (rt_side request) quote (i, side_levels (rt_side request) quote ! i)"
    using c(1) unfolding in_candidates by blast
  obtain b where b: "find_venue_book (vq_venue quote) symbol market = Inr (Some b)" "lb_synchronized b"
    "quote = book_quote (vq_venue quote) fee latency latency_cost b"
    using quote_venues_from [OF qs(1) q(1)] by blast
  define ls where "ls = (if rt_side request = Oms.Buy then asks 50 b else bids 50 b)"
  have "side_levels (rt_side request) quote = venue_levels ls"
    by (subst b(3)) (simp add: side_levels_def book_quote_def ls_def)
  then have i: "i < length ls" "c = candidate (rt_side request) quote (i, \<lparr>vl_price = ml_price (ls ! i), vl_quantity = ml_quantity (ls ! i)\<rparr>)"
    using q(2,3) by (simp_all add: venue_levels_def)
  have leg: "lg_venue leg = vq_venue quote" "lg_price leg = ml_price (ls ! i)" "cl_price c = lg_price leg"
    by (subst c(2), simp add: leg_of_def i(2) candidate_def)+
  have "cl_quantity c = ml_quantity (ls ! i)" by (simp add: i(2) candidate_def)
  moreover have "ls ! i \<in> set (if rt_side request = Oms.Buy then asks 50 b else bids 50 b)"
    using nth_mem [OF i(1)] by (simp add: ls_def)
  ultimately show ?thesis
    using b(1,2) leg c(3-5) unfolding violates_limit_def
    by (intro exI [of _ b] exI [of _ "ls ! i"]) (simp split: if_splits)
qed

definition sample_market :: consolidated where
  "sample_market = [(''kraken'' @ [CHR 0x0A] @ ''btcusd'', book_calls [CallSnapshot sample_snapshot]),
     (''late'' @ [CHR 0x0A] @ ''btcusd'', empty_level2_book)]"

lemma sample_market_quotes:
  "market_data_to_quotes sample_market ''btcusd'' (Number 0) (Number 0) (Number 0) =
     Inr [book_quote ''kraken'' (Number 0) (Number 0) (Number 0) (book_calls [CallSnapshot sample_snapshot])]"
  by (simp add: market_data_to_quotes_def venues_for_symbol_def sample_market_def sample_book split_key_def
      map_filter_def find_venue_book_def book_key_def validate_identity_def empty_level2_book_def)

lemma sample_market_route:
  "\<exists>plan leg. build_market_route sample_route sample_market ''btcusd'' (Number 0) (Number 0) (Number 0) = Inr plan \<and>
     leg \<in> set (pn_legs plan)"
proof -
  obtain e where e: "tiny = Number e" "0 < e" "e \<le> 1 / 2" using tiny_value unfolding tiny_def by blast
  define quote where "quote = book_quote ''kraken'' (Number 0) (Number 0) (Number 0) (book_calls [CallSnapshot sample_snapshot])"
  define c where "c = candidate Oms.Buy quote (0, \<lparr>vl_price = Number 110, vl_quantity = Number 1\<rparr>)"
  have "side_levels Oms.Buy quote = [\<lparr>vl_price = Number 110, vl_quantity = Number 1\<rparr>]" "vq_healthy quote"
    by (simp_all add: side_levels_def quote_def book_quote_def venue_levels_def asks_def copy_depth_def sample_book)
  then have cs: "candidates Oms.Buy [quote] = [c]"
    by (simp add: candidates_def valid_level_def c_def)
  have c: "cl_effective_price c = Number 110" "cl_quantity c = Number 1" "cl_price c = Number 110"
    by (simp_all add: c_def candidate_def quote_def book_quote_def calculate_effective_price_def d_mul_def d_div_def
        round_double_0 Let_def)
  have request: "rt_side sample_route = Oms.Buy" "rt_quantity sample_route = Number 8" "rt_limit_price sample_route = Number 0"
    "rt_max_slippage_bps sample_route = Number 10000" "rt_max_venue_count sample_route = 2" "\<not> rt_all_or_none sample_route"
    by (simp_all add: sample_route_def)
  have ok: "\<not> violates_limit sample_route c" "\<not> violates_slippage sample_route (Number 110) c"
    by (simp_all add: violates_limit_def violates_slippage_def request c d_div_def d_mul_def Let_def)
  have "\<exists>r u. take_legs sample_route (Number 110) [c] (Number 8) {} = (r, u, [leg_of c (Number 1)])"
    using ok e(2,3) by (simp add: e(1) c request d_min_def Let_def d_le_def)
  moreover have "route_checks sample_route = None" by (simp add: route_checks_def request d_le_def)
  ultimately obtain plan where "build_route_plan sample_route [quote] = Inr plan" "pn_legs plan = [leg_of c (Number 1)]"
    by (auto simp: build_route_plan_def request cs sort_by_def c take_candidates_legs finish_plan_def with_legs_def Let_def)
  then show ?thesis by (simp add: build_market_route_def sample_market_quotes quote_def)
qed

lemma route_on_synchronized_books_witness:
  "\<exists>plan leg b. build_market_route sample_route sample_market ''btcusd'' (Number 0) (Number 0) (Number 0) = Inr plan \<and>
     leg \<in> set (pn_legs plan) \<and> find_venue_book (lg_venue leg) ''btcusd'' sample_market = Inr (Some b) \<and> lb_synchronized b"
proof -
  have "proper (rt_quantity sample_route)" by (simp add: sample_route_def)
  with sample_market_route route_on_synchronized_books [OF _ this] show ?thesis by blast
qed

end
