(* ===== verification/Itch.thy ===== *)
theory Itch
  imports Double_Error
begin

text \<open>
  The fields of the ITCH messages (include/minimatch/itch.hpp): prices with four decimals in 32 bits and
  symbols of eight characters, filled with blanks. The conversion of a price that does not fit its
  type is undefined: None.
\<close>

record itch_message_header =
  ih_stock_locate :: u16
  ih_tracking_number :: u16
  ih_timestamp_ns :: u64

datatype itch_message_type = AddOrder

record itch_add_order =
  ia_message_type :: itch_message_type
  ia_header :: itch_message_header
  ia_order_reference_number :: u64
  ia_side :: char
  ia_shares :: u32
  ia_stock :: string
  ia_price :: u32

definition is_valid_itch_price :: "double \<Rightarrow> bool" where
  "is_valid_itch_price price \<longleftrightarrow> d_le (Number 0) price"

definition encode_itch_price :: "double \<Rightarrow> u32 option" where
  "encode_itch_price price =
     (let x = d_add (d_mul price (Number 10000)) (Number (1 / 2)) in
      if is_finite x \<and> - 1 < value_of x \<and> value_of x < 2 ^ 32 then Some (word_of_int \<lfloor>value_of x\<rfloor>) else None)"

definition decode_itch_price :: "u32 \<Rightarrow> double" where
  "decode_itch_price price = d_div (d_of_int (uint price)) (Number 10000)"

definition is_valid_itch_side :: "char \<Rightarrow> bool" where
  "is_valid_itch_side side \<longleftrightarrow> side = CHR ''B'' \<or> side = CHR ''S''"

definition write_itch_stock :: "string \<Rightarrow> string" where
  "write_itch_stock symbol = take 8 symbol @ replicate (8 - length symbol) CHR '' ''"

definition read_itch_stock :: "string \<Rightarrow> string" where
  "read_itch_stock stock = rev (dropWhile (\<lambda>c. c = CHR '' '') (rev stock))"

lemma stock_roundtrip:
  assumes "length symbol \<le> 8" and "symbol = [] \<or> last symbol \<noteq> CHR '' ''"
  shows "read_itch_stock (write_itch_stock symbol) = symbol"
proof -
  have "dropWhile (\<lambda>c. c = CHR '' '') (replicate n (CHR '' '') @ xs) = dropWhile (\<lambda>c. c = CHR '' '') xs" for n xs
    by (induction n) simp_all
  moreover have "dropWhile (\<lambda>c. c = CHR '' '') (rev symbol) = rev symbol"
    using assms(2) by (cases symbol rule: rev_cases) simp_all
  ultimately show ?thesis using assms(1) by (simp add: read_itch_stock_def write_itch_stock_def)
qed

text \<open>The three roundings move a price by less than a half.\<close>

lemma price_roundtrip:
  fixes p :: int
  assumes "0 < p" and "p < 2 ^ 32"
  shows "\<exists>x. d_add (d_mul (d_div (Number (of_int p)) (Number 10000)) (Number 10000)) (Number (1 / 2)) = Number x \<and>
    of_int p \<le> x \<and> x < of_int p + 1"
proof -
  define P :: rat where "P = of_int p"
  have "(of_int 1 :: rat) \<le> of_int p" "(of_int p :: rat) < of_int (2 ^ 32)"
    using assms by (simp_all only: of_int_le_iff of_int_less_iff)
  then have P: "1 \<le> P" "P < 2 ^ 32" by (simp_all add: P_def)
  define e where "e = unit_roundoff"
  have e: "0 < e" "e * 2 ^ 50 \<le> 1" by (simp_all add: e_def unit_roundoff_def power_int_minus)
  have range: "normal_range (x :: rat)" if "1 / 2 ^ 20 \<le> x" for x
    by (rule normal_mono [OF _ that]) (simp add: normal_range_def power_int_minus)
  have q0: "1 / 2 ^ 20 \<le> P / 10000" "P / 10000 \<le> 2 ^ 1000" using P by simp_all
  obtain q where q: "round_double False (P / 10000) = Number q" "\<bar>q - P / 10000\<bar> \<le> P / 10000 * e"
    using round_normal [OF range [OF q0(1)] q0(2)] unfolding e_def by metis
  have Pe: "P * e \<le> 1 / 2 ^ 18"
  proof -
    have "P * e \<le> 2 ^ 32 * e" using P e by (intro mult_right_mono) simp_all
    then show ?thesis using e(2) by simp
  qed
  note q' = abs_le_D1 [OF q(2)] abs_le_D2 [OF q(2)]
  have low: "1 / 2 ^ 20 \<le> q * 10000" using q' Pe P(1) by simp
  have "q * 10000 \<le> 2 * P" using q' Pe P(1) by simp
  moreover from this have "q * 10000 \<le> 2 ^ 1000" using P(2) by simp
  ultimately obtain r where r: "round_double False (q * 10000) = Number r" "\<bar>r - q * 10000\<bar> \<le> q * 10000 * e" "q * 10000 \<le> 2 * P"
    using round_normal [OF range [OF low]] unfolding e_def by metis
  have re: "q * 10000 * e \<le> 2 * P * e" using r(3) e(1) by (intro mult_right_mono) simp_all
  have "r - P \<le> 3 * (P * e)" using abs_le_D1 [OF r(2)] q'(1) re by linarith
  moreover have "P - r \<le> 3 * (P * e)" using abs_le_D2 [OF r(2)] q'(2) re by linarith
  ultimately have r': "r - P \<le> 3 * (P * e)" "P - r \<le> 3 * (P * e)" .
  have low_r: "1 / 2 ^ 20 \<le> r + 1 / 2" using r' Pe P(1) by simp
  have "r + 1 / 2 \<le> 2 * P" using r' Pe P(1) by simp
  moreover from this have "r + 1 / 2 \<le> 2 ^ 1000" using P(2) by simp
  ultimately obtain s where s: "round_double False (r + 1 / 2) = Number s" "\<bar>s - (r + 1 / 2)\<bar> \<le> (r + 1 / 2) * e" "r + 1 / 2 \<le> 2 * P"
    using round_normal [OF range [OF low_r]] unfolding e_def by metis
  have se: "(r + 1 / 2) * e \<le> 2 * P * e" using s(3) e(1) by (intro mult_right_mono) simp_all
  have "s - (P + 1 / 2) \<le> 5 * (P * e)" using abs_le_D1 [OF s(2)] r'(1) se by linarith
  moreover have "P + 1 / 2 - s \<le> 5 * (P * e)" using abs_le_D2 [OF s(2)] r'(2) se by linarith
  ultimately have "P \<le> s" "s < P + 1" using Pe by simp_all
  moreover have "0 < q" "0 < r" using low r' Pe P(1) by simp_all
  moreover have "\<not> P < 0" using P(1) by simp
  ultimately show ?thesis using q(1) r(1) s(1) by (simp add: d_div_def d_mul_def Let_def P_def [symmetric])
qed

text \<open>Every price of 32 bits survives the conversion to a double and back, although a price with four
  decimals has no exact double, and so does every symbol of at most eight characters that does not
  end in a blank.\<close>

theorem itch_roundtrip:
  assumes "length symbol \<le> 8" and "symbol = [] \<or> last symbol \<noteq> CHR '' ''"
  shows "encode_itch_price (decode_itch_price price) = Some price \<and> is_valid_itch_price (decode_itch_price price) \<and>
    read_itch_stock (write_itch_stock symbol) = symbol \<and> length (write_itch_stock symbol) = 8"
proof -
  have p: "0 \<le> uint price" "uint price < 2 ^ 32" using uint_lt2p [of price] by simp_all
  then have exact: "d_of_int (uint price) = Number (of_int (uint price))" by (intro d_of_int_exact) simp
  have "encode_itch_price (decode_itch_price price) = Some price \<and> is_valid_itch_price (decode_itch_price price)"
  proof (cases "price = 0")
    case True
    have "decode_itch_price price = Number 0"
      by (simp add: True decode_itch_price_def d_of_int_def d_div_def round_double_0)
    moreover have "\<lfloor>1 / 2 :: rat\<rfloor> = 0" by (rule floor_unique) simp_all
    ultimately show ?thesis
      by (simp add: True encode_itch_price_def is_valid_itch_price_def d_mul_def round_double_0 round_half Let_def d_le_def)
  next
    case False
    then have pos: "0 < uint price" using p(1) by (simp add: uint_0_iff order_less_le)
    obtain x where x: "d_add (d_mul (decode_itch_price price) (Number 10000)) (Number (1 / 2)) = Number x"
      "of_int (uint price) \<le> x" "x < of_int (uint price) + 1"
      using price_roundtrip [OF pos p(2)] unfolding decode_itch_price_def exact by blast
    have "x < 2 ^ 32"
    proof -
      have "(of_int (uint price + 1) :: rat) \<le> of_int (2 ^ 32)" using p(2) by (subst of_int_le_iff) simp
      then show ?thesis using x(3) by simp
    qed
    moreover have "\<lfloor>x\<rfloor> = uint price" using x(2,3) by (simp add: floor_unique)
    moreover have "- 1 < x"
    proof -
      have "(of_int 0 :: rat) \<le> of_int (uint price)" using p(1) by (simp only: of_int_le_iff)
      then show ?thesis using x(2) by linarith
    qed
    moreover have "nonneg (decode_itch_price price)"
    proof -
      have "(of_int 0 :: rat) \<le> of_int (uint price)" using p(1) by (simp only: of_int_le_iff)
      then show ?thesis unfolding decode_itch_price_def exact by (intro quotient_nonneg) (simp_all add: d_le_def)
    qed
    ultimately show ?thesis
      unfolding encode_itch_price_def x(1) Let_def by (simp add: is_valid_itch_price_def)
  qed
  then show ?thesis using stock_roundtrip [OF assms] assms(1) by (simp add: write_itch_stock_def)
qed

lemma itch_roundtrip_witness:
  "encode_itch_price (decode_itch_price 1234567) = Some 1234567 \<and> read_itch_stock (write_itch_stock ''AAPL'') = ''AAPL''"
  using itch_roundtrip [of "''AAPL''" 1234567] by simp

end
