(* ===== verification/Spec2Isabelle.thy ===== *)
theory Spec2Isabelle
  imports Server Fix_Session Replay_Control Pipeline Risk Oms_Correct Reconciliation Market_Data_Correct
    Execution_Risk Algo_Scheduler_Correct Venue_Health Latency_Stats
    Router_Market_Data Itch
begin

text \<open>
  A model of MiniMatch(a), an electronic trading laboratory in C++20.

  \<^bold>\<open>The program.\<close> An order book per symbol matches orders by price and time (src/order\_book.cpp); the
  exchange owns the books, halts and price bands and saves snapshots (src/exchange.cpp); a binary
  protocol (include/minimatch/protocol.hpp) carries requests to a server (apps/server.cpp), which
  writes each one to an event log (src/event\_log.cpp) before it applies it; a replay tool
  (apps/replay.cpp) runs a log through a new exchange. A pipeline (src/pipeline.cpp) puts a
  lock-free ring (include/minimatch/spsc\_ring.hpp) and the risk engine (src/risk.cpp) in front of
  an exchange. FIX messages are parsed and built by src/fix.cpp and sequenced by the sessions of
  src/fix\_session.cpp. The replay of recorded market data is steered by src/replay\_control.cpp.

  Beside the exchange the service (apps/api.cpp) executes large orders on outside venues. The order
  management system (src/oms.cpp) keeps parent orders, the children they are split into and the
  reports of their fills, and calls back on every change: the callback saves the change in SQLite
  (src/oms\_store.cpp), appends to the drop-copy log (src/drop\_copy.cpp), updates the positions
  (src/position\_manager.cpp) and halts the exchange when the portfolio breaches a limit
  (src/portfolio\_risk.cpp). The router (src/router.cpp) chooses venues, on books of levels
  (src/market\_data.cpp); the costs are analysed by src/tca.cpp and src/execution\_analytics.cpp, and
  the records are reconciled with each other (src/reconciliation.cpp). An order is checked against
  limits (src/execution\_risk.cpp); an algorithm cuts it into slices (src/execution\_algo.cpp), which
  the thread of a job (src/algo\_scheduler.cpp) routes and executes one after the other
  (src/execution\_engine.cpp).

  \<^bold>\<open>Which theory models what.\<close>

  \<^item> \<open>Market_Types\<close>: include/minimatch/types.hpp. \<open>Order_Book\<close>: every operation of the class
    OrderBook on its node vector, links, free list, id map and price levels, one definition for each
    function; an index out of range or a broken link is the result None. The callbacks are the list
    of the calls made. \<open>Book_Links\<close>, \<open>Book_Rep\<close>, \<open>Book_Effects\<close>: what a well-formed book is
    and what each change of a queue does to it. \<open>Book_Spec\<close>: the abstract book of two lists of queues.
    \<open>Book_Refine\<close>: the code implements it. \<open>Book_Correct\<close>: the properties of the book.
  \<^item> \<open>Double\<close>: the IEEE binary64 arithmetic the program uses, rounded to nearest even on rationals;
    \<open>Double_Arith\<close>: its order and the bounds of sums; \<open>Double_Error\<close>: the rounding error, exact
    differences and the evaluation of a rounding by a certificate. \<open>Hash_Map\<close>: maps and sets with the laws the
    components use. \<open>Bytes\<close>: little-endian words and the memory of the structs that are written as
    they are, padding included. \<open>Protocol\<close>: src/protocol.cpp. \<open>Event_Log\<close>: reader, writer and file.
  \<^item> \<open>Exchange\<close> has the operations of src/exchange.cpp and \<open>Exchange_Correct\<close> the properties; its
    locale \<open>book_operation\<close> is what the exchange relies on when it passes a request to a book,
    interpreted on submit, cancel and replace. \<open>Server\<close>: the session loop and the replay tool.
  \<^item> \<open>Ring\<close>: the ring, as whole calls and as the single memory accesses of its two threads; the
    locale \<open>bounded_fifo\<close> is the queue it provides. \<open>Pipeline\<close>: the worker loop on that queue.
    \<open>Risk\<close>: the checks before an order and the accounts they read.
  \<^item> \<open>Text\<close>, \<open>Fix\<close>, \<open>Fix_Session\<close>: the strings, the codec and the session of FIX.
    \<open>Replay_Control\<close>: the controller, every method one step under its mutex.
  \<^item> \<open>Oms\<close>: every operation of the order management system, one definition for each function, the
    callback as the list of its calls. \<open>Oms_Inv\<close>, \<open>Oms_Calls\<close>: its invariant and what each call does.
    \<open>Oms_Correct\<close>: its properties. \<open>Sqlite\<close>, \<open>Oms_Store\<close>: the statements of the store, its loader and
    the callback; \<open>Oms_Recovery\<close>: what a restart restores.
  \<^item> \<open>Positions\<close>: the position manager and the recomputation from fills. \<open>Portfolio_Risk\<close>: exposures
    and limits. \<open>Positions_Recovery\<close>: positions across a restart. \<open>Drop_Copy\<close>: the log and its
    cache. \<open>Router\<close>, \<open>Tca\<close>: the route plan and the cost report. \<open>Reconciliation\<close>: what the service
    compares.
  \<^item> \<open>Market_Data\<close>: the books of levels with gap detection, buffering and recovery, and the
    consolidated quote; \<open>Market_Data_Inv\<close>, \<open>Market_Data_Correct\<close>: its invariant and properties. The
    locale \<open>ordered_keys\<close> is what a sorted map relies on, interpreted on prices, sequence numbers and
    venue names.
  \<^item> \<open>Execution_Risk\<close>: limits and check of an order. \<open>Execution_Algo\<close>: the schedules.
    \<open>Execution_Engine\<close>: the simulated execution of a plan. \<open>Algo_Scheduler\<close>: submission, the loop of a
    job, its end and its failure, cancellation and recovery; \<open>Algo_Scheduler_Correct\<close>: what a job does
    is a bounded sequence of calls on the order management system, and what follows from that.
  \<^item> \<open>Venue_Health\<close>: the status of the venues (src/venue\_health.cpp). \<open>Latency_Stats\<close>: the series of
    latencies with their rings and percentiles (src/latency\_stats.cpp). \<open>Router_Market_Data\<close>: the
    route on the books of the venues (src/router\_market\_data.cpp). \<open>Itch\<close>: the codec of
    include/minimatch/itch.hpp.

  \<^bold>\<open>What is shown.\<close> Every reachable book is well-formed, its operations return, refine the abstract
  book and keep it uncrossed; matching conserves quantity and follows price and time; a snapshot
  restores the book and its hash. An exchange does to one book what that book says and to no other;
  a replayed log rebuilds the server's exchange; no bytes of a client bring a session down. The log
  detects one changed byte of a payload. The ring is a queue under every interleaving of the memory
  accesses, and the pipeline an exchange fed one command at a time. A FIX message parses back, a
  session accepts only in sequence. In the order management system filled quantities are the sums of
  the reports and ended orders stay ended; a restart restores orders and positions exactly, and the
  live positions are the recomputed ones. A snapshot closes a gap in the market data as if nothing
  had been lost. The router is greedy within its
  limits and, on the market data, trades only what a synchronized book shows. A schedule adds up to the order, a job
  ends and leaves no open child of its parent, and its quantities are those of the reports. The theorems and lemmas named after a limit
  state what the code does not do: they are recorded as findings of the manifest.

  \<^bold>\<open>Bounds.\<close> Machine integers have their width (\<open>u8\<close> to \<open>u64\<close> wrap around); prices are unbounded
  integers with the hypothesis \<open>fits_i64\<close> where the width matters. The loops of the book run on
  fuel, the size of the node vector, which the refinement shows to be enough. A signed overflow is
  the result None of the risk engine. Runs of the order management system have fewer than \<open>2^64\<close>
  calls, those of its store fewer than \<open>2^63\<close>, so that no id repeats; a gap is recovered when at most
  4,096 updates follow it, the size of the buffer. SQLite, the live quotes, the time and
  the random draws of a simulation are parameters; \<open>behaves\<close> and \<open>log_behaves\<close> say what is relied on of the database.

  \<^bold>\<open>Not modelled.\<close> Sockets, threads beyond the interleavings above, printing, argument parsing and
  clocks (inputs of the model); the schema and the opening of SQLite files; the parsers of the
  venues' feeds; the gateway from FIX to the order
  management system, which parses and prints decimal numbers; the stores of jobs, executions and
  settings beside that of the orders; the recorder, the backtests and the research code.
\<close>

end
